(* ===== verification/Prelude.thy ===== *)
theory Prelude
  imports Main "HOL-Library.AList" "HOL-Library.Signed_Division" "HOL-Library.Multiset"
begin

text \<open>
  What every theory of the development shares: Go's truncating integer division, Go maps as
  association lists with distinct keys, in-place updates of integer slices and their sums,
  the nearest-rank percentile index the reports use, and binary search (\<open>sort.Search\<close>).
\<close>

named_theorems go_simps \<open>rewrite rules for the models of Go's built-in types\<close>
named_theorems inv_intros \<open>introduction rules: every operation keeps its component's invariant\<close>

section \<open>Integers, durations\<close>

text \<open>
  Go's \<open>int\<close> and \<open>int64\<close> are \<open>int\<close> here; \<open>/\<close> truncates towards zero, which is \<open>sdiv\<close>.
  A \<open>time.Time\<close> is its nanoseconds since the epoch and a \<open>time.Duration\<close> its nanoseconds.
\<close>

type_synonym gotime = int
type_synonym duration = int

definition nsSecond :: int where "nsSecond = 1000000000"
definition nsMilli :: int where "nsMilli = 1000000"

definition Milliseconds :: "duration \<Rightarrow> int" where
  "Milliseconds d = d sdiv nsMilli"

lemma sdiv_nonneg [go_simps]: "0 \<le> a \<Longrightarrow> 0 \<le> b \<Longrightarrow> a sdiv b = a div (b :: int)"
  by (auto simp: signed_divide_int_def sgn_if)

lemma sdiv_ge_0 [intro]: "0 \<le> a \<Longrightarrow> 0 \<le> b \<Longrightarrow> 0 \<le> a sdiv (b :: int)"
  by (simp add: sdiv_nonneg pos_imp_zdiv_nonneg_iff div_int_pos_iff)

lemma zdiv_less: "0 < b \<Longrightarrow> a < c * b \<Longrightarrow> a div b < (c :: int)"
proof -
  assume b: "0 < b" and a: "a < c * b"
  have "a div b * b \<le> a" using b pos_mod_sign [OF b, of a] div_mult_mod_eq [of a b] by linarith
  with a have "a div b * b < c * b" by linarith
  with b show ?thesis by simp
qed

section \<open>Go maps\<close>

text \<open>
  A Go map is an association list with distinct keys (\<open>mapOk\<close>): reading a missing key gives
  the zero value, writing replaces or appends, \<open>delete\<close> removes.
\<close>

type_synonym ('k, 'v) gomap = "('k \<times> 'v) list"

definition mget :: "'v \<Rightarrow> ('k, 'v) gomap \<Rightarrow> 'k \<Rightarrow> 'v" where
  "mget z m k = (case map_of m k of None \<Rightarrow> z | Some v \<Rightarrow> v)"

abbreviation mput :: "'k \<Rightarrow> 'v \<Rightarrow> ('k, 'v) gomap \<Rightarrow> ('k, 'v) gomap" where
  "mput k v m \<equiv> AList.update k v m"

abbreviation mdel :: "'k \<Rightarrow> ('k, 'v) gomap \<Rightarrow> ('k, 'v) gomap" where
  "mdel k m \<equiv> AList.delete k m"

definition mhas :: "('k, 'v) gomap \<Rightarrow> 'k \<Rightarrow> bool" where
  "mhas m k \<longleftrightarrow> k \<in> set (map fst m)"

definition mapOk :: "('k, 'v) gomap \<Rightarrow> bool" where
  "mapOk m \<longleftrightarrow> distinct (map fst m)"

definition madd :: "'k \<Rightarrow> int \<Rightarrow> ('k, int) gomap \<Rightarrow> ('k, int) gomap" where
  "madd k n m = mput k (mget 0 m k + n) m"

definition msum :: "('k, int) gomap \<Rightarrow> int" where
  "msum m = sum_list (map snd m)"

lemma mapOk_Nil [simp]: "mapOk []"
  by (simp add: mapOk_def)

lemma mapOk_mput [simp, inv_intros]: "mapOk m \<Longrightarrow> mapOk (mput k v m)"
  by (simp add: mapOk_def distinct_update)

lemma mapOk_madd [simp, inv_intros]: "mapOk m \<Longrightarrow> mapOk (madd k n m)"
  by (simp add: madd_def)

lemma mapOk_mdel [simp, inv_intros]: "mapOk m \<Longrightarrow> mapOk (mdel k m)"
  by (simp add: mapOk_def distinct_delete)

lemma mget_Nil [simp]: "mget z [] k = z"
  by (simp add: mget_def)

lemma mget_mput [simp]: "mget z (mput k v m) k' = (if k' = k then v else mget z m k')"
  by (simp add: mget_def update_conv')

lemma mget_madd [simp]: "mget 0 (madd k n m) k' = mget 0 m k' + (if k' = k then n else 0)"
  by (simp add: madd_def)

lemma mget_mdel [simp]: "mget z (mdel k m) k' = (if k' = k then z else mget z m k')"
  by (simp add: mget_def delete_conv')

lemma mhas_Nil [simp]: "\<not> mhas [] k"
  by (simp add: mhas_def)

lemma mhas_mput [simp]: "mhas (mput k v m) k' \<longleftrightarrow> k' = k \<or> mhas m k'"
  by (auto simp: mhas_def dom_update)

lemma mhas_mdel [simp]: "mhas (mdel k m) k' \<longleftrightarrow> k' \<noteq> k \<and> mhas m k'"
  by (auto simp: mhas_def AList.delete_keys)

lemma mget_missing: "\<not> mhas m k \<Longrightarrow> mget z m k = z"
  by (auto simp: mget_def mhas_def split: option.split dest!: map_of_SomeD)
     (metis fst_conv image_eqI)

lemma mhas_map_of: "mhas m k \<longleftrightarrow> map_of m k \<noteq> None"
  by (simp add: mhas_def map_of_eq_None_iff)

lemma msum_Nil [simp]: "msum [] = 0"
  by (simp add: msum_def)

lemma msum_mput: "mapOk m \<Longrightarrow> msum (mput k v m) = msum m - mget 0 m k + v"
proof (induction m)
  case Nil
  then show ?case by (simp add: msum_def)
next
  case (Cons a m)
  obtain k' v' where a: "a = (k', v')" by force
  show ?case
  proof (cases "k' = k")
    case True
    with a show ?thesis by (simp add: msum_def mget_def)
  next
    case False
    from Cons.prems have "mapOk m" by (simp add: mapOk_def)
    with Cons.IH False a show ?thesis by (simp add: msum_def mget_def)
  qed
qed

lemma msum_madd [simp]: "mapOk m \<Longrightarrow> msum (madd k n m) = msum m + n"
  by (simp add: madd_def msum_mput)

lemma msum_conv: "mapOk m \<Longrightarrow> msum m = (\<Sum>k \<in> set (map fst m). mget 0 m k)"
proof (induction m)
  case Nil
  then show ?case by simp
next
  case (Cons a m)
  obtain k v where a: "a = (k, v)" by force
  from Cons.prems a have fresh: "k \<notin> fst ` set m" and ok: "mapOk m"
    by (auto simp: mapOk_def)
  have "(\<Sum>k' \<in> fst ` set m. mget 0 ((k, v) # m) k') = (\<Sum>k' \<in> fst ` set m. mget 0 m k')"
    using fresh by (intro sum.cong) (auto simp: mget_def)
  then show ?case
    using Cons.IH [OF ok] fresh a by (simp add: msum_def) (simp add: mget_def)
qed

text \<open>Grouping the indices of a slice by a key, the idiom \<open>m[k] = append(m[k], i)\<close>.\<close>

lemma group_fold:
  "mget [] (fold (\<lambda>(i, x) m. mput (f x) (mget [] m (f x) @ [i]) m) xs m) k
     = mget [] m k @ map fst (filter (\<lambda>(i, x). f x = k) xs)"
  by (induction xs arbitrary: m) (auto simp: case_prod_beta)

lemma group_fold_keys:
  "mapOk m \<Longrightarrow> mapOk (fold (\<lambda>(i, x) m. mput (f x) (mget [] m (f x) @ [i]) m) xs m)
    \<and> (\<forall>k. mhas (fold (\<lambda>(i, x) m. mput (f x) (mget [] m (f x) @ [i]) m) xs m) k \<longleftrightarrow>
          mhas m k \<or> (\<exists>(i, x) \<in> set xs. f x = k))"
  by (induction xs arbitrary: m) (auto simp: case_prod_beta)

lemma group_index:
  "map fst (filter (\<lambda>(i, x). f x = k) (enumerate 0 xs)) = filter (\<lambda>i. f (xs ! i) = k) [0..<length xs]"
proof -
  have "enumerate 0 xs = map (\<lambda>i. (i, xs ! i)) [0..<length xs]"
    by (rule nth_equalityI) (simp_all add: nth_enumerate_eq)
  then show ?thesis by (simp add: filter_map comp_def)
qed

section \<open>Slices of integers\<close>

lemma sum_list_update_int:
  "i < length xs \<Longrightarrow> sum_list (xs[i := v]) = sum_list xs - xs ! i + (v :: int)"
  by (induction xs arbitrary: i) (auto split: nat.split)

lemma nth_list_update_if: "i < length xs \<Longrightarrow> xs[i := v] ! j = (if i = j then v else xs ! j)"
  by simp

section \<open>Nearest-rank percentiles\<close>

text \<open>The index \<open>(p*(len-1))/100\<close> every report takes its percentiles at.\<close>

definition pctIdx :: "nat \<Rightarrow> nat \<Rightarrow> nat" where
  "pctIdx p n = (p * (n - 1)) div 100"

lemma pctIdx_less: "0 < n \<Longrightarrow> p \<le> 100 \<Longrightarrow> pctIdx p n < n"
proof -
  assume n: "0 < n" and p: "p \<le> 100"
  have "p * (n - 1) div 100 \<le> 100 * (n - 1) div 100"
    using p by (intro div_le_mono mult_le_mono1)
  with n show ?thesis by (simp add: pctIdx_def)
qed

lemma pctIdx_100 [simp]: "pctIdx 100 n = n - 1"
  by (simp add: pctIdx_def)

lemma pctIdx_0 [simp]: "pctIdx 0 n = 0"
  by (simp add: pctIdx_def)

lemma pctIdx_mono: "p \<le> q \<Longrightarrow> pctIdx p n \<le> pctIdx q n"
  by (simp add: pctIdx_def div_le_mono)

section \<open>Binary search: \<open>sort.Search\<close>\<close>

text \<open>
  \<open>sort.Search(n, f)\<close>: the loop of the standard library on \<open>[i, j)\<close>. For a monotone \<open>f\<close> it
  returns the least index at which \<open>f\<close> holds, \<open>n\<close> when there is none.
\<close>

function searchLoop :: "(nat \<Rightarrow> bool) \<Rightarrow> nat \<Rightarrow> nat \<Rightarrow> nat" where
  "searchLoop f i j =
     (if i < j then let h = (i + j) div 2
                    in if \<not> f h then searchLoop f (h + 1) j else searchLoop f i h
      else i)"
  by pat_completeness auto
termination
  by (relation "measure (\<lambda>(f, i, j). j - i)") (auto simp: Let_def)

declare searchLoop.simps [simp del]

definition sortSearch :: "nat \<Rightarrow> (nat \<Rightarrow> bool) \<Rightarrow> nat" where
  "sortSearch n f = searchLoop f 0 n"

definition monoUpto :: "nat \<Rightarrow> (nat \<Rightarrow> bool) \<Rightarrow> bool" where
  "monoUpto n f \<longleftrightarrow> (\<forall>a b. a \<le> b \<longrightarrow> b < n \<longrightarrow> f a \<longrightarrow> f b)"

lemma searchLoop_inv:
  assumes "monoUpto n f" "i \<le> j" "j \<le> n"
    and "\<forall>k < i. \<not> f k" "\<forall>k \<ge> j. k < n \<longrightarrow> f k"
  shows "i \<le> searchLoop f i j \<and> searchLoop f i j \<le> j
    \<and> (\<forall>k < searchLoop f i j. \<not> f k) \<and> (\<forall>k \<ge> searchLoop f i j. k < n \<longrightarrow> f k)"
  using assms
proof (induction f i j rule: searchLoop.induct)
  case (1 f i j)
  show ?case
  proof (cases "i < j")
    case False
    with "1.prems" show ?thesis by (simp add: searchLoop.simps [of f j j])
  next
    case True
    define h where "h = (i + j) div 2"
    have h: "i \<le> h" "h < j" using True by (auto simp: h_def)
    show ?thesis
    proof (cases "f h")
      case True
      have "\<forall>k \<ge> h. k < n \<longrightarrow> f k"
        using "1.prems"(1) True unfolding monoUpto_def by blast
      with "1.IH"(2) [OF \<open>i < j\<close> h_def] True "1.prems" h
      show ?thesis by (simp add: searchLoop.simps [of f i j] \<open>i < j\<close> flip: h_def)
    next
      case False
      have "\<forall>k < h + 1. \<not> f k"
        using "1.prems"(1,3) False h unfolding monoUpto_def
        by (metis less_Suc_eq_le Suc_eq_plus1 order_less_le_trans)
      with "1.IH"(1) [OF \<open>i < j\<close> h_def] False "1.prems" h
      show ?thesis by (auto simp: searchLoop.simps [of f i j] \<open>i < j\<close> simp flip: h_def)
    qed
  qed
qed

lemma sortSearch_le: "monoUpto n f \<Longrightarrow> sortSearch n f \<le> n"
  using searchLoop_inv [of n f 0 n] by (simp add: sortSearch_def)

lemma sortSearch_below: "monoUpto n f \<Longrightarrow> k < sortSearch n f \<Longrightarrow> \<not> f k"
  using searchLoop_inv [of n f 0 n] by (simp add: sortSearch_def)

lemma sortSearch_above: "monoUpto n f \<Longrightarrow> sortSearch n f \<le> k \<Longrightarrow> k < n \<Longrightarrow> f k"
  using searchLoop_inv [of n f 0 n] by (simp add: sortSearch_def)

end
