(* ===== verification/DeadResult.thy ===== *)
theory DeadResult
  imports Prelude
begin

text \<open>
  Dead-result accounting of the simulator (\<open>src/cmd/simnet/deadresult.go\<close>): which nodes are
  offline since when, per-searcher counters of returned and dead results with their age
  histogram and time buckets, the merge into per-topic totals, the percentile of a histogram,
  and the totals behind the report and the metrics snapshot.
\<close>

section \<open>State\<close>

definition deadBucket :: duration where
  "deadBucket = 10 * nsSecond"

record deadLocal =
  dlTopic :: int
  dlReturned :: int
  dlDead :: int
  ageHistS :: "(int, int) gomap"
  buckets :: "(int, int \<times> int) gomap"

record 'id deadResultTracker =
  drStart :: gotime
  adLifetime :: duration
  offlineAt :: "('id, gotime) gomap"
  drTopics :: "(int, deadLocal) gomap"

definition newDeadLocal :: "int \<Rightarrow> deadLocal" where
  "newDeadLocal t = \<lparr>dlTopic = t, dlReturned = 0, dlDead = 0, ageHistS = [], buckets = []\<rparr>"

definition newDeadResultTracker :: "gotime \<Rightarrow> duration \<Rightarrow> 'id deadResultTracker" where
  "newDeadResultTracker now life =
     \<lparr>drStart = now, adLifetime = (if life \<le> 0 then 15 * 60 * nsSecond else life),
      offlineAt = [], drTopics = []\<rparr>"

section \<open>Operations\<close>

definition begin_dr :: "gotime \<Rightarrow> 'id deadResultTracker \<Rightarrow> 'id deadResultTracker" where
  "begin_dr now d = d\<lparr>drStart := now\<rparr>"

definition markOffline :: "'id \<Rightarrow> gotime \<Rightarrow> 'id deadResultTracker \<Rightarrow> 'id deadResultTracker" where
  "markOffline nid t d = d\<lparr>offlineAt := mput nid t (offlineAt d)\<rparr>"

definition markOnline :: "'id \<Rightarrow> 'id deadResultTracker \<Rightarrow> 'id deadResultTracker" where
  "markOnline nid d = d\<lparr>offlineAt := mdel nid (offlineAt d)\<rparr>"

text \<open>\<open>deadAge\<close> returns \<open>(age, true)\<close> as \<open>Some age\<close> and \<open>(0, false)\<close> as \<open>None\<close>.\<close>

definition deadAge :: "'id \<Rightarrow> gotime \<Rightarrow> 'id deadResultTracker \<Rightarrow> duration option" where
  "deadAge nid at d =
     (case map_of (offlineAt d) nid of
        None \<Rightarrow> None
      | Some t \<Rightarrow> if at < t then None else Some (at - t))"

definition record_dl ::
  "'id deadResultTracker \<Rightarrow> 'id \<Rightarrow> gotime \<Rightarrow> deadLocal \<Rightarrow> deadLocal" where
  "record_dl d nid at l =
     (let b = (at - drStart d) sdiv deadBucket;
          c = mget (0, 0) (buckets l) b;
          c = (fst c + 1, snd c);
          l = l\<lparr>dlReturned := dlReturned l + 1\<rparr>
      in case deadAge nid at d of
           None \<Rightarrow> l\<lparr>buckets := mput b c (buckets l)\<rparr>
         | Some age \<Rightarrow>
             l\<lparr>dlDead := dlDead l + 1,
               ageHistS := madd (age sdiv nsSecond) 1 (ageHistS l),
               buckets := mput b (fst c, snd c + 1) (buckets l)\<rparr>)"

fun addHist :: "(int, int) gomap \<Rightarrow> (int, int) gomap \<Rightarrow> (int, int) gomap" where
  "addHist t [] = t"
| "addHist t ((k, v) # h) = addHist (madd k v t) h"

fun addBuckets :: "(int, int \<times> int) gomap \<Rightarrow> (int, int \<times> int) gomap \<Rightarrow> (int, int \<times> int) gomap"
where
  "addBuckets t [] = t"
| "addBuckets t ((k, v) # h) =
     (let c = mget (0, 0) t k in addBuckets (mput k (fst c + fst v, snd c + snd v) t) h)"

definition merge :: "deadLocal \<Rightarrow> 'id deadResultTracker \<Rightarrow> 'id deadResultTracker" where
  "merge l d =
     (let t = mget (newDeadLocal (dlTopic l)) (drTopics d) (dlTopic l);
          t = t\<lparr>dlReturned := dlReturned t + dlReturned l, dlDead := dlDead t + dlDead l,
                ageHistS := addHist (ageHistS t) (ageHistS l),
                buckets := addBuckets (buckets t) (buckets l)\<rparr>
      in d\<lparr>drTopics := mput (dlTopic l) t (drTopics d)\<rparr>)"

definition sortedTopics :: "'id deadResultTracker \<Rightarrow> deadLocal list" where
  "sortedTopics d = sort_key dlTopic (map snd (drTopics d))"

text \<open>The scan of \<open>histPercentile\<close> over the sorted keys; \<open>last\<close> is its final return.\<close>

fun histScan :: "(int, int) gomap \<Rightarrow> int \<Rightarrow> int \<Rightarrow> int \<Rightarrow> int list \<Rightarrow> int" where
  "histScan h need seen lastk [] = lastk"
| "histScan h need seen lastk (k # ks) =
     (let seen = seen + mget 0 h k
      in if seen \<ge> need then k else histScan h need seen lastk ks)"

definition histPercentile :: "(int, int) gomap \<Rightarrow> int \<Rightarrow> int" where
  "histPercentile h p =
     (let keys = sort (map fst h); total = msum h
      in if total = 0 then 0
         else let need = (p * total + 99) sdiv 100
              in histScan h need 0 (last keys) keys)"

text \<open>The totals the report prints over all topics, and one topic's count past the ad lifetime.\<close>

definition reportTotal :: "'id deadResultTracker \<Rightarrow> deadLocal" where
  "reportTotal d =
     fold (\<lambda>t tot. tot\<lparr>dlReturned := dlReturned tot + dlReturned t, dlDead := dlDead tot + dlDead t,
                      ageHistS := addHist (ageHistS tot) (ageHistS t)\<rparr>)
       (sortedTopics d) (newDeadLocal 0)"

definition overLifetime :: "'id deadResultTracker \<Rightarrow> deadLocal \<Rightarrow> int" where
  "overLifetime d l =
     sum_list (map snd (filter (\<lambda>(age, n). age * nsSecond > adLifetime d) (ageHistS l)))"

record deadTopicOut =
  doTopic :: int
  doReturned :: int
  doDead :: int
  doAgeHistS :: "(int, int) gomap"
  doOverTime :: "(int \<times> int \<times> int) list"

definition snapshotTopic :: "deadLocal \<Rightarrow> deadTopicOut" where
  "snapshotTopic t =
     \<lparr>doTopic = dlTopic t, doReturned = dlReturned t, doDead = dlDead t, doAgeHistS = ageHistS t,
      doOverTime = map (\<lambda>k. let c = mget (0, 0) (buckets t) k
                            in (k * Milliseconds deadBucket, fst c, snd c))
                       (sort (map fst (buckets t)))\<rparr>"

definition snapshot_dr :: "'id deadResultTracker \<Rightarrow> int \<times> int \<times> deadTopicOut list" where
  "snapshot_dr d =
     (Milliseconds deadBucket, Milliseconds (adLifetime d), map snapshotTopic (sortedTopics d))"

section \<open>The presence contract\<close>

text \<open>
  What the connection model relies on when it tells the tracker that nodes leave and return:
  the age of a node depends only on the last mark it got.
\<close>

datatype 'id presence_event = WentOffline 'id gotime | CameOnline 'id

fun eventId :: "'id presence_event \<Rightarrow> 'id" where
  "eventId (WentOffline i t) = i"
| "eventId (CameOnline i) = i"

fun eventAge :: "'id presence_event \<Rightarrow> gotime \<Rightarrow> duration option" where
  "eventAge (WentOffline i t) at = (if at < t then None else Some (at - t))"
| "eventAge (CameOnline i) at = None"

locale presence =
  fixes off :: "'id \<Rightarrow> gotime \<Rightarrow> 's \<Rightarrow> 's"
    and on :: "'id \<Rightarrow> 's \<Rightarrow> 's"
    and age :: "'id \<Rightarrow> gotime \<Rightarrow> 's \<Rightarrow> duration option"
  assumes age_off: "age i at (off j t s) =
      (if i = j then (if at < t then None else Some (at - t)) else age i at s)"
    and age_on: "age i at (on j s) = (if i = j then None else age i at s)"
begin

fun apply_event :: "'id presence_event \<Rightarrow> 's \<Rightarrow> 's" where
  "apply_event (WentOffline i t) s = off i t s"
| "apply_event (CameOnline i) s = on i s"

lemma age_apply:
  "age i at (apply_event e s) = (if eventId e = i then eventAge e at else age i at s)"
  by (cases e) (auto simp: age_off age_on)

lemma age_last_event:
  "age i at (fold apply_event es s) =
     (case filter (\<lambda>e. eventId e = i) es of [] \<Rightarrow> age i at s
      | xs \<Rightarrow> eventAge (last xs) at)"
proof (induction es rule: rev_induct)
  case Nil
  then show ?case by simp
next
  case (snoc e es)
  then show ?case
    by (cases "filter (\<lambda>e. eventId e = i) es") (auto simp: age_apply split: list.split)
qed

end

lemma deadAge_markOffline:
  "deadAge i at (markOffline j t d) =
     (if i = j then (if at < t then None else Some (at - t)) else deadAge i at d)"
  by (simp add: deadAge_def markOffline_def update_conv')

lemma deadAge_markOnline:
  "deadAge i at (markOnline j d) = (if i = j then None else deadAge i at d)"
  by (simp add: deadAge_def markOnline_def delete_conv')

interpretation dr: presence markOffline markOnline deadAge
  by unfold_locales (rule deadAge_markOffline, rule deadAge_markOnline)

section \<open>Accounting invariant\<close>

definition bsum :: "(int \<times> int \<Rightarrow> int) \<Rightarrow> (int, int \<times> int) gomap \<Rightarrow> int" where
  "bsum f m = msum (map (\<lambda>(k, v). (k, f v)) m)"

definition histNonneg :: "(int, int) gomap \<Rightarrow> bool" where
  "histNonneg h \<longleftrightarrow> (\<forall>(k, n) \<in> set h. 0 \<le> n)"

definition bucketsLe :: "(int, int \<times> int) gomap \<Rightarrow> bool" where
  "bucketsLe m \<longleftrightarrow> (\<forall>(k, r, n) \<in> set m. 0 \<le> n \<and> n \<le> r)"

definition dlOk :: "deadLocal \<Rightarrow> bool" where
  "dlOk l \<longleftrightarrow> mapOk (ageHistS l) \<and> mapOk (buckets l)
     \<and> bsum fst (buckets l) = dlReturned l \<and> bsum snd (buckets l) = dlDead l
     \<and> msum (ageHistS l) = dlDead l
     \<and> histNonneg (ageHistS l) \<and> bucketsLe (buckets l)"

lemma mapOk_map_snd [simp]: "mapOk (map (\<lambda>(k, v). (k, f v)) m) = mapOk m"
  by (simp add: mapOk_def case_prod_beta comp_def)

lemma map_mput: "map (\<lambda>(k, v). (k, f v)) (mput k v m) = mput k (f v) (map (\<lambda>(k, v). (k, f v)) m)"
  by (induction m) auto

lemma mget_map_snd:
  "f z = 0 \<Longrightarrow> mget (0 :: int) (map (\<lambda>(k, v). (k, f v)) m) k = f (mget z m k)"
  by (auto simp: mget_def map_of_map case_prod_beta split: option.split)

lemma bsum_mput:
  assumes "mapOk m" "f (0, 0) = 0"
  shows "bsum f (mput k v m) = bsum f m - f (mget (0, 0) m k) + f v"
  using assms by (simp add: bsum_def map_mput msum_mput mget_map_snd)

lemma set_mput_subset: "set (mput k v m) \<subseteq> insert (k, v) (set m)"
  by (induction m) auto

lemma mget_mem: "mget z m k = z \<or> (k, mget z m k) \<in> set m"
  by (auto simp: mget_def split: option.split dest: map_of_SomeD)

lemma histNonneg_madd [inv_intros]: "histNonneg h \<Longrightarrow> 0 \<le> v \<Longrightarrow> histNonneg (madd k v h)"
  using set_mput_subset [of k "mget 0 h k + v" h] mget_mem [of 0 h k]
  unfolding madd_def histNonneg_def by fastforce

lemma bucketsLe_mput [inv_intros]:
  "bucketsLe m \<Longrightarrow> 0 \<le> y \<Longrightarrow> y \<le> x \<Longrightarrow> bucketsLe (mput k (x, y) m)"
  using set_mput_subset [of k "(x, y)" m] unfolding bucketsLe_def by fastforce

lemma bucketsLe_mget:
  "bucketsLe m \<Longrightarrow> 0 \<le> snd (mget (0, 0) m k) \<and> snd (mget (0, 0) m k) \<le> fst (mget (0, 0) m k)"
  using mget_mem [of "(0, 0)" m k] unfolding bucketsLe_def by fastforce

lemma dlOk_new [inv_intros]: "dlOk (newDeadLocal t)"
  by (simp add: dlOk_def newDeadLocal_def bsum_def histNonneg_def bucketsLe_def)

lemma dlOk_record [inv_intros]: "dlOk l \<Longrightarrow> dlOk (record_dl d nid at l)"
proof -
  assume ok: "dlOk l"
  define b where "b = (at - drStart d) sdiv deadBucket"
  have le: "0 \<le> snd (mget (0, 0) (buckets l) b)"
      "snd (mget (0, 0) (buckets l) b) \<le> fst (mget (0, 0) (buckets l) b)"
    using ok bucketsLe_mget [of "buckets l" b] by (auto simp: dlOk_def)
  show ?thesis
    using ok le
    by (auto simp: record_dl_def dlOk_def Let_def bsum_mput simp flip: b_def split: option.split
        intro!: inv_intros)
qed

lemma addHist_ok:
  assumes "mapOk t" "histNonneg t" "histNonneg h"
  shows "mapOk (addHist t h) \<and> msum (addHist t h) = msum t + msum h \<and> histNonneg (addHist t h)"
  using assms
proof (induction t h rule: addHist.induct)
  case (1 t)
  then show ?case by simp
next
  case (2 t k v h)
  from "2.prems"(3) have "0 \<le> v" "histNonneg h" by (auto simp: histNonneg_def)
  with 2 show ?case
    by (simp add: histNonneg_madd) (simp add: msum_def)
qed

lemma addBuckets_ok:
  assumes "mapOk t" "bucketsLe t" "bucketsLe h"
  shows "mapOk (addBuckets t h) \<and> bsum fst (addBuckets t h) = bsum fst t + bsum fst h
    \<and> bsum snd (addBuckets t h) = bsum snd t + bsum snd h \<and> bucketsLe (addBuckets t h)"
  using assms
proof (induction t h rule: addBuckets.induct)
  case (1 t)
  then show ?case by (simp add: bsum_def)
next
  case (2 t k v h)
  define c where "c = mget (0 :: int, 0 :: int) t k"
  have c: "0 \<le> snd c" "snd c \<le> fst c"
    using bucketsLe_mget [of t k] "2.prems" by (auto simp: c_def)
  from "2.prems"(3) have v: "0 \<le> snd v" "snd v \<le> fst v" "bucketsLe h"
    by (auto simp: bucketsLe_def)
  have "bucketsLe (mput k (fst c + fst v, snd c + snd v) t)"
    using "2.prems"(2) c v by (intro bucketsLe_mput) auto
  with "2.IH" [OF c_def] "2.prems" v show ?case
    by (simp add: bsum_mput flip: c_def) (simp add: bsum_def msum_def case_prod_beta)
qed

definition drOk :: "'id deadResultTracker \<Rightarrow> bool" where
  "drOk d \<longleftrightarrow> mapOk (drTopics d)
     \<and> (\<forall>(k, t) \<in> set (drTopics d). dlOk t \<and> dlTopic t = k)"

lemma drOk_new [inv_intros]: "drOk (newDeadResultTracker now life)"
  by (simp add: drOk_def newDeadResultTracker_def)

lemma drOk_frame [simp, inv_intros]:
  "drOk (markOffline i t d) = drOk d" "drOk (markOnline i d) = drOk d" "drOk (begin_dr t d) = drOk d"
  by (simp_all add: drOk_def markOffline_def markOnline_def begin_dr_def)

lemma drOk_topic: "drOk d \<Longrightarrow> dlOk (mget (newDeadLocal k) (drTopics d) k)
    \<and> dlTopic (mget (newDeadLocal k) (drTopics d) k) = k"
  using mget_mem [of "newDeadLocal k" "drTopics d" k] dlOk_new [of k]
  by (auto simp: drOk_def newDeadLocal_def)

lemma merge_topic:
  assumes "drOk d" "dlOk l"
  defines "t \<equiv> mget (newDeadLocal (dlTopic l)) (drTopics d) (dlTopic l)"
  shows "dlOk (t\<lparr>dlReturned := dlReturned t + dlReturned l, dlDead := dlDead t + dlDead l,
    ageHistS := addHist (ageHistS t) (ageHistS l), buckets := addBuckets (buckets t) (buckets l)\<rparr>)"
proof -
  have t: "dlOk t" using drOk_topic assms by blast
  have h: "mapOk (addHist (ageHistS t) (ageHistS l))
      \<and> msum (addHist (ageHistS t) (ageHistS l)) = msum (ageHistS t) + msum (ageHistS l)
      \<and> histNonneg (addHist (ageHistS t) (ageHistS l))"
    using t assms(2) by (intro addHist_ok) (auto simp: dlOk_def)
  have b: "mapOk (addBuckets (buckets t) (buckets l))
      \<and> bsum fst (addBuckets (buckets t) (buckets l)) = bsum fst (buckets t) + bsum fst (buckets l)
      \<and> bsum snd (addBuckets (buckets t) (buckets l)) = bsum snd (buckets t) + bsum snd (buckets l)
      \<and> bucketsLe (addBuckets (buckets t) (buckets l))"
    using t assms(2) by (intro addBuckets_ok) (auto simp: dlOk_def)
  show ?thesis using t assms(2) h b by (simp add: dlOk_def)
qed

lemma drOk_merge [inv_intros]: "drOk d \<Longrightarrow> dlOk l \<Longrightarrow> drOk (merge l d)"
proof -
  assume d: "drOk d" and l: "dlOk l"
  define t where "t = mget (newDeadLocal (dlTopic l)) (drTopics d) (dlTopic l)"
  define t' where "t' = t\<lparr>dlReturned := dlReturned t + dlReturned l, dlDead := dlDead t + dlDead l,
    ageHistS := addHist (ageHistS t) (ageHistS l), buckets := addBuckets (buckets t) (buckets l)\<rparr>"
  have "dlOk t'" using merge_topic [OF d l] by (simp add: t_def t'_def)
  moreover have "dlTopic t' = dlTopic l" using drOk_topic [OF d] by (simp add: t_def t'_def)
  moreover have "merge l d = d\<lparr>drTopics := mput (dlTopic l) t' (drTopics d)\<rparr>"
    by (simp add: merge_def Let_def t_def t'_def)
  ultimately show ?thesis
    using d set_mput_subset [of "dlTopic l" t' "drTopics d"] by (fastforce simp: drOk_def)
qed

section \<open>Searchers and the tracker together\<close>

text \<open>
  The searchers record results into their own counters while churn marks nodes, and fold them
  into the tracker when they end. The count \<open>n\<close> is the number of results recorded so far and
  \<open>k\<close> how many of them were dead.
\<close>

inductive dead_run ::
  "'id deadResultTracker \<Rightarrow> deadLocal list \<Rightarrow> int \<Rightarrow> int \<Rightarrow> bool" where
  start: "dead_run (newDeadResultTracker now life) [] 0 0"
| restart: "dead_run d ls n k \<Longrightarrow> dead_run (begin_dr now d) ls n k"
| off: "dead_run d ls n k \<Longrightarrow> dead_run (markOffline i t d) ls n k"
| on: "dead_run d ls n k \<Longrightarrow> dead_run (markOnline i d) ls n k"
| launch: "dead_run d ls n k \<Longrightarrow> dead_run d (newDeadLocal t # ls) n k"
| result: "dead_run d (xs @ l # ys) n k \<Longrightarrow>
    dead_run d (xs @ record_dl d i at l # ys) (n + 1) (k + (if deadAge i at d = None then 0 else 1))"
| finish: "dead_run d (xs @ l # ys) n k \<Longrightarrow> dead_run (merge l d) (xs @ ys) n k"

definition trackedBy :: "(deadLocal \<Rightarrow> int) \<Rightarrow> 'id deadResultTracker \<Rightarrow> int" where
  "trackedBy f d = msum (map (\<lambda>(k, t). (k, f t)) (drTopics d))"

lemma record_dl_counts [simp]:
  "dlReturned (record_dl d i at l) = dlReturned l + 1"
  "dlDead (record_dl d i at l) = dlDead l + (if deadAge i at d = None then 0 else 1)"
  "dlTopic (record_dl d i at l) = dlTopic l"
  by (simp_all add: record_dl_def Let_def split: option.split)

lemma trackedBy_merge:
  assumes "drOk d"
  shows "trackedBy dlReturned (merge l d) = trackedBy dlReturned d + dlReturned l"
    and "trackedBy dlDead (merge l d) = trackedBy dlDead d + dlDead l"
proof -
  have ok: "mapOk (drTopics d)" using assms by (simp add: drOk_def)
  have z: "dlReturned (newDeadLocal t) = 0" "dlDead (newDeadLocal t) = 0" for t
    by (simp_all add: newDeadLocal_def)
  show "trackedBy dlReturned (merge l d) = trackedBy dlReturned d + dlReturned l"
    using ok mget_map_snd [of dlReturned "newDeadLocal (dlTopic l)" "drTopics d" "dlTopic l", OF z(1)]
    by (simp add: trackedBy_def merge_def Let_def map_mput msum_mput)
  show "trackedBy dlDead (merge l d) = trackedBy dlDead d + dlDead l"
    using ok mget_map_snd [of dlDead "newDeadLocal (dlTopic l)" "drTopics d" "dlTopic l", OF z(2)]
    by (simp add: trackedBy_def merge_def Let_def map_mput msum_mput)
qed

lemma trackedBy_frame [simp]:
  "trackedBy f (markOffline i t d) = trackedBy f d" "trackedBy f (markOnline i d) = trackedBy f d"
  "trackedBy f (begin_dr t d) = trackedBy f d" "trackedBy f (newDeadResultTracker t q) = 0"
  by (simp_all add: trackedBy_def markOffline_def markOnline_def begin_dr_def newDeadResultTracker_def)

lemma dead_run_inv:
  assumes "dead_run d ls n k"
  shows "drOk d \<and> (\<forall>l \<in> set ls. dlOk l)
    \<and> trackedBy dlReturned d + sum_list (map dlReturned ls) = n
    \<and> trackedBy dlDead d + sum_list (map dlDead ls) = k"
  using assms
proof induction
  case (launch d ls n k t)
  then show ?case by (simp add: dlOk_new) (simp add: newDeadLocal_def)
next
  case (finish d xs l ys n k)
  then have "drOk d" "dlOk l" by auto
  with finish show ?case by (simp add: drOk_merge trackedBy_merge)
qed (auto simp: drOk_new dlOk_record)

lemma fold_reportTotal:
  "dlReturned (fold (\<lambda>t tot. tot\<lparr>dlReturned := dlReturned tot + dlReturned t,
       dlDead := dlDead tot + dlDead t, ageHistS := addHist (ageHistS tot) (ageHistS t)\<rparr>) ts a)
     = dlReturned a + sum_list (map dlReturned ts)"
  "dlDead (fold (\<lambda>t tot. tot\<lparr>dlReturned := dlReturned tot + dlReturned t,
       dlDead := dlDead tot + dlDead t, ageHistS := addHist (ageHistS tot) (ageHistS t)\<rparr>) ts a)
     = dlDead a + sum_list (map dlDead ts)"
  by (induction ts arbitrary: a) simp_all

lemma sum_list_sortedTopics: "sum_list (map f (sortedTopics d)) = trackedBy f d"
proof -
  have "sum_mset (image_mset f (mset (sortedTopics d)))
      = sum_mset (image_mset f (mset (map snd (drTopics d))))"
    by (simp add: sortedTopics_def)
  then have "sum_list (map f (sortedTopics d)) = sum_list (map f (map snd (drTopics d)))"
    by (simp flip: mset_map sum_mset_sum_list)
  then show ?thesis by (simp add: trackedBy_def msum_def case_prod_beta comp_def)
qed

section \<open>The percentile of a histogram is the nearest rank\<close>

definition expand :: "(int, int) gomap \<Rightarrow> int list \<Rightarrow> int list" where
  "expand h ks = concat (map (\<lambda>k. replicate (nat (mget 0 h k)) k) ks)"

lemma histScan_nth:
  assumes "\<forall>k \<in> set ks. 0 \<le> mget 0 h k"
    and "seen < need" "need \<le> seen + sum_list (map (mget 0 h) ks)"
  shows "histScan h need seen l ks = expand h ks ! nat (need - seen - 1)"
  using assms
proof (induction ks arbitrary: seen)
  case Nil
  then show ?case by simp
next
  case (Cons k ks)
  show ?case
  proof (cases "seen + mget 0 h k \<ge> need")
    case True
    with Cons.prems show ?thesis by (simp add: expand_def nth_append)
  next
    case False
    have "histScan h need seen l (k # ks) = expand h ks ! nat (need - (seen + mget 0 h k) - 1)"
      using False Cons.prems by (simp add: Cons.IH)
    also have "\<dots> = expand h (k # ks) ! nat (need - seen - 1)"
    proof -
      have "0 \<le> mget 0 h k" using Cons.prems by simp
      then have "nat (need - seen - 1) - nat (mget 0 h k) = nat (need - (seen + mget 0 h k) - 1)"
        "nat (mget 0 h k) \<le> nat (need - seen - 1)"
        using False by linarith+
      then show ?thesis unfolding expand_def list.map concat.simps nth_append length_replicate
        by (simp only: not_less [symmetric] if_False)
    qed
    finally show ?thesis .
  qed
qed

lemma sum_list_sort_keys: "mapOk h \<Longrightarrow> sum_list (map (mget 0 h) (sort (map fst h))) = msum h"
proof -
  assume ok: "mapOk h"
  have "sum_list (map (mget 0 h) (sort (map fst h))) = sum_list (map (mget 0 h) (map fst h))"
    by (metis mset_map mset_sort sum_mset_sum_list)
  also have "map (mget 0 h) (map fst h) = map snd h"
    using ok by (auto simp: mapOk_def mget_def)
  finally show ?thesis by (simp add: msum_def)
qed

lemma histNonneg_mget: "histNonneg h \<Longrightarrow> 0 \<le> mget 0 h k"
  using mget_mem [of 0 h k] by (auto simp: histNonneg_def)

lemma sorted_expand: "sorted ks \<Longrightarrow> sorted (expand h ks)"
  by (induction ks) (auto simp: expand_def sorted_append)

section \<open>Properties\<close>

fun applyMark :: "'id presence_event \<Rightarrow> 'id deadResultTracker \<Rightarrow> 'id deadResultTracker" where
  "applyMark (WentOffline i t) d = markOffline i t d"
| "applyMark (CameOnline i) d = markOnline i d"

lemma applyMark_dr: "applyMark = dr.apply_event"
proof (intro ext)
  show "applyMark e d = dr.apply_event e d" for e :: "'a presence_event" and d
    by (cases e) simp_all
qed

text \<open>
  Whatever sequence of departures and returns is reported to the tracker, a node counts as dead
  exactly according to the last mark about that node: not at all if it came back (or was never
  marked), and otherwise with the time since its last departure as age.
\<close>

theorem deadAge_last_mark:
  "deadAge i at (fold applyMark es (newDeadResultTracker now life)) =
     (case filter (\<lambda>e. eventId e = i) es of [] \<Rightarrow> None | xs \<Rightarrow> eventAge (last xs) at)"
  unfolding applyMark_dr dr.age_last_event
  by (simp add: deadAge_def newDeadResultTracker_def split: list.split)

text \<open>
  C18: In every interleaving of churn marks, searcher launches, recorded results and merges, once all
  searchers have merged, the report's totals are exactly the number of results recorded and the
  number of them that were dead when returned, and the merged age histogram of every topic
  accounts for each of its dead results.
\<close>

theorem report_counts_every_result:
  assumes "dead_run d [] n k"
  shows "dlReturned (reportTotal d) = n \<and> dlDead (reportTotal d) = k
    \<and> (\<forall>t \<in> set (sortedTopics d). msum (ageHistS t) = dlDead t)"
proof -
  note inv = dead_run_inv [OF assms]
  have "dlReturned (reportTotal d) = n" "dlDead (reportTotal d) = k"
    using inv unfolding reportTotal_def fold_reportTotal sum_list_sortedTopics
    by (simp_all add: newDeadLocal_def)
  moreover have "msum (ageHistS t) = dlDead t" if "t \<in> set (sortedTopics d)" for t
    using inv that by (auto simp: sortedTopics_def drOk_def dlOk_def)
  ultimately show ?thesis by blast
qed

definition witnessLocal :: deadLocal where
  "witnessLocal =
     record_dl (markOffline (7 :: int) 5000000000 (newDeadResultTracker 0 0)) 7 9000000000
       (newDeadLocal 2)"

lemma witness_run:
  "dead_run (merge witnessLocal (markOffline (7 :: int) 5000000000 (newDeadResultTracker 0 0))) [] 1 1"
proof -
  let ?d = "markOffline (7 :: int) 5000000000 (newDeadResultTracker 0 0)"
  have "dead_run ?d ([] @ newDeadLocal 2 # []) 0 0"
    by (auto intro: dead_run.intros)
  then have "dead_run ?d ([] @ witnessLocal # [])
      (0 + 1) (0 + (if deadAge 7 9000000000 ?d = None then 0 else 1))"
    unfolding witnessLocal_def by (rule dead_run.result)
  then have "dead_run ?d ([] @ witnessLocal # []) 1 1"
    by (simp add: deadAge_markOffline)
  then show ?thesis using dead_run.finish by fastforce
qed

theorem report_counts_every_result_witness:
  "dlDead (reportTotal (merge witnessLocal
     (markOffline (7 :: int) 5000000000 (newDeadResultTracker 0 0)))) = 1"
  using report_counts_every_result [OF witness_run] by simp

text \<open>
  C30: \<open>histPercentile\<close> is the nearest-rank percentile: for a non-empty histogram it returns the
  element at rank \<open>ceil(p * total / 100)\<close> of the sorted list in which every key is repeated as
  often as it was counted.
\<close>

theorem histPercentile_nearest_rank:
  assumes "mapOk h" "histNonneg h" "0 < msum h" "1 \<le> p" "p \<le> 100"
  shows "histPercentile h p = expand h (sort (map fst h)) ! nat ((p * msum h + 99) div 100 - 1)
    \<and> sorted (expand h (sort (map fst h)))
    \<and> int (length (expand h (sort (map fst h)))) = msum h"
proof -
  have need: "0 < (p * msum h + 99) div 100" "(p * msum h + 99) div 100 \<le> msum h"
  proof -
    have "1 * 1 \<le> p * msum h" using assms by (intro mult_mono) auto
    then show "0 < (p * msum h + 99) div 100" by simp
    have "p * msum h \<le> 100 * msum h" using assms by (intro mult_right_mono) auto
    then show "(p * msum h + 99) div 100 \<le> msum h" by simp
  qed
  have nn: "\<forall>k \<in> set (sort (map fst h)). 0 \<le> mget 0 h k"
    using histNonneg_mget [OF assms(2)] by simp
  have "(p * msum h + 99) sdiv 100 = (p * msum h + 99) div 100"
    using assms by (intro sdiv_nonneg) simp_all
  then have "histPercentile h p = expand h (sort (map fst h)) ! nat ((p * msum h + 99) div 100 - 1)"
    using histScan_nth [OF nn need(1)] need sum_list_sort_keys [OF assms(1)] assms(3)
    by (simp add: histPercentile_def Let_def)
  moreover have "int (length (expand h ks)) = sum_list (map (mget 0 h) ks)"
    if "\<forall>k \<in> set ks. 0 \<le> mget 0 h k" for ks
    using that by (induction ks) (auto simp: expand_def)
  ultimately show ?thesis
    using nn sum_list_sort_keys [OF assms(1)] by (simp add: sorted_expand)
qed

theorem histPercentile_nearest_rank_witness:
  "histPercentile [(4, 1), (1, 2)] 50 = (1 :: int)"
  using histPercentile_nearest_rank [of "[(4, 1), (1, 2)]" 50]
  by (simp add: mapOk_def histNonneg_def msum_def expand_def mget_def numeral_2_eq_2)

end
