(* ===== verification/GoFloat.thy ===== *)
theory GoFloat
  imports Complex_Main Prelude "HOL-Library.Log_Nat"
begin

text \<open>
  Go's \<open>float64\<close>. A finite double is a dyadic rational, so a value is a \<open>rat\<close>, and the result of
  an operation is the exact result rounded to the nearest double, ties to even: \<open>fl\<close>. Infinities
  and NaN have no value here; the sources guard the divisions concerned, and the theorems that
  divide carry the guard.
\<close>

type_synonym float64 = rat

section \<open>Rounding\<close>

definition rndEven :: "rat \<Rightarrow> int" where
  "rndEven y = (let f = \<lfloor>y\<rfloor>; d = y - of_int f
     in if d < 1/2 then f else if d > 1/2 then f + 1 else if even f then f else f + 1)"

definition ilog2 :: "rat \<Rightarrow> int" where
  "ilog2 x = (let (a, b) = quotient_of x; e = bitlen a - bitlen b
     in if 2 powi e \<le> x then e else e - 1)"

definition ulpExp :: "rat \<Rightarrow> int" where
  "ulpExp x = max (ilog2 \<bar>x\<bar> - 52) (-1074)"

definition fl :: "rat \<Rightarrow> float64" where
  "fl x = (if x = 0 then 0 else of_int (rndEven (x / 2 powi ulpExp x)) * 2 powi ulpExp x)"

abbreviation fadd :: "float64 \<Rightarrow> float64 \<Rightarrow> float64" where "fadd x y \<equiv> fl (x + y)"
abbreviation fsub :: "float64 \<Rightarrow> float64 \<Rightarrow> float64" where "fsub x y \<equiv> fl (x - y)"
abbreviation fmul :: "float64 \<Rightarrow> float64 \<Rightarrow> float64" where "fmul x y \<equiv> fl (x * y)"
abbreviation fdiv :: "float64 \<Rightarrow> float64 \<Rightarrow> float64" where "fdiv x y \<equiv> fl (x / y)"

text \<open>\<open>float64(n)\<close>, \<open>int(f)\<close> (truncation) and \<open>math.Round\<close> (half away from zero).\<close>

definition ofInt :: "int \<Rightarrow> float64" where
  "ofInt n = fl (of_int n)"

definition truncInt :: "float64 \<Rightarrow> int" where
  "truncInt x = (if 0 \<le> x then \<lfloor>x\<rfloor> else \<lceil>x\<rceil>)"

definition mathRound :: "float64 \<Rightarrow> int" where
  "mathRound x = (if 0 \<le> x then \<lfloor>x + 1/2\<rfloor> else \<lceil>x - 1/2\<rceil>)"

text \<open>\<open>Duration.Seconds()\<close>.\<close>

definition Seconds :: "duration \<Rightarrow> float64" where
  "Seconds d = fadd (ofInt (d sdiv nsSecond)) (fdiv (ofInt (d smod nsSecond)) 1000000000)"

section \<open>Rounding to an integer\<close>

lemma rndEven_of_int [simp]: "rndEven (of_int n) = n"
  by (simp add: rndEven_def)

lemma rndEven_between: "\<lfloor>y\<rfloor> \<le> rndEven y \<and> rndEven y \<le> \<lfloor>y\<rfloor> + 1"
  by (simp add: rndEven_def Let_def)

lemma rndEven_mono: "x \<le> y \<Longrightarrow> rndEven x \<le> rndEven y"
proof -
  assume le: "x \<le> y"
  consider "\<lfloor>x\<rfloor> = \<lfloor>y\<rfloor>" | "\<lfloor>x\<rfloor> < \<lfloor>y\<rfloor>"
    using floor_mono [OF le] by linarith
  then show ?thesis
  proof cases
    case 1
    then show ?thesis using le by (auto simp: rndEven_def Let_def)
  next
    case 2
    then show ?thesis using rndEven_between [of x] rndEven_between [of y] by linarith
  qed
qed

lemma rndEven_le: "y \<le> of_int n \<Longrightarrow> rndEven y \<le> n"
  using rndEven_mono [of y "of_int n"] by simp

lemma rndEven_ge: "of_int n \<le> y \<Longrightarrow> n \<le> rndEven y"
  using rndEven_mono [of "of_int n" y] by simp

section \<open>Binary exponents\<close>

lemma pow2_pos [simp]: "0 < (2 :: rat) powi e"
  by simp

lemma pow2_mono: "(2 :: rat) powi a \<le> 2 powi b \<longleftrightarrow> a \<le> b"
proof
  show "a \<le> b \<Longrightarrow> (2 :: rat) powi a \<le> 2 powi b" by (rule power_int_increasing) simp_all
  show "(2 :: rat) powi a \<le> 2 powi b \<Longrightarrow> a \<le> b"
    using power_int_strict_increasing [of b a "2 :: rat"] by (simp add: not_less [symmetric])
       (meson linorder_not_less)
qed

lemma pow2_int: "0 \<le> e \<Longrightarrow> (2 :: rat) powi e = of_int (2 ^ nat e)"
  by (simp add: power_int_def)

lemma ilog2_bounds:
  assumes "0 < x"
  shows "2 powi ilog2 x \<le> x" "x < 2 powi (ilog2 x + 1)"
proof -
  obtain a b where q: "quotient_of x = (a, b)" by force
  then have b: "0 < b" and x: "x = of_int a / of_int b"
    by (auto dest: quotient_of_denom_pos quotient_of_div)
  then have a: "0 < a" using assms by (simp add: zero_less_divide_iff)
  have bl: "2 ^ nat (bitlen n - 1) \<le> n" "n < 2 ^ nat (bitlen n)" if "0 < n" for n
    using bitlen_bounds [OF that] by auto
  have bp: "0 < bitlen n" if "0 < n" for n
    using that bitlen_nonneg [of n] bl(2) [OF that] by (cases "bitlen n = 0") auto
  have pb: "(2 :: rat) powi (bitlen n - 1) \<le> of_int n" "of_int n < (2 :: rat) powi bitlen n" if "0 < n" for n
  proof -
    show "(2 :: rat) powi (bitlen n - 1) \<le> of_int n"
      using bl(1) [OF that] bp [OF that] by (simp add: pow2_int del: of_int_power)
    show "of_int n < (2 :: rat) powi bitlen n"
      using bl(2) [OF that] bp [OF that] by (simp add: pow2_int del: of_int_power)
  qed
  define e where "e = bitlen a - bitlen b"
  have up: "x < 2 powi (e + 1)"
  proof -
    have "x < 2 powi bitlen a / 2 powi (bitlen b - 1)"
      unfolding x using pb [OF a] pb [OF b] a b by (intro frac_less) auto
    also have "\<dots> = 2 powi (e + 1)"
      by (simp add: e_def power_int_diff [symmetric] algebra_simps)
    finally show ?thesis .
  qed
  have lo: "2 powi (e - 1) \<le> x"
  proof -
    have "2 powi (bitlen a - 1) / 2 powi bitlen b \<le> x"
      unfolding x using pb [OF a] pb [OF b] a b by (intro frac_le) auto
    then show ?thesis by (simp add: e_def power_int_diff [symmetric] algebra_simps)
  qed
  have "ilog2 x = (if 2 powi e \<le> x then e else e - 1)"
    by (simp add: ilog2_def q e_def Let_def)
  then show "2 powi ilog2 x \<le> x" "x < 2 powi (ilog2 x + 1)"
    using up lo by auto
qed

lemma ilog2_mono: "0 < x \<Longrightarrow> x \<le> y \<Longrightarrow> ilog2 x \<le> ilog2 y"
proof -
  assume x: "0 < x" and le: "x \<le> y"
  have "(2 :: rat) powi ilog2 x < 2 powi (ilog2 y + 1)"
    using ilog2_bounds [OF x] ilog2_bounds [of y] x le by linarith
  then show ?thesis using pow2_mono [of "ilog2 y + 1" "ilog2 x"] by linarith
qed

section \<open>Rounding to a double\<close>

lemma fl_0 [simp]: "fl 0 = 0"
  by (simp add: fl_def)

lemma fl_nonneg: "0 \<le> x \<Longrightarrow> 0 \<le> fl x"
  by (auto simp: fl_def intro!: mult_nonneg_nonneg rndEven_ge)

lemma fl_exact:
  assumes "x = of_int m * 2 powi k" "-1074 \<le> k" "\<bar>m\<bar> \<le> 2 ^ 53"
  shows "fl x = x"
proof (cases "x = 0")
  case False
  then have m: "m \<noteq> 0" using assms by auto
  define e where "e = ulpExp x"
  have ax: "0 < \<bar>x\<bar>" "\<bar>x\<bar> = of_int \<bar>m\<bar> * 2 powi k" using False assms(1) by (auto simp: abs_mult)
  have *: "\<exists>n. x / 2 powi e = of_int n"
  proof (cases "e \<le> k")
    case True
    have "x / 2 powi e = of_int m * (2 powi k / 2 powi e)" using assms(1) by simp
    also have "(2 :: rat) powi k / 2 powi e = 2 powi (k - e)" by (simp add: power_int_diff)
    also have "\<dots> = of_int (2 ^ nat (k - e))" using True by (simp add: pow2_int)
    finally show ?thesis by (metis of_int_mult)
  next
    case False
    with assms(2) have e: "e = ilog2 \<bar>x\<bar> - 52" by (auto simp: e_def ulpExp_def)
    have "2 powi (e + 52) \<le> \<bar>x\<bar>" using ilog2_bounds(1) [OF ax(1)] e by simp
    also have "\<bar>x\<bar> \<le> 2 ^ 53 * 2 powi k"
    proof -
      have "(of_int \<bar>m\<bar> :: rat) \<le> of_int (2 ^ 53)" using assms(3) by (simp only: of_int_le_iff)
      then show ?thesis unfolding ax(2) by (intro mult_right_mono) simp_all
    qed
    also have "\<dots> = 2 powi (k + 53)" by (simp add: power_int_add)
    finally have ek: "e = k + 1" using False unfolding pow2_mono by linarith
    then have "2 powi (e + 52) = (2 :: rat) powi (k + 53)" by (simp add: algebra_simps)
    with \<open>2 powi (e + 52) \<le> \<bar>x\<bar>\<close> \<open>\<bar>x\<bar> \<le> 2 ^ 53 * 2 powi k\<close> \<open>2 ^ 53 * 2 powi k = 2 powi (k + 53)\<close>
    have "\<bar>x\<bar> = 2 powi (e + 52)" by simp
    then have "\<bar>x\<bar> / 2 powi e = of_int (2 ^ 52)" by (simp add: power_int_add)
    then have "x / 2 powi e = of_int (2 ^ 52) \<or> x / 2 powi e = of_int (- (2 ^ 52))"
      by (auto simp: abs_if split: if_splits)
    then show ?thesis by blast
  qed
  then obtain n where n: "x / 2 powi e = of_int n" by blast
  then have "fl x = of_int n * 2 powi e" using False by (simp add: fl_def flip: e_def)
  also have "\<dots> = x" using n by (simp add: field_simps)
  finally show ?thesis .
qed simp

lemma fl_of_int: "\<bar>n\<bar> \<le> 2 ^ 53 \<Longrightarrow> fl (of_int n) = of_int n"
  by (rule fl_exact [of _ n 0]) simp_all

lemma fl_1 [simp]: "fl 1 = 1"
  using fl_of_int [of 1] by simp

lemma fl_le_pow2: "0 < x \<Longrightarrow> fl x \<le> 2 powi max (ilog2 x + 1) (-1074)"
proof -
  assume x: "0 < x"
  define k where "k = max (ilog2 x + 1) (-1074)"
  have e: "ulpExp x \<le> k" using x by (auto simp: ulpExp_def k_def)
  have "x \<le> 2 powi k" using ilog2_bounds(2) [OF x] pow2_mono [of "ilog2 x + 1" k] by (simp add: k_def)
  then have "x / 2 powi ulpExp x \<le> 2 powi k / 2 powi ulpExp x" by (simp add: divide_right_mono)
  also have "\<dots> = of_int (2 ^ nat (k - ulpExp x))"
    using e by (simp add: pow2_int flip: power_int_diff)
  finally have "rndEven (x / 2 powi ulpExp x) \<le> 2 ^ nat (k - ulpExp x)" by (rule rndEven_le)
  then have "(of_int (rndEven (x / 2 powi ulpExp x)) :: rat) \<le> of_int (2 ^ nat (k - ulpExp x))"
    by (simp only: of_int_le_iff)
  also have "\<dots> = 2 powi (k - ulpExp x)" using e by (simp add: pow2_int)
  finally have "fl x \<le> 2 powi (k - ulpExp x) * 2 powi ulpExp x"
    using x by (simp add: fl_def mult_right_mono)
  also have "\<dots> = 2 powi k" by (simp flip: power_int_add)
  finally show ?thesis by (simp add: k_def)
qed

lemma fl_ge_pow2: "0 < x \<Longrightarrow> -1074 \<le> ilog2 x - 52 \<Longrightarrow> 2 powi ilog2 x \<le> fl x"
proof -
  assume x: "0 < x" and n: "-1074 \<le> ilog2 x - 52"
  have e: "ulpExp x = ilog2 x - 52" using x n by (simp add: ulpExp_def)
  have "of_int (2 ^ 52) = 2 powi ilog2 x / (2 :: rat) powi ulpExp x"
    by (simp add: e pow2_int flip: power_int_diff)
  also have "\<dots> \<le> x / 2 powi ulpExp x" using ilog2_bounds(1) [OF x] by (simp add: divide_right_mono)
  finally have "2 ^ 52 \<le> rndEven (x / 2 powi ulpExp x)" by (rule rndEven_ge)
  then have "of_int (2 ^ 52) \<le> (of_int (rndEven (x / 2 powi ulpExp x)) :: rat)"
    by (simp only: of_int_le_iff)
  then have "of_int (2 ^ 52) * 2 powi ulpExp x \<le> fl x" using x by (simp add: fl_def mult_right_mono)
  moreover have "of_int (2 ^ 52) * 2 powi ulpExp x = (2 :: rat) powi ilog2 x"
    by (simp add: e power_int_diff)
  ultimately show ?thesis by simp
qed

lemma fl_mono: "0 \<le> x \<Longrightarrow> x \<le> y \<Longrightarrow> fl x \<le> fl y"
proof (cases "x = 0")
  case True
  then show "x \<le> y \<Longrightarrow> fl x \<le> fl y" by (simp add: fl_nonneg)
next
  case False
  assume "0 \<le> x" and le: "x \<le> y"
  with False have x: "0 < x" and y: "0 < y" by auto
  have il: "ilog2 x \<le> ilog2 y" using ilog2_mono x le .
  consider "ulpExp x = ulpExp y" | "ulpExp x < ulpExp y"
    using il x y by (fastforce simp: ulpExp_def)
  then show "fl x \<le> fl y"
  proof cases
    case 1
    have "rndEven (x / 2 powi ulpExp y) \<le> rndEven (y / 2 powi ulpExp y)"
      using le by (intro rndEven_mono divide_right_mono) simp_all
    with x y 1 show ?thesis by (simp add: fl_def mult_right_mono)
  next
    case 2
    then have "-1074 < ilog2 y - 52" "ilog2 x < ilog2 y" using x y by (auto simp: ulpExp_def)
    then have "max (ilog2 x + 1) (-1074) \<le> ilog2 y" by auto
    then have "fl x \<le> 2 powi ilog2 y"
      using fl_le_pow2 [OF x] pow2_mono [of "max (ilog2 x + 1) (-1074)" "ilog2 y"] by linarith
    also have "\<dots> \<le> fl y" using fl_ge_pow2 [OF y] \<open>-1074 < ilog2 y - 52\<close> by simp
    finally show ?thesis .
  qed
qed

lemma fl_le_exact: "0 \<le> x \<Longrightarrow> x \<le> y \<Longrightarrow> fl y = y \<Longrightarrow> fl x \<le> y"
  using fl_mono [of x y] by simp

lemma fl_ge_exact: "0 \<le> y \<Longrightarrow> y \<le> x \<Longrightarrow> fl y = y \<Longrightarrow> y \<le> fl x"
  using fl_mono [of y x] by simp

lemma rndEven_err: "y - 1 / 2 \<le> of_int (rndEven y)"
proof -
  have "of_int \<lfloor>y\<rfloor> \<le> y" "y < of_int \<lfloor>y\<rfloor> + 1" by linarith+
  moreover have "y - of_int \<lfloor>y\<rfloor> < 1 / 2 \<Longrightarrow> rndEven y = \<lfloor>y\<rfloor>"
    "y - of_int \<lfloor>y\<rfloor> > 1 / 2 \<Longrightarrow> rndEven y = \<lfloor>y\<rfloor> + 1"
    "\<lfloor>y\<rfloor> \<le> rndEven y" by (simp_all add: rndEven_def Let_def)
  ultimately show ?thesis by (cases "y - of_int \<lfloor>y\<rfloor>" "1 / 2 :: rat" rule: linorder_cases) auto
qed

text \<open>A rounded value is a double: rounding again changes nothing, and doubling it is exact.\<close>

lemma fl_repr: "\<exists>m k. fl x = of_int m * 2 powi k \<and> -1074 \<le> k \<and> \<bar>m\<bar> \<le> 2 ^ 53"
proof (cases "x = 0")
  case False
  define e where "e = ulpExp x"
  have ax: "0 < \<bar>x\<bar>" using False by simp
  have "\<bar>x\<bar> \<le> 2 powi (e + 53)"
  proof -
    have "ilog2 \<bar>x\<bar> + 1 \<le> e + 53" by (simp add: e_def ulpExp_def)
    then show ?thesis using ilog2_bounds(2) [OF ax] pow2_mono [of "ilog2 \<bar>x\<bar> + 1" "e + 53"] by linarith
  qed
  then have "\<bar>x\<bar> / 2 powi e \<le> 2 powi (e + 53) / 2 powi e" by (simp add: divide_right_mono)
  also have "\<dots> = of_int (2 ^ 53)" by (simp add: power_int_add)
  finally have b: "\<bar>x / 2 powi e\<bar> \<le> of_int (2 ^ 53)" by (simp add: abs_divide)
  have "rndEven (x / 2 powi e) \<le> 2 ^ 53" using b by (intro rndEven_le) linarith
  moreover have "- (2 ^ 53) \<le> rndEven (x / 2 powi e)" using b by (intro rndEven_ge) (unfold of_int_minus, linarith)
  ultimately have "\<bar>rndEven (x / 2 powi e)\<bar> \<le> 2 ^ 53" by (simp add: abs_le_iff)
  moreover have "fl x = of_int (rndEven (x / 2 powi e)) * 2 powi e"
    using False by (simp add: fl_def flip: e_def)
  moreover have "-1074 \<le> e" by (simp add: e_def ulpExp_def)
  ultimately show ?thesis by blast
next
  case True
  then show ?thesis by (intro exI [of _ 0] exI [of _ 0]) simp
qed

lemma fl_idem [simp]: "fl (fl x) = fl x"
  using fl_repr [of x] fl_exact by blast

lemma fl_double: "fl x = x \<Longrightarrow> fl (2 * x) = 2 * x"
proof -
  assume "fl x = x"
  then obtain m k where "x = of_int m * 2 powi k" "-1074 \<le> k" "\<bar>m\<bar> \<le> 2 ^ 53" using fl_repr [of x] by auto
  then show ?thesis by (intro fl_exact [of _ m "k + 1"]) (simp_all add: power_int_add)
qed

text \<open>A rounded midpoint stays between its ends.\<close>

lemma fl_midpoint:
  assumes "0 \<le> lo" "lo \<le> hi" "fl lo = lo" "fl hi = hi"
  shows "lo \<le> fdiv (fadd lo hi) 2 \<and> fdiv (fadd lo hi) 2 \<le> hi"
proof -
  have "fl (2 * lo) \<le> fadd lo hi" "fadd lo hi \<le> fl (2 * hi)" using assms by (intro fl_mono; simp)+
  then have b: "2 * lo \<le> fadd lo hi" "fadd lo hi \<le> 2 * hi" using assms by (simp_all add: fl_double)
  then have "lo \<le> fdiv (fadd lo hi) 2" using assms by (intro fl_ge_exact) simp_all
  moreover have "fdiv (fadd lo hi) 2 \<le> hi" using assms b by (intro fl_le_exact) simp_all
  ultimately show ?thesis ..
qed

text \<open>Below \<open>2\<^sup>5\<^sup>3\<close> the rounding error is at most one half.\<close>

lemma fl_err:
  assumes "0 \<le> x" "x \<le> 2 ^ 53"
  shows "x - 1 / 2 \<le> fl x"
proof (cases "x = 0 \<or> x = 2 ^ 53")
  case True
  moreover have "fl (2 ^ 53) = 2 ^ 53" using fl_of_int [of "2 ^ 53"] by simp
  ultimately show ?thesis by auto
next
  case False
  then have x: "0 < x" "x < 2 ^ 53" using assms by auto
  have "(2 :: rat) powi ilog2 x < 2 powi 53"
    using ilog2_bounds(1) [OF x(1)] x(2) by (simp add: power_int_numeral)
  then have "ilog2 x < 53" using pow2_mono [of 53 "ilog2 x"] by linarith
  then have e: "ulpExp x \<le> 0" using x by (simp add: ulpExp_def)
  define p where "p = (2 :: rat) powi ulpExp x"
  have p: "0 < p" "p \<le> 1" using e pow2_mono [of "ulpExp x" 0] by (simp_all add: p_def)
  have "x / p - 1 / 2 \<le> of_int (rndEven (x / p))" by (rule rndEven_err)
  then have "(x / p - 1 / 2) * p \<le> fl x" using x p by (simp add: fl_def mult_right_mono flip: p_def)
  then have "x - p / 2 \<le> fl x" using p by (simp add: left_diff_distrib)
  then show ?thesis using p by linarith
qed

text \<open>The error of a rounding is at most half a unit in the last place.\<close>

lemma rndEven_err_up: "of_int (rndEven y) \<le> y + 1 / 2"
proof (cases "y - of_int \<lfloor>y\<rfloor> < 1 / 2")
  case True
  then have "rndEven y = \<lfloor>y\<rfloor>" by (simp add: rndEven_def Let_def)
  moreover have "of_int \<lfloor>y\<rfloor> \<le> y + 1 / 2" by linarith
  ultimately show ?thesis by (simp only:)
next
  case False
  have "rndEven y \<le> \<lfloor>y\<rfloor> + 1" using rndEven_between by blast
  then have "of_int (rndEven y) \<le> (of_int \<lfloor>y\<rfloor> + 1 :: rat)" by linarith
  with False show ?thesis by linarith
qed

lemma fl_ulp: "\<bar>fl x - x\<bar> \<le> 2 powi ulpExp x / 2"
proof (cases "x = 0")
  case False
  define p where "p = (2 :: rat) powi ulpExp x"
  have p: "0 < p" by (simp add: p_def)
  have "\<bar>of_int (rndEven (x / p)) - x / p\<bar> \<le> 1 / 2"
    using rndEven_err [of "x / p"] rndEven_err_up [of "x / p"] by linarith
  then have "\<bar>of_int (rndEven (x / p)) - x / p\<bar> * p \<le> 1 / 2 * p" using p by (intro mult_right_mono) simp_all
  moreover have "\<bar>of_int (rndEven (x / p)) - x / p\<bar> * p = \<bar>fl x - x\<bar>"
    using False p by (simp add: fl_def left_diff_distrib abs_mult_pos flip: p_def)
  ultimately show ?thesis by (simp flip: p_def)
qed simp

lemma fl_abs_err:
  assumes "0 \<le> x" "x \<le> 2 powi e" "-1000 \<le> e"
  shows "\<bar>fl x - x\<bar> \<le> 2 powi (e - 52) / 2"
proof (cases "x = 0")
  case False
  with assms(1) have x: "0 < x" by simp
  have "(2 :: rat) powi ilog2 x \<le> 2 powi e" using ilog2_bounds(1) [OF x] assms(2) by linarith
  then have "ulpExp x \<le> e - 52" using assms(3) x by (simp add: pow2_mono ulpExp_def)
  then have "(2 :: rat) powi ulpExp x \<le> 2 powi (e - 52)" by (simp add: pow2_mono)
  then show ?thesis using fl_ulp [of x] by linarith
qed simp

lemma fl_rel_err:
  assumes "2 powi -1000 \<le> x"
  shows "\<bar>fl x - x\<bar> \<le> x / 2 ^ 53"
proof -
  have x: "0 < x" using assms pow2_pos [of "-1000"] by linarith
  have "-1000 \<le> ilog2 x"
    using ilog2_mono [of "2 powi -1000" x] assms ilog2_bounds(2) [OF x] pow2_mono [of "ilog2 x + 1" "-1000"]
    by linarith
  then have "ulpExp x = ilog2 x - 52" using x by (simp add: ulpExp_def)
  then have "2 powi ulpExp x / 2 = (2 :: rat) powi ilog2 x / 2 ^ 53" by (simp add: power_int_diff)
  also have "\<dots> \<le> x / 2 ^ 53" using ilog2_bounds(1) [OF x] by (simp add: divide_right_mono)
  finally show ?thesis using fl_ulp [of x] by linarith
qed

section \<open>Conversions\<close>

lemma ofInt_small [simp]: "\<bar>n\<bar> \<le> 2 ^ 53 \<Longrightarrow> ofInt n = of_int n"
  by (simp add: ofInt_def fl_of_int)

lemma ofInt_nonneg: "0 \<le> n \<Longrightarrow> 0 \<le> ofInt n"
  by (simp add: ofInt_def fl_nonneg)

lemma truncInt_nonneg: "0 \<le> x \<Longrightarrow> 0 \<le> truncInt x"
  by (simp add: truncInt_def)

lemma truncInt_mono: "0 \<le> x \<Longrightarrow> x \<le> y \<Longrightarrow> truncInt x \<le> truncInt y"
  by (simp add: truncInt_def floor_mono)

lemma truncInt_le: "0 \<le> x \<Longrightarrow> x \<le> of_int n \<Longrightarrow> truncInt x \<le> n"
  by (simp add: truncInt_def) linarith

lemma truncInt_less: "0 \<le> x \<Longrightarrow> x < of_int n \<Longrightarrow> truncInt x < n"
  by (simp add: truncInt_def floor_less_iff)

lemma truncInt_of_int [simp]: "truncInt (of_int n) = n"
  by (simp add: truncInt_def)

end
