(* ===== verification/GoRand.thy ===== *)
theory GoRand
  imports GoFloat
begin

text \<open>
  \<open>math/rand\<close> as the sources use it. A source is its stream of 63-bit outputs, in which every
  value of the upper 32 bits keeps coming back (what makes the rejection loops of the library
  end); a generator is a source and a position. \<open>rand.NewSource(seed)\<close> is a parameter of the
  definitions that seed a generator. The functions follow the library's algorithms.
\<close>

section \<open>Sources\<close>

definition cycle :: "nat \<Rightarrow> int" where
  "cycle q = int (q mod 2 ^ 32) * 2 ^ 31"

definition fairStream :: "(nat \<Rightarrow> int) \<Rightarrow> bool" where
  "fairStream s \<longleftrightarrow> (\<forall>i. 0 \<le> s i \<and> s i < 2 ^ 63)
     \<and> (\<forall>w p. 0 \<le> w \<longrightarrow> w < 2 ^ 32 \<longrightarrow> (\<exists>q \<ge> p. s q div 2 ^ 31 = w))"

lemma fair_cycle: "fairStream cycle"
proof -
  have "0 \<le> cycle i \<and> cycle i < 2 ^ 63" for i
  proof -
    have "i mod 2 ^ 32 < 2 ^ 32" by simp
    then show ?thesis by (simp add: cycle_def)
  qed
  moreover have "\<exists>q \<ge> p. cycle q div 2 ^ 31 = w" if "0 \<le> w" "w < 2 ^ 32" for w p
  proof -
    let ?q = "p * 2 ^ 32 + nat w"
    have "nat w mod 2 ^ 32 = nat w" using that by (intro mod_less) (simp add: nat_less_iff)
    then have "?q mod 2 ^ 32 = nat w" by (metis mod_mult_self3)
    then have "cycle ?q div 2 ^ 31 = w" using that by (simp add: cycle_def)
    moreover have "p \<le> ?q" by simp
    ultimately show ?thesis by blast
  qed
  ultimately show ?thesis unfolding fairStream_def by blast
qed

typedef source = "{s. fairStream s}"
  using fair_cycle by blast

setup_lifting type_definition_source

lift_definition out63 :: "source \<Rightarrow> nat \<Rightarrow> int" is "\<lambda>s. s" .

lift_definition cycleSource :: source is cycle
  by (rule fair_cycle)

lemma out63_cycle [simp]: "out63 cycleSource q = cycle q"
  by transfer simp

lemma out63_range [simp]: "0 \<le> out63 s i" "out63 s i < 2 ^ 63"
  by (transfer, simp add: fairStream_def)+

lemma out63_range' [simp]: "out63 s i < 9223372036854775808" "out63 s i \<le> 9223372036854775807"
  using out63_range(2) [of s i] by simp_all

lemma out63_fair: "0 \<le> w \<Longrightarrow> w < 2 ^ 32 \<Longrightarrow> \<exists>q \<ge> p. out63 s q div 2 ^ 31 = w"
  by transfer (simp add: fairStream_def)

record rng =
  rsrc :: source
  rpos :: nat

text \<open>\<open>rand.New(rand.NewSource(seed))\<close>: a fresh generator on the source the seed gives.\<close>

definition randNew :: "(int \<Rightarrow> source) \<Rightarrow> int \<Rightarrow> rng" where
  "randNew src seed = \<lparr>rsrc = src seed, rpos = 0\<rparr>"

definition Int63 :: "rng \<Rightarrow> int \<times> rng" where
  "Int63 r = (out63 (rsrc r) (rpos r), r\<lparr>rpos := rpos r + 1\<rparr>)"

definition Int31 :: "rng \<Rightarrow> int \<times> rng" where
  "Int31 r = (let (v, r) = Int63 r in (v div 2 ^ 32, r))"

definition Uint32 :: "rng \<Rightarrow> int \<times> rng" where
  "Uint32 r = (let (v, r) = Int63 r in (v div 2 ^ 31, r))"

section \<open>Rejection loops end\<close>

text \<open>Draws until an output with a given upper word comes: the measure of every loop below.\<close>

definition drawsTo :: "int \<Rightarrow> rng \<Rightarrow> nat" where
  "drawsTo w r = (LEAST q. rpos r \<le> q \<and> out63 (rsrc r) q div 2 ^ 31 = w) - rpos r"

lemma drawsTo_next:
  assumes "0 \<le> w" "w < 2 ^ 32" "out63 (rsrc r) (rpos r) div 2 ^ 31 \<noteq> w"
  shows "drawsTo w (r\<lparr>rpos := rpos r + 1\<rparr>) < drawsTo w r"
proof -
  let ?P = "\<lambda>p q. p \<le> q \<and> out63 (rsrc r) q div 2 ^ 31 = w"
  obtain q0 where "?P (rpos r) q0" using out63_fair [OF assms(1,2)] by blast
  then have least: "?P (rpos r) (LEAST q. ?P (rpos r) q)" by (rule LeastI)
  then have gt: "rpos r < (LEAST q. ?P (rpos r) q)"
    using assms(3) by (cases "rpos r = (LEAST q. ?P (rpos r) q)") auto
  have "(LEAST q. ?P (rpos r + 1) q) = (LEAST q. ?P (rpos r) q)"
  proof (rule Least_equality)
    show "?P (rpos r + 1) (LEAST q. ?P (rpos r) q)" using least gt by auto
    show "(LEAST q. ?P (rpos r) q) \<le> y" if "?P (rpos r + 1) y" for y
      using that by (intro Least_le) auto
  qed
  with gt show ?thesis by (simp add: drawsTo_def)
qed

lemma mod_le_half: "0 < n \<Longrightarrow> n \<le> M \<Longrightarrow> 2 * (M mod n) \<le> (M :: int)"
proof -
  assume n: "0 < n" "n \<le> M"
  have "1 \<le> M div n" using n by (simp add: pos_imp_zdiv_pos_iff int_one_le_iff_zero_less)
  then have "n * 1 \<le> n * (M div n)" using n by (intro mult_left_mono) auto
  moreover have "M = n * (M div n) + M mod n" "M mod n < n" using n by simp_all
  ultimately show ?thesis by linarith
qed

section \<open>Draws\<close>

function int63nLoop :: "int \<Rightarrow> rng \<Rightarrow> int \<times> rng" where
  "int63nLoop n r = (let (v, r') = Int63 r
     in if 0 < n \<and> n < 2 ^ 63 \<and> v > 2 ^ 63 - 1 - 2 ^ 63 mod n then int63nLoop n r' else (v, r'))"
  by pat_completeness auto
termination
proof (relation "measure (\<lambda>(n, r). drawsTo 0 r)", simp)
  fix n r v r' p
  assume p: "p = Int63 r" "(v, r') = p" and c: "0 < n \<and> n < 2 ^ 63 \<and> v > 2 ^ 63 - 1 - 2 ^ 63 mod n"
  then have r: "v = out63 (rsrc r) (rpos r)" "r' = r\<lparr>rpos := rpos r + 1\<rparr>" by (auto simp: Int63_def)
  have "2 * (2 ^ 63 mod n) \<le> 2 ^ 63" using c by (intro mod_le_half) auto
  then have "v div 2 ^ 31 \<noteq> 0" using c r by (auto simp: div_eq_0_iff)
  then show "((n, r'), (n, r)) \<in> measure (\<lambda>(n, r). drawsTo 0 r)"
    using drawsTo_next [of 0 r] r by simp
qed

declare int63nLoop.simps [simp del]

text \<open>\<open>Int63n\<close> panics on \<open>n \<le> 0\<close>; the sources never call it so, and the model gives 0 there.\<close>

definition Int63n :: "int \<Rightarrow> rng \<Rightarrow> int \<times> rng" where
  "Int63n n r = (if n \<le> 0 then (0, r) else let (v, r) = int63nLoop n r in (v mod n, r))"

function int31nLoop :: "int \<Rightarrow> rng \<Rightarrow> int \<times> rng" where
  "int31nLoop n r = (let (v, r') = Int31 r
     in if 0 < n \<and> n < 2 ^ 31 \<and> v > 2 ^ 31 - 1 - 2 ^ 31 mod n then int31nLoop n r' else (v, r'))"
  by pat_completeness auto
termination
proof (relation "measure (\<lambda>(n, r). drawsTo 0 r)", simp)
  fix n r v r' p
  assume p: "p = Int31 r" "(v, r') = p" and c: "0 < n \<and> n < 2 ^ 31 \<and> v > 2 ^ 31 - 1 - 2 ^ 31 mod n"
  then have r: "v = out63 (rsrc r) (rpos r) div 2 ^ 32" "r' = r\<lparr>rpos := rpos r + 1\<rparr>"
    by (auto simp: Int31_def Int63_def)
  have "2 * (2 ^ 31 mod n) \<le> 2 ^ 31" using c by (intro mod_le_half) auto
  then have "0 < v" using c by simp
  then have "2 ^ 32 \<le> out63 (rsrc r) (rpos r)" unfolding r by (simp add: pos_imp_zdiv_pos_iff)
  then have "out63 (rsrc r) (rpos r) div 2 ^ 31 \<noteq> 0" by (simp add: div_eq_0_iff)
  then show "((n, r'), (n, r)) \<in> measure (\<lambda>(n, r). drawsTo 0 r)"
    using drawsTo_next [of 0 r] r by simp
qed

declare int31nLoop.simps [simp del]

text \<open>
  \<open>Int31n\<close> and \<open>Int63n\<close> take a mask for powers of two; for those the rejection bound is the
  largest output, so the loop accepts the first draw and \<open>v & (n-1)\<close> is \<open>v mod n\<close>.
\<close>

definition Int31n :: "int \<Rightarrow> rng \<Rightarrow> int \<times> rng" where
  "Int31n n r = (let (v, r) = int31nLoop n r in (v mod n, r))"

definition Intn :: "nat \<Rightarrow> rng \<Rightarrow> nat \<times> rng" where
  "Intn n r = (if n = 0 then (0, r)
     else let (v, r) = (if n < 2 ^ 31 then Int31n (int n) r else Int63n (int n) r) in (nat v, r))"

function Float64 :: "rng \<Rightarrow> float64 \<times> rng" where
  "Float64 r = (let (v, r') = Int63 r; f = fdiv (ofInt v) (2 ^ 63)
     in if f = 1 then Float64 r' else (f, r'))"
  by pat_completeness auto
termination
proof (relation "measure (drawsTo 0)", simp)
  fix r v r' p f
  assume p: "p = Int63 r" "(v, r') = p" and f: "f = fdiv (ofInt v) (2 ^ 63)" "f = 1"
  then have r: "v = out63 (rsrc r) (rpos r)" "r' = r\<lparr>rpos := rpos r + 1\<rparr>" by (auto simp: Int63_def)
  have "v div 2 ^ 31 \<noteq> 0"
  proof
    assume "v div 2 ^ 31 = 0"
    then have v: "0 \<le> v" "v < 2 ^ 31" using r by (auto simp: div_eq_0_iff)
    then have "ofInt v = of_int v" by simp
    moreover have "fl (of_int v / 2 ^ 63) = of_int v / 2 ^ 63"
    proof (rule fl_exact [of _ v "-63"])
      show "(of_int v :: rat) / 2 ^ 63 = of_int v * 2 powi - 63"
        unfolding power_int_minus divide_inverse by (simp add: power_int_numeral)
      show "\<bar>v\<bar> \<le> 2 ^ 53" using v by simp
    qed simp
    ultimately have "(of_int v :: rat) / 2 ^ 63 = 1" using f by simp
    then have "(of_int v :: rat) = of_int (2 ^ 63)" by (simp add: field_simps)
    with v show False unfolding of_int_eq_iff by simp
  qed
  then show "(r', r) \<in> measure (drawsTo 0)" using drawsTo_next [of 0 r] r by simp
qed

declare Float64.simps [simp del]

text \<open>\<open>int31n\<close>, the unbiased multiply-and-shift draw \<open>Shuffle\<close> uses.\<close>

function lemireLoop :: "int \<Rightarrow> rng \<Rightarrow> int \<times> rng" where
  "lemireLoop n r = (let (v, r') = Uint32 r; prod = v * n; low = prod mod 2 ^ 32
     in if 0 < n \<and> n < 2 ^ 31 \<and> low < (2 ^ 32 - n) mod n then lemireLoop n r'
        else (prod div 2 ^ 32, r'))"
  by pat_completeness auto
termination
proof (relation "measure (\<lambda>(n, r). drawsTo (2 ^ 32 - 1) r)", simp)
  fix n r v r' p prod low
  assume p: "p = Uint32 r" "(v, r') = p" and d: "prod = v * n" "low = prod mod 2 ^ 32"
    and c: "0 < n \<and> n < 2 ^ 31 \<and> low < (2 ^ 32 - n) mod n"
  then have r: "v = out63 (rsrc r) (rpos r) div 2 ^ 31" "r' = r\<lparr>rpos := rpos r + 1\<rparr>"
    by (auto simp: Uint32_def Int63_def)
  have "v \<noteq> 2 ^ 32 - 1"
  proof
    assume "v = 2 ^ 32 - 1"
    then have "prod = (2 ^ 32 - n) + 2 ^ 32 * (n - 1)" using d by (simp add: algebra_simps)
    then have "low = (2 ^ 32 - n) mod 2 ^ 32" using d by (simp only: mod_mult_self2)
    also have "\<dots> = 2 ^ 32 - n" using c by (intro mod_pos_pos_trivial) auto
    finally have "low = 2 ^ 32 - n" .
    moreover have "(2 ^ 32 - n) mod n \<le> 2 ^ 32 - n" using c by (intro zmod_le_nonneg_dividend) auto
    ultimately show False using c by simp
  qed
  then show "((n, r'), (n, r)) \<in> measure (\<lambda>(n, r). drawsTo (2 ^ 32 - 1) r)"
    using drawsTo_next [of "2 ^ 32 - 1" r] r by simp
qed

declare lemireLoop.simps [simp del]

definition int31n :: "nat \<Rightarrow> rng \<Rightarrow> nat \<times> rng" where
  "int31n n r = (let (v, r) = lemireLoop (int n) r in (nat v, r))"

section \<open>Permutations\<close>

fun permLoop :: "nat \<Rightarrow> nat list \<Rightarrow> nat list \<Rightarrow> rng \<Rightarrow> nat list \<times> rng" where
  "permLoop n m [] r = (m, r)"
| "permLoop n m (i # is) r =
     (let (j, r) = Intn (i + 1) r in permLoop n ((m[i := m ! j])[j := i]) is r)"

definition Perm :: "nat \<Rightarrow> rng \<Rightarrow> nat list \<times> rng" where
  "Perm n r = permLoop n (replicate n 0) [0..<n] r"

definition swapAt :: "nat \<Rightarrow> nat \<Rightarrow> 'a list \<Rightarrow> 'a list" where
  "swapAt i j xs = xs[i := xs ! j, j := xs ! i]"

text \<open>\<open>Shuffle(n, swap)\<close> with the usual swap closure, for slices shorter than \<open>2\<^sup>3\<^sup>1\<close>.\<close>

fun shuffleLoop :: "nat \<Rightarrow> 'a list \<Rightarrow> rng \<Rightarrow> 'a list \<times> rng" where
  "shuffleLoop 0 xs r = (xs, r)"
| "shuffleLoop (Suc i) xs r =
     (let (j, r) = int31n (Suc i + 1) r in shuffleLoop i (swapAt (Suc i) j xs) r)"

definition Shuffle :: "'a list \<Rightarrow> rng \<Rightarrow> 'a list \<times> rng" where
  "Shuffle xs r = shuffleLoop (length xs - 1) xs r"

section \<open>Ranges\<close>

lemma Int63n_range: "0 < n \<Longrightarrow> 0 \<le> fst (Int63n n r) \<and> fst (Int63n n r) < n"
  by (simp add: Int63n_def case_prod_beta Let_def)

lemma Intn_less: "0 < n \<Longrightarrow> fst (Intn n r) < n"
  using Int63n_range [of "int n" r]
  by (simp add: Intn_def Int31n_def case_prod_beta Let_def nat_less_iff)

lemma Float64_range: "0 \<le> fst (Float64 r) \<and> fst (Float64 r) < 1"
proof (induction r rule: Float64.induct)
  case (1 r)
  let ?v = "out63 (rsrc r) (rpos r)" and ?r = "r\<lparr>rpos := rpos r + 1\<rparr>"
  let ?f = "fl (ofInt ?v / 2 ^ 63)"
  have "fl (2 ^ 63) = (2 ^ 63 :: rat)"
    by (rule fl_exact [of _ 1 63]) (simp_all add: power_int_numeral)
  moreover have "(of_int ?v :: rat) \<le> of_int (2 ^ 63)"
    by (subst of_int_le_iff) (simp add: order_less_imp_le)
  ultimately have "ofInt ?v \<le> 2 ^ 63"
    unfolding ofInt_def by (intro fl_le_exact) simp_all
  then have "?f \<le> 1" by (intro fl_le_exact) (simp_all add: ofInt_nonneg)
  moreover have "0 \<le> ?f" by (intro fl_nonneg) (simp add: ofInt_nonneg)
  moreover have "?f = 1 \<Longrightarrow> 0 \<le> fst (Float64 ?r) \<and> fst (Float64 ?r) < 1"
    using "1.IH" by (simp add: Int63_def)
  moreover have "Float64 r = (if ?f = 1 then Float64 ?r else (?f, ?r))"
    by (subst Float64.simps) (simp add: Int63_def Let_def)
  ultimately show ?case by (simp del: power_numeral) 
qed

lemma lemireLoop_range: "0 < n \<Longrightarrow> 0 \<le> fst (lemireLoop n r) \<and> fst (lemireLoop n r) < n"
proof (induction n r rule: lemireLoop.induct)
  case (1 n r)
  let ?v = "out63 (rsrc r) (rpos r) div 2 ^ 31" and ?r = "r\<lparr>rpos := rpos r + 1\<rparr>"
  have "?v < 2 ^ 32" by (rule zdiv_less) simp_all
  then have v: "0 \<le> ?v" "?v \<le> 2 ^ 32 - 1" by (simp_all add: pos_imp_zdiv_nonneg_iff)
  have "0 \<le> ?v * n div 2 ^ 32"
    using v(1) "1.prems" by (simp add: pos_imp_zdiv_nonneg_iff)
  moreover have "?v * n div 2 ^ 32 < n"
  proof -
    have "?v * n \<le> (2 ^ 32 - 1) * n" using v(2) "1.prems" by (intro mult_right_mono) auto
    also have "\<dots> < n * 2 ^ 32" using "1.prems" by simp
    finally show ?thesis by (intro zdiv_less) simp_all
  qed
  ultimately show ?case
    using "1.IH" [of "Uint32 r" ?v ?r] "1.prems"
    by (subst (1 2) lemireLoop.simps) (auto simp: Uint32_def Int63_def Let_def)
qed

lemma int31n_less: "0 < n \<Longrightarrow> fst (int31n n r) < n"
  using lemireLoop_range [of "int n" r] by (simp add: int31n_def case_prod_beta Let_def nat_less_iff)

section \<open>The contract of an index draw\<close>

lemma mset_swapAt [simp]: "i < length xs \<Longrightarrow> j < length xs \<Longrightarrow> mset (swapAt i j xs) = mset xs"
  unfolding swapAt_def by (rule mset_swap)

lemma length_swapAt [simp]: "length (swapAt i j xs) = length xs"
  by (simp add: swapAt_def)

text \<open>
  What the programs rely on of \<open>Intn\<close> and \<open>int31n\<close>: the index is in range. Picking by a drawn
  index gives an element, and swapping with drawn indices only permutes.
\<close>

locale index_draw =
  fixes draw :: "nat \<Rightarrow> rng \<Rightarrow> nat \<times> rng"
  assumes draw_less: "0 < n \<Longrightarrow> fst (draw n r) < n"
begin

lemma draw_in: "xs \<noteq> [] \<Longrightarrow> xs ! fst (draw (length xs) r) \<in> set xs"
  by (simp add: draw_less)

fun swapDown :: "nat \<Rightarrow> 'a list \<Rightarrow> rng \<Rightarrow> 'a list \<times> rng" where
  "swapDown 0 xs r = (xs, r)"
| "swapDown (Suc i) xs r = (let (j, r) = draw (Suc i + 1) r in swapDown i (swapAt (Suc i) j xs) r)"

lemma mset_swapDown: "i < length xs \<Longrightarrow> mset (fst (swapDown i xs r)) = mset xs"
proof (induction i xs r rule: swapDown.induct)
  case (2 i xs r)
  then show ?case using draw_less [of "Suc i + 1" r] by (auto simp: case_prod_beta Let_def)
qed simp

end

interpretation intn: index_draw Intn
  by unfold_locales (rule Intn_less)

interpretation lemire: index_draw int31n
  by unfold_locales (rule int31n_less)

lemma shuffleLoop_swapDown: "shuffleLoop i xs r = lemire.swapDown i xs r"
  by (induction i xs r rule: shuffleLoop.induct) (simp_all add: case_prod_beta Let_def)

lemma mset_Shuffle: "mset (fst (Shuffle xs r)) = mset xs"
  by (cases xs) (simp_all add: Shuffle_def shuffleLoop_swapDown lemire.mset_swapDown)

section \<open>\<open>Perm\<close> is a permutation\<close>

lemma perm_step:
  assumes "length m = n" "i < n" "j \<le> i" "mset (take i m) = mset [0..<i]"
  shows "mset (take (Suc i) ((m[i := m ! j])[j := i])) = mset [0..<Suc i]"
proof (cases "j = i")
  case True
  then show ?thesis using assms by (simp add: take_Suc_conv_app_nth take_update_cancel)
next
  case False
  then have j: "j < i" using assms(3) by simp
  have "take (Suc i) ((m[i := m ! j])[j := i]) = (take i m)[j := i] @ [m ! j]"
    using assms(1,2) j by (intro nth_equalityI) (auto simp: nth_append nth_list_update less_Suc_eq)
  moreover have "mset ((take i m)[j := i]) = add_mset i (mset (take i m) - {#m ! j#})"
    using j assms(1,2) by (simp add: mset_update)
  moreover have "m ! j \<in># mset (take i m)"
    using j assms(1,2) by (auto simp: in_set_conv_nth intro!: exI [of _ j])
  ultimately show ?thesis using assms(4) by simp
qed

lemma permLoop_mset:
  assumes "length m = n" "i \<le> n" "mset (take i m) = mset [0..<i]"
  shows "mset (fst (permLoop n m [i..<n] r)) = mset [0..<n]"
  using assms
proof (induction "n - i" arbitrary: m i r)
  case 0
  then show ?case by simp
next
  case (Suc k)
  then have i: "i < n" by simp
  obtain j r' where j: "Intn (i + 1) r = (j, r')" by force
  then have "j \<le> i" using Intn_less [of "i + 1" r] by simp
  then have "mset (take (Suc i) ((m[i := m ! j])[j := i])) = mset [0..<Suc i]"
    using perm_step [OF Suc.prems(1) i] Suc.prems(3) by blast
  then show ?case
    using Suc.hyps(1) [of "Suc i" "(m[i := m ! j])[j := i]" r'] Suc.hyps(2) Suc.prems(1) i j
    by (simp add: upt_conv_Cons)
qed

lemma mset_Perm: "mset (fst (Perm n r)) = mset [0..<n]"
  unfolding Perm_def by (rule permLoop_mset) simp_all

lemma set_Perm [simp]: "set (fst (Perm n r)) = {0..<n}"
  using mset_Perm [of n r] by (metis set_mset_mset set_upt)

lemma distinct_Perm [simp]: "distinct (fst (Perm n r))"
  using mset_Perm [of n r] by (metis distinct_upt mset_eq_imp_distinct_iff)

lemma length_Perm [simp]: "length (fst (Perm n r)) = n"
  using mset_Perm [of n r] by (metis length_upt minus_nat.diff_0 size_mset)

end
