(* ===== verification/ConnModel.thy ===== *)
theory ConnModel
  imports DeadResult GoRand
begin

text \<open>
  The simulator's peer-slot model (\<open>src/cmd/simnet/conn_model.go\<close>): the connection table with its
  slot budgets, dialing, disconnects, session departures and returns, the disconnect driver and
  the session lengths of session churn. Every method body under the table's mutex is one
  definition; \<open>depart\<close>, which releases the mutex between marking the node offline and each drop,
  is also split into its steps for the interleaving theorems. \<open>now\<close> is the \<open>time.Now()\<close> the call
  reads. A Go map iteration in unspecified order takes the order as a parameter.
\<close>

section \<open>The table\<close>

record 'id connTable =
  idxOf :: "('id, nat) gomap"
  ids :: "'id list"
  outC :: "int list"
  inC :: "int list"
  peers :: "nat set list"
  outPeers :: "nat set list"
  wake :: "bool list"
  offline :: "bool list"
  dead :: "'id deadResultTracker option"
  lookupOnly :: bool
  lostAt :: "gotime list list"
  maxOut :: int
  maxIn :: int
  rejectedFull :: int
  dupDropped :: int
  disconnects :: int
  departs :: int
  losses :: int
  refills :: int
  refillTotalMs :: int

definition newConnTable :: "'id list \<Rightarrow> int \<Rightarrow> int \<Rightarrow> 'id connTable" where
  "newConnTable all maxPeers dialRatio =
     (let dialRatio = (if dialRatio < 1 then 1 else dialRatio);
          mo = maxPeers sdiv dialRatio;
          mo = (if mo < 1 then 1 else mo);
          n = length all
      in \<lparr>idxOf = fold (\<lambda>(i, nid) m. mput nid i m) (enumerate 0 all) [],
          ids = all, outC = replicate n 0, inC = replicate n 0,
          peers = replicate n {}, outPeers = replicate n {},
          wake = replicate n False, offline = replicate n False, dead = None,
          lookupOnly = False, lostAt = replicate n [], maxOut = mo, maxIn = maxPeers - mo,
          rejectedFull = 0, dupDropped = 0, disconnects = 0, departs = 0, losses = 0,
          refills = 0, refillTotalMs = 0\<rparr>)"

section \<open>Operations\<close>

text \<open>A non-blocking send on a channel of capacity one.\<close>

definition signalWake :: "nat \<Rightarrow> 'id connTable \<Rightarrow> 'id connTable" where
  "signalWake i c = c\<lparr>wake := (wake c)[i := True]\<rparr>"

definition dropConn :: "gotime \<Rightarrow> nat \<Rightarrow> nat \<Rightarrow> bool \<Rightarrow> 'id connTable \<Rightarrow> bool \<times> 'id connTable" where
  "dropConn now from to wakeDialer c =
     (if to \<notin> outPeers c ! from then (False, c)
      else let c = c\<lparr>outPeers := (outPeers c)[from := outPeers c ! from - {to}]\<rparr>;
               c = c\<lparr>peers := (peers c)[from := peers c ! from - {to}]\<rparr>;
               c = c\<lparr>peers := (peers c)[to := peers c ! to - {from}]\<rparr>;
               c = c\<lparr>outC := (outC c)[from := outC c ! from - 1],
                     inC := (inC c)[to := inC c ! to - 1],
                     disconnects := disconnects c + 1\<rparr>;
               c = (if wakeDialer
                    then c\<lparr>losses := losses c + 1,
                           lostAt := (lostAt c)[from := lostAt c ! from @ [now]]\<rparr>
                    else c)
           in (True, if wakeDialer then signalWake from c else c))"

definition disconnect :: "gotime \<Rightarrow> nat \<Rightarrow> nat \<Rightarrow> 'id connTable \<Rightarrow> bool \<times> 'id connTable" where
  "disconnect now from to c = dropConn now from to True c"

definition isOffline :: "'id connTable \<Rightarrow> nat \<Rightarrow> bool" where
  "isOffline c i = offline c ! i"

definition shouldPark :: "'id connTable \<Rightarrow> nat \<Rightarrow> bool" where
  "shouldPark c i \<longleftrightarrow> offline c ! i \<or> outC c ! i \<ge> maxOut c"

definition outboundFull :: "'id connTable \<Rightarrow> nat \<Rightarrow> bool" where
  "outboundFull c i \<longleftrightarrow> outC c ! i \<ge> maxOut c"

text \<open>
  \<open>dropRandom\<close>: up to \<open>count * 20\<close> attempts (the fuel of the loop). \<open>pick\<close> is the first key the map
  iteration of \<open>outPeers[i]\<close> meets, \<open>None\<close> when the map is empty.
\<close>

fun dropLoop :: "gotime \<Rightarrow> (nat set \<Rightarrow> nat option) \<Rightarrow> nat \<Rightarrow> nat \<Rightarrow> nat \<Rightarrow> rng \<Rightarrow> 'id connTable
    \<Rightarrow> nat \<times> rng \<times> 'id connTable" where
  "dropLoop now pick cnt 0 dropped r c = (dropped, r, c)"
| "dropLoop now pick cnt (Suc left) dropped r c =
     (if dropped < cnt then
        let (i, r) = Intn (length (outC c)) r
        in case pick (outPeers c ! i) of
             None \<Rightarrow> dropLoop now pick cnt left dropped r c
           | Some target \<Rightarrow>
               let (ok, c) = disconnect now i target c
               in dropLoop now pick cnt left (if ok then dropped + 1 else dropped) r c
      else (dropped, r, c))"

definition dropRandom :: "gotime \<Rightarrow> (nat set \<Rightarrow> nat option) \<Rightarrow> nat \<Rightarrow> rng \<Rightarrow> 'id connTable
    \<Rightarrow> nat \<times> rng \<times> 'id connTable" where
  "dropRandom now pick cnt r c = dropLoop now pick cnt (cnt * 20) 0 r c"

text \<open>One tick of \<open>runDisconnectDriver\<close>: drop \<open>fraction\<close> of the live connections, at least one.\<close>

definition disconnectTick :: "gotime \<Rightarrow> (nat set \<Rightarrow> nat option) \<Rightarrow> float64 \<Rightarrow> rng \<Rightarrow> 'id connTable
    \<Rightarrow> nat \<times> rng \<times> 'id connTable" where
  "disconnectTick now pick fraction r c =
     (let live = sum_list (outC c);
          n = truncInt (fmul (ofInt live) fraction);
          n = (if n < 1 then 1 else n)
      in dropRandom now pick (nat n) r c)"

definition dial :: "gotime \<Rightarrow> nat \<Rightarrow> 'id \<Rightarrow> 'id connTable \<Rightarrow> (bool \<times> bool) \<times> 'id connTable" where
  "dial now from to c =
     (case map_of (idxOf c) to of
        None \<Rightarrow> ((False, False), c)
      | Some j \<Rightarrow>
          if j = from \<or> offline c ! from then ((False, False), c)
          else if j \<in> peers c ! from then ((False, False), c\<lparr>dupDropped := dupDropped c + 1\<rparr>)
          else if outC c ! from \<ge> maxOut c then ((False, False), c)
          else if offline c ! j \<or> inC c ! j \<ge> maxIn c
               then ((False, True), c\<lparr>rejectedFull := rejectedFull c + 1\<rparr>)
          else
            let c = c\<lparr>outC := (outC c)[from := outC c ! from + 1],
                      inC := (inC c)[j := inC c ! j + 1]\<rparr>;
                c = c\<lparr>peers := (peers c)[from := insert j (peers c ! from)]\<rparr>;
                c = c\<lparr>peers := (peers c)[j := insert from (peers c ! j)]\<rparr>;
                c = c\<lparr>outPeers := (outPeers c)[from := insert j (outPeers c ! from)]\<rparr>
            in ((True, False),
                case lostAt c ! from of
                  [] \<Rightarrow> c
                | t # q \<Rightarrow> c\<lparr>refills := refills c + 1,
                            refillTotalMs := refillTotalMs c + Milliseconds (now - t),
                            lostAt := (lostAt c)[from := q]\<rparr>))"

definition recentlyDialed :: "gotime \<Rightarrow> ('id, gotime) gomap \<Rightarrow> 'id \<Rightarrow> duration \<Rightarrow> bool" where
  "recentlyDialed now lastDial nid wait =
     (if wait \<le> 0 then False
      else case map_of lastDial nid of None \<Rightarrow> False | Some t \<Rightarrow> now - t < wait)"

definition pctInt :: "int list \<Rightarrow> nat \<Rightarrow> int" where
  "pctInt xs p = (if xs = [] then 0 else xs ! ((p * (length xs - 1)) div 100))"

section \<open>Departures and returns\<close>

text \<open>
  \<open>depart\<close> splits the peers into those it dialed and those that dialed it, marks the node under
  the mutex, and then drops one connection at a time. \<open>ord\<close> is the order of the map iteration.
\<close>

definition departDialed :: "(nat set \<Rightarrow> nat list) \<Rightarrow> nat \<Rightarrow> 'id connTable \<Rightarrow> nat list" where
  "departDialed ord i c = filter (\<lambda>j. j \<in> outPeers c ! i) (ord (peers c ! i))"

definition departDialers :: "(nat set \<Rightarrow> nat list) \<Rightarrow> nat \<Rightarrow> 'id connTable \<Rightarrow> nat list" where
  "departDialers ord i c = filter (\<lambda>j. j \<notin> outPeers c ! i) (ord (peers c ! i))"

definition departMark :: "gotime \<Rightarrow> nat \<Rightarrow> 'id connTable \<Rightarrow> 'id connTable" where
  "departMark now i c =
     c\<lparr>offline := (offline c)[i := True], departs := departs c + 1,
       dead := map_option (markOffline (ids c ! i) now) (dead c),
       lostAt := (lostAt c)[i := []]\<rparr>"

definition depart :: "gotime \<Rightarrow> (nat set \<Rightarrow> nat list) \<Rightarrow> nat \<Rightarrow> 'id connTable \<Rightarrow> 'id connTable" where
  "depart now ord i c =
     (let dialed = departDialed ord i c; dialers = departDialers ord i c;
          c = departMark now i c;
          c = fold (\<lambda>j c. snd (dropConn now i j False c)) dialed c
      in fold (\<lambda>j c. snd (disconnect now j i c)) dialers c)"

definition rejoin :: "nat \<Rightarrow> 'id connTable \<Rightarrow> 'id connTable" where
  "rejoin i c =
     signalWake i (c\<lparr>offline := (offline c)[i := False],
                     dead := map_option (markOnline (ids c ! i)) (dead c)\<rparr>)"

section \<open>Session lengths\<close>

definition sessionCDF :: "(float64 \<times> float64) list" where
  "sessionCDF = map (\<lambda>(u, s). (fl u, fl s))
    [(3214/10000, 1190/100000), (5142/10000, 3571/100000), (5684/10000, 4762/100000),
     (6096/10000, 5952/100000), (6445/10000, 7143/100000), (6717/10000, 8333/100000),
     (6996/10000, 9524/100000), (7215/10000, 10714/100000), (7449/10000, 11905/100000),
     (7710/10000, 13095/100000), (8066/10000, 15476/100000), (8353/10000, 17857/100000),
     (8755/10000, 22619/100000), (9060/10000, 27381/100000), (9368/10000, 32143/100000),
     (9513/10000, 34524/100000), (9716/10000, 42857/100000), (9902/10000, 59524/100000),
     (1, 95238/100000)]"

text \<open>The interpolation loop over the table, with the previous entry \<open>(prev, lo)\<close>.\<close>

fun cdfScan :: "float64 \<Rightarrow> float64 \<Rightarrow> float64 \<Rightarrow> float64 \<Rightarrow> (float64 \<times> float64) list \<Rightarrow> float64" where
  "cdfScan u prev lo lastv [] = lastv"
| "cdfScan u prev lo lastv ((p, s) # rest) =
     (if u \<le> p then
        let span = fsub p prev
        in if span \<le> 0 then s else fadd lo (fdiv (fmul (fsub s lo) (fsub u prev)) span)
      else cdfScan u p s lastv rest)"

definition churnerSession :: "rng \<Rightarrow> float64 \<times> rng" where
  "churnerSession r = (let (u, r) = Float64 r
     in (cdfScan u 0 0 (snd (last sessionCDF)) sessionCDF, r))"

definition sessionLength :: "float64 \<Rightarrow> float64 \<Rightarrow> rng \<Rightarrow> (float64 \<times> bool) \<times> rng" where
  "sessionLength alwaysOn scale r =
     (let (u, r) = Float64 r
      in if u < alwaysOn then ((0, False), r)
         else let (s, r) = churnerSession r in ((fmul s scale, True), r))"

text \<open>
  \<open>runSessionChurn\<close>: the nodes that get a churn goroutine, with the first session and the
  goroutine's own generator; then one goroutine's loop, whose timer either fires or is stopped.
\<close>

fun sessionPlan :: "(int \<Rightarrow> source) \<Rightarrow> duration \<Rightarrow> float64 \<Rightarrow> float64 \<Rightarrow> int \<Rightarrow> nat list \<Rightarrow> rng
    \<Rightarrow> (nat \<times> duration \<times> rng) list" where
  "sessionPlan src window alwaysOn scale seed [] r = []"
| "sessionPlan src window alwaysOn scale seed (i # is) r =
     (let ((fraction, churns), r) = sessionLength alwaysOn scale r
      in if \<not> churns \<or> i = 0 then sessionPlan src window alwaysOn scale seed is r
         else (i, truncInt (fmul fraction (ofInt window)), randNew src (seed + int i * 2654435761))
              # sessionPlan src window alwaysOn scale seed is r)"

datatype sessionPhase = Online | Away | Done

definition sessionFire :: "gotime \<Rightarrow> (nat set \<Rightarrow> nat list) \<Rightarrow> duration \<Rightarrow> duration \<Rightarrow> float64 \<Rightarrow> nat
    \<Rightarrow> sessionPhase \<Rightarrow> rng \<Rightarrow> 'id connTable \<Rightarrow> (sessionPhase \<times> duration) \<times> rng \<times> 'id connTable"
where
  "sessionFire now ord window gap scale i ph r c =
     (case ph of
        Online \<Rightarrow> ((Away, gap), r, depart now ord i c)
      | Away \<Rightarrow> (let (s, r) = churnerSession r
                in ((Online, truncInt (fmul (fmul s scale) (ofInt window))), r, rejoin i c))
      | Done \<Rightarrow> ((Done, 0), r, c))"

text \<open>\<open>waitForTopology\<close> returns when there is nothing to wait for or a connection exists.\<close>

definition topologyReady :: "'id connTable \<Rightarrow> bool" where
  "topologyReady c \<longleftrightarrow> lookupOnly c \<or> sum_list (outC c) > 0"

section \<open>The report\<close>

record connReport =
  crOut :: "int \<times> int \<times> int \<times> int"
  crIn :: "int \<times> int \<times> int \<times> int"
  crFilled :: nat
  crSaturated :: nat

definition maxOrZero :: "int list \<Rightarrow> int" where
  "maxOrZero xs = (if xs = [] then 0 else last xs)"

definition report_ct :: "'id connTable \<Rightarrow> connReport" where
  "report_ct c =
     (let out = sort (outC c); inn = sort (inC c)
      in \<lparr>crOut = (pctInt out 5, pctInt out 50, pctInt out 95, maxOrZero out),
          crIn = (pctInt inn 5, pctInt inn 50, pctInt inn 95, maxOrZero inn),
          crFilled = length (filter (\<lambda>v. v \<ge> maxOut c) (outC c)),
          crSaturated = length (filter (\<lambda>v. v \<ge> maxIn c) (inC c))\<rparr>)"

section \<open>The abstract view: a directed graph with degree budgets\<close>

text \<open>
  The table's four arrays represent one set of directed connections \<open>E\<close>: \<open>outPeers\<close> are the
  successors, \<open>peers\<close> the neighbours either way, and the counters the degrees. No two nodes are
  connected twice.
\<close>

definition slotOk :: "nat \<Rightarrow> (nat \<times> nat) set \<Rightarrow> int list \<Rightarrow> int list \<Rightarrow> nat set list \<Rightarrow> nat set list \<Rightarrow> bool"
where
  "slotOk n E os ins ps ops \<longleftrightarrow>
     length os = n \<and> length ins = n \<and> length ps = n \<and> length ops = n
     \<and> E \<subseteq> {..<n} \<times> {..<n} \<and> (\<forall>i j. (i, j) \<in> E \<longrightarrow> (j, i) \<notin> E)
     \<and> (\<forall>i < n. ops ! i = E `` {i} \<and> ps ! i = E `` {i} \<union> E\<inverse> `` {i}
         \<and> os ! i = int (card (E `` {i})) \<and> ins ! i = int (card (E\<inverse> `` {i})))"

lemma slotOk_finite: "slotOk n E os ins ps ops \<Longrightarrow> finite (E `` {i}) \<and> finite (E\<inverse> `` {i})"
proof -
  assume "slotOk n E os ins ps ops"
  then have "E `` {i} \<subseteq> {..<n}" "E\<inverse> `` {i} \<subseteq> {..<n}" by (auto simp: slotOk_def)
  then show ?thesis using finite_subset finite_lessThan by blast
qed

lemma image_insert_edge:
  "insert (i, j) E `` {k} = (if k = i then insert j (E `` {k}) else E `` {k})"
  "(insert (i, j) E)\<inverse> `` {k} = (if k = j then insert i (E\<inverse> `` {k}) else E\<inverse> `` {k})"
  by auto

lemma image_remove_edge:
  "(E - {(i, j)}) `` {k} = (if k = i then E `` {k} - {j} else E `` {k})"
  "(E - {(i, j)})\<inverse> `` {k} = (if k = j then E\<inverse> `` {k} - {i} else E\<inverse> `` {k})"
  by auto

lemma slotOk_insert:
  assumes ok: "slotOk n E os ins ps ops" and ij: "i < n" "j < n" "i \<noteq> j" "j \<notin> ps ! i"
  shows "slotOk n (insert (i, j) E) (os[i := os ! i + 1]) (ins[j := ins ! j + 1])
    (ps[i := insert j (ps ! i), j := insert i (ps ! j)]) (ops[i := insert j (ops ! i)])"
proof -
  have new: "(i, j) \<notin> E" "(j, i) \<notin> E" using ok ij by (auto simp: slotOk_def)
  then have fresh: "j \<notin> E `` {i}" "i \<notin> E\<inverse> `` {j}" by auto
  show ?thesis
    using ok ij new fresh slotOk_finite [OF ok]
    unfolding slotOk_def image_insert_edge
    by (auto simp: nth_list_update card_insert_disjoint)
qed

lemma card_remove_int: "finite A \<Longrightarrow> x \<in> A \<Longrightarrow> int (card (A - {x})) = int (card A) - 1"
  using card_Suc_Diff1 [of A x] by linarith

lemma slotOk_remove:
  assumes ok: "slotOk n E os ins ps ops" and ij: "i < n" "j \<in> ops ! i"
  shows "slotOk n (E - {(i, j)}) (os[i := os ! i - 1]) (ins[j := ins ! j - 1])
    (ps[i := ps ! i - {j}, j := ps ! j - {i}]) (ops[i := ops ! i - {j}])"
proof -
  have e: "(i, j) \<in> E" "(j, i) \<notin> E" "j < n" "i \<noteq> j" using ok ij by (auto simp: slotOk_def)
  then have mem: "j \<in> E `` {i}" "i \<in> E\<inverse> `` {j}" by auto
  have c1: "int (card (E `` {i} - {j})) = int (card (E `` {i})) - 1"
    "int (card (E\<inverse> `` {j} - {i})) = int (card (E\<inverse> `` {j})) - 1"
    using mem slotOk_finite [OF ok] by (simp_all only: card_remove_int)
  show ?thesis
    using ok ij e c1
    unfolding slotOk_def image_remove_edge
    by (auto simp: nth_list_update)
qed

definition edges :: "'id connTable \<Rightarrow> (nat \<times> nat) set" where
  "edges c = {(i, j). i < length (ids c) \<and> j \<in> outPeers c ! i}"

definition connOk :: "'id connTable \<Rightarrow> bool" where
  "connOk c \<longleftrightarrow> slotOk (length (ids c)) (edges c) (outC c) (inC c) (peers c) (outPeers c)
     \<and> length (wake c) = length (ids c) \<and> length (offline c) = length (ids c)
     \<and> length (lostAt c) = length (ids c)
     \<and> (\<forall>nid i. map_of (idxOf c) nid = Some i \<longrightarrow> i < length (ids c) \<and> ids c ! i = nid)
     \<and> 1 \<le> maxOut c
     \<and> (\<forall>i < length (ids c). outC c ! i \<le> maxOut c \<and> inC c ! i \<le> max 0 (maxIn c))
     \<and> refills c + sum_list (map (int \<circ> length) (lostAt c)) \<le> losses c"

lemma edges_upd:
  "i < length (ids c) \<Longrightarrow> length (outPeers c) = length (ids c) \<Longrightarrow>
   edges (c\<lparr>outPeers := (outPeers c)[i := insert j (outPeers c ! i)]\<rparr>) = insert (i, j) (edges c)"
  "i < length (ids c) \<Longrightarrow> length (outPeers c) = length (ids c) \<Longrightarrow>
   edges (c\<lparr>outPeers := (outPeers c)[i := outPeers c ! i - {j}]\<rparr>) = edges c - {(i, j)}"
  by (auto simp: edges_def nth_list_update split: if_splits)

section \<open>Every operation keeps the invariant\<close>

lemma connOk_lengths:
  "connOk c \<Longrightarrow> length (outC c) = length (ids c) \<and> length (inC c) = length (ids c)
    \<and> length (peers c) = length (ids c) \<and> length (outPeers c) = length (ids c)
    \<and> length (wake c) = length (ids c) \<and> length (offline c) = length (ids c)
    \<and> length (lostAt c) = length (ids c)"
  by (simp add: connOk_def slotOk_def)

lemma connOk_frame [simp]:
  "connOk (c\<lparr>dupDropped := x\<rparr>) = connOk c" "connOk (c\<lparr>rejectedFull := x\<rparr>) = connOk c"
  "connOk (c\<lparr>disconnects := x\<rparr>) = connOk c" "connOk (c\<lparr>departs := x\<rparr>) = connOk c"
  "connOk (c\<lparr>dead := d\<rparr>) = connOk c" "connOk (c\<lparr>refillTotalMs := x\<rparr>) = connOk c"
  by (simp_all add: connOk_def edges_def)

lemma edges_frame [simp]:
  "edges (c\<lparr>dupDropped := x\<rparr>) = edges c" "edges (c\<lparr>rejectedFull := x\<rparr>) = edges c"
  "edges (c\<lparr>wake := w\<rparr>) = edges c" "edges (c\<lparr>outC := x1\<rparr>) = edges c"
  "edges (c\<lparr>inC := x1\<rparr>) = edges c" "edges (c\<lparr>peers := y\<rparr>) = edges c"
  "edges (c\<lparr>lostAt := z\<rparr>) = edges c" "edges (c\<lparr>refills := x\<rparr>) = edges c"
  "edges (c\<lparr>refillTotalMs := x\<rparr>) = edges c" "edges (c\<lparr>losses := x\<rparr>) = edges c"
  "edges (c\<lparr>disconnects := x\<rparr>) = edges c" "edges (c\<lparr>offline := w\<rparr>) = edges c"
  "edges (c\<lparr>departs := x\<rparr>) = edges c" "edges (c\<lparr>dead := d\<rparr>) = edges c"
  by (simp_all add: edges_def)

lemma sum_lengths_update:
  "i < length xs \<Longrightarrow> sum_list (map (int \<circ> length) (xs[i := q])) =
     sum_list (map (int \<circ> length) xs) - int (length (xs ! i)) + int (length q)"
  by (simp add: map_update sum_list_update_int)

lemma connOk_signalWake [simp, inv_intros]: "connOk c \<Longrightarrow> connOk (signalWake i c)"
  by (simp add: connOk_def signalWake_def)

lemma edges_signalWake [simp]: "edges (signalWake i c) = edges c"
  by (simp add: signalWake_def)

text \<open>A connection dropped: the edge is gone, and a woken dialer has one more slot to refill.\<close>

lemma dropConn_edges:
  assumes "connOk c" "i < length (ids c)"
  shows "edges (snd (dropConn now i j w c)) = edges c - {(i, j)}"
    and "fst (dropConn now i j w c) \<longleftrightarrow> (i, j) \<in> edges c"
proof -
  note len = connOk_lengths [OF assms(1)]
  show "edges (snd (dropConn now i j w c)) = edges c - {(i, j)}"
    using edges_upd(2) [of i c j] assms(2) len
    by (auto simp: dropConn_def Let_def edges_def nth_list_update signalWake_def split: if_splits)
  show "fst (dropConn now i j w c) \<longleftrightarrow> (i, j) \<in> edges c"
    using assms(2) by (simp add: dropConn_def Let_def edges_def)
qed

lemma dropConn_fields:
  fixes now :: gotime and w :: bool
  assumes "connOk c" "(i, j) \<in> edges c"
  defines "c' \<equiv> snd (dropConn now i j w c)"
  shows "ids c' = ids c" "idxOf c' = idxOf c" "maxOut c' = maxOut c" "maxIn c' = maxIn c"
    "offline c' = offline c" "dead c' = dead c" "refills c' = refills c"
    "outC c' = (outC c)[i := outC c ! i - 1]" "inC c' = (inC c)[j := inC c ! j - 1]"
    "peers c' = (peers c)[i := peers c ! i - {j}, j := peers c ! j - {i}]"
    "outPeers c' = (outPeers c)[i := outPeers c ! i - {j}]"
    "length (wake c') = length (wake c)"
    "losses c' = losses c + (if w then 1 else 0)"
    "lostAt c' = (if w then (lostAt c)[i := lostAt c ! i @ [now]] else lostAt c)"
proof -
  have "i \<noteq> j" "j \<in> outPeers c ! i" using assms(1,2) by (auto simp: connOk_def slotOk_def edges_def)
  then show "ids c' = ids c" "idxOf c' = idxOf c" "maxOut c' = maxOut c" "maxIn c' = maxIn c"
    "offline c' = offline c" "dead c' = dead c" "refills c' = refills c"
    "outC c' = (outC c)[i := outC c ! i - 1]" "inC c' = (inC c)[j := inC c ! j - 1]"
    "peers c' = (peers c)[i := peers c ! i - {j}, j := peers c ! j - {i}]"
    "outPeers c' = (outPeers c)[i := outPeers c ! i - {j}]"
    "length (wake c') = length (wake c)"
    "losses c' = losses c + (if w then 1 else 0)"
    "lostAt c' = (if w then (lostAt c)[i := lostAt c ! i @ [now]] else lostAt c)"
    by (simp_all add: c'_def dropConn_def Let_def signalWake_def)
qed

lemma connOk_dropConn [inv_intros]:
  assumes ok: "connOk c" and i: "i < length (ids c)"
  shows "connOk (snd (dropConn now i j w c))"
proof (cases "(i, j) \<in> edges c")
  case False
  then have "snd (dropConn now i j w c) = c" using i by (simp add: dropConn_def edges_def)
  then show ?thesis using ok by simp
next
  case True
  note f = dropConn_fields [OF ok True, of now w]
  have j: "j < length (ids c)" using ok True by (auto simp: connOk_def slotOk_def)
  have "slotOk (length (ids c)) (edges c - {(i, j)}) ((outC c)[i := outC c ! i - 1])
      ((inC c)[j := inC c ! j - 1]) ((peers c)[i := peers c ! i - {j}, j := peers c ! j - {i}])
      ((outPeers c)[i := outPeers c ! i - {j}])"
    using ok i True by (intro slotOk_remove) (auto simp: connOk_def edges_def)
  then show ?thesis
    using ok i j f connOk_lengths [OF ok]
    by (auto simp: connOk_def dropConn_edges [OF ok i] nth_list_update sum_lengths_update)
qed

text \<open>A connection dialed: both ends had a free slot and were online, and the edge is new.\<close>

lemma dial_edges:
  assumes ok: "connOk c" and i: "i < length (ids c)"
  shows "edges (snd (dial now i to c)) =
      (if fst (fst (dial now i to c)) then insert (i, the (map_of (idxOf c) to)) (edges c) else edges c)"
  using connOk_lengths [OF ok] i
  by (auto simp: dial_def Let_def edges_def nth_list_update split: option.splits list.splits if_splits)

lemma dial_success:
  assumes "fst (fst (dial now i to c))"
  obtains j where "map_of (idxOf c) to = Some j" "j \<noteq> i" "\<not> offline c ! i" "\<not> offline c ! j"
    "j \<notin> peers c ! i" "outC c ! i < maxOut c" "inC c ! j < maxIn c"
  using assms by (auto simp: dial_def Let_def split: option.splits if_splits)

lemma dial_fields:
  fixes now :: gotime
  assumes "fst (fst (dial now i to c))" "map_of (idxOf c) to = Some j"
  defines "c' \<equiv> snd (dial now i to c)"
  shows "ids c' = ids c" "idxOf c' = idxOf c" "maxOut c' = maxOut c" "maxIn c' = maxIn c"
    "offline c' = offline c" "dead c' = dead c" "losses c' = losses c" "wake c' = wake c"
    "outC c' = (outC c)[i := outC c ! i + 1]" "inC c' = (inC c)[j := inC c ! j + 1]"
    "peers c' = (peers c)[i := insert j (peers c ! i), j := insert i (peers c ! j)]"
    "outPeers c' = (outPeers c)[i := insert j (outPeers c ! i)]"
    "refills c' = refills c + (if lostAt c ! i = [] then 0 else 1)"
    "lostAt c' = (if lostAt c ! i = [] then lostAt c else (lostAt c)[i := tl (lostAt c ! i)])"
  using assms by (simp_all add: dial_def Let_def split: if_splits list.split)

lemma dial_fail: "\<not> fst (fst (dial now i to c)) \<Longrightarrow>
    snd (dial now i to c) = c \<or> snd (dial now i to c) = c\<lparr>dupDropped := dupDropped c + 1\<rparr>
    \<or> snd (dial now i to c) = c\<lparr>rejectedFull := rejectedFull c + 1\<rparr>"
  by (auto simp: dial_def Let_def split: option.splits if_splits)

lemma connOk_dial [inv_intros]:
  assumes ok: "connOk c" and i: "i < length (ids c)"
  shows "connOk (snd (dial now i to c))"
proof (cases "fst (fst (dial now i to c))")
  case False
  then show ?thesis using dial_fail [OF False] ok by auto
next
  case True
  then obtain j where j: "map_of (idxOf c) to = Some j" "j \<noteq> i" "j \<notin> peers c ! i"
    "outC c ! i < maxOut c" "inC c ! j < maxIn c" by (rule dial_success)
  have jn: "j < length (ids c)" using ok j(1) by (auto simp: connOk_def)
  note f = dial_fields [OF True j(1)]
  have "slotOk (length (ids c)) (insert (i, j) (edges c)) ((outC c)[i := outC c ! i + 1])
      ((inC c)[j := inC c ! j + 1])
      ((peers c)[i := insert j (peers c ! i), j := insert i (peers c ! j)])
      ((outPeers c)[i := insert j (outPeers c ! i)])"
    using ok i jn j by (intro slotOk_insert) (auto simp: connOk_def)
  moreover have "edges (snd (dial now i to c)) = insert (i, j) (edges c)"
    using dial_edges [OF ok i] True j(1) by simp
  ultimately show ?thesis
    using ok i jn j f connOk_lengths [OF ok]
    by (auto simp: connOk_def nth_list_update sum_lengths_update of_nat_diff Suc_le_eq)
qed

lemma map_of_idxOf:
  "map_of (fold (\<lambda>(i, nid) m. mput nid i m) (enumerate 0 all) []) nid = Some i
     \<Longrightarrow> i < length all \<and> all ! i = nid"
proof (induction all rule: rev_induct)
  case Nil
  then show ?case by simp
next
  case (snoc a all)
  then show ?case
    by (auto simp: enumerate_append_eq update_conv' nth_append split: if_splits)
qed

lemma connOk_new [inv_intros]: "connOk (newConnTable all mp dr)"
proof -
  have "edges (newConnTable all mp dr) = {}"
    by (auto simp: edges_def newConnTable_def Let_def)
  moreover have "sum_list (map (int \<circ> length) (replicate n [])) = 0" for n :: nat
    by (induction n) simp_all
  ultimately show ?thesis
    by (auto simp: connOk_def slotOk_def newConnTable_def Let_def dest: map_of_idxOf)
qed

lemma connOk_departMark [inv_intros]:
  "connOk c \<Longrightarrow> i < length (ids c) \<Longrightarrow> connOk (departMark now i c)"
  by (auto simp: connOk_def departMark_def sum_lengths_update)

lemma departMark_fields [simp]:
  "edges (departMark now i c) = edges c" "ids (departMark now i c) = ids c"
  "offline (departMark now i c) = (offline c)[i := True]"
  "maxOut (departMark now i c) = maxOut c" "maxIn (departMark now i c) = maxIn c"
  "peers (departMark now i c) = peers c" "outPeers (departMark now i c) = outPeers c"
  by (simp_all add: departMark_def)

lemma connOk_rejoin [inv_intros]: "connOk c \<Longrightarrow> connOk (rejoin i c)"
  unfolding rejoin_def by (intro connOk_signalWake) (simp add: connOk_def)

lemma rejoin_fields [simp]:
  "edges (rejoin i c) = edges c" "ids (rejoin i c) = ids c"
  "offline (rejoin i c) = (offline c)[i := False]"
  "maxOut (rejoin i c) = maxOut c" "maxIn (rejoin i c) = maxIn c"
  by (simp_all add: rejoin_def signalWake_def)

lemma dropConn_frame [simp]:
  "ids (snd (dropConn now i j w c)) = ids c" "offline (snd (dropConn now i j w c)) = offline c"
  "maxOut (snd (dropConn now i j w c)) = maxOut c" "maxIn (snd (dropConn now i j w c)) = maxIn c"
  "length (outC (snd (dropConn now i j w c))) = length (outC c)"
  by (simp_all add: dropConn_def Let_def signalWake_def)

lemma dial_frame [simp]:
  "ids (snd (dial now i to c)) = ids c" "offline (snd (dial now i to c)) = offline c"
  "maxOut (snd (dial now i to c)) = maxOut c" "maxIn (snd (dial now i to c)) = maxIn c"
  by (simp_all add: dial_def Let_def split: option.split list.split)

text \<open>
  \<open>dropRandom\<close> keeps the invariant, reports exactly the number of connections it closed, and
  never more than asked for.
\<close>

lemma dropConn_count:
  "connOk c \<Longrightarrow> i < length (ids c) \<Longrightarrow>
   disconnects (snd (dropConn now i j w c)) = disconnects c + (if fst (dropConn now i j w c) then 1 else 0)"
  by (simp add: dropConn_def Let_def signalWake_def)

lemma dropLoop_ok:
  assumes "connOk c" "ids c \<noteq> []" "dropped \<le> cnt"
    and "dropLoop now pick cnt left dropped r c = (d, r', c')"
  shows "connOk c' \<and> dropped \<le> d \<and> d \<le> cnt \<and> edges c' \<subseteq> edges c
    \<and> disconnects c' = disconnects c + int (d - dropped) \<and> ids c' = ids c"
  using assms
proof (induction now pick cnt left dropped r c rule: dropLoop.induct)
  case (2 now pick cnt left dropped r c)
  obtain i r1 where ir: "Intn (length (outC c)) r = (i, r1)" by force
  have len: "length (outC c) = length (ids c)" using connOk_lengths "2.prems"(1) by blast
  have i: "i < length (ids c)"
    using Intn_less [of "length (outC c)" r] ir len "2.prems"(2) by simp
  show ?case
  proof (cases "dropped < cnt")
    case False
    with "2.prems" show ?thesis by simp
  next
    case True
    show ?thesis
    proof (cases "pick (outPeers c ! i)")
      case None
      with True ir "2.prems" "2.IH"(1) [OF True, of "(i, r1)" i r1] show ?thesis by simp
    next
      case (Some t)
      obtain ok c1 where d: "disconnect now i t c = (ok, c1)" by force
      then have c1: "c1 = snd (dropConn now i t True c)" "ok = fst (dropConn now i t True c)"
        by (simp_all add: disconnect_def)
      have keep: "connOk c1" "ids c1 = ids c" "edges c1 \<subseteq> edges c"
        "disconnects c1 = disconnects c + (if ok then 1 else 0)"
        using connOk_dropConn [OF "2.prems"(1) i] dropConn_edges(1) [OF "2.prems"(1) i]
          dropConn_count [OF "2.prems"(1) i] c1 by auto
      from "2.prems"(4) True ir Some d
      have "dropLoop now pick cnt left (if ok then dropped + 1 else dropped) r1 c1 = (d, r', c')"
        by simp
      with "2.IH"(2) [OF True, of "(i, r1)" i r1 t "(ok, c1)" ok c1] ir Some d keep "2.prems"(2) True
      have "connOk c' \<and> (if ok then dropped + 1 else dropped) \<le> d \<and> d \<le> cnt \<and> edges c' \<subseteq> edges c1
          \<and> disconnects c' = disconnects c1 + int (d - (if ok then dropped + 1 else dropped))
          \<and> ids c' = ids c1" by auto
      then show ?thesis using keep by (cases ok) auto
    qed
  qed
qed simp

section \<open>Interleavings\<close>

text \<open>
  The searchers' dials, the disconnect driver and the churn goroutines run concurrently; each
  locked section is a step. A departing node's drops are pending until executed, one at a time:
  \<open>(owner, from, to, wakeDialer)\<close>. A node returns after its own drops are done.
\<close>

type_synonym pendingDrop = "nat \<times> nat \<times> nat \<times> bool"

definition departDrops :: "(nat set \<Rightarrow> nat list) \<Rightarrow> nat \<Rightarrow> 'id connTable \<Rightarrow> pendingDrop list" where
  "departDrops ord i c =
     map (\<lambda>j. (i, i, j, False)) (departDialed ord i c) @ map (\<lambda>j. (i, j, i, True)) (departDialers ord i c)"

inductive conn_run :: "'id list \<Rightarrow> int \<Rightarrow> int \<Rightarrow> 'id connTable \<Rightarrow> pendingDrop list \<Rightarrow> bool"
  for all :: "'id list" and mp dr :: int where
  start: "conn_run all mp dr (newConnTable all mp dr) []"
| config: "conn_run all mp dr c ps \<Longrightarrow> conn_run all mp dr (c\<lparr>dead := d, lookupOnly := b\<rparr>) ps"
| dials: "conn_run all mp dr c ps \<Longrightarrow> i < length all \<Longrightarrow> conn_run all mp dr (snd (dial now i to c)) ps"
| drops: "conn_run all mp dr c ps \<Longrightarrow> i < length all \<Longrightarrow>
    conn_run all mp dr (snd (disconnect now i j c)) ps"
| leaves: "conn_run all mp dr c ps \<Longrightarrow> i < length all \<Longrightarrow> set (ord (peers c ! i)) = peers c ! i \<Longrightarrow>
    conn_run all mp dr (departMark now i c) (ps @ departDrops ord i c)"
| works: "conn_run all mp dr c (xs @ (own, f, t, w) # ys) \<Longrightarrow>
    conn_run all mp dr (snd (dropConn now f t w c)) (xs @ ys)"
| returns: "conn_run all mp dr c ps \<Longrightarrow> i < length all \<Longrightarrow> \<forall>p \<in> set ps. fst p \<noteq> i \<Longrightarrow>
    conn_run all mp dr (rejoin i c) ps"
| wakes: "conn_run all mp dr c ps \<Longrightarrow> conn_run all mp dr (c\<lparr>wake := (wake c)[i := False]\<rparr>) ps"

text \<open>Every connection of an offline node is about to be dropped by that node's departure.\<close>

definition drainsOffline :: "'id connTable \<Rightarrow> pendingDrop list \<Rightarrow> bool" where
  "drainsOffline c ps \<longleftrightarrow>
     (\<forall>(own, f, t, w) \<in> set ps. f < length (ids c))
     \<and> (\<forall>i < length (ids c). offline c ! i \<longrightarrow>
         (\<forall>j. (i, j) \<in> edges c \<longrightarrow> (i, i, j, False) \<in> set ps)
         \<and> (\<forall>j. (j, i) \<in> edges c \<longrightarrow> (i, j, i, True) \<in> set ps))"

lemma edges_peers:
  "connOk c \<Longrightarrow> i < length (ids c) \<Longrightarrow> peers c ! i = {j. (i, j) \<in> edges c \<or> (j, i) \<in> edges c}"
  by (auto simp: connOk_def slotOk_def)

lemma edges_outPeers: "i < length (ids c) \<Longrightarrow> outPeers c ! i = {j. (i, j) \<in> edges c}"
  by (auto simp: edges_def)

lemma edges_bounded: "connOk c \<Longrightarrow> (i, j) \<in> edges c \<Longrightarrow> i < length (ids c) \<and> j < length (ids c)"
  by (auto simp: connOk_def slotOk_def)

lemma edges_asym: "connOk c \<Longrightarrow> (i, j) \<in> edges c \<Longrightarrow> (j, i) \<notin> edges c"
  by (auto simp: connOk_def slotOk_def)

lemma drains_leave:
  assumes ok: "connOk c" and d: "drainsOffline c ps" and i: "i < length (ids c)"
    and ord: "set (ord (peers c ! i)) = peers c ! i"
  shows "drainsOffline (departMark now i c) (ps @ departDrops ord i c)"
proof -
  have sets: "set (departDialed ord i c) = {j. (i, j) \<in> edges c}"
    "set (departDialers ord i c) = {j. (j, i) \<in> edges c}"
    using ord edges_asym [OF ok]
    by (auto simp: departDialed_def departDialers_def edges_peers [OF ok i] edges_outPeers [OF i])
  have "length (offline c) = length (ids c)" using connOk_lengths [OF ok] by blast
  then show ?thesis
    using d i sets edges_bounded [OF ok]
    by (auto simp: drainsOffline_def departDrops_def nth_list_update)
qed

lemma drains_dial:
  assumes ok: "connOk c" and d: "drainsOffline c ps" and i: "i < length (ids c)"
  shows "drainsOffline (snd (dial now i to c)) ps"
proof (cases "fst (fst (dial now i to c))")
  case False
  then show ?thesis using d dial_edges [OF ok i] by (simp add: drainsOffline_def)
next
  case True
  then obtain j where "map_of (idxOf c) to = Some j" "\<not> offline c ! i" "\<not> offline c ! j"
    by (rule dial_success)
  then show ?thesis using d dial_edges [OF ok i] True by (auto simp: drainsOffline_def)
qed

lemma drains_drop:
  assumes "connOk c" "drainsOffline c ps" "f < length (ids c)"
    and "set ps - {(own, f, t, w)} \<subseteq> set qs" "set qs \<subseteq> set ps" "own = f \<and> \<not> w \<or> own = t \<and> w"
  shows "drainsOffline (snd (dropConn now f t w c)) qs"
proof -
  have e: "edges (snd (dropConn now f t w c)) = edges c - {(f, t)}"
    by (rule dropConn_edges(1) [OF assms(1,3)])
  have "(i, i, j, False) \<in> set qs" if "i < length (ids c)" "offline c ! i" "(i, j) \<in> edges c - {(f, t)}" for i j
    using that assms(2,4,6) by (auto simp: drainsOffline_def)
  moreover have "(i, j, i, True) \<in> set qs" if "i < length (ids c)" "offline c ! i" "(j, i) \<in> edges c - {(f, t)}" for i j
    using that assms(2,4,6) by (auto simp: drainsOffline_def)
  ultimately show ?thesis using assms(2,5) e by (auto simp: drainsOffline_def)
qed

lemma conn_run_inv:
  assumes "conn_run all mp dr c ps"
  shows "connOk c \<and> drainsOffline c ps \<and> ids c = all
    \<and> maxOut c = maxOut (newConnTable all mp dr) \<and> maxIn c = maxIn (newConnTable all mp dr)
    \<and> (\<forall>(own, f, t, w) \<in> set ps. own = f \<and> \<not> w \<or> own = t \<and> w)"
  using assms
proof induction
  case start
  then show ?case
    by (simp add: connOk_new drainsOffline_def) (simp add: newConnTable_def Let_def)
next
  case (config c ps d b)
  then show ?case by (auto simp: connOk_def drainsOffline_def edges_def)
next
  case (dials c ps i now to)
  then show ?case by (auto simp: connOk_dial drains_dial)
next
  case (drops c ps i now j)
  moreover from drops have "edges (snd (dropConn now i j True c)) \<subseteq> edges c"
    using dropConn_edges(1) by blast
  ultimately show ?case by (auto simp: disconnect_def connOk_dropConn drainsOffline_def)
next
  case (leaves c ps i ord now)
  then show ?case by (auto simp: connOk_departMark drains_leave) (auto simp: departDrops_def)
next
  case (works c xs own f t w ys now)
  then have f: "f < length (ids c)" and "own = f \<and> \<not> w \<or> own = t \<and> w"
    by (auto simp: drainsOffline_def)
  then have "drainsOffline (snd (dropConn now f t w c)) (xs @ ys)"
    using works.IH by (intro drains_drop [where own = own and ps = "xs @ (own, f, t, w) # ys"]) auto
  then show ?case using works.IH f by (auto simp: connOk_dropConn)
next
  case (returns c ps i)
  then show ?case
    by (auto simp: connOk_rejoin drainsOffline_def nth_list_update connOk_lengths split: if_splits)
next
  case (wakes c ps i)
  then show ?case by (auto simp: connOk_def drainsOffline_def edges_def)
qed

section \<open>Properties\<close>

lemma newConnTable_budget:
  "1 \<le> mp \<Longrightarrow> maxOut (newConnTable all mp dr) \<le> mp"
  "maxIn (newConnTable all mp dr) = mp - maxOut (newConnTable all mp dr)"
proof -
  assume "1 \<le> mp"
  moreover have "mp div d \<le> mp" if "1 \<le> d" for d
    using zdiv_mono2 [of mp 1 d] that \<open>1 \<le> mp\<close> by simp
  ultimately show "maxOut (newConnTable all mp dr) \<le> mp"
    by (simp add: newConnTable_def Let_def sdiv_nonneg)
next
  show "maxIn (newConnTable all mp dr) = mp - maxOut (newConnTable all mp dr)"
    by (simp add: newConnTable_def Let_def)
qed

text \<open>
  C5: In every interleaving of dials, disconnects, departures, pending drops and returns, a node's
  outbound counter is the number of nodes it dialed and never exceeds the outbound budget, its
  inbound counter is the number of nodes connected to it that it did not dial and never exceeds the
  inbound budget, connections are symmetric, and a node never holds more than \<open>maxPeers\<close> peers.
\<close>

theorem conn_slot_budget:
  assumes "conn_run all mp dr c ps" "i < length all" "1 \<le> mp"
  shows "outC c ! i = int (card (outPeers c ! i)) \<and> outC c ! i \<le> maxOut c
    \<and> inC c ! i = int (card (peers c ! i - outPeers c ! i)) \<and> inC c ! i \<le> maxIn c
    \<and> int (card (peers c ! i)) \<le> mp
    \<and> (\<forall>j \<in> peers c ! i. j < length all \<and> j \<noteq> i \<and> i \<in> peers c ! j)"
proof -
  note inv = conn_run_inv [OF assms(1)]
  then have ok: "connOk c" and n: "length (ids c) = length all" by auto
  have i: "i < length (ids c)" using assms(2) n by simp
  have s: "slotOk (length (ids c)) (edges c) (outC c) (inC c) (peers c) (outPeers c)"
    using ok by (simp add: connOk_def)
  have budget: "maxIn c = mp - maxOut c" "maxOut c \<le> mp"
    using inv newConnTable_budget [where mp = mp and all = all and dr = dr] assms(3) by auto
  have sets: "outPeers c ! i = edges c `` {i}" "peers c ! i = edges c `` {i} \<union> (edges c)\<inverse> `` {i}"
    "outC c ! i = int (card (edges c `` {i}))" "inC c ! i = int (card ((edges c)\<inverse> `` {i}))"
    using s i by (auto simp: slotOk_def)
  have disj: "edges c `` {i} \<inter> (edges c)\<inverse> `` {i} = {}" using edges_asym [OF ok] by auto
  then have diff: "peers c ! i - outPeers c ! i = (edges c)\<inverse> `` {i}" using sets by auto
  have "int (card (peers c ! i)) = outC c ! i + inC c ! i"
    using sets disj slotOk_finite [OF s] by (simp add: card_Un_disjoint)
  moreover have "outC c ! i \<le> maxOut c" "inC c ! i \<le> maxIn c"
    using ok i budget by (auto simp: connOk_def)
  moreover have "j < length all \<and> j \<noteq> i \<and> i \<in> peers c ! j" if "j \<in> peers c ! i" for j
  proof -
    have "(i, i) \<notin> edges c" using edges_asym [OF ok] by blast
    then show ?thesis using that edges_peers [OF ok] edges_bounded [OF ok] i n by auto
  qed
  ultimately show ?thesis using sets diff budget by auto
qed

definition twoNodes :: "int connTable" where
  "twoNodes = newConnTable [10, 20] 4 2"

lemma twoNodes_fields:
  "idxOf twoNodes = [(10, 0), (20, 1)]" "ids twoNodes = [10, 20]" "outC twoNodes = [0, 0]"
  "inC twoNodes = [0, 0]" "peers twoNodes = [{}, {}]" "outPeers twoNodes = [{}, {}]"
  "offline twoNodes = [False, False]" "maxOut twoNodes = 2" "maxIn twoNodes = 2"
  by (simp_all add: twoNodes_def newConnTable_def Let_def)

lemma edges_twoNodes: "edges twoNodes = {}"
proof -
  have "outPeers twoNodes ! i = {}" if "i < 2" for i
    using that less_2_cases [OF that] by (auto simp: twoNodes_fields)
  then show ?thesis by (auto simp: edges_def twoNodes_fields)
qed

lemma dialed_run: "conn_run [10, 20] 4 2 (snd (dial 0 0 20 twoNodes)) []"
  unfolding twoNodes_def by (intro conn_run.dials conn_run.start) simp

theorem conn_slot_budget_witness:
  "outC (snd (dial 0 0 20 twoNodes)) ! 0 = 1 \<and> int (card (peers (snd (dial 0 0 20 twoNodes)) ! 1)) \<le> 4"
  using conn_slot_budget [OF dialed_run, of 0] conn_slot_budget [OF dialed_run, of 1]
  by (simp add: twoNodes_def newConnTable_def dial_def Let_def)

text \<open>
  C17: A node that departed and whose departure has executed all of its drops is isolated until it
  returns, whatever the other goroutines did meanwhile: no peers, no slot in use.
\<close>

theorem departed_node_isolated:
  assumes "conn_run all mp dr c ps" "i < length all" "offline c ! i" "\<forall>p \<in> set ps. fst p \<noteq> i"
  shows "peers c ! i = {} \<and> outPeers c ! i = {} \<and> outC c ! i = 0 \<and> inC c ! i = 0
    \<and> (\<forall>j < length all. i \<notin> peers c ! j)"
proof -
  note inv = conn_run_inv [OF assms(1)]
  then have ok: "connOk c" and i: "i < length (ids c)" using assms(2) by auto
  have "drainsOffline c ps" using inv by simp
  then have no: "(i, j) \<notin> edges c" "(j, i) \<notin> edges c" for j
    using assms(3,4) i unfolding drainsOffline_def by (metis fst_conv)+
  then have "edges c `` {i} = {}" "(edges c)\<inverse> `` {i} = {}" by auto
  then have "peers c ! i = {} \<and> outPeers c ! i = {} \<and> outC c ! i = 0 \<and> inC c ! i = 0"
    using ok i by (auto simp: connOk_def slotOk_def)
  moreover have "i \<notin> peers c ! j" if "j < length all" for j
    using that inv no edges_peers [OF ok, of j] by simp
  ultimately show ?thesis by blast
qed

definition ordAsc :: "nat set \<Rightarrow> nat list" where
  "ordAsc S = sorted_list_of_set S"

definition departedState :: "int connTable" where
  "departedState = snd (dropConn 5 0 1 False (departMark 5 0 (snd (dial 0 0 20 twoNodes))))"

lemma departed_run: "conn_run [10, 20] 4 2 departedState []"
proof -
  let ?c = "snd (dial 0 0 20 twoNodes)"
  have p: "peers ?c ! 0 = {1}" "outPeers ?c ! 0 = {1}"
    by (simp_all add: twoNodes_def newConnTable_def dial_def Let_def)
  then have d: "departDrops ordAsc 0 ?c = [(0, 0, 1, False)]"
    by (simp add: departDrops_def departDialed_def departDialers_def ordAsc_def)
  have "conn_run [10, 20] 4 2 (departMark 5 0 ?c) ([] @ departDrops ordAsc 0 ?c)"
    using p by (intro conn_run.leaves [OF dialed_run]) (simp_all add: ordAsc_def)
  then have "conn_run [10, 20] 4 2 (departMark 5 0 ?c) ([] @ (0, 0, 1, False) # [])" by (simp add: d)
  then have "conn_run [10, 20] 4 2 departedState ([] @ [])"
    unfolding departedState_def by (rule conn_run.works)
  then show ?thesis by simp
qed

theorem departed_node_isolated_witness: "inC departedState ! 0 = 0 \<and> 0 \<notin> peers departedState ! 1"
  using departed_node_isolated [OF departed_run, of 0]
  by (simp add: departedState_def twoNodes_def newConnTable_def dial_def Let_def)

text \<open>
  C27: What \<open>dial\<close> does on each of its branches: it connects exactly when the target is a known other
  node, both ends are online, they are not connected yet and both have a free slot, and then the
  set of connections grows by exactly that one; it reports a full target exactly when only the
  target is in the way; otherwise the connections do not change.
\<close>

theorem dial_spec:
  assumes "connOk c" "i < length (ids c)"
  shows "(fst (fst (dial now i to c)) \<longleftrightarrow> (\<exists>j. map_of (idxOf c) to = Some j \<and> j \<noteq> i
      \<and> \<not> offline c ! i \<and> j \<notin> peers c ! i \<and> outC c ! i < maxOut c
      \<and> \<not> offline c ! j \<and> inC c ! j < maxIn c))
    \<and> (snd (fst (dial now i to c)) \<longleftrightarrow> (\<exists>j. map_of (idxOf c) to = Some j \<and> j \<noteq> i
      \<and> \<not> offline c ! i \<and> j \<notin> peers c ! i \<and> outC c ! i < maxOut c
      \<and> (offline c ! j \<or> maxIn c \<le> inC c ! j)))
    \<and> edges (snd (dial now i to c)) =
      (if fst (fst (dial now i to c)) then insert (i, the (map_of (idxOf c) to)) (edges c) else edges c)"
proof (intro conjI)
  show "fst (fst (dial now i to c)) \<longleftrightarrow> (\<exists>j. map_of (idxOf c) to = Some j \<and> j \<noteq> i
      \<and> \<not> offline c ! i \<and> j \<notin> peers c ! i \<and> outC c ! i < maxOut c
      \<and> \<not> offline c ! j \<and> inC c ! j < maxIn c)"
    by (auto simp: dial_def Let_def split: option.split)
  show "snd (fst (dial now i to c)) \<longleftrightarrow> (\<exists>j. map_of (idxOf c) to = Some j \<and> j \<noteq> i
      \<and> \<not> offline c ! i \<and> j \<notin> peers c ! i \<and> outC c ! i < maxOut c
      \<and> (offline c ! j \<or> maxIn c \<le> inC c ! j))"
    by (auto simp: dial_def Let_def split: option.split)
qed (rule dial_edges [OF assms])

theorem dial_spec_witness: "fst (fst (dial 0 0 20 twoNodes)) \<and> edges (snd (dial 0 0 20 twoNodes)) = {(0, 1)}"
proof -
  have ok: "connOk twoNodes" "0 < length (ids twoNodes)"
    unfolding twoNodes_def by (simp_all add: connOk_new) (simp add: newConnTable_def Let_def)
  then show ?thesis
    using dial_spec [OF ok, of 0 20] by (simp add: twoNodes_fields edges_twoNodes)
qed

text \<open>
  C29: \<open>dropRandom\<close> keeps the table consistent, only removes connections, closes at most the
  requested number, and its return value is exactly the number it closed.
\<close>

theorem dropRandom_counts:
  assumes "connOk c" "ids c \<noteq> []" "dropRandom now pick cnt r c = (d, r', c')"
  shows "connOk c' \<and> d \<le> cnt \<and> edges c' \<subseteq> edges c \<and> disconnects c' = disconnects c + int d"
  using dropLoop_ok [OF assms(1,2) _ assms(3) [unfolded dropRandom_def]] by simp

definition pickMin :: "nat set \<Rightarrow> nat option" where
  "pickMin S = (case sorted_list_of_set S of [] \<Rightarrow> None | x # _ \<Rightarrow> Some x)"

theorem dropRandom_counts_witness:
  "fst (dropRandom 1 pickMin 0 (randNew (\<lambda>_. cycleSource) 7) (snd (dial 0 0 20 twoNodes))) \<le> 0"
proof -
  have "connOk (snd (dial 0 0 20 twoNodes))" "ids (snd (dial 0 0 20 twoNodes)) \<noteq> []"
    using conn_run_inv [OF dialed_run] by auto
  then show ?thesis
    using dropRandom_counts [of "snd (dial 0 0 20 twoNodes)" 1 pickMin 0 "randNew (\<lambda>_. cycleSource) 7"]
    by (metis prod.collapse)
qed

text \<open>
  The loss accounting: in every interleaving, the refilled slots together with the slots still
  waiting to be refilled never exceed the losses counted, so the refill rate the report prints is
  at most 100 per cent.
\<close>

theorem refills_le_losses:
  assumes "conn_run all mp dr c ps"
  shows "refills c + sum_list (map (int \<circ> length) (lostAt c)) \<le> losses c \<and> refills c \<le> losses c"
proof -
  have "refills c + sum_list (map (int \<circ> length) (lostAt c)) \<le> losses c"
    using conn_run_inv [OF assms] by (simp add: connOk_def)
  moreover have "0 \<le> sum_list (map (int \<circ> length) (lostAt c))" by (rule sum_list_nonneg) auto
  ultimately show ?thesis by simp
qed

theorem refills_le_losses_witness: "refills departedState \<le> losses departedState"
  using refills_le_losses [OF departed_run] by simp

text \<open>
  C25: When both ends of a connection depart concurrently, the accepting end's drop can run while
  the dialer is already offline: a loss is counted for the offline dialer and its queue of lost
  slots, cleared on departure, is non-empty again, although \<open>losses\<close> is documented to count slots
  of nodes that stay online.
\<close>

theorem offline_dialer_charged_loss:
  "\<exists>c ps. conn_run [10, 20 :: int] 4 2 c ps \<and> offline c ! 0 \<and> lostAt c ! 0 = [9] \<and> losses c = 1"
proof -
  let ?c = "snd (dial 0 0 20 twoNodes)"
  let ?ca = "departMark 5 0 ?c"
  let ?cb = "departMark 6 1 ?ca"
  have p: "peers ?c ! 0 = {1}" "outPeers ?c ! 0 = {1}" "peers ?c ! 1 = {0}" "outPeers ?c ! 1 = {}"
    by (simp_all add: twoNodes_def newConnTable_def dial_def Let_def)
  have "conn_run [10, 20] 4 2 ?ca ([] @ departDrops ordAsc 0 ?c)"
    using p by (intro conn_run.leaves [OF dialed_run]) (simp_all add: ordAsc_def)
  then have "conn_run [10, 20] 4 2 ?cb (([] @ departDrops ordAsc 0 ?c) @ departDrops ordAsc 1 ?ca)"
    by (rule conn_run.leaves) (use p in \<open>simp_all add: ordAsc_def\<close>)
  moreover have "departDrops ordAsc 1 ?ca = [(1, 0, 1, True)]"
    using p by (simp add: departDrops_def departDialed_def departDialers_def ordAsc_def)
  ultimately have "conn_run [10, 20] 4 2 (snd (dropConn 9 0 1 True ?cb)) (departDrops ordAsc 0 ?c @ [])"
    by (intro conn_run.works [where own = 1]) simp
  moreover have "offline (snd (dropConn 9 0 1 True ?cb)) ! 0 \<and> lostAt (snd (dropConn 9 0 1 True ?cb)) ! 0 = [9]
      \<and> losses (snd (dropConn 9 0 1 True ?cb)) = 1"
    by (simp add: twoNodes_def newConnTable_def dial_def dropConn_def signalWake_def departMark_def Let_def)
  ultimately show ?thesis by blast
qed

end
