(* ===== verification/Population.thy ===== *)
theory Population
  imports DeadResult GoRand
begin

text \<open>
  The simulator's populations: the registrants of each topic (\<open>src/cmd/simnet/membership.go\<close>), the
  nodes and their bootstrap samples (\<open>src/cmd/simnet/nodes.go\<close>), and the live population under
  steady-state churn with one round of the churn loop (\<open>src/cmd/simnet/workload_churn.go\<close>).
  \<open>spawnNode\<close> generates a fresh key, so the identity of a joiner is an argument (\<open>newId\<close>).
\<close>

section \<open>Topic membership\<close>

record 'id topicMembership =
  topicOf :: "('id, nat) gomap"
  byTopic :: "(nat, 'id set) gomap"

definition newTopicMembership :: "nat \<Rightarrow> 'id topicMembership" where
  "newTopicMembership numTopics =
     \<lparr>topicOf = [], byTopic = fold (\<lambda>t m. mput t {} m) [0..<numTopics] []\<rparr>"

definition add_tm :: "'id \<Rightarrow> nat \<Rightarrow> 'id topicMembership \<Rightarrow> 'id topicMembership" where
  "add_tm nid topic m =
     m\<lparr>topicOf := mput nid topic (topicOf m),
       byTopic := mput topic (insert nid (mget {} (byTopic m) topic)) (byTopic m)\<rparr>"

definition has :: "'id \<Rightarrow> nat \<Rightarrow> 'id topicMembership \<Rightarrow> bool" where
  "has nid topic m = (case map_of (topicOf m) nid of None \<Rightarrow> False | Some v \<Rightarrow> v = topic)"

definition topicFor :: "'id \<Rightarrow> 'id topicMembership \<Rightarrow> nat option" where
  "topicFor nid m = map_of (topicOf m) nid"

definition countTopic :: "nat \<Rightarrow> 'id topicMembership \<Rightarrow> nat" where
  "countTopic topic m = card (mget {} (byTopic m) topic)"

definition snapshot_tm :: "'id topicMembership \<Rightarrow> (nat, 'id set) gomap" where
  "snapshot_tm m = byTopic m"

section \<open>Nodes\<close>

record 'id nodeRec =
  nidx :: nat
  nid :: 'id
  nlegacy :: bool

definition defaultMaxBootnodes :: int where
  "defaultMaxBootnodes = 20"

text \<open>A seed of zero means the clock: \<open>unixNano\<close> is what \<open>time.Now().UnixNano()\<close> gives then.\<close>

definition pickLegacySet :: "(int \<Rightarrow> source) \<Rightarrow> int \<Rightarrow> nat \<Rightarrow> float64 \<Rightarrow> int \<Rightarrow> nat set" where
  "pickLegacySet src unixNano n fraction seed =
     (let cnt = truncInt (fmul (ofInt (int n)) fraction)
      in if cnt \<le> 0 then {}
         else let s = (if seed = 0 then unixNano else seed);
                  (perm, _) = Perm n (randNew src s)
              in set (take (nat cnt) perm))"

definition sampleBootnodes :: "'id nodeRec list \<Rightarrow> int \<Rightarrow> rng \<Rightarrow> 'id list \<times> rng" where
  "sampleBootnodes pool mx r =
     (case pool of
        [] \<Rightarrow> ([], r)
      | p # rest \<Rightarrow>
          let mx = (if mx \<le> 0 then defaultMaxBootnodes else mx);
              n = min (nat (mx - 1)) (length rest);
              (perm, r) = Perm (length rest) r
          in (nid p # map (\<lambda>i. nid (rest ! i)) (take n perm), r))"

section \<open>The live population\<close>

record 'id churnState =
  csAll :: "'id nodeRec list"
  alive :: "'id nodeRec list"
  aliveIdx :: "('id, nat) gomap"
  killed :: "('id, bool) gomap"
  nextIdx :: nat

definition newChurnState :: "'id nodeRec list \<Rightarrow> nat list \<Rightarrow> nat \<Rightarrow> 'id churnState" where
  "newChurnState initial activeIdx next =
     fold (\<lambda>i cs. cs\<lparr>aliveIdx := mput (nid (initial ! i)) (length (alive cs)) (aliveIdx cs),
                     alive := alive cs @ [initial ! i]\<rparr>)
       activeIdx \<lparr>csAll = initial, alive = [], aliveIdx = [], killed = [], nextIdx = next\<rparr>"

definition removeAt :: "nat \<Rightarrow> 'id churnState \<Rightarrow> 'id churnState" where
  "removeAt i cs =
     (let rec = alive cs ! i;
          final = length (alive cs) - 1;
          al = (alive cs)[i := alive cs ! final];
          ix = mput (nid (al ! i)) i (aliveIdx cs)
      in cs\<lparr>alive := take final al, aliveIdx := mdel (nid rec) ix,
            killed := mput (nid rec) True (killed cs)\<rparr>)"

definition leaveRandom :: "rng \<Rightarrow> 'id churnState \<Rightarrow> 'id nodeRec option \<times> rng \<times> 'id churnState" where
  "leaveRandom r cs =
     (if alive cs = [] then (None, r, cs)
      else let (i, r) = Intn (length (alive cs)) r
           in if nidx (alive cs ! i) = 0 then
                if length (alive cs) = 1 then (None, r, cs)
                else let (k, r) = Intn (length (alive cs) - 1) r;
                         i = (i + 1 + k) mod length (alive cs)
                     in (Some (alive cs ! i), r, removeAt i cs)
              else (Some (alive cs ! i), r, removeAt i cs))"

definition join :: "'id nodeRec \<Rightarrow> 'id churnState \<Rightarrow> 'id churnState" where
  "join rec cs =
     cs\<lparr>csAll := csAll cs @ [rec],
        aliveIdx := mput (nid rec) (length (alive cs)) (aliveIdx cs),
        alive := alive cs @ [rec]\<rparr>"

definition nextIndex :: "'id churnState \<Rightarrow> nat \<times> 'id churnState" where
  "nextIndex cs = (nextIdx cs, cs\<lparr>nextIdx := nextIdx cs + 1\<rparr>)"

definition aliveSample :: "int \<Rightarrow> rng \<Rightarrow> 'id churnState \<Rightarrow> 'id list \<times> rng" where
  "aliveSample mx r cs = sampleBootnodes (alive cs) mx r"

definition counts_cs :: "'id churnState \<Rightarrow> nat \<times> nat \<times> nat" where
  "counts_cs cs = (length (alive cs), length (killed cs), length (csAll cs))"

section \<open>One round of the churn loop\<close>

record 'id churnWorld =
  cwPop :: "'id churnState"
  cwMem :: "'id topicMembership"
  cwDead :: "'id deadResultTracker"
  cwRng :: rng

text \<open>The coin flips of the round: \<open>(wantJoins, wantLeaves)\<close>.\<close>

fun roundWants :: "bool \<Rightarrow> nat \<Rightarrow> nat \<times> nat \<Rightarrow> rng \<Rightarrow> (nat \<times> nat) \<times> rng" where
  "roundWants steady 0 w r = (w, r)"
| "roundWants steady (Suc c) (j, l) r =
     (if steady then
        let (u, r) = Float64 r
        in if u < 1/2 then roundWants steady c (j + 1, l) r else roundWants steady c (j, l + 1) r
      else roundWants steady c (j, l + 1) r)"

text \<open>The leaves: in kill-only mode the first failure ends the loop (\<open>exhausted\<close>).\<close>

fun roundLeaves :: "bool \<Rightarrow> gotime \<Rightarrow> nat \<Rightarrow> nat \<Rightarrow> 'id churnWorld \<Rightarrow> nat \<times> bool \<times> 'id churnWorld" where
  "roundLeaves steady now 0 leaves w = (leaves, False, w)"
| "roundLeaves steady now (Suc c) leaves w =
     (case leaveRandom (cwRng w) (cwPop w) of
        (None, r, cs) \<Rightarrow>
          let w = w\<lparr>cwRng := r, cwPop := cs\<rparr>
          in if steady then roundLeaves steady now c leaves w else (leaves, True, w)
      | (Some rec, r, cs) \<Rightarrow>
          roundLeaves steady now c (leaves + 1)
            (w\<lparr>cwRng := r, cwPop := cs, cwDead := markOffline (nid rec) now (cwDead w)\<rparr>))"

record 'id joinSpec =
  jsIdx :: nat
  jsBoot :: "'id list"
  jsTopic :: nat

fun joinSpecs :: "int \<Rightarrow> (rng \<Rightarrow> nat \<times> rng) \<Rightarrow> nat \<Rightarrow> 'id churnWorld \<Rightarrow> 'id joinSpec list \<times> 'id churnWorld"
where
  "joinSpecs maxBoot drawTopic 0 w = ([], w)"
| "joinSpecs maxBoot drawTopic (Suc c) w =
     (let (idx, cs) = nextIndex (cwPop w);
          (boot, r) = aliveSample maxBoot (cwRng w) cs;
          (t, r) = drawTopic r;
          (rest, w) = joinSpecs maxBoot drawTopic c (w\<lparr>cwPop := cs, cwRng := r\<rparr>)
      in (\<lparr>jsIdx = idx, jsBoot = boot, jsTopic = t\<rparr> # rest, w))"

definition joinOne :: "(nat \<Rightarrow> 'id) \<Rightarrow> 'id joinSpec \<Rightarrow> 'id churnWorld \<Rightarrow> 'id churnWorld" where
  "joinOne newId s w =
     (let rec = \<lparr>nidx = jsIdx s, nid = newId (jsIdx s), nlegacy = False\<rparr>
      in w\<lparr>cwMem := add_tm (nid rec) (jsTopic s) (cwMem w), cwPop := join rec (cwPop w)\<rparr>)"

text \<open>The round; the flag tells whether the loop ends here (pool drained in kill-only mode).\<close>

definition churnRound :: "bool \<Rightarrow> nat \<Rightarrow> int \<Rightarrow> (rng \<Rightarrow> nat \<times> rng) \<Rightarrow> (nat \<Rightarrow> 'id) \<Rightarrow> gotime
    \<Rightarrow> 'id churnWorld \<Rightarrow> (nat \<times> nat \<times> bool) \<times> 'id churnWorld" where
  "churnRound steady perRound maxBoot drawTopic newId now w =
     (let ((wantJoins, wantLeaves), r) = roundWants steady perRound (0, 0) (cwRng w);
          (leaves, exhausted, w) = roundLeaves steady now wantLeaves 0 (w\<lparr>cwRng := r\<rparr>);
          (specs, w) = joinSpecs maxBoot drawTopic wantJoins w;
          w = fold (joinOne newId) specs w
      in ((leaves, length specs, exhausted \<and> length specs = 0), w))"

definition perRoundOf :: "nat \<Rightarrow> float64 \<Rightarrow> nat" where
  "perRoundOf active fraction =
     (let n = truncInt (fmul (ofInt (int active)) fraction) in if n < 1 then 1 else nat n)"

text \<open>
  \<open>countKilledStillVisible\<close>; \<open>localNodes\<close> is what the host's topic tables hold for a topic
  (a query to the discovery library).
\<close>

definition countKilledStillVisible :: "'id nodeRec list \<Rightarrow> ('id, bool) gomap \<Rightarrow> 't list \<Rightarrow> int \<Rightarrow> rng
    \<Rightarrow> (nat \<Rightarrow> 't \<Rightarrow> 'id list) \<Rightarrow> nat \<times> nat" where
  "countKilledStillVisible nodes kl topics maxHosts r localNodes =
     (let nodes = (if maxHosts > 0 \<and> int (length nodes) > maxHosts
                   then take (nat maxHosts) (fst (Shuffle nodes r)) else nodes);
          live = filter (\<lambda>h. \<not> mget False kl (nid h)) nodes;
          visible = set (filter (mget False kl)
            (concat (map (\<lambda>h. concat (map (localNodes (nidx h)) topics)) live)))
      in (card visible, length live))"

section \<open>Membership is a map from nodes to topics\<close>

text \<open>
  The two indexes of the membership agree as long as no node is added twice with different topics,
  which the workload never does.
\<close>

definition memOk :: "'id topicMembership \<Rightarrow> bool" where
  "memOk m \<longleftrightarrow> (\<forall>t. finite (mget {} (byTopic m) t))
     \<and> (\<forall>x t. x \<in> mget {} (byTopic m) t \<longleftrightarrow> map_of (topicOf m) x = Some t)"

locale topic_index =
  fixes look :: "'id \<Rightarrow> 'm \<Rightarrow> nat option"
    and ins :: "'id \<Rightarrow> nat \<Rightarrow> 'm \<Rightarrow> 'm"
    and members :: "nat \<Rightarrow> 'm \<Rightarrow> 'id set"
    and ok :: "'m \<Rightarrow> bool"
  assumes look_ins: "look x (ins y t m) = (if x = y then Some t else look x m)"
    and members_look: "ok m \<Longrightarrow> members t m = {x. look x m = Some t}"
    and ok_ins: "ok m \<Longrightarrow> look y m \<in> {None, Some t} \<Longrightarrow> ok (ins y t m)"
begin

lemma ok_fold:
  assumes "ok m" "distinct (map fst xs)" "\<forall>(x, t) \<in> set xs. look x m = None"
  shows "ok (fold (\<lambda>(x, t). ins x t) xs m)
    \<and> (\<forall>x. look x (fold (\<lambda>(x, t). ins x t) xs m) =
          (case map_of xs x of Some t \<Rightarrow> Some t | None \<Rightarrow> look x m))"
  using assms
proof (induction xs arbitrary: m)
  case (Cons p xs)
  obtain x t where p: "p = (x, t)" by force
  have "ok (ins x t m)" using Cons.prems p by (intro ok_ins) auto
  moreover have "\<forall>(y, s) \<in> set xs. look y (ins x t m) = None"
    using Cons.prems p by (auto simp: look_ins rev_image_eqI)
  ultimately have IH: "ok (fold (\<lambda>(x, t). ins x t) xs (ins x t m))
    \<and> (\<forall>y. look y (fold (\<lambda>(x, t). ins x t) xs (ins x t m)) =
          (case map_of xs y of Some t \<Rightarrow> Some t | None \<Rightarrow> look y (ins x t m)))"
    using Cons.IH Cons.prems by simp
  have "map_of xs x = None" using Cons.prems p by (simp add: map_of_eq_None_iff)
  with IH p show ?case by (auto simp: look_ins split: option.split)
qed simp

lemma members_fold:
  assumes "ok m" "distinct (map fst xs)" "\<forall>(x, t) \<in> set xs. look x m = None"
  shows "members t (fold (\<lambda>(x, t). ins x t) xs m) = members t m \<union> {x. (x, t) \<in> set xs}"
proof -
  note ok = ok_fold [OF assms]
  have "x \<in> members t (fold (\<lambda>(x, t). ins x t) xs m) \<longleftrightarrow> x \<in> members t m \<or> (x, t) \<in> set xs" for x
    using ok members_look assms map_of_eq_Some_iff [OF assms(2), of x]
    by (cases "map_of xs x") auto
  then show ?thesis by auto
qed

end

lemma mget_fold_empty: "\<forall>t. mget {} b t = {} \<Longrightarrow> mget {} (fold (\<lambda>t m. mput t {} m) ts b) t = {}"
  by (induction ts arbitrary: b) simp_all

lemma memOk_new: "memOk (newTopicMembership n)"
  by (simp add: memOk_def newTopicMembership_def mget_fold_empty)

interpretation mem: topic_index topicFor add_tm "\<lambda>t m. mget {} (byTopic m) t" memOk
proof unfold_locales
  show "topicFor x (add_tm y t m) = (if x = y then Some t else topicFor x m)" for x y t and m :: "'a topicMembership"
    by (simp add: topicFor_def add_tm_def update_conv')
  show "memOk m \<Longrightarrow> mget {} (byTopic m) t = {x. topicFor x m = Some t}" for t and m :: "'a topicMembership"
    by (auto simp: memOk_def topicFor_def)
  show "memOk m \<Longrightarrow> topicFor y m \<in> {None, Some t} \<Longrightarrow> memOk (add_tm y t m)" for y t and m :: "'a topicMembership"
    by (auto simp: memOk_def topicFor_def add_tm_def update_conv')
qed

section \<open>The population invariant\<close>

definition popOk :: "'id churnState \<Rightarrow> bool" where
  "popOk cs \<longleftrightarrow> distinct (map nid (alive cs)) \<and> distinct (map nidx (alive cs))
     \<and> (\<forall>x i. map_of (aliveIdx cs) x = Some i \<longleftrightarrow> i < length (alive cs) \<and> nid (alive cs ! i) = x)
     \<and> mapOk (killed cs) \<and> (\<forall>n \<in> set (alive cs). \<not> mhas (killed cs) (nid n) \<and> nidx n < nextIdx cs)"

lemma swap_remove_mset:
  assumes "i < length xs"
  shows "mset (take (length xs - 1) (xs[i := xs ! (length xs - 1)])) = mset xs - {#xs ! i#}"
proof -
  have ne: "xs \<noteq> []" using assms by auto
  then obtain ys y where xs: "xs = ys @ [y]" by (meson rev_exhaust)
  show ?thesis
  proof (cases "i < length ys")
    case True
    then show ?thesis using xs by (simp add: list_update_append nth_append mset_update)
  next
    case False
    then have "i = length ys" using assms xs by simp
    then show ?thesis using xs by simp
  qed
qed

lemma swap_remove_nth:
  assumes "distinct xs" "i < length xs" "n = length xs - 1"
  shows "k < n \<and> take n (xs[i := xs ! n]) ! k = x \<longleftrightarrow>
    x \<noteq> xs ! i \<and> (if x = xs ! n then k = i else k < length xs \<and> xs ! k = x)"
proof -
  have n: "n < length xs" "length xs = Suc n" using assms by auto
  have eq: "xs ! a = xs ! b \<longleftrightarrow> a = b" if "a < length xs" "b < length xs" for a b
    using nth_eq_iff_index_eq [OF assms(1) that] .
  show ?thesis
  proof (cases "x = xs ! n")
    case True
    then show ?thesis
      using assms(2) n eq [of k n] eq [of n i] by (auto simp: nth_list_update split: if_splits)
  next
    case False
    have "k < n \<and> take n (xs[i := xs ! n]) ! k = x \<longleftrightarrow> k < n \<and> k \<noteq> i \<and> xs ! k = x"
      using False assms(2) n by (auto simp: nth_list_update)
    also have "\<dots> \<longleftrightarrow> x \<noteq> xs ! i \<and> k < length xs \<and> xs ! k = x"
      using False assms(2) n eq by (auto simp: less_Suc_eq)
    finally show ?thesis using False by simp
  qed
qed

lemma removeAt_fields [simp]:
  "csAll (removeAt i cs) = csAll cs" "nextIdx (removeAt i cs) = nextIdx cs"
  "killed (removeAt i cs) = mput (nid (alive cs ! i)) True (killed cs)"
  by (simp_all add: removeAt_def Let_def)

lemma mset_removeAt:
  "i < length (alive cs) \<Longrightarrow> mset (alive (removeAt i cs)) = mset (remove1 (alive cs ! i) (alive cs))"
  using swap_remove_mset [of i "alive cs"] by (simp add: removeAt_def Let_def)

lemma set_removeAt:
  assumes "popOk cs" "i < length (alive cs)"
  shows "set (alive (removeAt i cs)) = set (alive cs) - {alive cs ! i}"
proof -
  have "distinct (alive cs)" using assms(1) by (auto simp: popOk_def distinct_map)
  then show ?thesis
    using mset_eq_setD [OF mset_removeAt [OF assms(2)]] by (simp add: set_remove1_eq)
qed

lemma popOk_removeAt:
  assumes ok: "popOk cs" and i: "i < length (alive cs)"
  shows "popOk (removeAt i cs)"
proof -
  define n where "n = length (alive cs) - 1"
  have d: "distinct (map f (alive (removeAt i cs)))" if "distinct (map f (alive cs))" for f :: "'a nodeRec \<Rightarrow> 'b"
  proof -
    have "distinct (map f (remove1 (alive cs ! i) (alive cs)))"
      using that by (auto simp: distinct_map set_remove1_eq intro: inj_on_subset)
    then show ?thesis
      using mset_removeAt [OF i] by (metis mset_eq_imp_distinct_iff mset_map)
  qed
  have ids: "distinct (map nid (alive cs))" using ok by (simp add: popOk_def)
  have mapn: "map nid (alive (removeAt i cs)) = take n ((map nid (alive cs))[i := map nid (alive cs) ! n])"
    using i by (simp add: removeAt_def Let_def n_def map_update flip: take_map)
  have ix: "map_of (aliveIdx (removeAt i cs)) x =
      (if x = nid (alive cs ! i) then None
       else if x = nid (alive cs ! n) then Some i else map_of (aliveIdx cs) x)" for x
    using i by (simp add: removeAt_def Let_def n_def update_conv' delete_conv')
  have len: "length (alive (removeAt i cs)) = n" using i by (simp add: removeAt_def Let_def n_def)
  have "map_of (aliveIdx (removeAt i cs)) x = Some k \<longleftrightarrow>
      k < length (alive (removeAt i cs)) \<and> nid (alive (removeAt i cs) ! k) = x" for x k
  proof -
    have "k < n \<and> nid (alive (removeAt i cs) ! k) = x \<longleftrightarrow>
        k < n \<and> take n ((map nid (alive cs))[i := map nid (alive cs) ! n]) ! k = x"
      using len by (auto simp flip: mapn)
    also have "\<dots> \<longleftrightarrow> x \<noteq> nid (alive cs ! i) \<and>
        (if x = nid (alive cs ! n) then k = i else k < length (alive cs) \<and> nid (alive cs ! k) = x)"
      using swap_remove_nth [OF ids, of i n k x] i n_def
      by (auto simp: nth_map split: if_splits)
    finally show ?thesis using ok len by (auto simp: ix popOk_def)
  qed
  moreover have "\<forall>m \<in> set (alive (removeAt i cs)). \<not> mhas (killed (removeAt i cs)) (nid m) \<and> nidx m < nextIdx cs"
  proof
    fix m
    assume "m \<in> set (alive (removeAt i cs))"
    then have m: "m \<in> set (alive cs)" "m \<noteq> alive cs ! i" using set_removeAt [OF ok i] by auto
    moreover have "inj_on nid (set (alive cs))" using ok by (simp add: popOk_def distinct_map)
    ultimately have "nid m \<noteq> nid (alive cs ! i)" using i by (meson inj_onD nth_mem)
    then show "\<not> mhas (killed (removeAt i cs)) (nid m) \<and> nidx m < nextIdx cs"
      using m ok by (simp add: popOk_def)
  qed
  ultimately show ?thesis using ok d [of nid] d [of nidx] by (auto simp: popOk_def)
qed

lemma popOk_join:
  assumes "popOk cs" "nid x \<notin> nid ` set (alive cs)" "\<not> mhas (killed cs) (nid x)"
    "nidx x \<notin> nidx ` set (alive cs)" "nidx x < nextIdx cs"
  shows "popOk (join x cs)"
proof -
  have "map_of (aliveIdx (join x cs)) y = Some k \<longleftrightarrow>
      k < length (alive (join x cs)) \<and> nid (alive (join x cs) ! k) = y" for y k
  proof (cases "y = nid x")
    case True
    have "nid (alive cs ! k) \<noteq> nid x" if "k < length (alive cs)"
      using assms(2) that by (metis imageI nth_mem)
    then show ?thesis using True by (auto simp: join_def update_conv' nth_append)
  next
    case False
    then show ?thesis using assms(1) by (auto simp: join_def update_conv' nth_append popOk_def)
  qed
  with assms show ?thesis by (auto simp: popOk_def join_def)
qed

lemma leaveRandom_cases:
  assumes ok: "popOk cs" and l: "leaveRandom r cs = (res, r', cs')"
  shows "(res = None \<and> cs' = cs \<and> length (alive cs) \<le> 1)
    \<or> (\<exists>i < length (alive cs). res = Some (alive cs ! i) \<and> nidx (alive cs ! i) \<noteq> 0 \<and> cs' = removeAt i cs)"
proof (cases "alive cs = []")
  case True
  then show ?thesis using l by (simp add: leaveRandom_def)
next
  case ne: False
  define n where "n = length (alive cs)"
  have n: "0 < n" using ne by (simp add: n_def)
  obtain i r1 where i: "Intn n r = (i, r1)" by force
  have ilt: "i < n" using Intn_less [OF n, of r] i by simp
  show ?thesis
  proof (cases "nidx (alive cs ! i) = 0")
    case False
    then show ?thesis using l ne i ilt by (auto simp: leaveRandom_def simp flip: n_def)
  next
    case zero: True
    show ?thesis
    proof (cases "n = 1")
      case True
      then have "(res, r', cs') = (None, r1, cs)"
        using l ne i zero by (simp add: leaveRandom_def flip: n_def)
      then show ?thesis using True n_def by simp
    next
      case False
      obtain k r2 where k: "Intn (n - 1) r1 = (k, r2)" by force
      have klt: "k < n - 1" using Intn_less [of "n - 1" r1] k n False by simp
      define j where "j = (i + 1 + k) mod n"
      have jlt: "j < n" using n by (simp add: j_def)
      have ji: "j \<noteq> i"
      proof (cases "i + 1 + k < n")
        case True
        then show ?thesis by (simp add: j_def)
      next
        case False
        then have "j = i + 1 + k - n" using ilt klt by (simp add: j_def mod_if)
        then show ?thesis using klt False by linarith
      qed
      have "distinct (map nidx (alive cs))" using ok by (simp add: popOk_def)
      then have "nidx (alive cs ! j) \<noteq> nidx (alive cs ! i)"
        using jlt ilt ji by (simp add: distinct_conv_nth n_def)
      then have "nidx (alive cs ! j) \<noteq> 0" using zero by simp
      moreover have "(res, r', cs') = (Some (alive cs ! j), r2, removeAt j cs)"
        using l ne i k zero False by (simp add: leaveRandom_def j_def Let_def flip: n_def)
      ultimately show ?thesis using jlt n_def by blast
    qed
  qed
qed

section \<open>A round of churn\<close>

text \<open>The identities generated for new nodes never collide with one another or with existing nodes.\<close>

definition freshIds :: "(nat \<Rightarrow> 'id) \<Rightarrow> 'id churnState \<Rightarrow> bool" where
  "freshIds newId cs \<longleftrightarrow>
     (\<forall>k \<ge> nextIdx cs. newId k \<notin> nid ` set (alive cs) \<and> \<not> mhas (killed cs) (newId k))"

definition bootnode :: "'id nodeRec \<Rightarrow> 'id churnState \<Rightarrow> bool" where
  "bootnode b cs \<longleftrightarrow> b \<in> set (alive cs) \<and> nidx b = 0"

lemma freshIds_removeAt:
  "popOk cs \<Longrightarrow> i < length (alive cs) \<Longrightarrow> freshIds newId cs \<Longrightarrow> freshIds newId (removeAt i cs)"
proof -
  assume a: "popOk cs" "i < length (alive cs)" "freshIds newId cs"
  have "newId k \<noteq> nid (alive cs ! i)" if "nextIdx cs \<le> k" for k
    using a that by (auto simp: freshIds_def)
  then show ?thesis using a set_removeAt [OF a(1,2)] by (auto simp: freshIds_def)
qed

lemma length_removeAt: "i < length (alive cs) \<Longrightarrow> length (alive (removeAt i cs)) = length (alive cs) - 1"
  by (simp add: removeAt_def Let_def)

lemma length_mput: "length (mput k v m) = (if mhas m k then length m else Suc (length m))"
  by (induction m) (auto simp: mhas_def)

lemma roundWants_sum:
  "roundWants steady c (j, l) r = ((j', l'), r') \<Longrightarrow> j' + l' = j + l + c \<and> (\<not> steady \<longrightarrow> j' = j)"
proof (induction c arbitrary: j l r)
  case (Suc c)
  obtain u r1 where "Float64 r = (u, r1)" by force
  with Suc.prems Suc.IH [of "j + 1" l r1] Suc.IH [of j "l + 1" r1] Suc.IH [of j "l + 1" r]
  show ?case by (auto split: if_splits)
qed simp

text \<open>The effect of \<open>k\<close> departures on the world.\<close>

definition leftBy :: "(nat \<Rightarrow> 'id) \<Rightarrow> gotime \<Rightarrow> 'id churnWorld \<Rightarrow> nat \<Rightarrow> 'id churnWorld \<Rightarrow> bool" where
  "leftBy newId now w k w' \<longleftrightarrow> popOk (cwPop w') \<and> freshIds newId (cwPop w')
    \<and> length (alive (cwPop w')) + k = length (alive (cwPop w))
    \<and> length (killed (cwPop w')) = length (killed (cwPop w)) + k
    \<and> nextIdx (cwPop w') = nextIdx (cwPop w) \<and> cwMem w' = cwMem w
    \<and> (\<forall>b. bootnode b (cwPop w) \<longrightarrow> bootnode b (cwPop w'))
    \<and> (\<forall>x. deadAge x now (cwDead w) = Some 0 \<longrightarrow> deadAge x now (cwDead w') = Some 0)
    \<and> (\<forall>x. mhas (killed (cwPop w')) x \<longrightarrow>
          mhas (killed (cwPop w)) x \<or> deadAge x now (cwDead w') = Some 0)"

lemma leftBy_none:
  "popOk (cwPop w) \<Longrightarrow> freshIds newId (cwPop w) \<Longrightarrow> leftBy newId now w 0 (w\<lparr>cwRng := r\<rparr>)"
  by (simp add: leftBy_def)

lemma leftBy_one:
  assumes "popOk (cwPop w)" "freshIds newId (cwPop w)" "i < length (alive (cwPop w))"
    "nidx (alive (cwPop w) ! i) \<noteq> 0"
  shows "leftBy newId now w 1 (w\<lparr>cwRng := r, cwPop := removeAt i (cwPop w),
    cwDead := markOffline (nid (alive (cwPop w) ! i)) now (cwDead w)\<rparr>)"
proof -
  have "\<not> mhas (killed (cwPop w)) (nid (alive (cwPop w) ! i))"
    using assms(1,3) by (auto simp: popOk_def)
  moreover have "bootnode b (removeAt i (cwPop w))" if "bootnode b (cwPop w)" for b
  proof -
    have "b \<noteq> alive (cwPop w) ! i" using that assms(4) by (auto simp: bootnode_def)
    then show ?thesis using that unfolding bootnode_def set_removeAt [OF assms(1,3)] by simp
  qed
  ultimately show ?thesis
    using assms(3) popOk_removeAt [OF assms(1,3)] freshIds_removeAt [OF assms(1,3,2)]
    by (simp add: leftBy_def length_removeAt length_mput deadAge_markOffline)
qed

lemma leftBy_trans: "leftBy newId now w k w1 \<Longrightarrow> leftBy newId now w1 l w2 \<Longrightarrow> leftBy newId now w (k + l) w2"
  unfolding leftBy_def by (elim conjE, intro conjI) (simp_all, blast)

lemma roundLeaves_ok:
  assumes "popOk (cwPop w)" "freshIds newId (cwPop w)"
    and "roundLeaves steady now c leaves w = (d, ex, w')"
  shows "leaves \<le> d \<and> d \<le> leaves + c \<and> leftBy newId now w (d - leaves) w'"
  using assms
proof (induction c arbitrary: leaves w)
  case 0
  then show ?case using leftBy_none [of w newId now "cwRng w"] by simp
next
  case (Suc c)
  obtain res r cs where l: "leaveRandom (cwRng w) (cwPop w) = (res, r, cs)" by (metis prod_cases3)
  show ?case
  proof (cases res)
    case None
    then have cs: "cs = cwPop w" using leaveRandom_cases [OF Suc.prems(1) l] by auto
    have w: "leftBy newId now w 0 (w\<lparr>cwRng := r\<rparr>)" using leftBy_none Suc.prems by blast
    show ?thesis
    proof (cases steady)
      case True
      then have "leaves \<le> d \<and> d \<le> leaves + c \<and> leftBy newId now (w\<lparr>cwRng := r\<rparr>) (d - leaves) w'"
        using Suc.IH [of "w\<lparr>cwRng := r\<rparr>" leaves] Suc.prems l None cs by simp
      then show ?thesis using leftBy_trans [OF w] by auto
    next
      case False
      then show ?thesis using w Suc.prems l None cs by auto
    qed
  next
    case (Some n)
    then obtain i where i: "i < length (alive (cwPop w))" "n = alive (cwPop w) ! i" "nidx n \<noteq> 0"
      "cs = removeAt i (cwPop w)" using leaveRandom_cases [OF Suc.prems(1) l] by auto
    define w1 where "w1 = w\<lparr>cwRng := r, cwPop := cs, cwDead := markOffline (nid n) now (cwDead w)\<rparr>"
    have one: "leftBy newId now w 1 w1"
      unfolding w1_def i(2,4) using leftBy_one Suc.prems(1,2) i by simp
    then have "popOk (cwPop w1)" "freshIds newId (cwPop w1)" by (simp_all add: leftBy_def)
    moreover have "roundLeaves steady now c (leaves + 1) w1 = (d, ex, w')"
      using Suc.prems(3) l Some by (simp add: w1_def)
    ultimately have "leaves + 1 \<le> d \<and> d \<le> leaves + 1 + c \<and> leftBy newId now w1 (d - (leaves + 1)) w'"
      by (rule Suc.IH)
    then show ?thesis using leftBy_trans [OF one, of "d - (leaves + 1)" w'] by (simp add: Suc_diff_Suc)
  qed
qed

lemma joinSpecs_ok:
  "joinSpecs mb dt c w = (specs, w') \<Longrightarrow>
     map jsIdx specs = [nextIdx (cwPop w)..<nextIdx (cwPop w) + c]
     \<and> cwPop w' = (cwPop w)\<lparr>nextIdx := nextIdx (cwPop w) + c\<rparr>
     \<and> cwMem w' = cwMem w \<and> cwDead w' = cwDead w"
proof (induction c arbitrary: w specs w')
  case (Suc c)
  obtain boot r1 where b: "aliveSample mb (cwRng w) ((cwPop w)\<lparr>nextIdx := nextIdx (cwPop w) + 1\<rparr>) = (boot, r1)"
    by force
  obtain t r2 where t: "dt r1 = (t, r2)" by force
  define w1 where "w1 = w\<lparr>cwPop := (cwPop w)\<lparr>nextIdx := nextIdx (cwPop w) + 1\<rparr>, cwRng := r2\<rparr>"
  obtain rest w2 where rest: "joinSpecs mb dt c w1 = (rest, w2)" by force
  have "specs = \<lparr>jsIdx = nextIdx (cwPop w), jsBoot = boot, jsTopic = t\<rparr> # rest" "w' = w2"
    using Suc.prems b t rest by (simp_all add: nextIndex_def w1_def)
  then show ?case using Suc.IH [OF rest] by (simp add: w1_def upt_conv_Cons)
qed simp

lemma joinFold_ok:
  assumes "popOk (cwPop w)" "inj newId" "distinct (map jsIdx specs)"
    and "\<forall>s \<in> set specs. jsIdx s < nextIdx (cwPop w) \<and> jsIdx s \<notin> nidx ` set (alive (cwPop w))
      \<and> newId (jsIdx s) \<notin> nid ` set (alive (cwPop w)) \<and> \<not> mhas (killed (cwPop w)) (newId (jsIdx s))"
  defines "w' \<equiv> fold (joinOne newId) specs w"
  shows "popOk (cwPop w') \<and> length (alive (cwPop w')) = length (alive (cwPop w)) + length specs
    \<and> killed (cwPop w') = killed (cwPop w) \<and> cwDead w' = cwDead w \<and> nextIdx (cwPop w') = nextIdx (cwPop w)
    \<and> length (csAll (cwPop w')) = length (csAll (cwPop w)) + length specs
    \<and> set (alive (cwPop w)) \<subseteq> set (alive (cwPop w'))
    \<and> nid ` set (alive (cwPop w')) = nid ` set (alive (cwPop w)) \<union> newId ` jsIdx ` set specs"
  using assms(1,3,4) unfolding w'_def
proof (induction specs arbitrary: w)
  case (Cons s specs)
  define x :: "'a nodeRec" where "x = \<lparr>nidx = jsIdx s, nid = newId (jsIdx s), nlegacy = False\<rparr>"
  define w1 where "w1 = joinOne newId s w"
  have w1: "cwPop w1 = join x (cwPop w)" "cwDead w1 = cwDead w"
    by (simp_all add: w1_def joinOne_def x_def Let_def)
  have ok: "popOk (cwPop w1)" unfolding w1 using Cons.prems by (intro popOk_join) (auto simp: x_def)
  have set1: "set (alive (cwPop w1)) = insert x (set (alive (cwPop w)))" "nextIdx (cwPop w1) = nextIdx (cwPop w)"
    "killed (cwPop w1) = killed (cwPop w)" "length (alive (cwPop w1)) = Suc (length (alive (cwPop w)))"
    "length (csAll (cwPop w1)) = Suc (length (csAll (cwPop w)))"
    unfolding w1 by (auto simp: join_def)
  have "\<forall>s' \<in> set specs. jsIdx s' < nextIdx (cwPop w1) \<and> jsIdx s' \<notin> nidx ` set (alive (cwPop w1))
      \<and> newId (jsIdx s') \<notin> nid ` set (alive (cwPop w1)) \<and> \<not> mhas (killed (cwPop w1)) (newId (jsIdx s'))"
    using Cons.prems(2,3) assms(2) unfolding set1
    by (auto simp: x_def inj_eq) (metis imageI)+
  with Cons.IH [OF ok] Cons.prems(2) set1 w1(2)
  show ?case by (simp add: x_def flip: w1_def)
qed simp

section \<open>Properties\<close>

text \<open>
  C6: One round of the churn loop, on any consistent population and any random draws: it performs at
  most the configured number of actions, the bootnode survives, the live population shrinks by
  the leaves and grows by the joins, every node that left in this round is marked offline with the
  round's time, and the population's indexes stay consistent (so a swap-removed node is always found
  at its recorded position).
\<close>

theorem churnRound_population:
  assumes "popOk (cwPop w)" "inj newId" "freshIds newId (cwPop w)" "bootnode b (cwPop w)"
    and "churnRound steady perRound mb dt newId now w = ((leaves, joins, stop), w')"
  shows "popOk (cwPop w') \<and> freshIds newId (cwPop w') \<and> bootnode b (cwPop w') \<and> leaves + joins \<le> perRound
    \<and> length (alive (cwPop w')) + leaves = length (alive (cwPop w)) + joins
    \<and> length (killed (cwPop w')) = length (killed (cwPop w)) + leaves
    \<and> (\<not> steady \<longrightarrow> joins = 0)
    \<and> (\<forall>x. mhas (killed (cwPop w')) x \<longrightarrow>
          mhas (killed (cwPop w)) x \<or> deadAge x now (cwDead w') = Some 0)"
proof -
  obtain j l r where wants: "roundWants steady perRound (0, 0) (cwRng w) = ((j, l), r)"
    by (metis prod.collapse)
  have jl: "j + l = perRound \<and> (\<not> steady \<longrightarrow> j = 0)" using roundWants_sum [OF wants] by simp
  obtain d ex w1 where lv: "roundLeaves steady now l 0 (w\<lparr>cwRng := r\<rparr>) = (d, ex, w1)" by (metis prod_cases3)
  have one: "d \<le> l" "leftBy newId now (w\<lparr>cwRng := r\<rparr>) d w1"
    using roundLeaves_ok [of "w\<lparr>cwRng := r\<rparr>" newId, OF _ _ lv] assms(1,3) by simp_all
  obtain specs w2 where js: "joinSpecs mb dt j w1 = (specs, w2)" by force
  note sp = joinSpecs_ok [OF js]
  have w': "w' = fold (joinOne newId) specs w2" "leaves = d" "joins = length specs"
    using assms(5) wants lv js by (simp_all add: churnRound_def)
  have len: "length specs = j" using arg_cong [OF conjunct1 [OF sp], of length] by simp
  have pop1: "popOk (cwPop w1)" "freshIds newId (cwPop w1)" using one(2) by (auto simp: leftBy_def)
  have pop2: "popOk (cwPop w2)" using pop1 sp by (auto simp: popOk_def)
  have idx: "jsIdx ` set specs = {nextIdx (cwPop w1)..<nextIdx (cwPop w1) + j}"
    using arg_cong [OF conjunct1 [OF sp], of set] by simp
  have new: "\<forall>s \<in> set specs. jsIdx s < nextIdx (cwPop w2) \<and> jsIdx s \<notin> nidx ` set (alive (cwPop w2))
      \<and> newId (jsIdx s) \<notin> nid ` set (alive (cwPop w2)) \<and> \<not> mhas (killed (cwPop w2)) (newId (jsIdx s))"
  proof
    fix s
    assume "s \<in> set specs"
    then have "jsIdx s \<in> {nextIdx (cwPop w1)..<nextIdx (cwPop w1) + j}" using idx by blast
    then show "jsIdx s < nextIdx (cwPop w2) \<and> jsIdx s \<notin> nidx ` set (alive (cwPop w2))
      \<and> newId (jsIdx s) \<notin> nid ` set (alive (cwPop w2)) \<and> \<not> mhas (killed (cwPop w2)) (newId (jsIdx s))"
      using pop1 sp by (auto simp: popOk_def freshIds_def)
  qed
  have "distinct (map jsIdx specs)" using sp by simp
  note jf = joinFold_ok [OF pop2 assms(2) this new, folded w'(1)]
  have fresh: "freshIds newId (cwPop w')"
  proof -
    have "newId k \<notin> newId ` jsIdx ` set specs" if "nextIdx (cwPop w1) + j \<le> k" for k
      using that assms(2) unfolding idx by (auto simp: inj_eq)
    then show ?thesis using jf sp pop1(2) by (auto simp: freshIds_def)
  qed
  have boot: "bootnode b (cwPop w')"
    using assms(4) one(2) sp jf by (auto simp: leftBy_def bootnode_def)
  have "length (alive (cwPop w')) + d = length (alive (cwPop w)) + j"
    "length (killed (cwPop w')) = length (killed (cwPop w)) + d"
    using one(2) sp jf len by (auto simp: leftBy_def)
  moreover have "mhas (killed (cwPop w)) x \<or> deadAge x now (cwDead w') = Some 0"
    if "mhas (killed (cwPop w')) x" for x
    using that one(2) sp jf by (auto simp: leftBy_def)
  ultimately show ?thesis using jf fresh boot jl one(1) w' len by auto
qed

lemma popOk_new:
  assumes "distinct (map nid init)" "\<forall>k < length init. nidx (init ! k) = k" "length init \<le> next"
    "distinct act" "\<forall>i \<in> set act. i < length init"
  shows "popOk (newChurnState init act next) \<and> alive (newChurnState init act next) = map ((!) init) act
    \<and> nextIdx (newChurnState init act next) = next \<and> killed (newChurnState init act next) = []"
  using assms(4,5)
proof (induction act rule: rev_induct)
  case Nil
  then show ?case by (simp add: newChurnState_def popOk_def)
next
  case (snoc i act)
  define cs where "cs = newChurnState init act next"
  have IH: "popOk cs" "alive cs = map ((!) init) act" "nextIdx cs = next" "killed cs = []"
    using snoc by (auto simp: cs_def)
  have i: "i < length init" "i \<notin> set act" "\<forall>k \<in> set act. k < length init" using snoc.prems by auto
  have "newChurnState init (act @ [i]) next = (join (init ! i) cs)\<lparr>csAll := csAll cs\<rparr>"
    by (simp add: newChurnState_def join_def cs_def)
  moreover have "popOk (join (init ! i) cs)"
  proof (rule popOk_join [OF IH(1)])
    have "nid (init ! i) \<noteq> nid (init ! k)" if "k \<in> set act" for k
      using that i assms(1) by (metis distinct_conv_nth length_map nth_map)
    then show "nid (init ! i) \<notin> nid ` set (alive cs)" by (auto simp: IH)
    show "nidx (init ! i) \<notin> nidx ` set (alive cs)" using assms(2) i by (auto simp: IH)
    show "nidx (init ! i) < nextIdx cs" using assms(2,3) i by (simp add: IH)
  qed (simp add: IH)
  ultimately show ?case using IH by (simp add: popOk_def join_def)
qed

definition witnessWorld :: "nat churnWorld" where
  "witnessWorld =
     \<lparr>cwPop = newChurnState [\<lparr>nidx = 0, nid = 0, nlegacy = False\<rparr>, \<lparr>nidx = 1, nid = 1, nlegacy = False\<rparr>] [0, 1] 2,
      cwMem = newTopicMembership 1, cwDead = newDeadResultTracker 0 0, cwRng = randNew (\<lambda>_. cycleSource) 5\<rparr>"

theorem churnRound_population_witness:
  "bootnode \<lparr>nidx = 0, nid = 0, nlegacy = False\<rparr>
     (cwPop (snd (churnRound True 4 20 (\<lambda>r. (0, r)) (\<lambda>k. k) 9 witnessWorld)))"
proof -
  let ?init = "[\<lparr>nidx = 0, nid = 0, nlegacy = False\<rparr>, \<lparr>nidx = 1, nid = 1, nlegacy = False\<rparr>] :: nat nodeRec list"
  have "popOk (newChurnState ?init [0, 1] 2) \<and> alive (newChurnState ?init [0, 1] 2) = map ((!) ?init) [0, 1]
    \<and> nextIdx (newChurnState ?init [0, 1] 2) = 2 \<and> killed (newChurnState ?init [0, 1] 2) = []"
    by (rule popOk_new) (auto simp: less_Suc_eq nth_Cons')
  then have "popOk (cwPop witnessWorld)" "freshIds (\<lambda>k. k) (cwPop witnessWorld)"
    "bootnode \<lparr>nidx = 0, nid = 0, nlegacy = False\<rparr> (cwPop witnessWorld)"
    by (simp_all add: witnessWorld_def freshIds_def bootnode_def)
  then show ?thesis
    using churnRound_population [of witnessWorld "\<lambda>k. k" "\<lparr>nidx = 0, nid = 0, nlegacy = False\<rparr>" True 4 20 "\<lambda>r. (0, r)" 9]
    by (metis inj_on_id2 prod.collapse)
qed

text \<open>
  C22: After the initial population has registered (each node once), the searchers' lookup \<open>has\<close>, the
  reverse index and the per-topic count agree: a node counts for exactly the topic it registered.
\<close>

theorem membership_agrees:
  fixes numTopics :: nat
  assumes "distinct (map fst regs)"
  defines "m \<equiv> fold (\<lambda>(x, t). add_tm x t) regs (newTopicMembership numTopics)"
  shows "(has x t m \<longleftrightarrow> (x, t) \<in> set regs)
    \<and> countTopic t m = length (filter (\<lambda>(x, u). u = t) regs)"
proof -
  have none: "\<forall>(x, t) \<in> set regs. topicFor x (newTopicMembership numTopics) = None"
    by (auto simp: topicFor_def newTopicMembership_def)
  have look: "topicFor x m = map_of regs x" for x
    using mem.ok_fold [OF memOk_new assms(1) none]
    by (auto simp: m_def topicFor_def newTopicMembership_def split: option.split)
  have "has x t m \<longleftrightarrow> topicFor x m = Some t"
    by (auto simp: has_def topicFor_def split: option.split)
  then have h: "has x t m \<longleftrightarrow> (x, t) \<in> set regs"
    using look map_of_eq_Some_iff [OF assms(1)] by simp
  have "mget {} (byTopic m) t = mget {} (byTopic (newTopicMembership numTopics)) t \<union> {x. (x, t) \<in> set regs}"
    unfolding m_def by (rule mem.members_fold [OF memOk_new assms(1) none])
  moreover have "mget {} (byTopic (newTopicMembership numTopics :: 'a topicMembership)) t = {}"
    by (simp add: newTopicMembership_def mget_fold_empty)
  moreover have "{x. (x, t) \<in> set regs} = fst ` set (filter (\<lambda>(x, u). u = t) regs)" by force
  ultimately have "countTopic t m = card (set (map fst (filter (\<lambda>(x, u). u = t) regs)))"
    by (simp add: countTopic_def)
  also have "\<dots> = length (map fst (filter (\<lambda>(x, u). u = t) regs))"
    using assms(1) by (intro distinct_card) (simp add: distinct_map_filter)
  finally show ?thesis using h by simp
qed

theorem membership_agrees_witness:
  "countTopic 1 (fold (\<lambda>(x, t). add_tm x t) [(4 :: int, 1), (5, 0), (6, 1)] (newTopicMembership 2)) = 2"
  using membership_agrees [of "[(4 :: int, 1), (5, 0), (6, 1)]" 4 1 2] by simp

text \<open>
  C34: A bootstrap sample starts with the first node of the pool, continues with pairwise different
  other nodes of the pool, and has exactly \<open>min max len(pool)\<close> entries.
\<close>

theorem sampleBootnodes_spec:
  assumes "distinct (map nid pool)" "pool \<noteq> []" "1 \<le> mx"
  shows "hd (fst (sampleBootnodes pool mx r)) = nid (hd pool)
    \<and> distinct (fst (sampleBootnodes pool mx r))
    \<and> set (fst (sampleBootnodes pool mx r)) \<subseteq> nid ` set pool
    \<and> length (fst (sampleBootnodes pool mx r)) = min (nat mx) (length pool)"
proof -
  obtain p rest where pool: "pool = p # rest" using assms(2) by (cases pool) auto
  define js where "js = take (min (nat (mx - 1)) (length rest)) (fst (Perm (length rest) r))"
  have js: "distinct js" "\<forall>i \<in> set js. i < length rest" "length js = min (nat (mx - 1)) (length rest)"
    using set_Perm [of "length rest" r] by (auto simp: js_def dest!: in_set_takeD simp del: set_Perm)
  have s: "fst (sampleBootnodes pool mx r) = nid p # map (\<lambda>i. nid (rest ! i)) js"
    using pool assms(3) by (simp add: sampleBootnodes_def js_def case_prod_beta Let_def)
  have "distinct (map nid rest)" "nid p \<notin> nid ` set rest" using assms(1) pool by auto
  then have "distinct (map (\<lambda>i. nid (rest ! i)) js)" "nid p \<notin> set (map (\<lambda>i. nid (rest ! i)) js)"
    using js(1,2) by (auto simp: distinct_map inj_on_def distinct_conv_nth)
  then show ?thesis
    unfolding s using pool js(2,3) assms(3) by auto
qed

definition witnessPool :: "int nodeRec list" where
  "witnessPool = map (\<lambda>k. \<lparr>nidx = nat k, nid = k + 10, nlegacy = False\<rparr>) [0, 1, 2, 3]"

theorem sampleBootnodes_spec_witness:
  "length (fst (sampleBootnodes witnessPool 3 (randNew (\<lambda>_. cycleSource) 1))) = 3"
  using sampleBootnodes_spec [of witnessPool 3 "randNew (\<lambda>_. cycleSource) 1"]
  by (simp add: witnessPool_def)

end
