(* ===== verification/GoString.thy ===== *)
theory GoString
  imports Prelude
begin

text \<open>
  The string functions of the standard library the parsers use: \<open>strconv.ParseInt\<close> and \<open>Atoi\<close>
  (value and whether there was no error; a range error gives the nearest \<open>int64\<close>), decimal
  printing, \<open>strings.Split\<close>, \<open>Fields\<close>, \<open>Cut\<close>, \<open>TrimSpace\<close>, \<open>HasPrefix\<close> and \<open>HasSuffix\<close>. Strings are byte
  strings here; white space is the ASCII white space.
\<close>

section \<open>Numbers\<close>

definition digitVal :: "char \<Rightarrow> nat option" where
  "digitVal c = (let n = (of_char c :: nat)
     in if 48 \<le> n \<and> n \<le> 57 then Some (n - 48)
        else if 97 \<le> n \<and> n \<le> 122 then Some (n - 97 + 10)
        else if 65 \<le> n \<and> n \<le> 90 then Some (n - 65 + 10) else None)"

fun digitsVal :: "nat \<Rightarrow> nat \<Rightarrow> string \<Rightarrow> nat option" where
  "digitsVal base acc [] = Some acc"
| "digitsVal base acc (c # s) =
     (case digitVal c of
        None \<Rightarrow> None
      | Some d \<Rightarrow> if d < base then digitsVal base (acc * base + d) s else None)"

definition splitSign :: "string \<Rightarrow> int \<times> string" where
  "splitSign s = (case s of [] \<Rightarrow> (1, [])
     | c # t \<Rightarrow> if c = CHR ''-'' then (-1, t) else if c = CHR ''+'' then (1, t) else (1, s))"

definition clamp64 :: "int \<Rightarrow> int \<times> bool" where
  "clamp64 v = (if v > 2 ^ 63 - 1 then (2 ^ 63 - 1, False)
                else if v < - (2 ^ 63) then (- (2 ^ 63), False) else (v, True))"

definition ParseInt :: "string \<Rightarrow> nat \<Rightarrow> int \<times> bool" where
  "ParseInt s base =
     (let (sg, t) = splitSign s
      in if t = [] then (0, False)
         else case digitsVal base 0 t of
                None \<Rightarrow> (0, False)
              | Some n \<Rightarrow> clamp64 (sg * int n))"

definition Atoi :: "string \<Rightarrow> int \<times> bool" where
  "Atoi s = ParseInt s 10"

fun natToStr :: "nat \<Rightarrow> string" where
  "natToStr n = (if n < 10 then [char_of (48 + n)] else natToStr (n div 10) @ [char_of (48 + n mod 10)])"

declare natToStr.simps [simp del]

text \<open>\<open>fmt.Sprintf("%d", n)\<close>.\<close>

definition Itoa :: "int \<Rightarrow> string" where
  "Itoa n = (if n < 0 then CHR ''-'' # natToStr (nat (- n)) else natToStr (nat n))"

section \<open>Splitting\<close>

definition isSpace :: "char \<Rightarrow> bool" where
  "isSpace c \<longleftrightarrow> (of_char c :: nat) \<in> {9, 10, 11, 12, 13, 32}"

fun Split :: "char \<Rightarrow> string \<Rightarrow> string list" where
  "Split sep [] = [[]]"
| "Split sep (c # s) =
     (if c = sep then [] # Split sep s
      else case Split sep s of [] \<Rightarrow> [[c]] | w # ws \<Rightarrow> (c # w) # ws)"

fun fieldsAux :: "string \<Rightarrow> string \<Rightarrow> string list" where
  "fieldsAux cur [] = (if cur = [] then [] else [rev cur])"
| "fieldsAux cur (c # s) =
     (if isSpace c then (if cur = [] then fieldsAux [] s else rev cur # fieldsAux [] s)
      else fieldsAux (c # cur) s)"

definition Fields :: "string \<Rightarrow> string list" where
  "Fields s = fieldsAux [] s"

fun Join :: "char \<Rightarrow> string list \<Rightarrow> string" where
  "Join sep [] = []"
| "Join sep [w] = w"
| "Join sep (w # ws) = w @ sep # Join sep ws"

definition Cut :: "string \<Rightarrow> char \<Rightarrow> string \<times> string \<times> bool" where
  "Cut s sep = (case dropWhile (\<lambda>c. c \<noteq> sep) s of
      [] \<Rightarrow> (s, [], False) | _ # t \<Rightarrow> (takeWhile (\<lambda>c. c \<noteq> sep) s, t, True))"

definition HasPrefix :: "string \<Rightarrow> string \<Rightarrow> bool" where
  "HasPrefix s p \<longleftrightarrow> take (length p) s = p"

definition HasSuffix :: "string \<Rightarrow> string \<Rightarrow> bool" where
  "HasSuffix s p \<longleftrightarrow> length p \<le> length s \<and> drop (length s - length p) s = p"

definition TrimSuffix :: "string \<Rightarrow> string \<Rightarrow> string" where
  "TrimSuffix s p = (if HasSuffix s p then take (length s - length p) s else s)"

definition TrimSpace :: "string \<Rightarrow> string" where
  "TrimSpace s = rev (dropWhile isSpace (rev (dropWhile isSpace s)))"

section \<open>Round trips\<close>

lemma of_char_digit: "d < 10 \<Longrightarrow> of_char (char_of (48 + d) :: char) = (48 + d :: nat)"
  by (simp add: of_char_of)

lemma digitVal_digit [simp]: "d < 10 \<Longrightarrow> digitVal (char_of (48 + d)) = Some d"
  by (simp add: digitVal_def Let_def of_char_digit del: char_of_def)

lemma digitsVal_append:
  "digitsVal b acc (s @ t) = (case digitsVal b acc s of None \<Rightarrow> None | Some a \<Rightarrow> digitsVal b a t)"
  by (induction b acc s rule: digitsVal.induct) (simp_all split: option.split)

lemma digitsVal_natToStr [simp]: "digitsVal 10 0 (natToStr n) = Some n"
proof (induction n rule: natToStr.induct)
  case (1 n)
  show ?case
  proof (cases "n < 10")
    case True
    then show ?thesis by (simp add: natToStr.simps [of n])
  next
    case False
    with 1 show ?thesis by (simp add: natToStr.simps [of n] digitsVal_append)
  qed
qed

lemma natToStr_not_empty [simp]: "natToStr n \<noteq> []"
  by (simp add: natToStr.simps [of n])

definition isDigit :: "char \<Rightarrow> bool" where
  "isDigit c \<longleftrightarrow> 48 \<le> (of_char c :: nat) \<and> (of_char c :: nat) \<le> 57"

lemma natToStr_digits: "c \<in> set (natToStr n) \<Longrightarrow> isDigit c"
proof (induction n rule: natToStr.induct)
  case (1 n)
  show ?case
  proof (cases "n < 10")
    case True
    then show ?thesis using 1 by (simp add: natToStr.simps [of n] isDigit_def of_char_digit)
  next
    case False
    then show ?thesis using 1 by (auto simp: natToStr.simps [of n] isDigit_def of_char_digit)
  qed
qed

lemma isDigit_not: "isDigit c \<Longrightarrow> c \<noteq> CHR ''-'' \<and> c \<noteq> CHR ''+'' \<and> c \<noteq> CHR ''.'' \<and> c \<noteq> CHR ''*'' \<and> \<not> isSpace c"
  by (auto simp: isDigit_def isSpace_def)

lemma splitSign_natToStr [simp]: "splitSign (natToStr n) = (1, natToStr n)"
proof -
  obtain c s where s: "natToStr n = c # s" by (meson natToStr_not_empty neq_Nil_conv)
  then have "isDigit c" using natToStr_digits [of c n] by simp
  then show ?thesis using isDigit_not [of c] s by (simp add: splitSign_def)
qed

lemma Atoi_Itoa: "- (2 ^ 63) \<le> n \<Longrightarrow> n < 2 ^ 63 \<Longrightarrow> Atoi (Itoa n) = (n, True)"
proof -
  assume n: "- (2 ^ 63) \<le> n" "n < 2 ^ 63"
  have "splitSign (CHR ''-'' # s) = (-1, s)" for s by (simp add: splitSign_def)
  then show ?thesis using n by (simp add: Atoi_def Itoa_def ParseInt_def clamp64_def Let_def)
qed

lemma Split_not_empty [simp]: "Split sep s \<noteq> []"
  by (cases s) (auto split: list.split)

lemma Split_fresh: "sep \<notin> set w \<Longrightarrow> Split sep w = [w]"
  by (induction w) auto

lemma Split_append: "sep \<notin> set w \<Longrightarrow> Split sep (w @ sep # s) = w # Split sep s"
  by (induction w) auto

lemma Split_Join: "ws \<noteq> [] \<Longrightarrow> \<forall>w \<in> set ws. sep \<notin> set w \<Longrightarrow> Split sep (Join sep ws) = ws"
  by (induction sep ws rule: Join.induct) (auto simp: Split_fresh Split_append)

lemma fieldsAux_word: "\<forall>c \<in> set w. \<not> isSpace c \<Longrightarrow> fieldsAux cur (w @ s) = fieldsAux (rev w @ cur) s"
  by (induction w arbitrary: cur) simp_all

lemma Fields_Join:
  "\<forall>w \<in> set ws. w \<noteq> [] \<and> (\<forall>c \<in> set w. \<not> isSpace c) \<Longrightarrow> Fields (Join CHR '' '' ws) = ws"
proof (induction "CHR '' ''" ws rule: Join.induct)
  case (2 w)
  then show ?case using fieldsAux_word [of w "[]" "[]"] by (simp add: Fields_def)
next
  case (3 w v ws)
  then have "Fields (Join CHR '' '' (v # ws)) = v # ws" by simp
  moreover have "fieldsAux [] (w @ CHR '' '' # s) = w # fieldsAux [] s" for s
    using 3 by (simp add: fieldsAux_word isSpace_def)
  ultimately show ?case by (simp add: Fields_def)
qed (simp add: Fields_def)

lemma Cut_append: "sep \<notin> set k \<Longrightarrow> Cut (k @ sep # v) sep = (k, v, True)"
proof -
  assume "sep \<notin> set k"
  then have "takeWhile (\<lambda>c. c \<noteq> sep) (k @ sep # v) = k" "dropWhile (\<lambda>c. c \<noteq> sep) (k @ sep # v) = sep # v"
    by (induction k) auto
  then show ?thesis by (simp add: Cut_def)
qed

end
