(* ===== verification/ChurnModel.thy ===== *)
theory ChurnModel
  imports GoRand GoString ConnModel "HOL-Library.Word"
begin

unbundle bit_operations_syntax

text \<open>
  The fitted session-churn model (\<open>src/pkg/churn/model.go\<close>) and the simulator's driver for it
  (\<open>src/cmd/simnet/churn_model.go\<close>): building a topic's fit from its raw form, prefix parsing and
  drawing, shares, survival and hazard, gaps, per-node seeds and the absence schedule of a node.
  \<open>math.Pow\<close> is the parameter \<open>pow\<close>.
\<close>

section \<open>Model data\<close>

type_synonym curve = "(float64 \<times> float64) list"

record topicFit =
  tfID :: string
  tfName :: string
  Share :: float64
  InitialUp :: float64
  AlwaysOn :: float64
  LeaveForever :: float64
  ArrivalRate :: float64
  FlickerRate :: float64
  GoneRate :: float64
  km :: curve
  kmReturn :: curve
  gapCDF :: curve
  prefixes :: "32 word list"

record rawTopic =
  rID :: string
  rName :: string
  rShare :: float64
  rInitialUp :: "float64 option"
  rAlwaysOn :: float64
  rLeaveForever :: float64
  rArrivalRate :: float64
  rFlickerRate :: float64
  rGoneRate :: float64
  rKM :: curve
  rKMReturn :: curve
  rGapHist :: "(string, int) gomap"
  rPrefixes :: "string list"

record churnModel =
  Cadence :: float64
  Hours :: float64
  Peers :: int
  Global :: topicFit
  Topics :: "topicFit list"
  tailPool :: "32 word list"
  tailK :: int

section \<open>Building the model\<close>

text \<open>\<open>%d\<close> of \<open>fmt.Sscanf\<close>: optional blanks and sign, then at least one digit.\<close>

definition isBlank :: "char \<Rightarrow> bool" where
  "isBlank c \<longleftrightarrow> isSpace c \<and> c \<noteq> CHR 0x0A"

definition scanD :: "string \<Rightarrow> (int \<times> string) option" where
  "scanD s =
     (let (sg, t) = splitSign (dropWhile isBlank s);
          ds = takeWhile isDigit t
      in if ds = [] then None
         else case digitsVal 10 0 ds of
                None \<Rightarrow> None
              | Some n \<Rightarrow> (let (v, ok) = clamp64 (sg * int n)
                         in if ok then Some (v, dropWhile isDigit t) else None))"

definition expectChar :: "char \<Rightarrow> string \<Rightarrow> string option" where
  "expectChar c s = (case s of [] \<Rightarrow> None | d # t \<Rightarrow> if d = c then Some t else None)"

text \<open>\<open>fmt.Sscanf(e, "%d.%d.%d", &a, &b, &c)\<close>\<close>

definition scanPrefix :: "string \<Rightarrow> (int \<times> int \<times> int) option" where
  "scanPrefix e =
     Option.bind (scanD e) (\<lambda>(a, s). Option.bind (expectChar CHR ''.'' s) (\<lambda>s.
     Option.bind (scanD s) (\<lambda>(b, s). Option.bind (expectChar CHR ''.'' s) (\<lambda>s.
     Option.bind (scanD s) (\<lambda>(c, s). Some (a, b, c))))))"

definition packPrefix :: "int \<Rightarrow> int \<Rightarrow> int \<Rightarrow> 32 word" where
  "packPrefix a b c = (push_bit 16 (of_int a) OR push_bit 8 (of_int b)) OR of_int c"

definition parsePrefix :: "string \<Rightarrow> 32 word list" where
  "parsePrefix e =
     (let (pre, num, star) = Cut e CHR ''*'';
          n = (if star then fst (Atoi num) else 1)
      in case scanPrefix pre of
           None \<Rightarrow> []
         | Some (a, b, c) \<Rightarrow> replicate (nat n) (packPrefix a b c))"

definition parsePrefixes :: "string list \<Rightarrow> 32 word list" where
  "parsePrefixes xs = concat (map parsePrefix xs)"

text \<open>The cumulative distribution over the sorted gaps.\<close>

fun cumGaps :: "int \<Rightarrow> int \<Rightarrow> (int \<times> int) list \<Rightarrow> curve" where
  "cumGaps tot cum [] = []"
| "cumGaps tot cum ((g, n) # gs) =
     (ofInt g, fdiv (ofInt (cum + n)) (ofInt tot)) # cumGaps tot (cum + n) gs"

definition topic :: "rawTopic \<Rightarrow> topicFit" where
  "topic r =
     (let gs = sort_key fst (map (\<lambda>(k, n). (fst (Atoi k), n)) (rGapHist r));
          tot = msum (rGapHist r)
      in \<lparr>tfID = rID r, tfName = rName r, Share = rShare r,
          InitialUp = (case rInitialUp r of None \<Rightarrow> 1 | Some u \<Rightarrow> u),
          AlwaysOn = rAlwaysOn r, LeaveForever = rLeaveForever r, ArrivalRate = rArrivalRate r,
          FlickerRate = rFlickerRate r, GoneRate = rGoneRate r,
          km = rKM r, kmReturn = (if length (rKMReturn r) < 2 then rKM r else rKMReturn r),
          gapCDF = cumGaps tot 0 gs, prefixes = parsePrefixes (rPrefixes r)\<rparr>)"

text \<open>\<open>Load\<close> after the file is read and decoded: \<open>raw\<close> the top level, \<open>globalFit\<close> the \<open>global\<close> entry.\<close>

definition Load :: "rawTopic \<Rightarrow> float64 \<Rightarrow> float64 \<Rightarrow> int \<Rightarrow> rawTopic list \<Rightarrow> rawTopic \<Rightarrow> churnModel" where
  "Load raw cadenceHours windowHours nPeers topics globalFit =
     (let raw = raw\<lparr>rID := ''*'', rShare := 1\<rparr>;
          raw = (if topics = [] then raw\<lparr>rAlwaysOn := 0\<rparr> else raw)
      in \<lparr>Cadence = (if cadenceHours = 0 then 2 else cadenceHours),
          Hours = (if windowHours = 0 then 24 else windowHours), Peers = nPeers,
          Global = (topic raw)\<lparr>prefixes := parsePrefixes (rPrefixes globalFit)\<rparr>,
          Topics = map topic topics, tailPool = [], tailK = 0\<rparr>)"

section \<open>Prefixes, topics, shares\<close>

definition HasAddresses :: "churnModel \<Rightarrow> bool" where
  "HasAddresses m \<longleftrightarrow> prefixes (Global m) \<noteq> []"

text \<open>The pool of a draw, with the cached pool of the folded tail refreshed when \<open>k\<close> changed.\<close>

definition drawPool :: "int \<Rightarrow> int \<Rightarrow> churnModel \<Rightarrow> 32 word list \<times> churnModel" where
  "drawPool i k m =
     (if k > 0 \<and> k < int (length (Topics m)) \<and> i = k - 1 then
        let m = (if tailPool m = [] \<or> tailK m \<noteq> k
                 then m\<lparr>tailPool := concat (map prefixes (drop (nat (k - 1)) (Topics m))), tailK := k\<rparr>
                 else m)
        in (if tailPool m \<noteq> [] then tailPool m else prefixes (Global m), m)
      else if i \<ge> 0 \<and> i < int (length (Topics m)) \<and> prefixes (Topics m ! nat i) \<noteq> []
           then (prefixes (Topics m ! nat i), m)
      else (prefixes (Global m), m))"

definition DrawPrefix :: "int \<Rightarrow> int \<Rightarrow> rng \<Rightarrow> churnModel \<Rightarrow> 32 word \<times> rng \<times> churnModel" where
  "DrawPrefix i k r m =
     (let (pool, m) = drawPool i k m
      in if pool = [] then (0, r, m)
         else let (j, r) = Intn (length pool) r in (pool ! j, r, m))"

definition TopicOf :: "churnModel \<Rightarrow> int \<Rightarrow> topicFit" where
  "TopicOf m i = (if i < 0 \<or> i \<ge> int (length (Topics m)) then Global m else Topics m ! nat i)"

definition TopicForRun :: "churnModel \<Rightarrow> int \<Rightarrow> int \<Rightarrow> topicFit" where
  "TopicForRun m i k =
     (if k > 0 \<and> k < int (length (Topics m)) \<and> i = k - 1
      then case filter (\<lambda>t. tfID t = ''other'') (Topics m) of [] \<Rightarrow> Global m | t # _ \<Rightarrow> t
      else TopicOf m i)"

fun shareSums :: "float64 \<Rightarrow> float64 list \<Rightarrow> float64" where
  "shareSums acc [] = acc"
| "shareSums acc (s # ss) = shareSums (fadd acc s) ss"

definition Shares :: "churnModel \<Rightarrow> int \<Rightarrow> float64 list" where
  "Shares m k =
     (let n = int (length (Topics m))
      in if n = 0 then [1]
         else let k = (if k \<le> 0 \<or> k > n then n else k);
                  firsts = map Share (take (nat (k - 1)) (Topics m))
              in firsts @ [max 0 (fsub 1 (shareSums 0 firsts))])"

section \<open>Survival, hazard, gaps\<close>

definition survival :: "(float64 \<Rightarrow> float64 \<Rightarrow> float64) \<Rightarrow> curve \<Rightarrow> float64 \<Rightarrow> float64" where
  "survival pow c x =
     (if x \<le> 0 \<or> c = [] then 1
      else let i = sortSearch (length c) (\<lambda>i. fst (c ! i) \<ge> x)
           in if i = length c then snd (last c)
              else if i = 0 \<or> fst (c ! i) = x then snd (c ! i)
              else let (t0, s0) = c ! (i - 1); (t1, s1) = c ! i
                   in if s0 \<le> 0 \<or> s1 \<le> 0 then s1
                      else let f = fdiv (fsub x t0) (fsub t1 t0)
                           in fmul s0 (pow (fdiv s1 s0) f))"

definition leaveProb :: "(float64 \<Rightarrow> float64 \<Rightarrow> float64) \<Rightarrow> curve \<Rightarrow> float64 \<Rightarrow> float64 \<Rightarrow> float64" where
  "leaveProb pow c age dt =
     (let s = survival pow c age
      in if s \<le> 0 then 1 else fsub 1 (fdiv (survival pow c (fadd age dt)) s))"

fun gapScan :: "float64 \<Rightarrow> float64 \<Rightarrow> curve \<Rightarrow> float64" where
  "gapScan u lastg [] = lastg"
| "gapScan u lastg ((g, p) # es) = (if u \<le> p then g else gapScan u lastg es)"

definition Gap :: "topicFit \<Rightarrow> rng \<Rightarrow> float64 \<times> rng" where
  "Gap t r =
     (if gapCDF t = [] then (1, r)
      else let (u, r) = Float64 r in (gapScan u (fst (last (gapCDF t))) (gapCDF t), r))"

text \<open>
  \<open>initialAge\<close>: the loops \<open>for x := 0.0; x < maxT; x++\<close> count whole crawls.
\<close>

fun lastDrop :: "float64 \<Rightarrow> curve \<Rightarrow> float64" where
  "lastDrop maxT ((t0, s0) # (t1, s1) # rest) =
     lastDrop (if s1 < s0 then t1 else maxT) ((t1, s1) # rest)"
| "lastDrop maxT _ = maxT"

fun ageScan :: "(float64 \<Rightarrow> float64) \<Rightarrow> float64 \<Rightarrow> float64 \<Rightarrow> float64 list \<Rightarrow> float64" where
  "ageScan S maxT u [] = maxT"
| "ageScan S maxT u (x # xs) = (let u = fsub u (S x) in if u \<le> 0 then x else ageScan S maxT u xs)"

definition initialAge :: "(float64 \<Rightarrow> float64 \<Rightarrow> float64) \<Rightarrow> curve \<Rightarrow> rng \<Rightarrow> float64 \<times> rng" where
  "initialAge pow c r =
     (if c = [] then (0, r)
      else let maxT = lastDrop 0 c;
               maxT = (if maxT \<le> 0 then fst (last c) else maxT);
               xs = map of_nat [0..<nat \<lceil>maxT\<rceil>];
               tot = shareSums 0 (map (survival pow c) xs);
               (u, r) = Float64 r
           in (ageScan (survival pow c) maxT (fmul u tot) xs, r))"

section \<open>Seeds\<close>

definition nodeMix :: "int \<Rightarrow> int \<Rightarrow> 64 word" where
  "nodeMix seed i =
     (let x = of_int seed * 0x9E3779B97F4A7C15 XOR of_int i * 0xBF58476D1CE4E5B9;
          x = x XOR drop_bit 31 x;
          x = x * 0x94D049BB133111EB
      in x XOR drop_bit 29 x)"

definition NodeSeed :: "int \<Rightarrow> int \<Rightarrow> int" where
  "NodeSeed seed i = uint (drop_bit 1 (nodeMix seed i))"

section \<open>Schedules\<close>

record churnEvent =
  DownAt :: float64
  UpAt :: float64

text \<open>
  The loop of \<open>ScheduleTopic\<close> with \<open>fuel\<close> iterations; \<open>None\<close> when they do not suffice. The theorem on
  schedules shows how much fuel is enough.
\<close>

fun scheduleLoop :: "(float64 \<Rightarrow> float64 \<Rightarrow> float64) \<Rightarrow> topicFit \<Rightarrow> float64 \<Rightarrow> float64 \<Rightarrow> nat
    \<Rightarrow> float64 \<Rightarrow> float64 \<Rightarrow> curve \<Rightarrow> bool \<Rightarrow> churnEvent list \<Rightarrow> rng \<Rightarrow> churnEvent list option" where
  "scheduleLoop pow t window crawl 0 x age k leaveNow ev r = (if x < window then None else Some ev)"
| "scheduleLoop pow t window crawl (Suc fuel) x age k leaveNow ev r =
     (if x < window then
        let (leave, r) = (if leaveNow then (True, r)
                          else let (u, r) = Float64 r in (u < leaveProb pow k age 1, r))
        in if leave then
             let (u, r) = Float64 r
             in if u < LeaveForever t then Some (ev @ [\<lparr>DownAt = x, UpAt = window\<rparr>])
                else let (gap, r) = Gap t r;
                         g = fmul gap crawl;
                         ev = ev @ [\<lparr>DownAt = x, UpAt = fadd x g\<rparr>]
                     in scheduleLoop pow t window crawl fuel (fadd x g) 0 (kmReturn t) False ev r
           else scheduleLoop pow t window crawl fuel (fadd x crawl) (fadd age 1) k False ev r
      else Some ev)"

definition crawlUnit :: "churnModel \<Rightarrow> float64 \<Rightarrow> float64 \<Rightarrow> float64" where
  "crawlUnit m window realHours = fdiv (fmul window (Cadence m)) realHours"

definition realHoursOf :: "float64 \<Rightarrow> float64 \<Rightarrow> float64" where
  "realHoursOf window h = (if h \<le> 0 then fdiv window 3600 else h)"

definition ScheduleTopic :: "(float64 \<Rightarrow> float64 \<Rightarrow> float64) \<Rightarrow> nat \<Rightarrow> churnModel \<Rightarrow> rng \<Rightarrow> float64 \<Rightarrow> float64
    \<Rightarrow> topicFit \<Rightarrow> churnEvent list option" where
  "ScheduleTopic pow fuel m r window windowRealHours t =
     (let h = realHoursOf window windowRealHours;
          crawl = crawlUnit m window h;
          span = min 1 (fdiv h (Hours m));
          (u, r) = Float64 r
      in if u < fmul (fsub 1 (InitialUp t)) span then
           let (v, r) = Float64 r;
               arrive = fmul v window
           in scheduleLoop pow t window crawl fuel (fadd arrive crawl) 0 (km t) False
                [\<lparr>DownAt = 0, UpAt = arrive\<rparr>] r
         else let (v, r) = Float64 r
              in if v \<ge> fmul (fsub 1 (AlwaysOn t)) span then Some []
                 else let (w, r) = Float64 r
                      in scheduleLoop pow t window crawl fuel (fmul w window) 0 (kmReturn t) True [] r)"

section \<open>The simulator's driver\<close>

datatype churnAction = DepartAt float64 | RejoinAt float64

datatype churnKind = Arrival | Forever | Absence

definition churnKindOf :: "float64 \<Rightarrow> churnEvent \<Rightarrow> churnKind" where
  "churnKindOf window e =
     (if DownAt e = 0 then Arrival else if UpAt e \<ge> window then Forever else Absence)"

text \<open>What one node's goroutine of \<open>runModelChurn\<close> does, in order, when it is not stopped.\<close>

fun churnActions :: "float64 \<Rightarrow> churnEvent list \<Rightarrow> churnAction list \<times> churnKind list" where
  "churnActions window [] = ([], [])"
| "churnActions window (e # es) =
     (if UpAt e \<ge> window then ([DepartAt (DownAt e)], [churnKindOf window e])
      else let (as, ks) = churnActions window es
           in (DepartAt (DownAt e) # RejoinAt (UpAt e) # as, churnKindOf window e # ks))"

definition sleepTarget :: "gotime \<Rightarrow> float64 \<Rightarrow> gotime" where
  "sleepTarget t0 offset = t0 + truncInt (fmul offset (ofInt nsSecond))"

text \<open>The schedules the driver applies: none for node 0, none for a node without absences.\<close>

definition modelSchedules :: "(float64 \<Rightarrow> float64 \<Rightarrow> float64) \<Rightarrow> nat \<Rightarrow> (int \<Rightarrow> source) \<Rightarrow> churnModel \<Rightarrow> float64
    \<Rightarrow> float64 \<Rightarrow> int \<Rightarrow> (nat \<Rightarrow> topicFit) \<Rightarrow> nat \<Rightarrow> (nat \<times> churnEvent list option) list" where
  "modelSchedules pow fuel src m windowSec realHours seed topicAt n =
     filter (\<lambda>(i, ev). ev \<noteq> Some [])
       (map (\<lambda>i. (i, ScheduleTopic pow fuel m (randNew src (NodeSeed seed (int i))) windowSec realHours (topicAt i)))
            [1..<n])"

section \<open>Node seeds\<close>

lemma xor_zero_iff: "x XOR y = 0 \<longleftrightarrow> x = (y :: 'a::len word)"
  by (auto simp: bit_eq_iff bit_xor_iff)

lemma xor_left_cancel: "a XOR x = a XOR y \<longleftrightarrow> x = (y :: 'a::len word)"
  by (auto simp: bit_eq_iff bit_xor_iff)

lemma xorshift_inj:
  fixes x y :: "64 word"
  assumes "x XOR drop_bit k x = y XOR drop_bit k y" "22 \<le> k"
  shows "x = y"
proof -
  define z where "z = x XOR y"
  have "z XOR drop_bit k z = (x XOR drop_bit k x) XOR (y XOR drop_bit k y)"
    unfolding z_def by (rule bit_eqI) (auto simp: bit_simps)
  then have "z XOR drop_bit k z = 0" using assms(1) by simp
  then have z: "z = drop_bit k z" by (simp add: xor_zero_iff)
  have step: "bit z n = bit z (n + k)" for n
    using arg_cong [OF z, of "\<lambda>w. bit w n"] by (simp add: bit_simps add.commute)
  have "\<not> bit z n" for n
  proof -
    have "bit z n = bit z (n + k + k + k)" using step [of n] step [of "n + k"] step [of "n + k + k"] by simp
    moreover have "64 \<le> n + k + k + k" using assms(2) by simp
    ultimately show ?thesis using bit_imp_le_length [of z "n + k + k + k"] by fastforce
  qed
  then have "z = 0" by (intro bit_eqI) simp
  then show ?thesis by (simp add: z_def xor_zero_iff)
qed

lemma mult_odd_inj:
  fixes x y c d :: "64 word"
  assumes "x * c = y * c" "c * d = 1"
  shows "x = y"
proof -
  have "x = x * (c * d)" using assms(2) by simp
  also have "\<dots> = y * (c * d)" using assms(1) by (simp add: mult.assoc [symmetric])
  finally show ?thesis using assms(2) by simp
qed

lemma nodeMix_inj:
  assumes "nodeMix seed i = nodeMix seed j" "0 \<le> i" "i < 2 ^ 64" "0 \<le> j" "j < 2 ^ 64"
  shows "i = j"
proof -
  define a b where "a = (of_int seed * 0x9E3779B97F4A7C15 XOR of_int i * 0xBF58476D1CE4E5B9 :: 64 word)"
    and "b = (of_int seed * 0x9E3779B97F4A7C15 XOR of_int j * 0xBF58476D1CE4E5B9 :: 64 word)"
  have "(a XOR drop_bit 31 a) * 0x94D049BB133111EB = (b XOR drop_bit 31 b) * 0x94D049BB133111EB"
    using assms(1) unfolding nodeMix_def Let_def a_def [symmetric] b_def [symmetric]
    by (rule xorshift_inj) simp
  then have "a XOR drop_bit 31 a = b XOR drop_bit 31 b"
    by (rule mult_odd_inj [of _ _ _ 3573116690164977347]) simp
  then have "a = b" by (rule xorshift_inj) simp
  then have "of_int i * 0xBF58476D1CE4E5B9 = (of_int j * 0xBF58476D1CE4E5B9 :: 64 word)"
    unfolding a_def b_def xor_left_cancel .
  then have "(of_int i :: 64 word) = of_int j"
    by (rule mult_odd_inj [of _ _ _ 10871156337175269513]) simp
  then have "uint (of_int i :: 64 word) = uint (of_int j :: 64 word)" by simp
  then show ?thesis using assms(2-) by (simp add: uint_word_of_int_eq take_bit_int_eq_self)
qed

text \<open>
  C24: Node seeds do not collide systematically: the 64-bit mix behind \<open>NodeSeed\<close> is injective in the
  node index for a fixed run seed, two nodes share a seed only when their mixes differ in the lowest
  bit (which the final shift drops), and the seed is a non-negative \<open>int64\<close>.
\<close>

theorem NodeSeed_spread:
  assumes "0 \<le> i" "i < 2 ^ 64" "0 \<le> j" "j < 2 ^ 64" "i \<noteq> j"
  shows "nodeMix seed i \<noteq> nodeMix seed j
    \<and> (NodeSeed seed i = NodeSeed seed j \<longrightarrow> nodeMix seed i XOR nodeMix seed j = 1)
    \<and> 0 \<le> NodeSeed seed i \<and> NodeSeed seed i < 2 ^ 63"
proof -
  have ne: "nodeMix seed i \<noteq> nodeMix seed j" using nodeMix_inj assms by blast
  have "nodeMix seed i XOR nodeMix seed j = 1" if "NodeSeed seed i = NodeSeed seed j"
  proof -
    define z where "z = nodeMix seed i XOR nodeMix seed j"
    have "drop_bit 1 (nodeMix seed i) = drop_bit 1 (nodeMix seed j)" 
      using that unfolding NodeSeed_def by (rule word_uint_eqI)
    then have "drop_bit 1 z = 0" unfolding z_def by (simp add: drop_bit_xor)
    then have hi: "\<not> bit z (Suc n)" for n
      using bit_drop_bit_eq [of 1 z] by (metis bit_0_eq bot_apply bot_bool_def comp_apply plus_1_eq_Suc)
    have "z \<noteq> 0" using ne by (simp add: z_def xor_zero_iff)
    have "z = 1"
    proof (rule bit_eqI)
      fix n
      show "bit z n = bit 1 n"
      proof (cases n)
        case 0
        have "bit z 0"
        proof (rule ccontr)
          assume "\<not> bit z 0"
          then have "\<not> bit z n" for n using hi by (cases n) auto
          then have "z = 0" by (intro bit_eqI) simp
          with \<open>z \<noteq> 0\<close> show False by simp
        qed
        then show ?thesis using 0 by simp
      next
        case (Suc k)
        then show ?thesis using hi by (simp add: bit_1_iff)
      qed
    qed
    then show ?thesis by (simp add: z_def)
  qed
  moreover have "NodeSeed seed i < 2 ^ 63"
  proof -
    have "uint (nodeMix seed i) < 2 ^ 64" using uint_lt2p [of "nodeMix seed i"] by simp
    then show ?thesis 
      by (simp add: NodeSeed_def drop_bit_eq_div uint_div)
  qed
  ultimately show ?thesis using ne by (simp add: NodeSeed_def)
qed

theorem NodeSeed_spread_witness: "nodeMix 7 1 \<noteq> nodeMix 7 2"
  using NodeSeed_spread [of 1 2 7] by simp

section \<open>Schedules\<close>

text \<open>Ordered, non-overlapping absences that all begin inside the window.\<close>

fun absences :: "float64 \<Rightarrow> float64 \<Rightarrow> churnEvent list \<Rightarrow> bool" where
  "absences window t [] = True"
| "absences window t (e # es) \<longleftrightarrow>
     t \<le> DownAt e \<and> DownAt e < window \<and> DownAt e \<le> UpAt e \<and> absences window (UpAt e) es"

fun endOf :: "float64 \<Rightarrow> churnEvent list \<Rightarrow> float64" where
  "endOf t [] = t"
| "endOf t (e # es) = endOf (UpAt e) es"

lemma absences_snoc:
  "absences window t (ev @ [e]) \<longleftrightarrow> absences window t ev \<and> endOf t ev \<le> DownAt e
     \<and> DownAt e < window \<and> DownAt e \<le> UpAt e"
  by (induction ev arbitrary: t) auto

lemma endOf_snoc [simp]: "endOf t (ev @ [e]) = UpAt e"
  by (induction ev arbitrary: t) auto

lemma fadd_ge: "0 \<le> x \<Longrightarrow> fl x = x \<Longrightarrow> 0 \<le> d \<Longrightarrow> x \<le> fadd x d"
  by (rule fl_ge_exact) simp_all

lemma fadd_progress:
  assumes "0 \<le> x" "x \<le> 2 ^ 52" "1 \<le> d"
  shows "x + 1 / 2 \<le> fadd x d"
proof -
  have "x + 1 - 1 / 2 \<le> fl (x + 1)" using assms by (intro fl_err) auto
  also have "\<dots> \<le> fl (x + d)" using assms by (intro fl_mono) auto
  finally show ?thesis by simp
qed

definition gapsOk :: "topicFit \<Rightarrow> bool" where
  "gapsOk t \<longleftrightarrow> (\<forall>(g, p) \<in> set (gapCDF t). 1 \<le> g)"

lemma gapScan_in: "gapScan u l es = l \<or> gapScan u l es \<in> fst ` set es"
  by (induction u l es rule: gapScan.induct) auto

lemma Gap_ge: "gapsOk t \<Longrightarrow> 1 \<le> fst (Gap t r)"
proof -
  assume ok: "gapsOk t"
  show ?thesis
  proof (cases "gapCDF t = []")
    case False
    let ?l = "fst (last (gapCDF t))"
    have "last (gapCDF t) \<in> set (gapCDF t)" using False by simp
    then have "1 \<le> ?l" using ok by (fastforce simp: gapsOk_def)
    moreover have "1 \<le> g" if "g \<in> fst ` set (gapCDF t)" for g using ok that by (auto simp: gapsOk_def)
    ultimately show ?thesis
      using gapScan_in [of "fst (Float64 r)" ?l "gapCDF t"] False
      by (auto simp: Gap_def case_prod_beta Let_def)
  qed (simp add: Gap_def)
qed

lemma scheduleLoop_ok:
  assumes "1 \<le> crawl" "fl crawl = crawl" "gapsOk t" "window \<le> 2 ^ 52"
    and "0 \<le> x" "fl x = x" "2 * (window - x) \<le> of_nat fuel" "absences window 0 ev" "endOf 0 ev \<le> x"
  shows "\<exists>ev'. scheduleLoop pow t window crawl fuel x age k leaveNow ev r = Some ev' \<and> absences window 0 ev'"
  using assms(5-)
proof (induction fuel arbitrary: x age k leaveNow ev r)
  case 0
  then show ?case by simp
next
  case (Suc fuel)
  show ?case
  proof (cases "x < window")
    case False
    then show ?thesis using Suc.prems by simp
  next
    case True
    have next_ok: "0 \<le> fadd x d \<and> fl (fadd x d) = fadd x d \<and> 2 * (window - fadd x d) \<le> of_nat fuel
        \<and> x \<le> fadd x d" if "1 \<le> d" for d
    proof -
      have "x + 1 / 2 \<le> fadd x d" using fadd_progress [of x d] Suc.prems(1) True assms(4) that by simp
      then show ?thesis using Suc.prems(1,3) by (simp add: algebra_simps)
    qed
    obtain leave r1 where lv: "(if leaveNow then (True, r)
        else let (u, r) = Float64 r in (u < leaveProb pow k age 1, r)) = (leave, r1)" by force
    show ?thesis
    proof (cases leave)
      case False
      have "\<exists>ev'. scheduleLoop pow t window crawl fuel (fadd x crawl) (fadd age 1) k False ev r1 = Some ev'
          \<and> absences window 0 ev'"
        using next_ok [OF assms(1)] Suc.prems by (intro Suc.IH) auto
      then show ?thesis using True lv False by simp
    next
      case left: True
      obtain u r2 where u: "Float64 r1 = (u, r2)" by force
      obtain gap r3 where g: "Gap t r2 = (gap, r3)" by force
      have "1 \<le> gap" using Gap_ge [OF assms(3), of r2] g by simp
      then have "1 * crawl \<le> gap * crawl" using assms(1) by (intro mult_right_mono) auto
      then have "crawl \<le> fmul gap crawl" using assms(1,2) by (intro fl_ge_exact) auto
      then have d: "1 \<le> fmul gap crawl" using assms(1) by simp
      let ?e = "\<lparr>DownAt = x, UpAt = fadd x (fmul gap crawl)\<rparr>"
      have "absences window 0 (ev @ [?e])"
        using Suc.prems True next_ok [OF d] by (simp add: absences_snoc)
      then have "\<exists>ev'. scheduleLoop pow t window crawl fuel (fadd x (fmul gap crawl)) 0 (kmReturn t) False
          (ev @ [?e]) r3 = Some ev' \<and> absences window 0 ev'"
        using next_ok [OF d] by (intro Suc.IH) auto
      moreover have "absences window 0 (ev @ [\<lparr>DownAt = x, UpAt = window\<rparr>])"
        using Suc.prems True by (simp add: absences_snoc)
      ultimately show ?thesis using True lv left u g by (simp add: Let_def)
    qed
  qed
qed

lemma fmul_window: "0 \<le> v \<Longrightarrow> v < 1 \<Longrightarrow> 0 \<le> w \<Longrightarrow> fl w = w \<Longrightarrow> 0 \<le> fmul v w \<and> fmul v w \<le> w"
  using fl_le_exact [of "v * w" w] by (auto simp: fl_nonneg mult_left_le_one_le)

text \<open>
  C16: For a window of at most \<open>2\<^sup>5\<^sup>2\<close> seconds, a crawl unit of at least a second and observed gaps of at
  least one crawl, the schedule of a node is always produced within \<open>2 * window\<close> rounds of the loop,
  whatever the draws; its absences are in order, do not overlap, start inside the window, and so only
  the last one can reach past the end of the window.
\<close>

theorem ScheduleTopic_ordered:
  assumes "0 < window" "window \<le> 2 ^ 52" "fl window = window"
    and "1 \<le> crawlUnit m window (realHoursOf window h)" "gapsOk t" "2 * window \<le> of_nat fuel"
  shows "\<exists>ev. ScheduleTopic pow fuel m r window h t = Some ev \<and> absences window 0 ev"
proof -
  let ?c = "crawlUnit m window (realHoursOf window h)"
  have c: "fl ?c = ?c" by (simp add: crawlUnit_def)
  obtain u r1 where u: "Float64 r = (u, r1)" by force
  obtain v r2 where v: "Float64 r1 = (v, r2)" by force
  obtain w r3 where w: "Float64 r2 = (w, r3)" by force
  have vr: "0 \<le> v" "v < 1" "0 \<le> w" "w < 1" using Float64_range [of r1] Float64_range [of r2] v w by auto
  have a: "0 \<le> fmul v window \<and> fmul v window \<le> window" "0 \<le> fmul w window"
    using fmul_window vr assms(1,3) by (auto simp: less_imp_le)
  have fuel: "2 * (window - x) \<le> of_nat fuel" if "0 \<le> x" for x
  proof -
    have "2 * (window - x) \<le> 2 * window" using that by simp
    then show ?thesis using assms(6) by (rule order_trans)
  qed
  have s: "fmul v window \<le> fadd (fmul v window) ?c" using a assms(4) by (intro fadd_ge) auto
  have 1: "\<exists>ev. scheduleLoop pow t window ?c fuel (fadd (fmul v window) ?c) 0 (km t) False
      [\<lparr>DownAt = 0, UpAt = fmul v window\<rparr>] r2 = Some ev \<and> absences window 0 ev"
    using a s assms fuel c by (intro scheduleLoop_ok) auto
  have 2: "\<exists>ev. scheduleLoop pow t window ?c fuel (fmul w window) 0 (kmReturn t) True [] r3 = Some ev
      \<and> absences window 0 ev"
    using a assms fuel c by (intro scheduleLoop_ok) auto
  show ?thesis using 1 2 u v w by (simp add: ScheduleTopic_def Let_def)
qed

definition witnessFit :: topicFit where
  "witnessFit = \<lparr>tfID = ''*'', tfName = [], Share = 1, InitialUp = 1, AlwaysOn = 0, LeaveForever = 1/2,
     ArrivalRate = 0, FlickerRate = 0, GoneRate = 0, km = [], kmReturn = [], gapCDF = [(1, 1)], prefixes = []\<rparr>"

definition witnessModel :: churnModel where
  "witnessModel = \<lparr>Cadence = 1, Hours = 24, Peers = 0, Global = witnessFit, Topics = [], tailPool = [], tailK = 0\<rparr>"

theorem ScheduleTopic_ordered_witness:
  "\<exists>ev. ScheduleTopic (\<lambda>b f. b) 16 witnessModel (randNew (\<lambda>_. cycleSource) 3) 8 1 witnessFit = Some ev
     \<and> absences 8 0 ev"
proof (rule ScheduleTopic_ordered)
  have "fl 8 = 8" using fl_of_int [of 8] by simp
  then show "fl 8 = (8 :: rat)" "1 \<le> crawlUnit witnessModel 8 (realHoursOf 8 1)"
    by (simp_all add: crawlUnit_def realHoursOf_def witnessModel_def)
qed (simp_all add: gapsOk_def witnessFit_def)

fun alternates :: "bool \<Rightarrow> float64 \<Rightarrow> churnAction list \<Rightarrow> bool" where
  "alternates away t [] = True"
| "alternates away t (DepartAt x # as) \<longleftrightarrow> \<not> away \<and> t \<le> x \<and> alternates True x as"
| "alternates away t (RejoinAt x # as) \<longleftrightarrow> away \<and> t \<le> x \<and> alternates False x as"

fun isDepart :: "churnAction \<Rightarrow> bool" where
  "isDepart (DepartAt x) = True"
| "isDepart (RejoinAt x) = False"

lemma churnActions_alternate:
  "absences window t ev \<Longrightarrow> alternates False t (fst (churnActions window ev))
     \<and> length (snd (churnActions window ev)) = length (filter isDepart (fst (churnActions window ev)))"
  by (induction window ev arbitrary: t rule: churnActions.induct) (auto simp: Let_def case_prod_beta)

text \<open>
  The simulator's driver turns an ordered schedule into strictly alternating departures and
  returns: the node leaves first, returns before it leaves again, no action happens before the
  previous one, and it stays away at the end exactly when its last absence reaches past the window;
  every departure is counted in exactly one of the driver's three totals.
\<close>

theorem churnActions_alternating:
  assumes "absences window 0 ev"
  shows "alternates False 0 (fst (churnActions window ev))
    \<and> length (snd (churnActions window ev)) = length (filter isDepart (fst (churnActions window ev)))
    \<and> length (filter isDepart (fst (churnActions window ev))) = length ev
    \<and> (even (length (fst (churnActions window ev))) \<longleftrightarrow> (\<forall>e \<in> set ev. UpAt e < window))"
proof -
  have "length (filter isDepart (fst (churnActions window ev))) = length ev
    \<and> (even (length (fst (churnActions window ev))) \<longleftrightarrow> (\<forall>e \<in> set ev. UpAt e < window))"
    if "absences window t ev" for t
    using that
  proof (induction window ev arbitrary: t rule: churnActions.induct)
    case (2 window e es)
    have "es = []" if "window \<le> UpAt e"
      using that "2.prems" by (cases es) auto
    then show ?case using 2 by (auto simp: Let_def case_prod_beta not_le)
  qed simp
  then show ?thesis using churnActions_alternate [OF assms] assms by blast
qed

theorem churnActions_alternating_witness:
  "alternates False 0 (fst (churnActions 10 [\<lparr>DownAt = 1, UpAt = 3\<rparr>, \<lparr>DownAt = 4, UpAt = 10\<rparr>]))"
  using churnActions_alternating [of 10 "[\<lparr>DownAt = 1, UpAt = 3\<rparr>, \<lparr>DownAt = 4, UpAt = 10\<rparr>]"] by simp

section \<open>Prefixes\<close>

lemma scanD_natToStr:
  assumes "n < 2 ^ 63" "rest = [] \<or> \<not> isDigit (hd rest)"
  shows "scanD (natToStr n @ rest) = Some (int n, rest)"
proof -
  obtain c s where s: "natToStr n = c # s" by (meson natToStr_not_empty neq_Nil_conv)
  have c: "isDigit c" using natToStr_digits [of c n] s by simp
  have "dropWhile isBlank (natToStr n @ rest) = natToStr n @ rest"
    using isDigit_not [OF c] s by (simp add: isBlank_def)
  moreover have "splitSign (natToStr n @ rest) = (1, natToStr n @ rest)"
    using isDigit_not [OF c] s by (simp add: splitSign_def)
  moreover have "takeWhile isDigit (natToStr n @ rest) = natToStr n"
    "dropWhile isDigit (natToStr n @ rest) = rest"
    using natToStr_digits assms(2) by (cases rest; simp add: takeWhile_append2 dropWhile_append2)+
  ultimately show ?thesis using assms(1) by (simp add: scanD_def clamp64_def)
qed

lemma not_digits [simp]: "\<not> isDigit CHR ''.''" "\<not> isDigit CHR ''*''"
  by (simp_all add: isDigit_def)

lemma not_in_natToStr [simp]: "CHR ''*'' \<notin> set (natToStr n)" "CHR ''.'' \<notin> set (natToStr n)"
  using natToStr_digits [of "CHR ''*''" n] natToStr_digits [of "CHR ''.''" n] by auto

definition printPrefix :: "nat \<Rightarrow> nat \<Rightarrow> nat \<Rightarrow> string" where
  "printPrefix a b c = natToStr a @ CHR ''.'' # natToStr b @ CHR ''.'' # natToStr c"

lemma scanPrefix_print:
  "a < 2 ^ 63 \<Longrightarrow> b < 2 ^ 63 \<Longrightarrow> c < 2 ^ 63 \<Longrightarrow> scanPrefix (printPrefix a b c) = Some (int a, int b, int c)"
  using scanD_natToStr [of c "[]"]
  by (simp add: scanPrefix_def printPrefix_def scanD_natToStr expectChar_def)

text \<open>
  C24: The prefix notation of the model files round-trips: \<open>a.b.c*n\<close> stands for \<open>n\<close> copies of the packed
  prefix, a missing count for one, and packing keeps the three octets.
\<close>

theorem parsePrefix_roundtrip:
  assumes "a < 256" "b < 256" "c < 256" "n < 2 ^ 63"
  shows "parsePrefix (printPrefix a b c @ CHR ''*'' # natToStr n)
      = replicate n (packPrefix (int a) (int b) (int c))
    \<and> parsePrefix (printPrefix a b c) = [packPrefix (int a) (int b) (int c)]
    \<and> uint (packPrefix (int a) (int b) (int c)) = int (a * 65536 + b * 256 + c)"
proof -
  have star: "CHR ''*'' \<notin> set (printPrefix a b c)" by (simp add: printPrefix_def)
  have atoi: "Atoi (natToStr n) = (int n, True)" using Atoi_Itoa [of "int n"] assms(4) by (simp add: Itoa_def)
  have cut: "Cut (printPrefix a b c) CHR ''*'' = (printPrefix a b c, [], False)"
  proof -
    have "dropWhile (\<lambda>d. d \<noteq> CHR ''*'') (printPrefix a b c) = []"
      using star by (subst dropWhile_eq_Nil_conv) auto
    then show ?thesis unfolding Cut_def by (simp only: list.case)
  qed
  have scan: "scanPrefix (printPrefix a b c) = Some (int a, int b, int c)"
    using assms by (intro scanPrefix_print) auto
  have "uint (packPrefix (int a) (int b) (int c)) = int (a * 65536 + b * 256 + c)"
  proof -
    have bits: "\<not> bit x k" if "x < 256" "8 \<le> k" for x k :: nat
    proof -
      have "x < 2 ^ k" using that power_increasing [of 8 k "2 :: nat"] by simp
      then show ?thesis by (simp add: bit_iff_odd)
    qed
    have d1: "push_bit 16 (of_nat a :: 32 word) AND push_bit 8 (of_nat b) = 0"
      using bits [OF assms(2)] by (intro bit_eqI) (auto simp: bit_simps)
    have d2: "(push_bit 16 (of_nat a :: 32 word) OR push_bit 8 (of_nat b)) AND of_nat c = 0"
      using bits [OF assms(3)] by (intro bit_eqI) (auto simp: bit_simps)
    have "(push_bit 16 (of_nat a :: 32 word) OR push_bit 8 (of_nat b)) OR of_nat c
        = push_bit 16 (of_nat a) + push_bit 8 (of_nat b) + of_nat c"
      by (simp only: disjunctive_add_eq_or [OF d1] disjunctive_add_eq_or [OF d2])
    also have "\<dots> = of_nat (a * 65536 + b * 256 + c)" by (simp add: push_bit_eq_mult)
    finally have "packPrefix (int a) (int b) (int c) = of_nat (a * 65536 + b * 256 + c)"
      by (simp add: packPrefix_def)
    moreover have "take_bit 32 (a * 65536 + b * 256 + c) = a * 65536 + b * 256 + c"
      using assms by (intro take_bit_nat_eq_self) simp
    ultimately show ?thesis by (simp only: unsigned_of_nat) simp
  qed
  then show ?thesis
    using scan cut atoi Cut_append [OF star] by (simp add: parsePrefix_def Let_def)
qed

theorem parsePrefix_roundtrip_witness:
  "parsePrefix (printPrefix 10 20 30 @ CHR ''*'' # natToStr 3) = replicate 3 (packPrefix 10 20 30)"
  using parsePrefix_roundtrip [of 10 20 30 3] by simp

text \<open>The pool without the cache, and the cache's invariant.\<close>

definition poolOf :: "churnModel \<Rightarrow> int \<Rightarrow> int \<Rightarrow> 32 word list" where
  "poolOf m i k =
     (let tl = concat (map prefixes (drop (nat (k - 1)) (Topics m)));
          own = (if 0 \<le> i \<and> i < int (length (Topics m)) then prefixes (Topics m ! nat i) else [])
      in if 0 < k \<and> k < int (length (Topics m)) \<and> i = k - 1
         then (if tl \<noteq> [] then tl else prefixes (Global m))
         else (if own \<noteq> [] then own else prefixes (Global m)))"

definition cacheOk :: "churnModel \<Rightarrow> bool" where
  "cacheOk m \<longleftrightarrow> tailPool m = [] \<or>
     tailPool m = concat (map prefixes (drop (nat (tailK m - 1)) (Topics m)))"

lemma drawPool_cache:
  assumes "cacheOk m"
  shows "fst (drawPool i k m) = poolOf m i k \<and> cacheOk (snd (drawPool i k m))
    \<and> Topics (snd (drawPool i k m)) = Topics m \<and> Global (snd (drawPool i k m)) = Global m"
  using assms by (auto simp: drawPool_def poolOf_def cacheOk_def Let_def)

definition inPool :: "churnModel \<Rightarrow> int \<times> int \<Rightarrow> 32 word \<Rightarrow> bool" where
  "inPool m q p \<longleftrightarrow> (case q of (i, k) \<Rightarrow> if poolOf m i k = [] then p = 0 else p \<in> set (poolOf m i k))"

lemma inPool_cong: "Topics m1 = Topics m \<Longrightarrow> Global m1 = Global m \<Longrightarrow> inPool m1 = inPool m"
  by (intro ext) (simp add: inPool_def poolOf_def Let_def split: prod.split)

lemma DrawPrefix_model:
  assumes "DrawPrefix i k r m = (p, r', m')" "cacheOk m"
  shows "cacheOk m' \<and> Topics m' = Topics m \<and> Global m' = Global m
    \<and> inPool m (i, k) p"
proof -
  obtain pool m1 where dp: "drawPool i k m = (pool, m1)" by force
  then have pool: "pool = poolOf m i k" "m' = m1"
    using drawPool_cache [OF assms(2), of i k] assms(1)
    by (auto simp: DrawPrefix_def case_prod_beta Let_def split: if_splits)
  have "p \<in> set pool" if "pool \<noteq> []"
    using assms(1) dp that intn.draw_in [OF that, of r] by (auto simp: DrawPrefix_def case_prod_beta Let_def)
  moreover have "pool = [] \<Longrightarrow> p = 0" using assms(1) dp by (simp add: DrawPrefix_def)
  ultimately show ?thesis using drawPool_cache [OF assms(2), of i k] dp pool by (auto simp: inPool_def)
qed

fun drawMany :: "(int \<times> int) list \<Rightarrow> rng \<Rightarrow> churnModel \<Rightarrow> 32 word list \<times> rng \<times> churnModel" where
  "drawMany [] r m = ([], r, m)"
| "drawMany ((i, k) # qs) r m =
     (let (p, r, m) = DrawPrefix i k r m; (ps, r, m) = drawMany qs r m in (p # ps, r, m))"

text \<open>
  C26: Drawing a prefix with the cached tail pool is drawing without a cache: for any sequence of
  draws for any topics and topic counts, every draw picks an element of the pool its topic has by the
  documentation (the folded tail for the last of \<open>k\<close> topics, the topic's own prefixes, else all), and
  the model's data never changes.
\<close>

theorem drawMany_pools:
  assumes "cacheOk m" "drawMany qs r m = (ps, r', m')"
  shows "list_all2 (inPool m) qs ps
    \<and> Topics m' = Topics m \<and> Global m' = Global m"
  using assms
proof (induction qs arbitrary: r m ps)
  case (Cons q qs)
  obtain i k where q: "q = (i, k)" by force
  obtain p r1 m1 where d: "DrawPrefix i k r m = (p, r1, m1)" by (metis prod_cases3)
  obtain ps1 where ps1: "drawMany qs r1 m1 = (ps1, r', m')" "ps = p # ps1"
    using Cons.prems(2) q d by (auto simp: case_prod_beta Let_def prod_eq_iff)
  note m1 = DrawPrefix_model [OF d Cons.prems(1)]
  have "inPool m1 = inPool m" using m1 by (intro inPool_cong) auto
  then show ?case using Cons.IH [OF _ ps1(1)] m1 q ps1(2) by simp
qed simp

theorem drawMany_pools_witness:
  "Topics (snd (snd (drawMany [(0, 1), (-1, 3)] (randNew (\<lambda>_. cycleSource) 3) witnessModel))) = []"
  using drawMany_pools [of witnessModel "[(0, 1), (-1, 3)]" "randNew (\<lambda>_. cycleSource) 3"]
  by (metis prod.collapse cacheOk_def churnModel.select_convs(5,6) witnessModel_def)

end
