(* ===== verification/AddrPool.thy ===== *)
theory AddrPool
  imports ChurnModel
begin

unbundle bit_operations_syntax

text \<open>
  Node addresses drawn from the crawl model: \<open>src/pkg/addr/addr.go\<close> (all nodes at once) and the
  simulator's \<open>addrPool\<close> and \<open>nodeIP\<close> (\<open>src/cmd/simnet/nodes.go\<close>, one node at a time).
\<close>

type_synonym ipv4 = "8 word \<times> 8 word \<times> 8 word \<times> 8 word"

definition hostIP :: "32 word \<Rightarrow> int \<Rightarrow> ipv4" where
  "hostIP p h = (ucast (drop_bit 16 p), ucast (drop_bit 8 p), ucast p, of_int h)"

section \<open>The draw\<close>

datatype drawRes = NoPrefix | NoFree | Free "32 word"

text \<open>The retry loop of both pools: at most \<open>tries\<close> prefixes, skipping full ones.\<close>

fun drawFree :: "nat \<Rightarrow> int \<Rightarrow> int \<Rightarrow> (32 word, int) gomap \<Rightarrow> rng \<Rightarrow> churnModel \<Rightarrow> drawRes \<times> churnModel" where
  "drawFree 0 i k used r m = (NoFree, m)"
| "drawFree (Suc tries) i k used r m =
     (let (p, r, m) = DrawPrefix i k r m
      in if p = 0 then (NoPrefix, m)
         else if mget 0 used p \<ge> 254 then drawFree tries i k used r m
         else (Free p, m))"

section \<open>\<open>addr.Pool\<close>\<close>

record addressPool =
  ips :: "ipv4 list"
  nodePrefix :: "32 word list"
  used :: "(32 word, int) gomap"

datatype addrError = NoAddressModel | NoFreeHost nat | NoPrefixes int

definition place :: "32 word \<Rightarrow> addressPool \<Rightarrow> addressPool" where
  "place p a =
     (let u = madd p 1 (used a)
      in a\<lparr>used := u, ips := ips a @ [hostIP p (mget 0 u p)], nodePrefix := nodePrefix a @ [p]\<rparr>)"

fun drawNodes :: "(int \<Rightarrow> source) \<Rightarrow> int \<Rightarrow> int \<Rightarrow> (nat \<Rightarrow> int) \<Rightarrow> nat list \<Rightarrow> churnModel \<Rightarrow> addressPool
    \<Rightarrow> addrError + addressPool" where
  "drawNodes src k seed topicAt [] m a = Inr a"
| "drawNodes src k seed topicAt (i # is) m a =
     (case drawFree 64 (topicAt i) k (used a) (randNew src (seed * 7919 + int i)) m of
        (NoFree, m) \<Rightarrow> Inl (NoFreeHost i)
      | (NoPrefix, m) \<Rightarrow> Inl (NoPrefixes (topicAt i))
      | (Free p, m) \<Rightarrow> drawNodes src k seed topicAt is m (place p a))"

definition Draw :: "(int \<Rightarrow> source) \<Rightarrow> nat \<Rightarrow> churnModel option \<Rightarrow> int \<Rightarrow> int \<Rightarrow> (nat \<Rightarrow> int)
    \<Rightarrow> addrError + addressPool" where
  "Draw src n mo numTopics seed topicAt =
     (case mo of
        None \<Rightarrow> Inl NoAddressModel
      | Some m \<Rightarrow>
          if \<not> HasAddresses m then Inl NoAddressModel
          else drawNodes src numTopics seed topicAt [0..<n] m \<lparr>ips = [], nodePrefix = [], used = []\<rparr>)"

definition CIDR :: "32 word \<Rightarrow> string" where
  "CIDR p = Itoa (uint (ucast (drop_bit 16 p) :: 8 word)) @ ''.'' @ Itoa (uint (ucast (drop_bit 8 p) :: 8 word))
     @ ''.'' @ Itoa (uint (ucast p :: 8 word)) @ ''.0/24''"

definition Groups :: "addressPool \<Rightarrow> (32 word, nat list) gomap" where
  "Groups a = fold (\<lambda>(i, p) g. mput p (mget [] g p @ [i]) g) (enumerate 0 (nodePrefix a)) []"

definition Summary :: "addressPool \<Rightarrow> int \<times> nat \<times> int" where
  "Summary a = (msum (used a), length (used a), fold (\<lambda>(p, n) l. if n > l then n else l) (used a) 0)"

section \<open>The simulator's pool\<close>

record simPool =
  spModel :: churnModel
  spK :: int
  spSeed :: int
  spUsed :: "(32 word, int) gomap"
  spHint :: "(nat, int) gomap"
  spN :: int

definition newAddrPool :: "churnModel \<Rightarrow> int \<Rightarrow> int \<Rightarrow> simPool" where
  "newAddrPool m k seed = \<lparr>spModel = m, spK = k, spSeed = seed, spUsed = [], spHint = [], spN = 0\<rparr>"

definition reserve :: "nat \<Rightarrow> int \<Rightarrow> simPool \<Rightarrow> simPool" where
  "reserve idx t p = p\<lparr>spHint := mput idx t (spHint p)\<rparr>"

definition ip_sp :: "(int \<Rightarrow> source) \<Rightarrow> (nat \<Rightarrow> int) \<Rightarrow> nat \<Rightarrow> simPool \<Rightarrow> ipv4 option \<times> simPool" where
  "ip_sp src topicAt idx p =
     (let t = (case map_of (spHint p) idx of None \<Rightarrow> topicAt idx | Some t \<Rightarrow> t)
      in case drawFree 64 t (spK p) (spUsed p) (randNew src (spSeed p * 7919 + int idx)) (spModel p) of
           (NoPrefix, m) \<Rightarrow> (None, p\<lparr>spModel := m\<rparr>)
         | (NoFree, m) \<Rightarrow> (None, p\<lparr>spModel := m\<rparr>)
         | (Free pre, m) \<Rightarrow>
             let u = madd pre 1 (spUsed p)
             in (Some (hostIP pre (mget 0 u pre)), p\<lparr>spModel := m, spUsed := u, spN := spN p + 1\<rparr>))"

definition summary_sp :: "simPool \<Rightarrow> int \<times> nat \<times> int" where
  "summary_sp p = (spN p, length (spUsed p), fold (\<lambda>(q, n) l. if n > l then n else l) (spUsed p) 0)"

definition nodeIP :: "(int \<Rightarrow> source) \<Rightarrow> (nat \<Rightarrow> int) \<Rightarrow> nat \<Rightarrow> simPool option \<Rightarrow> ipv4 \<times> simPool option" where
  "nodeIP src topicAt idx pool =
     (let dflt = (33, of_nat (idx div 256), of_nat (idx mod 256), 1)
      in case pool of
           None \<Rightarrow> (dflt, None)
         | Some p \<Rightarrow> (case ip_sp src topicAt idx p of
                       (Some ip, p) \<Rightarrow> (ip, Some p)
                     | (None, p) \<Rightarrow> (dflt, Some p)))"

section \<open>Handing out hosts\<close>

text \<open>
  What both pools do with a drawn prefix: count it and hand out the count as host octet. As long as no
  count exceeds 254, the addresses are pairwise different.
\<close>

definition packed24 :: "32 word \<Rightarrow> bool" where
  "packed24 p \<longleftrightarrow> uint p < 2 ^ 24"

definition ipParts :: "ipv4 \<Rightarrow> 32 word \<times> int" where
  "ipParts ip = (case ip of (a, b, c, d) \<Rightarrow> (packPrefix (uint a) (uint b) (uint c), uint d))"

lemma packed24_bit: "packed24 p \<Longrightarrow> 24 \<le> n \<Longrightarrow> \<not> bit p n"
proof -
  assume p: "packed24 p" and n: "24 \<le> n"
  have "(2 :: int) ^ 24 \<le> 2 ^ n" using n by (intro power_increasing) auto
  then have "uint p < 2 ^ n" using p by (simp add: packed24_def)
  then have "\<not> bit (uint p) n" by (simp add: bit_iff_odd)
  then show ?thesis by (simp add: bit_simps)
qed

lemma ipParts_hostIP:
  assumes "packed24 p" "0 \<le> h" "h < 256"
  shows "ipParts (hostIP p h) = (p, h)"
proof -
  have "packPrefix (uint (ucast (drop_bit 16 p) :: 8 word)) (uint (ucast (drop_bit 8 p) :: 8 word))
      (uint (ucast p :: 8 word)) = p"
  proof (rule bit_eqI)
    fix n :: nat
    consider "n < 8" | "8 \<le> n" "n < 16" | "16 \<le> n" "n < 24" | "24 \<le> n" by linarith
    then show "bit (packPrefix (uint (ucast (drop_bit 16 p) :: 8 word)) (uint (ucast (drop_bit 8 p) :: 8 word))
      (uint (ucast p :: 8 word))) n = bit p n"
      using packed24_bit [OF assms(1), of n] by cases (auto simp: packPrefix_def bit_simps)
  qed
  moreover have "uint (of_int h :: 8 word) = h"
    using assms(2,3) by (simp add: uint_word_of_int_eq take_bit_int_eq_self)
  ultimately show ?thesis by (simp add: ipParts_def hostIP_def)
qed

locale host_allocation =
  fixes taken :: "'s \<Rightarrow> (32 word, int) gomap"
    and given :: "'s \<Rightarrow> ipv4 list"
    and give :: "32 word \<Rightarrow> 's \<Rightarrow> 's"
  assumes taken_give: "taken (give p s) = madd p 1 (taken s)"
    and given_give: "given (give p s) = given s @ [hostIP p (mget 0 (taken s) p + 1)]"
begin

definition inv :: "'s \<Rightarrow> bool" where
  "inv s \<longleftrightarrow> mapOk (taken s) \<and> distinct (map ipParts (given s))
     \<and> (\<forall>(p, h) \<in> ipParts ` set (given s). 1 \<le> h \<and> h \<le> mget 0 (taken s) p)
     \<and> (\<forall>p. 0 \<le> mget 0 (taken s) p \<and> mget 0 (taken s) p \<le> 254)
     \<and> msum (taken s) = int (length (given s))"

lemma inv_give:
  assumes "inv s" "mget 0 (taken s) p < 254" "packed24 p"
  shows "inv (give p s)"
proof -
  have h: "0 \<le> mget 0 (taken s) p" using assms(1) by (simp add: inv_def)
  have parts: "ipParts (hostIP p (mget 0 (taken s) p + 1)) = (p, mget 0 (taken s) p + 1)"
    using assms(2,3) h by (intro ipParts_hostIP) auto
  have fresh: "(p, mget 0 (taken s) p + 1) \<notin> ipParts ` set (given s)"
    using assms(1) unfolding inv_def by force
  have bound: "1 \<le> k \<and> k \<le> mget 0 (taken (give p s)) q"
    if "(q, k) \<in> ipParts ` set (given (give p s))" for q k
  proof (cases "(q, k) = (p, mget 0 (taken s) p + 1)")
    case True
    then show ?thesis using h by (simp add: taken_give)
  next
    case False
    then have "(q, k) \<in> ipParts ` set (given s)" using that parts by (auto simp: given_give)
    then have "1 \<le> k \<and> k \<le> mget 0 (taken s) q" using assms(1) unfolding inv_def by blast
    then show ?thesis by (auto simp: taken_give)
  qed
  have "mapOk (taken s)" "distinct (map ipParts (given s))" "msum (taken s) = int (length (given s))"
    "\<forall>q. 0 \<le> mget 0 (taken s) q \<and> mget 0 (taken s) q \<le> 254"
    using assms(1) by (simp_all add: inv_def)
  moreover have "\<forall>(q, k) \<in> ipParts ` set (given (give p s)). 1 \<le> k \<and> k \<le> mget 0 (taken (give p s)) q"
    using bound by blast
  moreover have "distinct (map ipParts (given (give p s)))"
    using \<open>distinct (map ipParts (given s))\<close> fresh parts by (simp add: given_give)
  ultimately show ?thesis
    using assms(2) unfolding inv_def by (simp add: taken_give given_give)
qed

lemma inv_distinct: "inv s \<Longrightarrow> distinct (given s)"
  by (auto simp: inv_def distinct_map)

lemma inv_host: "inv s \<Longrightarrow> ip \<in> set (given s) \<Longrightarrow> 1 \<le> snd (ipParts ip) \<and> snd (ipParts ip) \<le> 254"
proof -
  assume s: "inv s" and ip: "ip \<in> set (given s)"
  obtain p h where ph: "ipParts ip = (p, h)" by force
  have "\<forall>(p, h) \<in> ipParts ` set (given s). 1 \<le> h \<and> h \<le> mget 0 (taken s) p"
    "mget 0 (taken s) p \<le> 254" using s by (simp_all add: inv_def)
  moreover have "(p, h) \<in> ipParts ` set (given s)" using ip ph by (metis imageI)
  ultimately show ?thesis using ph by fastforce
qed

end

text \<open>The simulator hands addresses out one by one: its pool beside the addresses handed out so far.\<close>

definition simGive :: "32 word \<Rightarrow> simPool \<times> ipv4 list \<Rightarrow> simPool \<times> ipv4 list" where
  "simGive p s = (case s of (q, xs) \<Rightarrow>
     (q\<lparr>spUsed := madd p 1 (spUsed q), spN := spN q + 1\<rparr>, xs @ [hostIP p (mget 0 (madd p 1 (spUsed q)) p)]))"

interpretation pool: host_allocation used ips place
  by unfold_locales (simp_all add: place_def Let_def)

interpretation sim: host_allocation "\<lambda>s. spUsed (fst s)" snd simGive
  by unfold_locales (simp_all add: simGive_def case_prod_beta)

section \<open>Properties\<close>

definition prefixesOk :: "churnModel \<Rightarrow> bool" where
  "prefixesOk m \<longleftrightarrow> cacheOk m \<and> (\<forall>p \<in> set (prefixes (Global m)). packed24 p)
     \<and> (\<forall>t \<in> set (Topics m). \<forall>p \<in> set (prefixes t). packed24 p)"

lemma poolOf_packed:
  assumes "prefixesOk m" "p \<in> set (poolOf m i k)"
  shows "packed24 p"
proof -
  have "p \<in> set (prefixes (Global m)) \<or> (\<exists>t \<in> set (Topics m). p \<in> set (prefixes t))"
    using assms(2) by (auto simp: poolOf_def Let_def split: if_splits dest: in_set_dropD)
  then show ?thesis using assms(1) by (auto simp: prefixesOk_def)
qed

lemma drawFree_ok:
  assumes "prefixesOk m" "drawFree tries i k u r m = (res, m')"
  shows "prefixesOk m' \<and> Topics m' = Topics m \<and> Global m' = Global m
    \<and> (\<forall>p. res = Free p \<longrightarrow> p \<noteq> 0 \<and> p \<in> set (poolOf m i k) \<and> mget 0 u p < 254 \<and> packed24 p)"
  using assms
proof (induction tries arbitrary: r m)
  case (Suc tries)
  obtain p r1 m1 where d: "DrawPrefix i k r m = (p, r1, m1)" by (metis prod_cases3)
  have m1: "prefixesOk m1" "Topics m1 = Topics m" "Global m1 = Global m" "inPool m (i, k) p"
    using DrawPrefix_model [OF d] Suc.prems(1) by (auto simp: prefixesOk_def)
  have "poolOf m1 = poolOf m" using m1(2,3) by (intro ext) (simp add: poolOf_def Let_def)
  moreover have "p \<noteq> 0 \<Longrightarrow> p \<in> set (poolOf m i k)" using m1(4) by (auto simp: inPool_def split: if_splits)
  ultimately show ?case
    using Suc.IH [of m1 r1] Suc.prems d m1 poolOf_packed [OF Suc.prems(1)]
    by (auto split: if_splits)
qed simp

lemma drawNodes_ok:
  assumes "prefixesOk m" "pool.inv a" "length (ips a) = length (nodePrefix a)"
    "map (fst \<circ> ipParts) (ips a) = nodePrefix a"
    and "drawNodes src k seed topicAt is m a = Inr a'"
  shows "pool.inv a' \<and> map (fst \<circ> ipParts) (ips a') = nodePrefix a'
    \<and> length (ips a') = length (ips a) + length is
    \<and> (\<exists>ps. nodePrefix a' = nodePrefix a @ ps \<and> list_all2 (\<lambda>i p. p \<in> set (poolOf m (topicAt i) k)) is ps)"
  using assms
proof (induction "is" arbitrary: m a)
  case (Cons i js)
  obtain res m1 where d: "drawFree 64 (topicAt i) k (used a) (randNew src (seed * 7919 + int i)) m = (res, m1)"
    by force
  then obtain p where p: "res = Free p" using Cons.prems(5) by (cases res) auto
  note ok = drawFree_ok [OF Cons.prems(1) d, unfolded p]
  have pool1: "poolOf m1 = poolOf m" using ok by (intro ext) (simp add: poolOf_def Let_def)
  have inv1: "pool.inv (place p a)" using Cons.prems(2) ok by (intro pool.inv_give) auto
  have h: "0 \<le> mget 0 (used a) p" using Cons.prems(2) by (simp add: pool.inv_def)
  then have "ipParts (hostIP p (mget 0 (used a) p + 1)) = (p, mget 0 (used a) p + 1)"
    using ok by (intro ipParts_hostIP) auto
  then have parts: "map (fst \<circ> ipParts) (ips (place p a)) = nodePrefix (place p a)"
    "length (ips (place p a)) = length (nodePrefix (place p a))"
    using Cons.prems(3,4) by (simp_all add: place_def Let_def comp_def)
  have run: "drawNodes src k seed topicAt js m1 (place p a) = Inr a'" using Cons.prems(5) d p by simp
  from Cons.IH [OF _ inv1 parts(2,1) run] ok pool1 obtain ps where
    "pool.inv a'" "map (fst \<circ> ipParts) (ips a') = nodePrefix a'"
    "length (ips a') = length (ips (place p a)) + length js"
    "nodePrefix a' = nodePrefix (place p a) @ ps"
    "list_all2 (\<lambda>i p. p \<in> set (poolOf m (topicAt i) k)) js ps" by auto
  then show ?case using ok by (auto simp: place_def Let_def comp_def intro!: exI [of _ "p # ps"])
qed simp

text \<open>
  C9: A successful address draw gives every node an address of its own: pairwise different, in the
  \<open>/24\<close> recorded for the node, with a host octet between 1 and 254, and with a \<open>/24\<close> from the pool of
  the node's own topic.
\<close>

theorem Draw_distinct:
  assumes "prefixesOk m" "Draw src n (Some m) numTopics seed topicAt = Inr a"
  shows "length (ips a) = n \<and> distinct (ips a) \<and> map (fst \<circ> ipParts) (ips a) = nodePrefix a
    \<and> (\<forall>ip \<in> set (ips a). 1 \<le> snd (ipParts ip) \<and> snd (ipParts ip) \<le> 254)
    \<and> (\<forall>i < n. nodePrefix a ! i \<in> set (poolOf m (topicAt i) numTopics))"
proof -
  let ?a = "\<lparr>ips = [], nodePrefix = [], used = []\<rparr> :: addressPool"
  have inv0: "pool.inv ?a" by (simp add: pool.inv_def)
  have run: "drawNodes src numTopics seed topicAt [0..<n] m ?a = Inr a"
    using assms(2) by (simp add: Draw_def split: if_splits)
  from drawNodes_ok [OF assms(1) inv0 _ _ run] obtain ps where
    "pool.inv a" "map (fst \<circ> ipParts) (ips a) = nodePrefix a" "length (ips a) = n" "nodePrefix a = ps"
    "list_all2 (\<lambda>i p. p \<in> set (poolOf m (topicAt i) numTopics)) [0..<n] ps" by auto
  then show ?thesis using pool.inv_distinct pool.inv_host by (auto simp: list_all2_conv_all_nth)
qed

text \<open>The simulator's calls: reservations for joiners and requests for addresses.\<close>

datatype poolCall = Reserve nat int | Ask nat

fun simCall :: "(int \<Rightarrow> source) \<Rightarrow> (nat \<Rightarrow> int) \<Rightarrow> poolCall \<Rightarrow> simPool \<times> ipv4 list \<Rightarrow> simPool \<times> ipv4 list" where
  "simCall src topicAt (Reserve i t) (p, xs) = (reserve i t p, xs)"
| "simCall src topicAt (Ask i) (p, xs) =
     (case ip_sp src topicAt i p of (None, p) \<Rightarrow> (p, xs) | (Some ip, p) \<Rightarrow> (p, xs @ [ip]))"

lemma sim_inv_cong: "spUsed q = spUsed p \<Longrightarrow> sim.inv (q, xs) \<longleftrightarrow> sim.inv (p, xs)"
  by (simp add: sim.inv_def)

lemma simCall_inv:
  assumes "prefixesOk (spModel p)" "sim.inv (p, xs)" "spN p = int (length xs)"
    "simCall src topicAt c (p, xs) = (p', xs')"
  shows "prefixesOk (spModel p') \<and> sim.inv (p', xs') \<and> spN p' = int (length xs')"
proof (cases c)
  case (Reserve i t)
  then show ?thesis using assms by (auto simp: reserve_def sim.inv_def)
next
  case (Ask i)
  define t where "t = (case map_of (spHint p) i of None \<Rightarrow> topicAt i | Some t \<Rightarrow> t)"
  obtain res m1 where d: "drawFree 64 t (spK p) (spUsed p) (randNew src (spSeed p * 7919 + int i)) (spModel p) = (res, m1)"
    by force
  note ok = drawFree_ok [OF assms(1) d]
  show ?thesis
  proof (cases res)
    case (Free pre)
    have g: "sim.inv (simGive pre (p, xs))" using assms(2) ok Free by (intro sim.inv_give) auto
    have r: "p' = p\<lparr>spModel := m1, spUsed := madd pre 1 (spUsed p), spN := spN p + 1\<rparr>"
      "xs' = xs @ [hostIP pre (mget 0 (madd pre 1 (spUsed p)) pre)]"
      using assms(4) Ask d Free by (simp_all add: ip_sp_def Let_def flip: t_def)
    have "sim.inv (p', xs')"
      using g r(2) sim_inv_cong [of p' "fst (simGive pre (p, xs))" xs'] by (simp add: simGive_def r(1))
    then show ?thesis using r assms(3) ok by simp
  next
    case NoPrefix
    then have "p' = p\<lparr>spModel := m1\<rparr>" "xs' = xs"
      using assms(4) Ask d by (simp_all add: ip_sp_def Let_def flip: t_def)
    then show ?thesis using assms(2,3) ok sim_inv_cong [of p' p xs] by simp
  next
    case NoFree
    then have "p' = p\<lparr>spModel := m1\<rparr>" "xs' = xs"
      using assms(4) Ask d by (simp_all add: ip_sp_def Let_def flip: t_def)
    then show ?thesis using assms(2,3) ok sim_inv_cong [of p' p xs] by simp
  qed
qed

text \<open>
  The simulator's pool never hands the same address to two nodes, in any order of requests and
  reservations, and its summary counts exactly the addresses handed out.
\<close>

theorem simPool_distinct:
  assumes "prefixesOk m" "fold (simCall src topicAt) calls (newAddrPool m k seed, []) = (p, xs)"
  shows "distinct xs \<and> fst (summary_sp p) = int (length xs)
    \<and> (\<forall>ip \<in> set xs. 1 \<le> snd (ipParts ip) \<and> snd (ipParts ip) \<le> 254)"
proof -
  have "prefixesOk (spModel q') \<and> sim.inv (q', ys') \<and> spN q' = int (length ys')"
    if "prefixesOk (spModel q)" "sim.inv (q, ys)" "spN q = int (length ys)"
      "fold (simCall src topicAt) calls (q, ys) = (q', ys')" for q ys q' ys'
    using that
  proof (induction calls arbitrary: q ys)
    case (Cons c calls)
    obtain q1 ys1 where c: "simCall src topicAt c (q, ys) = (q1, ys1)" by force
    then show ?case using Cons.IH [of q1 ys1] Cons.prems simCall_inv [OF _ _ _ c] by simp
  qed simp
  moreover have "sim.inv (newAddrPool m k seed, [])" by (simp add: sim.inv_def newAddrPool_def)
  moreover have "prefixesOk (spModel (newAddrPool m k seed))" "spN (newAddrPool m k seed) = int (length ([] :: ipv4 list))"
    using assms(1) by (simp_all add: newAddrPool_def)
  ultimately have "sim.inv (p, xs)" "spN p = int (length xs)"
    using assms(2) by blast+
  then show ?thesis
    using sim.inv_distinct [of "(p, xs)"] sim.inv_host [of "(p, xs)"] by (simp add: summary_sp_def)
qed

section \<open>Witnesses\<close>

definition onePrefix :: churnModel where
  "onePrefix = witnessModel\<lparr>Global := witnessFit\<lparr>prefixes := [packPrefix 1 2 3]\<rparr>\<rparr>"

lemma packPrefix_123: "packPrefix 1 2 3 = 0x10203"
  by (simp add: packPrefix_def push_bit_eq_mult)

lemma onePrefix_ok: "prefixesOk onePrefix"
  by (simp add: prefixesOk_def cacheOk_def onePrefix_def witnessModel_def packed24_def packPrefix_123)

lemma Intn_one: "Intn (Suc 0) r = (0, snd (Intn (Suc 0) r))"
  using Intn_less [of "Suc 0" r] by (simp add: prod_eq_iff)

lemma DrawPrefix_one: "DrawPrefix i k r onePrefix = (0x10203, snd (Intn (Suc 0) r), onePrefix)"
proof -
  have "drawPool i k onePrefix = ([0x10203], onePrefix)"
    by (auto simp: drawPool_def onePrefix_def witnessModel_def packPrefix_123)
  then show ?thesis by (simp add: DrawPrefix_def case_prod_beta Intn_one [THEN arg_cong, of fst])
qed

lemma drawFree_one:
  "mget 0 u 0x10203 < 254 \<Longrightarrow> drawFree 64 i k u r onePrefix = (Free 0x10203, onePrefix)"
  using drawFree.simps(2) [of 63 i k u r onePrefix] by (simp add: DrawPrefix_one)

theorem Draw_distinct_witness:
  "\<exists>a. Draw (\<lambda>_. cycleSource) 2 (Some onePrefix) 1 5 (\<lambda>_. 0) = Inr a \<and> distinct (ips a)"
proof -
  let ?a = "\<lparr>ips = [], nodePrefix = [], used = []\<rparr> :: addressPool"
  have "Draw (\<lambda>_. cycleSource) 2 (Some onePrefix) 1 5 (\<lambda>_. 0)
      = drawNodes (\<lambda>_. cycleSource) 1 5 (\<lambda>_. 0) [0, 1] onePrefix ?a"
    by (simp add: Draw_def HasAddresses_def onePrefix_def upt_rec numeral_2_eq_2)
  also have "\<dots> = Inr (place 0x10203 (place 0x10203 ?a))"
    by (simp add: drawFree_one place_def Let_def)
  finally have "Draw (\<lambda>_. cycleSource) 2 (Some onePrefix) 1 5 (\<lambda>_. 0) = Inr (place 0x10203 (place 0x10203 ?a))" .
  then show ?thesis using Draw_distinct [OF onePrefix_ok] by blast
qed

theorem simPool_distinct_witness:
  "distinct (snd (fold (simCall (\<lambda>_. cycleSource) (\<lambda>_. 0)) [Reserve 9 0, Ask 9, Ask 1, Ask 4] (newAddrPool onePrefix 1 5, [])))"
  using simPool_distinct [OF onePrefix_ok, of "\<lambda>_. cycleSource" "\<lambda>_. 0" "[Reserve 9 0, Ask 9, Ask 1, Ask 4]" 1 5]
  by (metis prod.collapse)

end
