(* ===== verification/Scenario.thy ===== *)
theory Scenario
  imports GoFloat GoString "HOL-Library.Char_ord" "HOL-Library.List_Lexorder"
begin

text \<open>
  A run's configuration (\<open>src/pkg/scenario/scenario.go\<close>): the sections with their defaults, the
  checks a configuration has to pass, and the instance counts per region. The command-line form of a
  run (\<open>src/pkg/scenario/compose.go\<close>): scanning the arguments and composing a workload and a profile.
  Decoding YAML is not modelled: a section is the record the decoder fills.
\<close>

section \<open>Sections\<close>

record PopulationConfig =
  pNodes :: int
  pTopics :: int
  pZipfS :: float64
  pTopicModel :: string
  pAddresses :: string
  pCommonTopic :: bool
  pSeed :: int
  pLegacyFrac :: float64
  pLegacyBootnode :: bool
  pLegacyBuild :: string
  pBootstrapSample :: int
  pVanillaFrac :: float64

record NetworkConfig =
  nLatencyMs :: int
  nBandwidthMibps :: int
  nRegions :: "(string, float64) gomap"
  nNodeRegions :: "(int, string) gomap"
  nRTTTable :: string
  nModel :: string

record PhasesConfig =
  phBootstrapWait :: duration
  phStartWindow :: duration
  phRegisterStagger :: duration
  phRegisterWait :: duration
  phSearchStagger :: duration
  phSearchTimeout :: duration
  phRefreshInterval :: duration

record TopicConfig =
  tcAdLifetime :: duration
  tcAdCacheSize :: int
  tcRegAttemptTimeout :: duration
  tcSearchBucketSize :: int
  tcSearchTableDepth :: int
  tcRegTableDepth :: int
  tcRegBucketSize :: int
  tcRegBucketStandby :: int
  tcTopicNodesLimit :: int
  tcAuxNodesLimit :: int
  tcSearchYieldFloor :: int
  tcSearchAuxRadius :: int
  tcNodesPerSourceBucket :: int
  tcRemoveOnExpiry :: bool

record SearchConfig =
  seModel :: string
  seRequestTimeout :: duration
  seTargetCount :: int
  seIntervals :: int
  seInitialResults :: int
  seResultInterval :: duration

record ConnModelConfig =
  cmEnabled :: bool
  cmMaxPeers :: int
  cmDialRatio :: int
  cmRedialWait :: duration

record SessionChurnConfig =
  scEnabled :: bool
  scGap :: duration
  scAlwaysOnFrac :: float64
  scScale :: float64
  scModel :: string
  scWindowHours :: float64

record DisconnectConfig =
  dcInterval :: duration
  dcFrac :: float64

record ChurnConfig =
  ccInterval :: duration
  ccFrac :: float64
  ccMode :: string

record GhostsConfig =
  gShare :: float64
  gTables :: string
  gPool :: int

record ScenarioConfig =
  Population :: PopulationConfig
  Network :: NetworkConfig
  PhasesC :: PhasesConfig
  TopicC :: TopicConfig
  SearchC :: SearchConfig
  ConnModelC :: ConnModelConfig
  SessionChurn :: SessionChurnConfig
  Disconnect :: DisconnectConfig
  ChurnC :: ChurnConfig
  Ghosts :: GhostsConfig

record WanConfig =
  wEnabled :: bool
  wDelayMinMs :: float64
  wDelayMaxMs :: float64
  wJitterMs :: float64
  wRateKbps :: int

record CloudConfig =
  clInventory :: string
  clHomeRegion :: string
  clAgentPort :: int
  clPublicIPs :: bool
  clVerbosity :: int
  clGrace :: duration

record G5kConfig =
  g5Site :: string
  g5Cluster :: string
  g5Walltime :: string
  g5Reservation :: string
  g5Queue :: string
  g5Env :: string
  g5VnodesPerMachine :: int
  g5Image :: string

record GcpConfig =
  gcRegion :: string
  gcZone :: string
  gcMachineType :: string
  gcCoordinatorType :: string
  gcVnodesPerMachine :: int

record HetznerConfig =
  hzLocation :: string
  hzServerType :: string
  hzCoordinatorType :: string
  hzVnodesPerMachine :: int

record AwsPackedConfig =
  apRegion :: string
  apZone :: string
  apInstanceType :: string
  apCoordinatorType :: string
  apVnodesPerMachine :: int

record LocalConfig =
  lcNodeBinary :: string
  lcLegacyBinary :: string
  lcPlainBinary :: string
  lcBasePort :: int
  lcGrace :: duration
  lcVerbosity :: int

record SimulatorConfig =
  smLinkBuf :: int
  smLinkNoAqm :: bool
  smRouterBuf :: int
  smRouterShards :: int

record HarnessConfig =
  haSpawnDelay :: duration
  haMaxBootnodes :: int
  haRegProbePeriod :: duration
  haSearchPauseMax :: duration
  haSearchPauseNovelOnly :: bool

record TracesConfig =
  trMetrics :: string
  trOverhead :: string
  trOverheadSeries :: string
  trOverheadSeriesPeriod :: duration
  trHostSamplePeriod :: duration
  trReach :: string
  trSnapshotDir :: string
  trCheckpointInterval :: duration

record TestbedConfig =
  Backend :: string
  Local :: LocalConfig
  Wan :: WanConfig
  Cloud :: CloudConfig
  G5k :: G5kConfig
  Gcp :: GcpConfig
  Hetzner :: HetznerConfig
  AwsPacked :: AwsPackedConfig
  Simulator :: SimulatorConfig
  Harness :: HarnessConfig
  Traces :: TracesConfig
  AbortOnDrop :: bool

record Config =
  SourcePath :: string
  cfgName :: string
  Overrides :: "string list"
  scen :: ScenarioConfig
  testbed :: TestbedConfig

section \<open>Defaults\<close>

definition DefaultScenario :: ScenarioConfig where
  "DefaultScenario =
     \<lparr>Population = \<lparr>pNodes = 5, pTopics = 1, pZipfS = fl (107/100), pTopicModel = [], pAddresses = [],
        pCommonTopic = False, pSeed = 0, pLegacyFrac = 0, pLegacyBootnode = False, pLegacyBuild = [],
        pBootstrapSample = 0, pVanillaFrac = 0\<rparr>,
      Network = \<lparr>nLatencyMs = 30, nBandwidthMibps = 100, nRegions = [], nNodeRegions = [],
        nRTTTable = ''models/region-rtt.json'', nModel = ''regions''\<rparr>,
      PhasesC = \<lparr>phBootstrapWait = 3 * nsSecond, phStartWindow = 0, phRegisterStagger = 0,
        phRegisterWait = 5 * nsSecond, phSearchStagger = 0, phSearchTimeout = 30 * nsSecond,
        phRefreshInterval = 0\<rparr>,
      TopicC = \<lparr>tcAdLifetime = 0, tcAdCacheSize = 0, tcRegAttemptTimeout = 0, tcSearchBucketSize = 0,
        tcSearchTableDepth = 0, tcRegTableDepth = 0, tcRegBucketSize = 0, tcRegBucketStandby = 0,
        tcTopicNodesLimit = 0, tcAuxNodesLimit = 0, tcSearchYieldFloor = 0, tcSearchAuxRadius = 0,
        tcNodesPerSourceBucket = 0, tcRemoveOnExpiry = False\<rparr>,
      SearchC = \<lparr>seModel = ''conn'', seRequestTimeout = 0, seTargetCount = 0, seIntervals = 10,
        seInitialResults = 0, seResultInterval = 0\<rparr>,
      ConnModelC = \<lparr>cmEnabled = False, cmMaxPeers = 50, cmDialRatio = 3, cmRedialWait = 35 * nsSecond\<rparr>,
      SessionChurn = \<lparr>scEnabled = False, scGap = 30 * nsSecond, scAlwaysOnFrac = fl (423/1000), scScale = 1,
        scModel = [], scWindowHours = 24\<rparr>,
      Disconnect = \<lparr>dcInterval = 0, dcFrac = fl (1/100)\<rparr>,
      ChurnC = \<lparr>ccInterval = 0, ccFrac = fl (1/10), ccMode = ''steadystate''\<rparr>,
      Ghosts = \<lparr>gShare = 0, gTables = [], gPool = 0\<rparr>\<rparr>"

definition DefaultTestbed :: TestbedConfig where
  "DefaultTestbed =
     \<lparr>Backend = ''simnet'',
      Local = \<lparr>lcNodeBinary = ''./topdisc-node'', lcLegacyBinary = ''./topdisc-node-legacy'',
        lcPlainBinary = ''./topdisc-node-plain'', lcBasePort = 30300, lcGrace = 10 * nsSecond, lcVerbosity = 2\<rparr>,
      Wan = \<lparr>wEnabled = False, wDelayMinMs = 4, wDelayMaxMs = 45, wJitterMs = 3, wRateKbps = 160\<rparr>,
      Cloud = \<lparr>clInventory = ''inventory.json'', clHomeRegion = ''us-east-1'', clAgentPort = 9000,
        clPublicIPs = False, clVerbosity = 2, clGrace = 30 * nsSecond\<rparr>,
      G5k = \<lparr>g5Site = ''nancy'', g5Cluster = [], g5Walltime = ''02:00:00'', g5Reservation = [],
        g5Queue = ''default'', g5Env = ''debian11-x64-base'', g5VnodesPerMachine = 250,
        g5Image = ''file:///home/USER/topdisc-vnode.tar.gz''\<rparr>,
      Gcp = \<lparr>gcRegion = ''us-central1'', gcZone = ''us-central1-a'', gcMachineType = ''n2-standard-8'',
        gcCoordinatorType = ''e2-standard-4'', gcVnodesPerMachine = 0\<rparr>,
      Hetzner = \<lparr>hzLocation = ''fsn1'', hzServerType = ''cx53'', hzCoordinatorType = ''cx53'', hzVnodesPerMachine = 0\<rparr>,
      AwsPacked = \<lparr>apRegion = ''us-east-1'', apZone = ''us-east-1a'', apInstanceType = ''m6a.2xlarge'',
        apCoordinatorType = ''m6a.xlarge'', apVnodesPerMachine = 0\<rparr>,
      Simulator = \<lparr>smLinkBuf = 0, smLinkNoAqm = False, smRouterBuf = 0, smRouterShards = 0\<rparr>,
      Harness = \<lparr>haSpawnDelay = 0, haMaxBootnodes = 20, haRegProbePeriod = 500 * nsMilli,
        haSearchPauseMax = 0, haSearchPauseNovelOnly = False\<rparr>,
      Traces = \<lparr>trMetrics = [], trOverhead = [], trOverheadSeries = [],
        trOverheadSeriesPeriod = 30 * nsSecond, trHostSamplePeriod = 30 * nsSecond, trReach = [],
        trSnapshotDir = [], trCheckpointInterval = 0\<rparr>,
      AbortOnDrop = True\<rparr>"

definition Default :: Config where
  "Default = \<lparr>SourcePath = [], cfgName = [], Overrides = [], scen = DefaultScenario, testbed = DefaultTestbed\<rparr>"

section \<open>Checks\<close>

datatype configError = BadSearchModel | CrawlNeedsTopicModel | BadAddresses | BadLegacyBuild
  | BadShare | BadPool | ShareAndTables | GhostsOnSimnet | GhostsOnStock | NoTables | GhostPorts
  | LookupWithConnModel | SlashInName

definition GhostPortBase :: int where "GhostPortBase = 20000"
definition GhostPortSpan :: int where "GhostPortSpan = 10000"

definition ghostsOn :: "GhostsConfig \<Rightarrow> bool" where
  "ghostsOn g \<longleftrightarrow> gShare g > 0 \<or> gTables g \<noteq> []"

text \<open>\<open>statOk\<close>: whether the tables file exists, asked of the file system by its resolved path.\<close>

definition checkGhosts :: "bool \<Rightarrow> Config \<Rightarrow> configError option" where
  "checkGhosts statOk c =
     (let g = Ghosts (scen c); p = Population (scen c)
      in if gShare g < 0 \<or> gShare g > 1/2 then Some BadShare
         else if gPool g < 0 then Some BadPool
         else if \<not> ghostsOn g then None
         else if gShare g > 0 \<and> gTables g \<noteq> [] then Some ShareAndTables
         else if Backend (testbed c) = ''simnet'' then Some GhostsOnSimnet
         else if pLegacyFrac p > 0 \<and> pLegacyBuild p \<noteq> ''fork'' then Some GhostsOnStock
         else if gTables g \<noteq> [] \<and> \<not> statOk then Some NoTables
         else if Backend (testbed c) = ''local'' then
           let lo = lcBasePort (Local (testbed c)); hi = lcBasePort (Local (testbed c)) + pNodes p + 10000
           in if lo < GhostPortBase + GhostPortSpan \<and> hi > GhostPortBase then Some GhostPorts else None
         else None)"

text \<open>\<open>defName\<close> is the file's base name without extension.\<close>

definition validate :: "bool \<Rightarrow> string \<Rightarrow> Config \<Rightarrow> configError + Config" where
  "validate statOk defName c =
     (let p = Population (scen c); m = seModel (SearchC (scen c))
      in if m \<notin> {''conn'', ''scheduled'', ''continuous''} then Inl BadSearchModel
         else if pAddresses p = ''crawl'' \<and> pTopicModel p = [] then Inl CrawlNeedsTopicModel
         else if pAddresses p \<notin> {[], ''index'', ''crawl''} then Inl BadAddresses
         else if pLegacyBuild p \<notin> {[], ''stock'', ''fork''} then Inl BadLegacyBuild
         else case checkGhosts statOk c of
                Some e \<Rightarrow> Inl e
              | None \<Rightarrow>
                  if m \<noteq> ''conn'' \<and> cmEnabled (ConnModelC (scen c)) then Inl LookupWithConnModel
                  else Inr (if cfgName c = [] then c\<lparr>cfgName := defName\<rparr> else c))"

section \<open>The fleet\<close>

text \<open>Pinned nodes, in the order of the map iteration: \<open>(counts, nodes left)\<close>.\<close>

fun fleetPinned :: "(int, string) gomap \<Rightarrow> (string, int) gomap \<Rightarrow> int \<Rightarrow> (string, int) gomap \<times> int" where
  "fleetPinned [] out n = (out, n)"
| "fleetPinned ((idx, r) # ps) out n =
     (if idx \<ge> 0 \<and> idx < n then fleetPinned ps (madd r 1 out) (n - 1) else fleetPinned ps out n)"

fun fleetExact :: "(string, float64) gomap \<Rightarrow> float64 \<Rightarrow> int \<Rightarrow> string list \<Rightarrow> (string, int) gomap \<Rightarrow> int
    \<Rightarrow> (string, int) gomap \<times> int \<times> float64 list" where
  "fleetExact w tot n [] out given = (out, given, [])"
| "fleetExact w tot n (k # ks) out given =
     (let exact = fdiv (fmul (ofInt n) (mget 0 w k)) tot;
          (out, given, rem) = fleetExact w tot n ks (madd k (truncInt exact) out) (given + truncInt exact)
      in (out, given, fsub exact (ofInt (truncInt exact)) # rem))"

fun bestRem :: "float64 list \<Rightarrow> nat \<Rightarrow> nat list \<Rightarrow> nat" where
  "bestRem rem best [] = best"
| "bestRem rem best (i # is) = bestRem rem (if rem ! i > rem ! best then i else best) is"

text \<open>The remainder loop runs \<open>n - given\<close> times.\<close>

fun fleetRemainder :: "nat \<Rightarrow> string list \<Rightarrow> float64 list \<Rightarrow> (string, int) gomap \<Rightarrow> (string, int) gomap" where
  "fleetRemainder 0 keys rem out = out"
| "fleetRemainder (Suc left) keys rem out =
     (let best = bestRem rem 0 [0..<length rem]
      in fleetRemainder left keys (rem[best := -1]) (madd (keys ! best) 1 out))"

definition Fleet :: "Config \<Rightarrow> (string, int) gomap" where
  "Fleet c =
     (let w = nRegions (Network (scen c));
          (out, n) = fleetPinned (nNodeRegions (Network (scen c))) [] (pNodes (Population (scen c)))
      in if w = [] then madd (clHomeRegion (Cloud (testbed c))) n out
         else let keys = sort (map fst w);
                  tot = fold (\<lambda>(k, v) s. fadd s v) w 0;
                  (out, given, rem) = fleetExact w tot n keys out 0
              in fleetRemainder (nat (n - given)) keys rem out)"

section \<open>The command line\<close>

record Spec =
  spFile :: string
  spWorkload :: string
  spProfile :: string
  spSet :: "string list"
  spName :: string

datatype specError = MissingScenario | NeedsValue string | BothRequired | Unexpected string

definition emptySpec :: Spec where
  "emptySpec = \<lparr>spFile = [], spWorkload = [], spProfile = [], spSet = [], spName = []\<rparr>"

definition applyFlag :: "string \<Rightarrow> string \<Rightarrow> Spec \<Rightarrow> Spec" where
  "applyFlag k v s =
     (if k = ''workload'' then s\<lparr>spWorkload := v\<rparr>
      else if k = ''profile'' then s\<lparr>spProfile := v\<rparr>
      else if k = ''name'' then s\<lparr>spName := v\<rparr>
      else s\<lparr>spSet := spSet s @ [v]\<rparr>)"

fun scanFlags :: "string list \<Rightarrow> Spec \<Rightarrow> nat \<Rightarrow> specError + (Spec \<times> nat)" where
  "scanFlags [] s n = Inr (s, n)"
| "scanFlags (a # as) s n =
     (if \<not> HasPrefix a ''--'' then Inr (s, n)
      else let (k, v, eq) = Cut (drop 2 a) CHR ''=''
           in if k \<notin> {''workload'', ''profile'', ''name'', ''set''} then Inr (s, n)
              else if eq then scanFlags as (applyFlag k v s) (n + 1)
              else case as of
                     [] \<Rightarrow> Inl (NeedsValue k)
                   | v # as \<Rightarrow> scanFlags as (applyFlag k v s) (n + 2))"

definition ScanSpec :: "string list \<Rightarrow> specError + (Spec \<times> nat)" where
  "ScanSpec args =
     (case args of
        [] \<Rightarrow> Inl MissingScenario
      | a # _ \<Rightarrow>
          if \<not> HasPrefix a ''--'' then Inr (emptySpec\<lparr>spFile := a\<rparr>, 1)
          else case scanFlags args emptySpec 0 of
                 Inl e \<Rightarrow> Inl e
               | Inr (s, n) \<Rightarrow> if spWorkload s = [] \<or> spProfile s = [] then Inl BothRequired else Inr (s, n))"

text \<open>\<open>ParseArgs\<close> up to loading the files the spec names.\<close>

definition ParseArgs :: "string list \<Rightarrow> specError + Spec" where
  "ParseArgs args =
     (case ScanSpec args of
        Inl e \<Rightarrow> Inl e
      | Inr (s, n) \<Rightarrow> if n < length args then Inl (Unexpected (args ! n)) else Inr s)"

text \<open>\<open>specPath\<close> with \<open>filepath.Join\<close> of clean parts; a value with a separator or a suffix is a path.\<close>

definition specPath :: "string \<Rightarrow> string \<Rightarrow> string \<Rightarrow> string" where
  "specPath dir sub n =
     (if CHR ''/'' \<in> set n \<or> HasSuffix n ''.yaml'' then n
      else dir @ ''/'' @ sub @ ''/'' @ n @ ''.yaml'')"

definition fileBase :: "string \<Rightarrow> string" where
  "fileBase path = last (Split CHR ''/'' path)"

definition baseName :: "string \<Rightarrow> string" where
  "baseName path = TrimSuffix (fileBase path) ''.yaml''"

text \<open>
  \<open>Compose\<close> after both files are decoded into their disjoint halves and the overrides applied.
\<close>

definition Compose :: "bool \<Rightarrow> string \<Rightarrow> string \<Rightarrow> string \<Rightarrow> string list \<Rightarrow> string \<Rightarrow> ScenarioConfig \<Rightarrow> TestbedConfig
    \<Rightarrow> configError + Config" where
  "Compose statOk dir workload profile sets name sc tb =
     (let wpath = specPath dir ''workloads'' workload; ppath = specPath dir ''profiles'' profile;
          name = (if name = [] then baseName ppath @ ''-'' @ baseName wpath else name)
      in if CHR ''/'' \<in> set name then Inl SlashInName
         else validate statOk name
           (Default\<lparr>scen := sc, testbed := tb, cfgName := name,
                    SourcePath := dir @ ''/'' @ name @ ''.yaml'', Overrides := sets\<rparr>))"

section \<open>Properties\<close>

lemma fleetPinned_sum:
  "mapOk out \<Longrightarrow> fleetPinned ps out n = (out', n') \<Longrightarrow> mapOk out' \<and> msum out' + n' = msum out + n"
  by (induction ps out n rule: fleetPinned.induct) (auto split: if_splits)

lemma fleetExact_sum:
  "mapOk out \<Longrightarrow> fleetExact w tot n ks out given = (out', given', rem)
     \<Longrightarrow> mapOk out' \<and> msum out' = msum out + (given' - given) \<and> length rem = length ks"
proof (induction w tot n ks out given arbitrary: out' given' rem rule: fleetExact.induct)
  case (2 w tot n k ks out given)
  define ex where "ex = fdiv (fmul (ofInt n) (mget 0 w k)) tot"
  obtain o1 g1 r1 where run: "fleetExact w tot n ks (madd k (truncInt ex) out) (given + truncInt ex) = (o1, g1, r1)"
    by (metis prod_cases3)
  have "out' = o1" "given' = g1" "rem = fsub ex (ofInt (truncInt ex)) # r1"
    using "2.prems"(2) run by (simp_all add: Let_def flip: ex_def)
  with "2.IH" [OF ex_def _ run] "2.prems"(1) show ?case by simp
qed simp

lemma fleetRemainder_sum: "mapOk out \<Longrightarrow> msum (fleetRemainder k keys rem out) = msum out + int k"
  by (induction k keys rem out rule: fleetRemainder.induct) (auto simp: Let_def)

text \<open>The instances handed out by the whole parts of the weights, and those left after the pins.\<close>

definition fleetLeft :: "Config \<Rightarrow> int" where
  "fleetLeft c = snd (fleetPinned (nNodeRegions (Network (scen c))) [] (pNodes (Population (scen c))))"

definition fleetFloors :: "Config \<Rightarrow> int" where
  "fleetFloors c =
     (let w = nRegions (Network (scen c))
      in fst (snd (fleetExact w (fold (\<lambda>(k, v) s. fadd s v) w 0) (fleetLeft c) (sort (map fst w)) [] 0)))"

lemma fleetExact_given:
  "fst (snd (fleetExact w tot n ks out given)) = fst (snd (fleetExact w tot n ks out' given))"
  by (induction ks arbitrary: out out' given) (simp_all add: Let_def case_prod_beta)

text \<open>
  The fleet has one instance per node: whatever order the pinned nodes are visited in, the counts
  per region add up to the population, provided the whole parts of the weighted shares do not
  already exceed the nodes left (with weights, the remainder loop hands out exactly the difference).
\<close>

theorem Fleet_total:
  assumes "nRegions (Network (scen c)) = [] \<or> fleetFloors c \<le> fleetLeft c"
  shows "msum (Fleet c) = pNodes (Population (scen c))"
proof -
  obtain out n where p: "fleetPinned (nNodeRegions (Network (scen c))) [] (pNodes (Population (scen c))) = (out, n)"
    by force
  have ok: "mapOk out" "msum out + n = pNodes (Population (scen c))" using fleetPinned_sum [OF mapOk_Nil p] by auto
  show ?thesis
  proof (cases "nRegions (Network (scen c)) = []")
    case True
    then show ?thesis using ok p by (simp add: Fleet_def)
  next
    case False
    let ?w = "nRegions (Network (scen c))"
    obtain o1 g1 r1 where e: "fleetExact ?w (fold (\<lambda>(k, v) s. fadd s v) ?w 0) n (sort (map fst ?w)) out 0 = (o1, g1, r1)"
      by (metis prod_cases3)
    have "g1 \<le> n"
      using assms False p fleetExact_given [of ?w "fold (\<lambda>(k, v) s. fadd s v) ?w 0" n "sort (map fst ?w)" out 0 "[]"]
      unfolding e by (simp add: fleetFloors_def fleetLeft_def Let_def)
    then show ?thesis
      using ok p e False fleetExact_sum [OF ok(1) e]
      by (simp add: Fleet_def Let_def fleetRemainder_sum)
  qed
qed

definition pinnedConfig :: Config where
  "pinnedConfig = Default\<lparr>scen := DefaultScenario\<lparr>
     Population := (Population DefaultScenario)\<lparr>pNodes := 2\<rparr>,
     Network := (Network DefaultScenario)\<lparr>nNodeRegions := [(0, ''a''), (1, ''b'')]\<rparr>\<rparr>\<rparr>"

theorem Fleet_total_witness: "msum (Fleet pinnedConfig) = 2"
  using Fleet_total [of pinnedConfig]
  by (simp add: pinnedConfig_def Default_def DefaultScenario_def)

text \<open>
  A valid pin can be lost: the loop over the pinned nodes compares each index with the number of
  nodes still unassigned instead of the population, so with two nodes pinned to two regions the
  second pin is ignored and its instance goes to the home region.
\<close>

theorem Fleet_drops_pin:
  "mget 0 (Fleet pinnedConfig) ''b'' = 0 \<and> mget 0 (Fleet pinnedConfig) ''us-east-1'' = 1
    \<and> map_of (nNodeRegions (Network (scen pinnedConfig))) 1 = Some ''b''"
  by (simp add: Fleet_def pinnedConfig_def Default_def DefaultScenario_def DefaultTestbed_def madd_def mget_def)

definition renderSpec :: "Spec \<Rightarrow> string list" where
  "renderSpec s = [''--workload'', spWorkload s, ''--profile'', spProfile s]
     @ concat (map (\<lambda>v. [''--set'', v]) (spSet s))
     @ (if spName s = [] then [] else [''--name'', spName s])"

lemma flag_cut [simp]:
  "HasPrefix ''--workload'' ''--''" "Cut ''workload'' CHR ''='' = (''workload'', [], False)"
  "HasPrefix ''--profile'' ''--''" "Cut ''profile'' CHR ''='' = (''profile'', [], False)"
  "HasPrefix ''--set'' ''--''" "Cut ''set'' CHR ''='' = (''set'', [], False)"
  "HasPrefix ''--name'' ''--''" "Cut ''name'' CHR ''='' = (''name'', [], False)"
  by (simp_all add: HasPrefix_def Cut_def)

lemma scanFlags_stop: "rest = [] \<or> \<not> HasPrefix (hd rest) ''--'' \<Longrightarrow> scanFlags rest s n = Inr (s, n)"
  by (cases rest) auto

lemma scanFlags_sets:
  "scanFlags (concat (map (\<lambda>v. [''--set'', v]) vs) @ rest) s n
     = scanFlags rest (s\<lparr>spSet := spSet s @ vs\<rparr>) (n + 2 * length vs)"
  by (induction vs arbitrary: s n) (simp_all add: applyFlag_def)

text \<open>
  C22: Command-line specs round-trip: scanning the flags printed for a spec gives the spec back and takes
  exactly those arguments, whatever non-flag arguments (such as \<open>-var\<close>) follow; with nothing after
  them the whole line is accepted.
\<close>

theorem ScanSpec_roundtrip:
  assumes "spFile s = []" "spWorkload s \<noteq> []" "spProfile s \<noteq> []"
    and "rest = [] \<or> \<not> HasPrefix (hd rest) ''--''"
  shows "ScanSpec (renderSpec s @ rest) = Inr (s, length (renderSpec s))
    \<and> ParseArgs (renderSpec s) = Inr s"
proof -
  have scan: "ScanSpec (renderSpec s @ xs) = Inr (s, length (renderSpec s))"
    if "xs = [] \<or> \<not> HasPrefix (hd xs) ''--''" for xs
    using assms(1-3) that
    by (cases "spName s = []")
       (simp_all add: ScanSpec_def renderSpec_def scanFlags_sets scanFlags_stop applyFlag_def emptySpec_def
         length_concat sum_list_triv comp_def)
  then show ?thesis using assms(4) scan [of "[]"] by (simp add: ParseArgs_def)
qed

theorem ScanSpec_roundtrip_witness:
  "ParseArgs (renderSpec \<lparr>spFile = [], spWorkload = ''w'', spProfile = ''p'', spSet = [''a=1''], spName = []\<rparr>)
     = Inr \<lparr>spFile = [], spWorkload = ''w'', spProfile = ''p'', spSet = [''a=1''], spName = []\<rparr>"
  using ScanSpec_roundtrip [of "\<lparr>spFile = [], spWorkload = ''w'', spProfile = ''p'', spSet = [''a=1''], spName = []\<rparr>" "[]"]
  by simp

end
