(* ===== verification/Assign.thy ===== *)
theory Assign
  imports ChurnModel Scenario
begin

text \<open>
  Per-node assignments (\<open>src/pkg/assign/assign.go\<close>): topics, start offsets, bootstrap samples, legacy
  nodes, lookup times, phases and churn, all from the scenario and its seed. Keys and enode URLs come
  from the crypto library and are parameters (\<open>keyHex\<close>, \<open>nodeURL\<close>).
\<close>

section \<open>Records\<close>

record Phases =
  StartAt :: int
  RegisterBase :: int
  RegisterAt :: int
  SearchAt :: int
  StopAt :: int

record Search =
  sModel :: string
  sTargetCount :: int
  sRequestTimeout :: int
  LookupAtMs :: "int list"
  sInitialResults :: int
  sResultIntervalMs :: int

record Topic =
  tAdLifetimeMs :: int
  tAdCacheSize :: int
  tRegAttemptTimeoutMs :: int
  tSearchBucketSize :: int
  tTopicNodesLimit :: int
  tAuxNodesLimit :: int
  tSearchYieldFloor :: int
  tSearchAuxRadius :: int
  tSearchTableDepth :: int
  tRegTableDepth :: int
  tRegBucketSize :: int
  tRegBucketStandby :: int

record Assignment =
  aIdx :: nat
  aKey :: string
  aIP :: string
  aExtIP :: string
  aPort :: int
  aStatusPort :: int
  aBootnodes :: "string list"
  aTopics :: "string list"
  aMaxPeers :: int
  aDialRatio :: int
  aPhases :: Phases
  aSearch :: Search
  aTopic :: Topic
  aLegacy :: bool
  aLegacyFork :: bool
  aSampleMs :: int
  aChurn :: "churnEvent list"
  aTraceFile :: string
  aGhosts :: "string list"
  aGhostsUnplaced :: int

record Host =
  hIP :: string
  hExtIP :: string
  hBasePort :: int
  hStatusOff :: int
  hTraceFile :: string

section \<open>Lookup times and start offsets\<close>

fun lookupLoop :: "int \<Rightarrow> float64 \<Rightarrow> nat list \<Rightarrow> rng \<Rightarrow> int list \<times> rng" where
  "lookupLoop from width [] r = ([], r)"
| "lookupLoop from width (k # ks) r =
     (let (u, r) = Float64 r;
          t = from + truncInt (fadd (fmul (ofInt (int k)) width) (fmul u width));
          (ts, r) = lookupLoop from width ks r
      in (t # ts, r))"

definition LookupTimes :: "rng \<Rightarrow> int \<Rightarrow> int \<Rightarrow> int \<Rightarrow> int list" where
  "LookupTimes r from to n =
     (if n \<le> 0 \<or> to \<le> from then []
      else let width = fdiv (ofInt (to - from)) (ofInt n)
           in fst (lookupLoop from width [0..<nat n] r))"

fun drawOffsets :: "int \<Rightarrow> nat \<Rightarrow> rng \<Rightarrow> int list \<times> rng" where
  "drawOffsets w 0 r = ([], r)"
| "drawOffsets w (Suc n) r = (let (x, r) = Int63n (w + 1) r; (xs, r) = drawOffsets w n r in (x # xs, r))"

definition sortedUniform :: "(int \<Rightarrow> source) \<Rightarrow> int \<Rightarrow> nat \<Rightarrow> duration \<Rightarrow> int list" where
  "sortedUniform src seed n window =
     (if window \<le> 0 \<or> n = 0 then replicate n 0
      else sort (fst (drawOffsets (Milliseconds window) n (randNew src seed))))"

definition StartOffsets :: "(int \<Rightarrow> source) \<Rightarrow> int \<Rightarrow> nat \<Rightarrow> duration \<Rightarrow> int list" where
  "StartOffsets src seed n window =
     (let xs = sortedUniform src (seed + 7919) n window in if n > 0 then xs[0 := 0] else xs)"

definition bootstrapSettle :: duration where
  "bootstrapSettle = 30 * nsSecond"

definition bootstrapSample :: "rng \<Rightarrow> int list \<Rightarrow> nat \<Rightarrow> int \<Rightarrow> (nat \<Rightarrow> string) \<Rightarrow> string list \<times> rng" where
  "bootstrapSample r startOff i k url =
     (if k \<le> 0 then ([], r)
      else let cut = sortSearch i (\<lambda>j. startOff ! j + Milliseconds bootstrapSettle > startOff ! i)
           in if cut \<le> 1 then ([], r)
              else let (perm, r) = Perm (cut - 1) r
                   in (map (\<lambda>j. url (j + 1)) (take (min (nat k) (cut - 1)) perm), r))"

section \<open>Topics\<close>

text \<open>\<open>NewZipf\<close> with \<open>math.Pow\<close> as \<open>pow\<close>: cumulative weights, then divided by their sum.\<close>

fun zipfSums :: "(float64 \<Rightarrow> float64 \<Rightarrow> float64) \<Rightarrow> float64 \<Rightarrow> float64 \<Rightarrow> nat list \<Rightarrow> float64 list" where
  "zipfSums pow s acc [] = []"
| "zipfSums pow s acc (k # ks) =
     (let acc = fadd acc (fdiv 1 (pow (ofInt (int k + 1)) s)) in acc # zipfSums pow s acc ks)"

definition NewZipf :: "(float64 \<Rightarrow> float64 \<Rightarrow> float64) \<Rightarrow> float64 \<Rightarrow> nat \<Rightarrow> float64 list" where
  "NewZipf pow s n = (let cs = zipfSums pow s 0 [0..<n] in map (\<lambda>c. fdiv c (if cs = [] then 0 else last cs)) cs)"

function drawLoop :: "float64 list \<Rightarrow> float64 \<Rightarrow> nat \<Rightarrow> nat \<Rightarrow> nat" where
  "drawLoop cdf u lo hi =
     (if lo < hi then let mid = (lo + hi) div 2
                      in if cdf ! mid < u then drawLoop cdf u (mid + 1) hi else drawLoop cdf u lo mid
      else lo)"
  by pat_completeness auto
termination
  by (relation "measure (\<lambda>(cdf, u, lo, hi). hi - lo)") (auto simp: Let_def)

declare drawLoop.simps [simp del]

definition zipfDraw :: "float64 list \<Rightarrow> rng \<Rightarrow> nat \<times> rng" where
  "zipfDraw cdf r = (let (u, r) = Float64 r in (drawLoop cdf u 0 (length cdf - 1), r))"

fun cumulate :: "float64 \<Rightarrow> float64 list \<Rightarrow> float64 list" where
  "cumulate acc [] = []"
| "cumulate acc (s # ss) = (let acc = fadd acc s in acc # cumulate acc ss)"

fun drawTopicList :: "(rng \<Rightarrow> nat \<times> rng) \<Rightarrow> bool \<Rightarrow> nat \<Rightarrow> rng \<Rightarrow> nat list list \<times> rng" where
  "drawTopicList draw common 0 r = ([], r)"
| "drawTopicList draw common (Suc n) r =
     (let (t, r) = draw r; (ts, r) = drawTopicList draw common n r
      in ((if common then [0, 1 + t] else [t]) # ts, r))"

definition DrawTopics :: "(float64 \<Rightarrow> float64 \<Rightarrow> float64) \<Rightarrow> rng \<Rightarrow> nat \<Rightarrow> int \<Rightarrow> float64 \<Rightarrow> churnModel option \<Rightarrow> bool
    \<Rightarrow> nat list list \<times> rng" where
  "DrawTopics pow r n numTopics zipfS model common =
     (if numTopics \<le> 1 \<and> model = None then (replicate n [0], r)
      else let cdf = (case model of
                        Some m \<Rightarrow> cumulate 0 (Shares m numTopics)
                      | None \<Rightarrow> NewZipf pow zipfS (nat numTopics))
           in drawTopicList (zipfDraw cdf) common n r)"

definition ChurnTopic :: "churnModel \<Rightarrow> ScenarioConfig \<Rightarrow> nat list \<Rightarrow> topicFit" where
  "ChurnTopic m sc topics =
     (if pTopicModel (Population sc) \<noteq> scModel (SessionChurn sc) \<or> Topics m = [] \<or> topics = []
      then Global m
      else TopicForRun m (int (last topics)) (pTopics (Population sc)))"

section \<open>Legacy nodes\<close>

definition byFirstTopic :: "string list list \<Rightarrow> (string, nat list) gomap" where
  "byFirstTopic topics =
     fold (\<lambda>(i, ts) m. mput (hd ts) (mget [] m (hd ts) @ [i]) m) (enumerate 0 topics) []"

definition legacyCount :: "float64 \<Rightarrow> nat \<Rightarrow> nat" where
  "legacyCount fraction n = nat (mathRound (fmul fraction (ofInt (int n))))"

text \<open>\<open>None\<close> is the panic of slicing the permutation beyond its length, which a fraction above one causes.\<close>

fun legacyLoop :: "float64 \<Rightarrow> (string, nat list) gomap \<Rightarrow> string list \<Rightarrow> bool list \<Rightarrow> rng \<Rightarrow> (bool list \<times> rng) option" where
  "legacyLoop fraction m [] flags r = Some (flags, r)"
| "legacyLoop fraction m (k # ks) flags r =
     (let members = mget [] m k; n = legacyCount fraction (length members);
          (perm, r) = Perm (length members) r
      in if n > length members then None
         else legacyLoop fraction m ks (fold (\<lambda>j s. s[members ! j := True]) (take n perm) flags) r)"

definition legacySet :: "rng \<Rightarrow> string list list \<Rightarrow> float64 \<Rightarrow> (bool list \<times> rng) option" where
  "legacySet r topics fraction =
     (let flags = replicate (length topics) False
      in if fraction \<le> 0 then Some (flags, r)
         else let m = byFirstTopic topics in legacyLoop fraction m (sort (map fst m)) flags r)"

section \<open>One node\<close>

definition topicName :: "nat \<Rightarrow> string" where
  "topicName t = ''topic-'' @ Itoa (int t)"

definition topicParams :: "TopicConfig \<Rightarrow> Topic" where
  "topicParams t =
     \<lparr>tAdLifetimeMs = Milliseconds (tcAdLifetime t), tAdCacheSize = tcAdCacheSize t,
      tRegAttemptTimeoutMs = Milliseconds (tcRegAttemptTimeout t), tSearchBucketSize = tcSearchBucketSize t,
      tTopicNodesLimit = tcTopicNodesLimit t, tAuxNodesLimit = tcAuxNodesLimit t,
      tSearchYieldFloor = tcSearchYieldFloor t, tSearchAuxRadius = tcSearchAuxRadius t,
      tSearchTableDepth = tcSearchTableDepth t, tRegTableDepth = tcRegTableDepth t,
      tRegBucketSize = tcRegBucketSize t, tRegBucketStandby = tcRegBucketStandby t\<rparr>"

text \<open>\<open>(registerAt, regOff, searchAt, stopAt)\<close>: the phase clock of the run.\<close>

definition phaseClock :: "PhasesConfig \<Rightarrow> nat \<Rightarrow> int list \<Rightarrow> int \<Rightarrow> int \<times> int list \<times> int \<times> int" where
  "phaseClock ph n startOff t0 =
     (let registerAt = t0 + Milliseconds (phBootstrapWait ph);
          stag = Milliseconds (phRegisterStagger ph);
          (regOff, regSpan) =
            (if phStartWindow ph > 0 then (startOff, Milliseconds (phStartWindow ph))
             else (map (\<lambda>i. int i * stag) [0..<n], int n * stag));
          searchAt = registerAt + regSpan + Milliseconds (phRegisterWait ph)
      in (registerAt, regOff, searchAt, searchAt + Milliseconds (phSearchTimeout ph)))"

text \<open>
  One node's assignment. \<open>sched\<close> is the model's schedule for the node, \<open>lookups\<close> its lookup times; \<open>boot\<close> its
  bootstrap records.
\<close>

definition assignNode :: "Config \<Rightarrow> (nat \<Rightarrow> Host) \<Rightarrow> (nat \<Rightarrow> string) \<Rightarrow> nat list list \<Rightarrow> bool list \<Rightarrow> int list
    \<Rightarrow> int \<Rightarrow> (nat \<Rightarrow> int \<Rightarrow> int \<Rightarrow> int list) \<Rightarrow> (nat \<Rightarrow> churnEvent list) \<Rightarrow> nat \<Rightarrow> string list \<Rightarrow> Assignment" where
  "assignNode cfg hosts keyHex topicIdx legacy startOff t0 lookups sched idx boot =
     (let sc = scen cfg; ph = PhasesC sc; h = hosts idx; se = SearchC sc; po = Population sc;
          (registerAt, regOff, searchAt, stopAt) = phaseClock ph (length topicIdx) startOff t0;
          phases = \<lparr>StartAt = t0 + startOff ! idx, RegisterBase = registerAt,
                    RegisterAt = registerAt + regOff ! idx,
                    SearchAt = searchAt + int idx * Milliseconds (phSearchStagger ph), StopAt = stopAt\<rparr>
      in \<lparr>aIdx = idx, aKey = keyHex idx, aIP = hIP h, aExtIP = hExtIP h, aPort = hBasePort h,
          aStatusPort = hBasePort h + hStatusOff h, aBootnodes = (if idx \<noteq> 0 then boot else []),
          aTopics = map topicName (topicIdx ! idx), aMaxPeers = cmMaxPeers (ConnModelC sc),
          aDialRatio = cmDialRatio (ConnModelC sc), aPhases = phases,
          aSearch = \<lparr>sModel = seModel se, sTargetCount = seTargetCount se,
                     sRequestTimeout = Milliseconds (seRequestTimeout se),
                     LookupAtMs = (if seModel se = ''scheduled'' \<and> seIntervals se > 0
                                   then lookups idx (SearchAt phases) stopAt else []),
                     sInitialResults = seInitialResults se,
                     sResultIntervalMs = Milliseconds (seResultInterval se)\<rparr>,
          aTopic = topicParams (TopicC sc), aLegacy = legacy ! idx,
          aLegacyFork = (legacy ! idx \<and> pLegacyBuild po = ''fork''),
          aSampleMs = Milliseconds (trOverheadSeriesPeriod (Traces (testbed cfg))),
          aChurn = (if idx \<noteq> 0 then sched idx else []), aTraceFile = hTraceFile h,
          aGhosts = [], aGhostsUnplaced = 0\<rparr>)"

text \<open>The bootstrap records of all nodes, drawn from one generator in index order.\<close>

fun bootLists :: "rng \<Rightarrow> int list \<Rightarrow> int \<Rightarrow> (nat \<Rightarrow> string) \<Rightarrow> nat list \<Rightarrow> string list list" where
  "bootLists r startOff k url [] = []"
| "bootLists r startOff k url (i # is) =
     (if i = 0 then [] # bootLists r startOff k url is
      else let (bs, r) = bootstrapSample r startOff i k url
           in (url 0 # bs) # bootLists r startOff k url is)"

section \<open>Start offsets and bootstrap samples\<close>

lemma drawOffsets_ok:
  "0 \<le> w \<Longrightarrow> length (fst (drawOffsets w n r)) = n \<and> (\<forall>x \<in> set (fst (drawOffsets w n r)). 0 \<le> x \<and> x \<le> w)"
proof (induction n arbitrary: r)
  case (Suc n)
  then show ?case using Int63n_range [of "w + 1" r] by (auto simp: case_prod_beta Let_def)
qed simp

lemma sorted_first_zero: "sorted xs \<Longrightarrow> \<forall>x \<in> set xs. (0 :: int) \<le> x \<Longrightarrow> sorted (xs[0 := 0])"
  by (cases xs) auto

text \<open>Start offsets: one per node, ascending, the bootnode at zero, all inside the window.\<close>

lemma StartOffsets_spec:
  assumes "0 \<le> window" "0 < n"
  shows "length (StartOffsets src seed n window) = n \<and> sorted (StartOffsets src seed n window)
    \<and> StartOffsets src seed n window ! 0 = 0
    \<and> (\<forall>x \<in> set (StartOffsets src seed n window). 0 \<le> x \<and> x \<le> Milliseconds window)"
proof -
  define xs where "xs = sortedUniform src (seed + 7919) n window"
  have w: "0 \<le> Milliseconds window" using assms(1) by (auto simp: Milliseconds_def nsMilli_def)
  have xs: "length xs = n" "sorted xs" "\<forall>x \<in> set xs. 0 \<le> x \<and> x \<le> Milliseconds window"
    using drawOffsets_ok [OF w, of n "randNew src (seed + 7919)"] w
    by (auto simp: xs_def sortedUniform_def sorted_replicate)
  have eq: "StartOffsets src seed n window = xs[0 := 0]" using assms(2) by (simp add: StartOffsets_def flip: xs_def)
  have "\<forall>x \<in> set (xs[0 := 0]). 0 \<le> x \<and> x \<le> Milliseconds window"
    using xs w set_update_subset_insert [of xs 0 0] by auto
  then show ?thesis unfolding eq using xs assms(2) by (simp add: sorted_first_zero)
qed

lemma settle_ms: "Milliseconds bootstrapSettle = 30000"
  by (simp add: Milliseconds_def bootstrapSettle_def nsSecond_def nsMilli_def sdiv_nonneg)

text \<open>
  A bootstrap sample holds different nodes other than the bootnode, each of which started at least
  the settle time before the joining node, and exactly as many of them as asked for or as there are.
\<close>

theorem bootstrapSample_settled:
  assumes "sorted startOff" "i < length startOff" "0 < k"
  defines "cands \<equiv> {j. 1 \<le> j \<and> j < i \<and> startOff ! j + 30000 \<le> startOff ! i}"
  shows "\<exists>js. fst (bootstrapSample r startOff i k url) = map url js \<and> distinct js \<and> set js \<subseteq> cands
    \<and> length js = min (nat k) (card cands)"
proof -
  define P where "P = (\<lambda>j. startOff ! j + Milliseconds bootstrapSettle > startOff ! i)"
  define cut where "cut = sortSearch i P"
  have mono: "monoUpto i P"
    using assms(1,2) unfolding monoUpto_def P_def
    by (meson add_mono_thms_linordered_semiring(3) order_less_le_trans order_less_trans sorted_nth_mono)
  have cands: "cands = {1..<cut}"
  proof (intro set_eqI)
    fix j
    have "\<not> P j \<longleftrightarrow> j < cut" if "j < i" for j
      using sortSearch_below [OF mono, of j] sortSearch_above [OF mono, of j] that
      unfolding cut_def by (meson not_le)
    moreover have "cut \<le> i" using sortSearch_le [OF mono] by (simp add: cut_def)
    ultimately show "j \<in> cands \<longleftrightarrow> j \<in> {1..<cut}"
      by (auto simp: cands_def P_def settle_ms not_less dest: order_less_le_trans)
  qed
  show ?thesis
  proof (cases "cut \<le> 1")
    case True
    then have "fst (bootstrapSample r startOff i k url) = map url []"
      by (simp add: bootstrapSample_def Let_def flip: P_def cut_def)
    moreover have "cands = {}" using cands True by auto
    ultimately show ?thesis by (intro exI [of _ "[]"]) simp
  next
    case False
    define js where "js = map Suc (take (min (nat k) (cut - 1)) (fst (Perm (cut - 1) r)))"
    have "fst (bootstrapSample r startOff i k url) = map url js"
      using assms(3) False
      by (simp add: bootstrapSample_def Let_def case_prod_beta js_def flip: P_def cut_def)
    moreover have "distinct js" by (simp add: js_def distinct_map)
    moreover have "set js \<subseteq> {1..<cut}"
      using set_Perm [of "cut - 1" r] by (auto simp: js_def dest!: in_set_takeD simp del: set_Perm)
    moreover have "length js = min (nat k) (card cands)" using cands by (simp add: js_def)
    ultimately show ?thesis using cands by blast
  qed
qed

theorem bootstrapSample_settled_witness:
  "\<exists>js. fst (bootstrapSample (randNew (\<lambda>_. cycleSource) 3) [0, 10000, 45000] 2 5 topicName) = map topicName js
     \<and> distinct js \<and> set js \<subseteq> {1}"
proof -
  have c: "{j :: nat. 1 \<le> j \<and> j < 2 \<and> [0 :: int, 10000, 45000] ! j + 30000 \<le> [0, 10000, 45000] ! 2} = {1}"
    by (auto simp: less_Suc_eq numeral_2_eq_2)
  show ?thesis
    using bootstrapSample_settled [of "[0, 10000, 45000]" 2 5 "randNew (\<lambda>_. cycleSource) 3" topicName]
    unfolding c by auto
qed

section \<open>Topic draws\<close>

lemma drawLoop_search: "drawLoop cdf u lo hi = searchLoop (\<lambda>i. \<not> cdf ! i < u) lo hi"
  by (induction cdf u lo hi rule: drawLoop.induct)
     (subst drawLoop.simps, subst searchLoop.simps, auto simp: Let_def)

lemma searchLoop_range: "lo \<le> hi \<Longrightarrow> searchLoop f lo hi \<le> hi"
proof (induction f lo hi rule: searchLoop.induct)
  case (1 f i j)
  show ?case
  proof (cases "i < j")
    case False
    then show ?thesis using "1.prems" by (subst searchLoop.simps) simp
  next
    case True
    define h where "h = (i + j) div 2"
    have h: "i \<le> h" "h < j" using True by (auto simp: h_def)
    have "searchLoop f i j = (if \<not> f h then searchLoop f (h + 1) j else searchLoop f i h)"
      using True by (subst searchLoop.simps) (simp add: Let_def h_def)
    then show ?thesis using "1.IH" [OF True h_def] h by (auto intro: order_trans [of _ h j])
  qed
qed

lemma zipfDraw_less: "cdf \<noteq> [] \<Longrightarrow> fst (zipfDraw cdf r) < length cdf"
proof -
  assume "cdf \<noteq> []"
  then have "0 < length cdf" by simp
  moreover have "fst (zipfDraw cdf r) \<le> length cdf - 1"
    using searchLoop_range [of 0 "length cdf - 1"] by (simp add: zipfDraw_def case_prod_beta drawLoop_search)
  ultimately show ?thesis by linarith
qed

text \<open>
  A draw from a cumulative distribution is inverse transform sampling: for an ascending table it
  returns the first entry that reaches the uniform number, the last one when none does before it, and
  always a valid topic index.
\<close>

theorem zipfDraw_inverse:
  fixes r :: rng
  assumes "cdf \<noteq> []" "sorted cdf"
  defines "u \<equiv> fst (Float64 r)" and "t \<equiv> fst (zipfDraw cdf r)"
  shows "t < length cdf \<and> (\<forall>j < t. cdf ! j < u) \<and> (t < length cdf - 1 \<longrightarrow> u \<le> cdf ! t)"
proof -
  let ?f = "\<lambda>i. \<not> cdf ! i < u"
  have mono: "monoUpto (length cdf - 1) ?f"
    unfolding monoUpto_def
  proof (intro allI impI)
    fix a b
    assume "a \<le> b" "b < length cdf - 1" "\<not> cdf ! a < u"
    moreover have "cdf ! a \<le> cdf ! b" using assms(2) calculation(1,2) by (intro sorted_nth_mono) auto
    ultimately show "\<not> cdf ! b < u" by auto
  qed
  have t: "t = sortSearch (length cdf - 1) ?f"
    by (simp add: t_def zipfDraw_def case_prod_beta drawLoop_search sortSearch_def u_def)
  have "t < length cdf" using zipfDraw_less [OF assms(1)] by (simp add: t_def)
  moreover have "cdf ! j < u" if "j < t" for j using sortSearch_below [OF mono, of j] that t by simp
  moreover have "u \<le> cdf ! t" if "t < length cdf - 1"
    using sortSearch_above [OF mono, of t] that t by simp
  ultimately show ?thesis by blast
qed

theorem zipfDraw_inverse_witness: "fst (zipfDraw [1/2, 1] (randNew (\<lambda>_. cycleSource) 1)) < 2"
  using zipfDraw_inverse [of "[1/2, 1]" "randNew (\<lambda>_. cycleSource) 1"] by simp

lemma length_zipfSums [simp]: "length (zipfSums pow s acc ks) = length ks"
  by (induction pow s acc ks rule: zipfSums.induct) (simp_all add: Let_def)

lemma length_NewZipf [simp]: "length (NewZipf pow s n) = n"
  by (simp add: NewZipf_def Let_def)

lemma length_cumulate [simp]: "length (cumulate acc ss) = length ss"
  by (induction acc ss rule: cumulate.induct) (simp_all add: Let_def)

lemma length_Shares: "length (Shares m k) = (if Topics m = [] then 1
    else if k \<le> 0 \<or> k > int (length (Topics m)) then length (Topics m) else nat k)"
proof (cases "Topics m")
  case (Cons t ts)
  then obtain n where "length (Topics m) = Suc n" by simp
  then show ?thesis by (auto simp: Shares_def Let_def min_def)
qed (simp add: Shares_def)

definition topicCount :: "int \<Rightarrow> churnModel option \<Rightarrow> nat" where
  "topicCount numTopics model =
     (case model of Some m \<Rightarrow> length (Shares m numTopics) | None \<Rightarrow> nat (max 1 numTopics))"

lemma drawTopicList_range:
  assumes "\<And>r. fst (draw r) < k"
  shows "length (fst (drawTopicList draw common n r)) = n
    \<and> (\<forall>ts \<in> set (fst (drawTopicList draw common n r)).
        \<exists>t < k. ts = (if common then [0, 1 + t] else [t]))"
proof (induction n arbitrary: r)
  case (Suc n)
  then show ?case using assms [of r] by (auto simp: case_prod_beta Let_def)
qed simp

text \<open>
  Every node gets its topics: one list per node, with a single index below the number of topics,
  or, with a common topic, topic 0 and one more index that is one above a drawn one.
\<close>

theorem DrawTopics_range:
  "length (fst (DrawTopics pow r n numTopics zipfS model common)) = n
    \<and> (\<forall>ts \<in> set (fst (DrawTopics pow r n numTopics zipfS model common)).
        (\<exists>t < topicCount numTopics model. ts = [t])
        \<or> common \<and> (\<exists>t < topicCount numTopics model. ts = [0, 1 + t]))"
proof (cases "numTopics \<le> 1 \<and> model = None")
  case True
  then show ?thesis by (auto simp: DrawTopics_def topicCount_def)
next
  case False
  define cdf where "cdf = (case model of Some m \<Rightarrow> cumulate 0 (Shares m numTopics)
      | None \<Rightarrow> NewZipf pow zipfS (nat numTopics))"
  have len: "length cdf = topicCount numTopics model"
    using False by (auto simp: cdf_def topicCount_def max_def split: option.split)
  have "0 < topicCount numTopics model"
    by (auto simp: topicCount_def length_Shares split: option.split)
  then have "fst (zipfDraw cdf r) < topicCount numTopics model" for r
    using zipfDraw_less [of cdf r] len by (cases "cdf = []") auto
  then have "length (fst (drawTopicList (zipfDraw cdf) common n r)) = n
    \<and> (\<forall>ts \<in> set (fst (drawTopicList (zipfDraw cdf) common n r)).
        \<exists>t < topicCount numTopics model. ts = (if common then [0, 1 + t] else [t]))"
    by (rule drawTopicList_range)
  moreover have "DrawTopics pow r n numTopics zipfS model common = drawTopicList (zipfDraw cdf) common n r"
    unfolding DrawTopics_def cdf_def using False by (simp only: if_False Let_def)
  ultimately show ?thesis by (cases common) auto
qed

definition highRng :: rng where
  "highRng = \<lparr>rsrc = cycleSource, rpos = 3221225472\<rparr>"

lemma Float64_high: "fst (Float64 highRng) = 3 / 4"
proof -
  have c: "cycle 3221225472 = 6917529027641081856" by (simp add: cycle_def)
  have "fl 6917529027641081856 = 6917529027641081856"
    by (rule fl_exact [of _ 3 61]) (simp_all add: power_int_numeral)
  moreover have "fl (3 / 4) = 3 / 4" by (rule fl_exact [of _ 3 "-2"]) (simp_all add: power_int_minus)
  ultimately have "fdiv (ofInt (cycle 3221225472)) (2 ^ 63) = 3 / 4" unfolding c ofInt_def by simp
  then show ?thesis
    by (subst Float64.simps) (simp add: Int63_def highRng_def Let_def)
qed

text \<open>
  With a common topic the second index can be the number of topics itself: two topics, and a node
  is given topics 0 and 2, although topics are numbered from 0 to 1.
\<close>

theorem DrawTopics_common_exceeds:
  "\<exists>r. fst (DrawTopics (\<lambda>_ _. 1) r 1 2 1 None True) = [[0, 2]]"
proof -
  have "NewZipf (\<lambda>_ _. 1) 1 2 = [fl (1 / 2), 1]"
    using fl_of_int [of 2] by (simp add: NewZipf_def numeral_2_eq_2 upt_rec)
  moreover have "fl (1 / 2) = 1 / 2" by (rule fl_exact [of _ 1 "-1"]) (simp_all add: power_int_minus)
  ultimately have z: "NewZipf (\<lambda>_ _. 1) 1 2 = [1 / 2, 1]" by simp
  have "drawLoop [1 / 2, 1] (3 / 4) 0 1 = 1"
    by (subst drawLoop.simps, simp, subst drawLoop.simps, simp)
  then show ?thesis
    by (intro exI [of _ highRng]) (simp add: DrawTopics_def z zipfDraw_def Float64_high case_prod_beta drawTopicList.simps(2) [of _ _ 0, unfolded One_nat_def [symmetric]])
qed

section \<open>Legacy nodes per service\<close>

lemma fold_flags:
  "length (fold (\<lambda>j s. s[members ! j := True]) js flags) = length flags
    \<and> (\<forall>i < length flags. fold (\<lambda>j s. s[members ! j := True]) js flags ! i
          = (flags ! i \<or> i \<in> (!) members ` set js))"
proof (induction js arbitrary: flags)
  case (Cons j js)
  have "flags[members ! j := True] ! i = (flags ! i \<or> i = members ! j)" if "i < length flags" for i
    using that by (cases "i = members ! j") auto
  then show ?case unfolding fold_simps using Cons [of "flags[members ! j := True]"] by auto
qed simp

lemma legacyCount_le: "fraction \<le> 1 \<Longrightarrow> n \<le> 2 ^ 53 \<Longrightarrow> legacyCount fraction n \<le> n"
proof -
  assume f: "fraction \<le> 1" and n: "n \<le> 2 ^ 53"
  have o: "ofInt (int n) = of_nat n"
    using n ofInt_small [of "int n"] by (simp add: of_nat_le_iff flip: of_nat_power)
  have "fmul fraction (of_nat n) \<le> of_nat n"
  proof (cases "0 \<le> fraction")
    case True
    have "fl (of_nat n) = of_nat n" using o by (simp add: ofInt_def)
    then show ?thesis using True f by (intro fl_le_exact) (simp_all add: mult_left_le_one_le)
  next
    case False
    then have "fraction * of_nat n \<le> 0" by (simp add: mult_nonpos_nonneg)
    then have "fmul fraction (of_nat n) \<le> 0"
      by (auto simp: fl_def intro!: mult_nonpos_nonneg rndEven_le divide_nonpos_pos)
    then show ?thesis by (meson of_nat_0_le_iff order_trans)
  qed
  then have "mathRound (fmul fraction (of_nat n)) \<le> int n"
    by (auto simp: mathRound_def floor_le_iff ceiling_le_iff)
  then show ?thesis by (simp add: legacyCount_def o)
qed

lemma legacyLoop_counts:
  assumes "fraction \<le> 1" "distinct ks"
    and "\<forall>k \<in> set ks. distinct (mget [] m k) \<and> length (mget [] m k) \<le> 2 ^ 53
            \<and> (\<forall>i \<in> set (mget [] m k). i < length flags \<and> \<not> flags ! i)"
    and "\<forall>k \<in> set ks. \<forall>l \<in> set ks. k \<noteq> l \<longrightarrow> set (mget [] m k) \<inter> set (mget [] m l) = {}"
  shows "\<exists>flags' r'. legacyLoop fraction m ks flags r = Some (flags', r') \<and> length flags' = length flags
    \<and> (\<forall>i < length flags. i \<notin> (\<Union>k \<in> set ks. set (mget [] m k)) \<longrightarrow> flags' ! i = flags ! i)
    \<and> (\<forall>k \<in> set ks. card {i \<in> set (mget [] m k). flags' ! i} = legacyCount fraction (length (mget [] m k)))"
  using assms
proof (induction ks arbitrary: flags r)
  case (Cons k ks)
  let ?ms = "mget [] m k"
  obtain perm r1 where p: "Perm (length ?ms) r = (perm, r1)" by force
  then have perm: "set perm = {0..<length ?ms}" "distinct perm" "length perm = length ?ms"
    using set_Perm distinct_Perm length_Perm by (metis fst_conv)+
  define n where "n = legacyCount fraction (length ?ms)"
  have n: "n \<le> length ?ms" using Cons.prems(1,3) by (simp add: n_def legacyCount_le)
  define js where "js = take n perm"
  have js: "set js \<subseteq> {0..<length ?ms}" "distinct js" "length js = n"
    using perm n set_take_subset [of n perm] by (auto simp: js_def)
  define fs where "fs = fold (\<lambda>j s. s[?ms ! j := True]) js flags"
  have fs: "length fs = length flags" "\<forall>i < length flags. fs ! i = (flags ! i \<or> i \<in> (!) ?ms ` set js)"
    using fold_flags [of ?ms js flags] by (auto simp: fs_def)
  have sub: "(!) ?ms ` set js \<subseteq> set ?ms" using js(1) by auto
  have "\<forall>l \<in> set ks. set ?ms \<inter> set (mget [] m l) = {}" using Cons.prems(2,4) by auto
  then have "\<forall>l \<in> set ks. distinct (mget [] m l) \<and> length (mget [] m l) \<le> 2 ^ 53
            \<and> (\<forall>i \<in> set (mget [] m l). i < length fs \<and> \<not> fs ! i)"
    using Cons.prems(3) fs sub by fastforce
  then obtain flags' r' where IH: "legacyLoop fraction m ks fs r1 = Some (flags', r')" "length flags' = length fs"
      "\<forall>i < length fs. i \<notin> (\<Union>k \<in> set ks. set (mget [] m k)) \<longrightarrow> flags' ! i = fs ! i"
      "\<forall>k \<in> set ks. card {i \<in> set (mget [] m k). flags' ! i} = legacyCount fraction (length (mget [] m k))"
    using Cons.IH [of fs r1] Cons.prems by auto
  have "\<forall>i \<in> set ?ms. flags' ! i = (i \<in> (!) ?ms ` set js)"
    using IH(3) fs Cons.prems(3) \<open>\<forall>l \<in> set ks. set ?ms \<inter> set (mget [] m l) = {}\<close> by fastforce
  then have "{i \<in> set ?ms. flags' ! i} = (!) ?ms ` set js" using sub by auto
  moreover have "card ((!) ?ms ` set js) = n"
  proof -
    have "inj_on ((!) ?ms) {0..<length ?ms}" using Cons.prems(3) by (auto simp: inj_on_def nth_eq_iff_index_eq)
    then show ?thesis using js by (simp add: card_image distinct_card inj_on_subset)
  qed
  ultimately have "card {i \<in> set ?ms. flags' ! i} = n" by simp
  moreover have "legacyLoop fraction m (k # ks) flags r = Some (flags', r')"
    using IH(1) n p by (simp add: fs_def js_def n_def)
  moreover have "\<forall>i < length flags. i \<notin> (\<Union>k \<in> set (k # ks). set (mget [] m k)) \<longrightarrow> flags' ! i = flags ! i"
    using IH(3) fs sub by fastforce
  ultimately show ?case using IH fs(1) by (simp add: n_def)
qed simp

text \<open>
  C19: Legacy nodes are drawn per service: within the nodes of every first topic exactly the rounded
  fraction is flagged, whatever the order in which the services are visited.
\<close>

theorem legacySet_per_topic:
  assumes "0 < fraction" "fraction \<le> 1" "length topics \<le> 2 ^ 53"
  defines "members k \<equiv> {i. i < length topics \<and> hd (topics ! i) = k}"
  shows "\<exists>flags r'. legacySet r topics fraction = Some (flags, r') \<and> length flags = length topics
    \<and> (\<forall>k. card {i \<in> members k. flags ! i} = legacyCount fraction (card (members k)))"
proof -
  define m where "m = byFirstTopic topics"
  define ks where "ks = sort (map fst m)"
  have mem: "mget [] m k = filter (\<lambda>i. hd (topics ! i) = k) [0..<length topics]" for k
    unfolding m_def byFirstTopic_def by (simp add: group_fold [of hd] group_index [of hd])
  have ok: "mapOk m" and keys: "mhas m k \<longleftrightarrow> members k \<noteq> {}" for k
    using group_fold_keys [of "[]" hd "enumerate 0 topics"]
    by (auto simp: m_def byFirstTopic_def members_def in_set_enumerate_eq case_prod_beta image_iff Bex_def)
  have setm: "set (mget [] m k) = members k" for k by (auto simp: mem members_def)
  have len: "length (mget [] m k) = card (members k)" for k
    using distinct_card [of "mget [] m k"] by (simp add: mem setm [symmetric])
  have bnd: "card (members k) \<le> 2 ^ 53" for k
  proof -
    have "members k \<subseteq> {..<length topics}" by (auto simp: members_def)
    from card_mono [OF _ this] assms(3) show ?thesis by simp
  qed
  obtain flags r' where f: "legacyLoop fraction m ks (replicate (length topics) False) r = Some (flags, r')"
      "length flags = length topics"
      "\<forall>k \<in> set ks. card {i \<in> members k. flags ! i} = legacyCount fraction (card (members k))"
  proof -
    have "distinct ks" using ok by (simp add: ks_def mapOk_def)
    moreover have "\<forall>k \<in> set ks. distinct (mget [] m k) \<and> length (mget [] m k) \<le> 2 ^ 53
        \<and> (\<forall>i \<in> set (mget [] m k). i < length (replicate (length topics) False)
              \<and> \<not> replicate (length topics) False ! i)"
      unfolding len setm using bnd by (simp add: mem members_def)
    moreover have "\<forall>k \<in> set ks. \<forall>l \<in> set ks. k \<noteq> l \<longrightarrow> set (mget [] m k) \<inter> set (mget [] m l) = {}"
      unfolding setm by (auto simp: members_def)
    ultimately show ?thesis
      using legacyLoop_counts [of fraction ks m "replicate (length topics) False" r] assms(2) that
      unfolding len setm by auto
  qed
  have "card {i \<in> members k. flags ! i} = legacyCount fraction (card (members k))" for k
  proof (cases "k \<in> set ks")
    case False
    then have "members k = {}" using keys by (simp add: ks_def mhas_def)
    then show ?thesis by (simp add: legacyCount_def mathRound_def)
  qed (use f(3) in blast)
  then show ?thesis using f(1,2) assms(1) by (auto simp: legacySet_def m_def ks_def)
qed

theorem legacySet_per_topic_witness:
  "\<exists>flags r'. legacySet (randNew (\<lambda>_. cycleSource) 1) [[''a''], [''b''], [''a'']] 1 = Some (flags, r')
     \<and> length flags = 3"
  using legacySet_per_topic [of 1 "[[''a''], [''b''], [''a'']]" "randNew (\<lambda>_. cycleSource) 1"] by force

section \<open>Lookup times\<close>

lemma lookupLoop_nth:
  "length (fst (lookupLoop from width ks r)) = length ks
    \<and> (\<forall>j < length ks. \<exists>u. 0 \<le> u \<and> u < 1 \<and> fst (lookupLoop from width ks r) ! j
          = from + truncInt (fadd (fmul (ofInt (int (ks ! j))) width) (fmul u width)))"
proof (induction ks arbitrary: r)
  case (Cons k ks)
  obtain u r1 where u: "Float64 r = (u, r1)" by force
  then have "0 \<le> u" "u < 1" using Float64_range [of r] by auto
  then show ?case using Cons [of r1] u by (auto simp: case_prod_beta Let_def less_Suc_eq_0_disj)
qed simp

text \<open>The rounded position of a lookup is within an eighth of a millisecond of the exact one.\<close>

lemma lookup_position:
  fixes d :: rat and n k :: nat and u :: rat
  assumes d: "1 \<le> d" "d \<le> 2 ^ 42" and n: "0 < n" "n \<le> 2 ^ 53" and k: "k < n" and u: "0 \<le> u" "u < 1"
  defines "c \<equiv> fadd (fmul (of_nat k) (fdiv d (of_nat n))) (fmul u (fdiv d (of_nat n)))"
  shows "0 \<le> c \<and> \<bar>c - (of_nat k + u) * (d / of_nat n)\<bar> \<le> 1 / 8"
proof -
  define w where "w = d / of_nat n"
  define s where "s = fl w"
  have nr: "(0 :: rat) < of_nat n" using n by simp
  have w0: "0 < w" using d nr by (simp add: w_def)
  have nw: "of_nat n * w = d" using nr by (simp add: w_def)
  have "2 powi -1000 \<le> w"
  proof -
    have "(of_nat n :: rat) \<le> of_nat (2 ^ 53)" using n(2) of_nat_le_iff by blast
    then have "(1 :: rat) / 2 ^ 53 \<le> d / of_nat n" using d nr by (intro frac_le) simp_all
    moreover have "(2 :: rat) powi -1000 \<le> 2 powi -53" by (simp only: pow2_mono)
    moreover have "(2 :: rat) powi -53 = 1 / 2 ^ 53" by (simp add: power_int_minus inverse_eq_divide)
    ultimately show ?thesis unfolding w_def by linarith
  qed
  then have sw: "\<bar>s - w\<bar> \<le> w / 2 ^ 53" unfolding s_def by (rule fl_rel_err)
  have s0: "0 \<le> s" using w0 by (simp add: s_def fl_nonneg)
  have ku: "0 \<le> of_nat k + u" "of_nat k + u \<le> of_nat n"
  proof -
    have "(of_nat (Suc k) :: rat) \<le> of_nat n" using k by (simp only: of_nat_le_iff Suc_le_eq)
    then show "0 \<le> of_nat k + u" "of_nat k + u \<le> of_nat n" using u by auto
  qed
  have exact: "\<bar>(of_nat k + u) * s - (of_nat k + u) * w\<bar> \<le> 1 / 2 ^ 11"
  proof -
    have "\<bar>(of_nat k + u) * s - (of_nat k + u) * w\<bar> = (of_nat k + u) * \<bar>s - w\<bar>"
      using ku(1) by (simp add: abs_mult flip: right_diff_distrib)
    also have "\<dots> \<le> of_nat n * (w / 2 ^ 53)" using ku sw by (intro mult_mono) auto
    also have "\<dots> = d / 2 ^ 53" using nw by simp
    also have "\<dots> \<le> 2 ^ 42 / 2 ^ 53" using d(2) by (intro divide_right_mono) simp_all
    finally show ?thesis by simp
  qed
  have ks: "0 \<le> of_nat k * s" "of_nat k * s \<le> 2 ^ 43" and us: "0 \<le> u * s" "u * s \<le> 2 ^ 43"
  proof -
    have "(of_nat k + u) * w \<le> of_nat n * w" using ku w0 by (intro mult_right_mono) auto
    moreover have "(1 :: rat) / 2 ^ 11 \<le> 1" "(2 :: rat) ^ 42 + 1 \<le> 2 ^ 43" by simp_all
    ultimately have "(of_nat k + u) * s \<le> 2 ^ 43"
      using abs_le_D1 [OF exact] d(2) unfolding nw distrib_right by linarith
    moreover show "0 \<le> of_nat k * s" "0 \<le> u * s" using s0 u by simp_all
    ultimately show "of_nat k * s \<le> 2 ^ 43" "u * s \<le> 2 ^ 43" by (simp_all add: distrib_right)
  qed
  let ?a = "fl (of_nat k * s)" and ?b = "fl (u * s)"
  have a: "\<bar>?a - of_nat k * s\<bar> \<le> 1 / 2 ^ 10" and b: "\<bar>?b - u * s\<bar> \<le> 1 / 2 ^ 10"
    using fl_abs_err [of "of_nat k * s" 43] fl_abs_err [of "u * s" 43] ks us
    by (simp_all add: power_int_minus power_int_numeral)
  have ab: "0 \<le> ?a" "0 \<le> ?b" using ks us by (simp_all add: fl_nonneg)
  have num: "(1 :: rat) / 2 ^ 10 \<le> 1" "(2 :: rat) ^ 43 + 1 + (2 ^ 43 + 1) \<le> 2 ^ 45"
    "(1 :: rat) / 2 ^ 10 + 1 / 2 ^ 10 + 1 / 2 ^ 8 + 1 / 2 ^ 11 \<le> 1 / 8" by simp_all
  have "?a + ?b \<le> 2 powi 45" using a b ks us num(1,2) unfolding power_int_numeral by linarith
  then have c: "\<bar>fl (?a + ?b) - (?a + ?b)\<bar> \<le> 1 / 2 ^ 8"
    using fl_abs_err [of "?a + ?b" 45] ab by (simp add: power_int_minus power_int_numeral)
  have "c = fl (?a + ?b)" by (simp add: c_def s_def w_def)
  moreover have "0 \<le> fl (?a + ?b)" using ab by (intro fl_nonneg) simp
  moreover have "\<bar>fl (?a + ?b) - (of_nat k + u) * w\<bar> \<le> 1 / 8"
    using a b c exact num(3) unfolding distrib_right by linarith
  ultimately show ?thesis by (simp add: w_def)
qed

text \<open>
  C20: Scheduled lookups: one per interval, all inside the search phase, the k-th one inside the k-th of
  the equal intervals up to the millisecond the truncation and the rounding of doubles cost.
\<close>

theorem LookupTimes_in_intervals:
  assumes "from < to" "to - from \<le> 2 ^ 42" "0 < n" "n \<le> 2 ^ 53"
  defines "w \<equiv> of_int (to - from) / of_int n :: rat"
  shows "length (LookupTimes r from to n) = nat n
    \<and> (\<forall>k < nat n. let t = LookupTimes r from to n ! k in from \<le> t \<and> t \<le> to
          \<and> of_nat k * w - 9 / 8 < of_int (t - from) \<and> of_int (t - from) \<le> (of_nat k + 1) * w + 1 / 8)"
proof -
  define d where "d = (of_int (to - from) :: rat)"
  have d: "1 \<le> d" "d \<le> 2 ^ 42"
  proof -
    have "1 \<le> to - from" using assms(1) by simp
    then show "1 \<le> d" unfolding d_def by linarith
    have "d \<le> of_int (2 ^ 42)" using assms(2) unfolding d_def by (simp only: of_int_le_iff)
    then show "d \<le> 2 ^ 42" by simp
  qed
  have od: "ofInt (to - from) = d" and on: "ofInt n = of_int n" using assms by (simp_all add: d_def)
  have eq: "LookupTimes r from to n = fst (lookupLoop from (fdiv d (of_int n)) [0..<nat n] r)"
    using assms od on by (simp add: LookupTimes_def)
  have body: "let t = LookupTimes r from to n ! k in from \<le> t \<and> t \<le> to
      \<and> of_nat k * w - 9 / 8 < of_int (t - from) \<and> of_int (t - from) \<le> (of_nat k + 1) * w + 1 / 8"
    if k: "k < nat n" for k
  proof -
    obtain u where u: "0 \<le> u" "u < 1" and t: "LookupTimes r from to n ! k
        = from + truncInt (fadd (fmul (ofInt (int k)) (fdiv d (of_int n))) (fmul u (fdiv d (of_int n))))"
      using lookupLoop_nth [of "from" "fdiv d (of_int n)" "[0..<nat n]" r] k unfolding eq by auto
    define c where "c = fadd (fmul (of_nat k) (fdiv d (of_int n))) (fmul u (fdiv d (of_int n)))"
    have c: "0 \<le> c" "\<bar>c - (of_nat k + u) * w\<bar> \<le> 1 / 8"
      using lookup_position [of d "nat n" k u] d u k assms(3,4) by (simp_all add: c_def w_def d_def)
    have "ofInt (int k) = of_nat k" using ofInt_small [of "int k"] k assms(4) by simp
    then have tr: "LookupTimes r from to n ! k - from = \<lfloor>c\<rfloor>" using t c(1) by (simp add: c_def truncInt_def)
    have w0: "0 < w" using assms d by (simp add: w_def)
    have "int k + 1 \<le> n" using k by linarith
    then have "(of_int (int k + 1) :: rat) \<le> of_int n" by (simp only: of_int_le_iff)
    then have "(of_nat k + 1) * w \<le> of_int n * w" using w0 by (intro mult_right_mono) simp_all
    then have top: "(of_nat k + 1) * w \<le> d" using assms(3) by (simp add: w_def d_def)
    have uw: "u * w \<le> w" "0 \<le> u * w" using u w0 by (simp_all add: mult_left_le_one_le)
    have hi: "c \<le> (of_nat k + 1) * w + 1 / 8" and lo: "of_nat k * w - 1 / 8 \<le> c"
      using c(2) uw unfolding distrib_right by linarith+
    have "\<lfloor>c\<rfloor> \<le> to - from" using hi top unfolding d_def by linarith
    moreover have "0 \<le> \<lfloor>c\<rfloor>" using c(1) by simp
    moreover have "of_nat k * w - 9 / 8 < of_int \<lfloor>c\<rfloor>" using lo by linarith
    moreover have "of_int \<lfloor>c\<rfloor> \<le> (of_nat k + 1) * w + 1 / 8" using hi by linarith
    ultimately show ?thesis unfolding Let_def tr using tr by linarith
  qed
  then show ?thesis using lookupLoop_nth [of "from" "fdiv d (of_int n)" "[0..<nat n]" r] by (simp add: eq)
qed

theorem LookupTimes_in_intervals_witness:
  "length (LookupTimes (randNew (\<lambda>_. cycleSource) 5) 1000 61000 3) = 3"
  using LookupTimes_in_intervals [of 1000 61000 3 "randNew (\<lambda>_. cycleSource) 5"] by simp

end
