(* ===== verification/GhostTables.thy ===== *)
theory GhostTables
  imports Assign
begin

text \<open>
  Ghost records (\<open>src/pkg/assign/ghosts.go\<close>) and the generation of all assignments
  (\<open>Generate\<close> of \<open>src/pkg/assign/assign.go\<close>). The go-ethereum functions the code calls are the fields of
  a record \<open>cryptoLib\<close>: trying a hash as a private key, printing keys, the node id of a key, the
  logarithmic distance of two ids, and signing a record with an address and a port.
\<close>

section \<open>Keys\<close>

record ('k, 'id) cryptoLib =
  tryKey :: "string \<Rightarrow> 'k option"
  keyHex :: "'k \<Rightarrow> string"
  pubHex :: "'k \<Rightarrow> string"
  nodeID :: "'k \<Rightarrow> 'id"
  LogDist :: "'id \<Rightarrow> 'id \<Rightarrow> int"
  signRecord :: "'k \<Rightarrow> nat \<Rightarrow> int \<Rightarrow> string option"

text \<open>The loop over \<open>ctr\<close>: the first counter whose hash is a key. \<open>None\<close>: no counter ever gives one.\<close>

partial_function (option) deriveKey :: "(string \<Rightarrow> 'k option) \<Rightarrow> string \<Rightarrow> nat \<Rightarrow> 'k option" where
  "deriveKey try seedText ctr =
     (case try (seedText @ Itoa (int ctr)) of
        Some k \<Rightarrow> Some k
      | None \<Rightarrow> deriveKey try seedText (ctr + 1))"

definition nodeSeedText :: "int \<Rightarrow> nat \<Rightarrow> string" where
  "nodeSeedText seed i = ''topdisc-testbed/'' @ Itoa seed @ ''/'' @ Itoa (int i) @ ''/''"

definition ghostSeedText :: "int \<Rightarrow> nat \<Rightarrow> string" where
  "ghostSeedText seed j = ''topdisc-testbed/ghost/'' @ Itoa seed @ ''/'' @ Itoa (int j) @ ''/''"

section \<open>The share of a node's table\<close>

type_synonym ghostLayout = "nat list"

definition ghostMinDist :: int where "ghostMinDist = 240"
definition ghostBucketCap :: nat where "ghostBucketCap = 16"
definition ghostSpreadMin :: int where "ghostSpreadMin = 248"

definition emptyLayout :: ghostLayout where
  "emptyLayout = replicate 17 0"

definition layoutTotal :: "ghostLayout \<Rightarrow> nat" where
  "layoutTotal l = sum_list l"

definition ghostQuantiles :: "(float64 \<times> float64) list" where
  "ghostQuantiles = [(0, 0), (fl (10/100), fl (21/1000)), (fl (25/100), fl (35/1000)), (fl (50/100), fl (53/1000)),
     (fl (75/100), fl (130/1000)), (fl (90/100), fl (30/100)), (1, fl (57/100))]"

fun quantScan :: "float64 \<Rightarrow> (float64 \<times> float64) list \<Rightarrow> float64" where
  "quantScan u ((p0, v0) # (p1, v1) # qs) =
     (if u \<le> p1 then let f = fdiv (fsub u p0) (fsub p1 p0) in fadd v0 (fmul f (fsub v1 v0))
      else quantScan u ((p1, v1) # qs))"
| "quantScan u [(p, v)] = v"
| "quantScan u [] = 0"

definition ghostQuantile :: "float64 \<Rightarrow> float64" where
  "ghostQuantile u = quantScan u ghostQuantiles"

fun clipScan :: "float64 \<Rightarrow> float64 \<Rightarrow> (float64 \<times> float64) list \<Rightarrow> float64" where
  "clipScan k m ((p0, v0) # (p1, v1) # qs) =
     (let w = fsub p1 p0; a = fmul k v0; b = fmul k v1;
          m = (if b \<le> 1 then fadd m (fdiv (fmul w (fadd a b)) 2)
               else if a \<ge> 1 then fadd m w
               else let t = fdiv (fsub 1 a) (fsub b a)
                    in fadd m (fmul w (fsub (fadd (fdiv (fmul t (fadd a 1)) 2) 1) t)))
      in clipScan k m ((p1, v1) # qs))"
| "clipScan k m qs = m"

definition clippedMean :: "float64 \<Rightarrow> float64" where
  "clippedMean k = clipScan k 0 ghostQuantiles"

text \<open>The doubling loop may not end; \<open>None\<close> is running out of fuel.\<close>

fun doubleUp :: "nat \<Rightarrow> float64 \<Rightarrow> float64 \<Rightarrow> float64 option" where
  "doubleUp 0 share hi = (if clippedMean hi < share then None else Some hi)"
| "doubleUp (Suc fuel) share hi = (if clippedMean hi < share then doubleUp fuel share (fmul hi 2) else Some hi)"

fun bisect :: "nat \<Rightarrow> float64 \<Rightarrow> float64 \<Rightarrow> float64 \<Rightarrow> float64 \<times> float64" where
  "bisect 0 share lo hi = (lo, hi)"
| "bisect (Suc n) share lo hi =
     (let mid = fdiv (fadd lo hi) 2
      in if clippedMean mid < share then bisect n share mid hi else bisect n share lo mid)"

definition ghostScale :: "nat \<Rightarrow> float64 \<Rightarrow> float64 option" where
  "ghostScale fuel share =
     (case doubleUp fuel share 1 of
        None \<Rightarrow> None
      | Some hi \<Rightarrow> (let (lo, hi) = bisect 60 share 0 hi in Some (fdiv (fadd lo hi) 2)))"

definition ghostShare :: "rng \<Rightarrow> float64 \<Rightarrow> float64 \<times> rng" where
  "ghostShare r scale = (let (u, r) = Float64 r in (min 1 (fmul (ghostQuantile u) scale), r))"

text \<open>\<open>math.Pow(2, d-257)\<close> is exact.\<close>

definition expectedTableSize :: "nat \<Rightarrow> float64" where
  "expectedTableSize nodes =
     foldl (\<lambda>t d. fadd t (min (of_nat ghostBucketCap) (fmul (ofInt (int nodes)) (2 powi (d - 257))))) 0 [240..256]"

text \<open>One ghost at a time into a bucket that still has room.\<close>

fun spread :: "nat \<Rightarrow> ghostLayout \<Rightarrow> rng \<Rightarrow> ghostLayout \<times> rng" where
  "spread 0 l r = (l, r)"
| "spread (Suc m) l r =
     (let opened = filter (\<lambda>k. l ! k < ghostBucketCap) [nat (ghostSpreadMin - ghostMinDist)..<length l]
      in if opened = [] then (l, r)
         else let (x, r) = Intn (length opened) r; k = opened ! x in spread m (l[k := l ! k + 1]) r)"

definition sampleGhostLayout :: "rng \<Rightarrow> float64 \<Rightarrow> nat \<Rightarrow> ghostLayout \<times> rng" where
  "sampleGhostLayout r scale nodes =
     (let (share, r) = ghostShare r scale
      in spread (nat (mathRound (fmul share (expectedTableSize nodes)))) emptyLayout r)"

section \<open>Layouts of a crawl\<close>

text \<open>
  The decoded tables file: the top-level fields in order, and under \<open>nodes\<close> every node's id and its
  buckets, distance text to entries, each with its \<open>alive\<close> flag; a missing object or flag is \<open>None\<close>.
\<close>

type_synonym crawlNode = "string \<times> (string \<times> bool option list) list option"

datatype ghostError = BucketsMissing string | BadDistance string string | AliveMissing string string nat | NoCrawlNodes
  | NotIPv4 nat | SignFailed nat | BucketPanic | ScaleDiverges | KeyDiverges

fun countDead :: "string \<Rightarrow> string \<Rightarrow> nat \<Rightarrow> nat \<Rightarrow> bool option list \<Rightarrow> ghostLayout \<Rightarrow> ghostError + ghostLayout" where
  "countDead ident key d i [] l = Inr l"
| "countDead ident key d i (x # xs) l =
     (case x of
        None \<Rightarrow> Inl (AliveMissing ident key i)
      | Some alive \<Rightarrow>
          countDead ident key d (i + 1) xs
            (if \<not> alive \<and> l ! d < ghostBucketCap then l[d := l ! d + 1] else l))"

fun nodeLayout :: "string \<Rightarrow> (string \<times> bool option list) list \<Rightarrow> ghostLayout \<Rightarrow> ghostError + ghostLayout" where
  "nodeLayout ident [] l = Inr l"
| "nodeLayout ident ((key, es) # bs) l =
     (let (d, ok) = Atoi key
      in if \<not> ok \<or> d < ghostMinDist \<or> d > 256 then Inl (BadDistance ident key)
         else case countDead ident key (nat (d - ghostMinDist)) 0 es l of
                Inl e \<Rightarrow> Inl e
              | Inr l \<Rightarrow> nodeLayout ident bs l)"

fun crawlEntries :: "crawlNode list \<Rightarrow> ghostError + (string \<times> ghostLayout) list" where
  "crawlEntries [] = Inr []"
| "crawlEntries ((ident, bks) # ns) =
     (case bks of
        None \<Rightarrow> Inl (BucketsMissing ident)
      | Some bs \<Rightarrow>
          (case nodeLayout ident bs emptyLayout of
             Inl e \<Rightarrow> Inl e
           | Inr l \<Rightarrow> (case crawlEntries ns of Inl e \<Rightarrow> Inl e | Inr es \<Rightarrow> Inr ((ident, l) # es))))"

definition loadGhostLayouts :: "(string \<times> crawlNode list) list \<Rightarrow> ghostError + ghostLayout list" where
  "loadGhostLayouts doc =
     (case crawlEntries (concat (map snd (filter (\<lambda>(key, _). key = ''nodes'') doc))) of
        Inl e \<Rightarrow> Inl e
      | Inr es \<Rightarrow> if es = [] then Inl NoCrawlNodes else Inr (map snd (sort_key fst es)))"

section \<open>The pool of identities\<close>

record ('k, 'id) ghostPool =
  gpKeys :: "'k list"
  gpIds :: "'id list"
  gpIp :: "nat list"
  gpEnr :: "string list"

text \<open>\<open>netip.ParseAddr\<close> followed by \<open>Is4\<close>: four decimal octets without leading zeros.\<close>

definition parseOctet :: "string \<Rightarrow> nat option" where
  "parseOctet s =
     (if s = [] \<or> length s > 3 \<or> (length s > 1 \<and> hd s = CHR ''0'') then None
      else case digitsVal 10 0 s of Some v \<Rightarrow> if v \<le> 255 then Some v else None | None \<Rightarrow> None)"

definition parseAddr4 :: "string \<Rightarrow> nat option" where
  "parseAddr4 s =
     (case map parseOctet (Split CHR ''.'' s) of
        [Some a, Some b, Some c, Some d] \<Rightarrow> Some (((a * 256 + b) * 256 + c) * 256 + d)
      | _ \<Rightarrow> None)"

definition hostAddr :: "Host \<Rightarrow> string" where
  "hostAddr h = (if hExtIP h \<noteq> [] then hExtIP h else hIP h)"

fun poolLoop :: "('k, 'id) cryptoLib \<Rightarrow> int \<Rightarrow> nat \<Rightarrow> (nat \<Rightarrow> Host) \<Rightarrow> nat list \<Rightarrow> ('k, 'id) ghostPool
    \<Rightarrow> ghostError + ('k, 'id) ghostPool" where
  "poolLoop cl seed nodes hosts [] p = Inr p"
| "poolLoop cl seed nodes hosts (j # js) p =
     (case deriveKey (tryKey cl) (ghostSeedText seed j) 0 of
        None \<Rightarrow> Inl KeyDiverges
      | Some k \<Rightarrow>
          (case parseAddr4 (hostAddr (hosts (j mod nodes))) of
             None \<Rightarrow> Inl (NotIPv4 j)
           | Some ip \<Rightarrow>
               poolLoop cl seed nodes hosts js
                 (p\<lparr>gpKeys := gpKeys p @ [k], gpIds := gpIds p @ [nodeID cl k], gpIp := gpIp p @ [ip],
                    gpEnr := gpEnr p @ [[]]\<rparr>)))"

definition newGhostPool :: "('k, 'id) cryptoLib \<Rightarrow> int \<Rightarrow> nat \<Rightarrow> nat \<Rightarrow> (nat \<Rightarrow> Host) \<Rightarrow> ghostError + ('k, 'id) ghostPool" where
  "newGhostPool cl seed sz nodes hosts =
     poolLoop cl seed nodes hosts [0..<sz] \<lparr>gpKeys = [], gpIds = [], gpIp = [], gpEnr = []\<rparr>"

definition ghostPort :: "nat \<Rightarrow> int" where
  "ghostPort j = GhostPortBase + int j mod GhostPortSpan"

definition record_gp :: "('k, 'id) cryptoLib \<Rightarrow> ('k, 'id) ghostPool \<Rightarrow> nat \<Rightarrow> (string \<times> ('k, 'id) ghostPool) option" where
  "record_gp cl p j =
     (if gpEnr p ! j \<noteq> [] then Some (gpEnr p ! j, p)
      else case signRecord cl (gpKeys p ! j) (gpIp p ! j) (ghostPort j) of
             None \<Rightarrow> None
           | Some s \<Rightarrow> Some (s, p\<lparr>gpEnr := (gpEnr p)[j := s]\<rparr>))"

section \<open>Assigning\<close>

definition ghostBucket :: "('k, 'id) cryptoLib \<Rightarrow> 'id \<Rightarrow> 'id \<Rightarrow> nat" where
  "ghostBucket cl self ident = nat (max (LogDist cl self ident) ghostMinDist - ghostMinDist)"

definition ghostCands :: "('k, 'id) cryptoLib \<Rightarrow> 'id \<Rightarrow> 'id list \<Rightarrow> nat list list" where
  "ghostCands cl self pids =
     map (\<lambda>k. filter (\<lambda>j. ghostBucket cl self (pids ! j) = k) [0..<length pids]) [0..<17]"

text \<open>The inner loop: a Fisher-Yates prefix of the bucket's candidates, recorded one by one.\<close>

fun takeGhosts :: "('k, 'id) cryptoLib \<Rightarrow> nat \<Rightarrow> nat \<Rightarrow> nat list \<Rightarrow> rng \<Rightarrow> ('k, 'id) ghostPool \<Rightarrow> string list
    \<Rightarrow> ghostError + (string list \<times> rng \<times> ('k, 'id) ghostPool)" where
  "takeGhosts cl t 0 c r p gs = Inr (gs, r, p)"
| "takeGhosts cl t (Suc m) c r p gs =
     (let (x, r) = Intn (length c - t) r; c = swapAt t (t + x) c
      in case record_gp cl p (c ! t) of
           None \<Rightarrow> Inl (SignFailed (c ! t))
         | Some (s, p) \<Rightarrow> takeGhosts cl (t + 1) m c r p (gs @ [s]))"

fun fillBuckets :: "('k, 'id) cryptoLib \<Rightarrow> (nat list \<times> nat) list \<Rightarrow> rng \<Rightarrow> ('k, 'id) ghostPool \<Rightarrow> Assignment
    \<Rightarrow> ghostError + (Assignment \<times> rng \<times> ('k, 'id) ghostPool)" where
  "fillBuckets cl [] r p a = Inr (a, r, p)"
| "fillBuckets cl ((c, want) # bs) r p a =
     (let take = min want (length c);
          a = a\<lparr>aGhostsUnplaced := aGhostsUnplaced a + int (want - take)\<rparr>
      in case takeGhosts cl 0 take c r p (aGhosts a) of
           Inl e \<Rightarrow> Inl e
         | Inr (gs, r, p) \<Rightarrow> fillBuckets cl bs r p (a\<lparr>aGhosts := gs\<rparr>))"

definition nextLayout :: "ghostLayout list option \<Rightarrow> float64 \<Rightarrow> nat \<Rightarrow> nat \<Rightarrow> rng \<Rightarrow> ghostLayout \<times> rng" where
  "nextLayout replay scale n i r =
     (case replay of
        Some ls \<Rightarrow> (ls ! (i mod length ls), r)
      | None \<Rightarrow> sampleGhostLayout r scale n)"

text \<open>\<open>BucketPanic\<close>: a distance above 256 would index past the seventeen buckets.\<close>

fun ghostNodes :: "('k, 'id) cryptoLib \<Rightarrow> (nat \<Rightarrow> 'k) \<Rightarrow> ghostLayout list option \<Rightarrow> float64 \<Rightarrow> nat \<Rightarrow> (nat \<times> Assignment) list
    \<Rightarrow> rng \<Rightarrow> ('k, 'id) ghostPool \<Rightarrow> ghostError + Assignment list" where
  "ghostNodes cl keys replay scale n [] r p = Inr []"
| "ghostNodes cl keys replay scale n ((i, a) # as) r p =
     (let (layout, r) = nextLayout replay scale n i r
      in case (if layoutTotal layout = 0 then Inr (a, r, p)
               else if \<exists>pid \<in> set (gpIds p). ghostBucket cl (nodeID cl (keys i)) pid > 16 then Inl BucketPanic
               else fillBuckets cl (zip (ghostCands cl (nodeID cl (keys i)) (gpIds p)) layout) r p a) of
           Inl e \<Rightarrow> Inl e
         | Inr (a, r, p) \<Rightarrow>
             (case ghostNodes cl keys replay scale n as r p of
                Inl e \<Rightarrow> Inl e
              | Inr as \<Rightarrow> Inr (a # as)))"

definition poolSize :: "GhostsConfig \<Rightarrow> nat \<Rightarrow> nat" where
  "poolSize g n = (if gPool g = 0 then max (2 * n) 1024 else nat (gPool g))"

definition replayOf :: "GhostsConfig \<Rightarrow> (string \<times> crawlNode list) list \<Rightarrow> ghostError + ghostLayout list option" where
  "replayOf g doc =
     (if gTables g = [] then Inr None
      else case loadGhostLayouts doc of Inl e \<Rightarrow> Inl e | Inr ls \<Rightarrow> Inr (Some ls))"

definition assignGhosts :: "nat \<Rightarrow> (int \<Rightarrow> source) \<Rightarrow> ('k, 'id) cryptoLib \<Rightarrow> (nat \<Rightarrow> 'k) \<Rightarrow> Config \<Rightarrow> (nat \<Rightarrow> Host)
    \<Rightarrow> (string \<times> crawlNode list) list \<Rightarrow> Assignment list \<Rightarrow> ghostError + Assignment list" where
  "assignGhosts fuel src cl keys cfg hosts doc as =
     (let g = Ghosts (scen cfg); n = length as; seed = pSeed (Population (scen cfg))
      in if \<not> ghostsOn g \<or> n = 0 then Inr as
         else case replayOf g doc of
                Inl e \<Rightarrow> Inl e
              | Inr replay \<Rightarrow>
                  (case newGhostPool cl seed (poolSize g n) n hosts of
                     Inl e \<Rightarrow> Inl e
                   | Inr p \<Rightarrow>
                       (case ghostScale fuel (gShare g) of
                          None \<Rightarrow> Inl ScaleDiverges
                        | Some scale \<Rightarrow> ghostNodes cl keys replay scale n (enumerate 0 as) (randNew src (seed + 7177)) p)))"

text \<open>The figures of the run log's line; \<open>None\<close> when the scenario has no ghosts.\<close>

definition GhostSummary :: "Assignment list \<Rightarrow> (nat \<times> nat \<times> float64 \<times> int) option" where
  "GhostSummary as =
     (let pinned = sum_list (map (length \<circ> aGhosts) as);
          unplaced = sum_list (map aGhostsUnplaced as);
          share = foldl (\<lambda>s a. fadd s (ofInt (int (length (aGhosts a))))) 0 as
      in if pinned = 0 \<and> unplaced = 0 then None
         else Some (length as, pinned,
                fdiv share (fmul (ofInt (int (length as))) (expectedTableSize (length as))), unplaced))"

section \<open>The scale of the curve\<close>

text \<open>At 64 times the curve all but the first segment are clipped, so the mean is above one half.\<close>

lemma fl_quarter: "fl (1/4) = 1/4" "fl (1/2) = 1/2" "fl (3/4) = 3/4" "fl 2 = 2" "fl (1/32) = 1/32" "fl (1/64) = 1/64"
proof -
  show "fl (1/4) = 1/4" by (rule fl_exact [of _ 1 "-2"]) (simp_all add: power_int_minus)
  show "fl (1/2) = 1/2" by (rule fl_exact [of _ 1 "-1"]) (simp_all add: power_int_minus)
  show "fl (3/4) = 3/4" by (rule fl_exact [of _ 3 "-2"]) (simp_all add: power_int_minus)
  show "fl 2 = 2" by (rule fl_exact [of _ 1 1]) simp_all
  show "fl (1/32) = 1/32" by (rule fl_exact [of _ 1 "-5"]) (simp_all add: power_int_minus)
  show "fl (1/64) = 1/64" by (rule fl_exact [of _ 1 "-6"]) (simp_all add: power_int_minus)
qed

lemma clip64: "1/32 \<le> x \<Longrightarrow> 1 < fmul 64 (fl x)"
proof -
  assume "1/32 \<le> x"
  then have "1/32 \<le> fl x" by (intro fl_ge_exact) (simp_all add: fl_quarter)
  then have "2 \<le> fmul 64 (fl x)" by (intro fl_ge_exact) (simp_all add: fl_quarter)
  then show ?thesis by simp
qed

lemma first_segment:
  assumes "0 \<le> w" "1 \<le> b"
  defines "t \<equiv> fdiv 1 b"
  shows "0 \<le> fmul w (fsub (fadd (fdiv t 2) 1) t)"
proof -
  have t: "0 \<le> t" "t \<le> 1" unfolding t_def using assms(2) by (auto intro!: fl_nonneg fl_le_exact)
  have "1 \<le> fadd (fdiv t 2) 1" using t by (intro fl_ge_exact) (simp_all add: fl_nonneg)
  then show ?thesis using t assms(1) by (intro fl_nonneg mult_nonneg_nonneg) simp_all
qed

lemma fsub_ge_0: "0 \<le> y \<Longrightarrow> y \<le> x \<Longrightarrow> 0 \<le> fsub x y"
  by (simp add: fl_nonneg)

lemma clippedMean_64: "1/2 \<le> clippedMean 64"
proof -
  let ?b = "fmul 64 (fl (21/1000))"
  have b: "1 \<le> ?b"
  proof -
    have "1/64 \<le> fl (21/1000)" by (intro fl_ge_exact) (simp_all add: fl_quarter)
    then show ?thesis by (intro fl_ge_exact) simp_all
  qed
  have c: "1 < fmul 64 (fl (7/200))" "1 < fmul 64 (fl (53/1000))" "1 < fmul 64 (fl (13/100))"
    "1 < fmul 64 (fl (3/10))" "1 < fmul 64 (fl (57/100))" by (rule clip64, simp)+
  define m where "m = (if ?b \<le> 1 then fl (fdiv (fmul (fl (1/10)) (fl ?b)) 2)
    else fl (fmul (fl (1/10)) (fsub (fadd (fdiv (fl (fdiv 1 (fl ?b))) 2) 1) (fdiv 1 (fl ?b)))))"
  have m: "0 \<le> m"
  proof -
    have "0 \<le> fl (1/10)" by (simp add: fl_nonneg)
    then show ?thesis using b first_segment [of "fl (1/10)" ?b] by (auto simp: m_def intro!: fl_nonneg)
  qed
  define w where "w = fsub (1/4) (fl (1/10))"
  define w5 where "w5 = fsub (fl (9/10)) (3/4)"
  define w6 where "w6 = fsub 1 (fl (9/10))"
  have "fl (1/10) \<le> 1/4" by (rule fl_le_exact) (simp_all add: fl_quarter)
  moreover have "3/4 \<le> fl (9/10)" by (rule fl_ge_exact) (simp_all add: fl_quarter)
  moreover have "fl (9/10) \<le> 1" by (rule fl_le_exact) simp_all
  ultimately have w: "0 \<le> w" "0 \<le> w5" "0 \<le> w6" by (auto simp: w_def w5_def w6_def fl_nonneg)
  have eq: "clippedMean 64 = fadd (fadd (fadd (fadd (fadd m w) (1/4)) (1/4)) w5) w6"
    using b c by (simp add: clippedMean_def ghostQuantiles_def fl_quarter m_def w_def w5_def w6_def Let_def not_le [symmetric])
  have "0 \<le> fadd m w" using m w by (simp add: fl_nonneg)
  then have "1/4 \<le> fadd (fadd m w) (1/4)" by (intro fl_ge_exact) (simp_all add: fl_quarter)
  then have "1/2 \<le> fadd (fadd (fadd m w) (1/4)) (1/4)" by (intro fl_ge_exact) (simp_all add: fl_quarter)
  then have "1/2 \<le> fadd (fadd (fadd (fadd m w) (1/4)) (1/4)) w5" using w by (intro fl_ge_exact) (simp_all add: fl_quarter)
  then show ?thesis unfolding eq using w by (intro fl_ge_exact) (simp_all add: fl_quarter)
qed

lemma doubleUp_returns:
  assumes "share \<le> 1/2" "n \<le> 6" "6 - n \<le> fuel"
  shows "\<exists>h \<le> 6. doubleUp fuel share (2 ^ n) = Some (2 ^ h) \<and> share \<le> clippedMean (2 ^ h)"
  using assms(2,3)
proof (induction fuel arbitrary: n)
  case 0
  then have "n = 6" by simp
  then show ?case using clippedMean_64 assms(1) by (intro exI [of _ 6]) simp
next
  case (Suc fuel)
  show ?case
  proof (cases "clippedMean (2 ^ n) < share")
    case True
    then have "n \<noteq> 6" using clippedMean_64 assms(1) by auto
    then have n: "Suc n \<le> 6" "6 - Suc n \<le> fuel" using Suc.prems by auto
    have "fl (2 ^ Suc n) = 2 ^ Suc n"
      by (rule fl_exact [of _ 1 "int (Suc n)"]) (simp_all only: power_int_of_nat, simp_all)
    then have "fmul (2 ^ n) 2 = 2 ^ Suc n" by (simp add: mult.commute)
    then show ?thesis using Suc.IH [OF n] True by simp
  qed (use Suc.prems in \<open>auto intro!: exI [of _ n]\<close>)
qed

definition brackets :: "float64 \<Rightarrow> float64 \<Rightarrow> float64 \<Rightarrow> bool" where
  "brackets share lo hi \<longleftrightarrow> (lo = 0 \<or> clippedMean lo < share) \<and> share \<le> clippedMean hi"

lemma bisect_add: "bisect (m + n) share lo hi = (let (lo, hi) = bisect m share lo hi in bisect n share lo hi)"
  by (induction m arbitrary: lo hi) (simp_all add: Let_def)

lemma bisect_within:
  assumes "0 \<le> lo" "lo \<le> hi" "fl lo = lo" "fl hi = hi" "brackets share lo hi"
  shows "\<exists>l h. bisect n share lo hi = (l, h) \<and> lo \<le> l \<and> l \<le> h \<and> h \<le> hi \<and> fl l = l \<and> fl h = h \<and> brackets share l h"
  using assms
proof (induction n arbitrary: lo hi)
  case (Suc n)
  define mid where "mid = fdiv (fadd lo hi) 2"
  have mid: "lo \<le> mid" "mid \<le> hi" "fl mid = mid" using fl_midpoint Suc.prems by (auto simp: mid_def)
  show ?case
  proof (cases "clippedMean mid < share")
    case True
    then show ?thesis using Suc.IH [of mid hi] Suc.prems mid
      by (force simp: Let_def brackets_def simp flip: mid_def)
  next
    case False
    then show ?thesis using Suc.IH [of lo mid] Suc.prems mid
      by (force simp: Let_def brackets_def simp flip: mid_def)
  qed
qed simp

text \<open>The first 52 halvings are exact.\<close>

lemma bisect_exact:
  assumes "lo = of_int m * 2 powi e" "hi = of_int (m + 1) * 2 powi e" "0 \<le> m" "m + 1 \<le> 2 ^ j" "j + n \<le> 52"
    and "-100 \<le> e - int n"
  shows "\<exists>m'. 0 \<le> m' \<and> bisect n share lo hi = (of_int m' * 2 powi (e - int n), of_int (m' + 1) * 2 powi (e - int n))"
  using assms
proof (induction n arbitrary: lo hi m e j)
  case (Suc n)
  have half: "(2 :: rat) powi e = 2 * 2 powi (e - 1)" by (simp add: power_int_diff)
  have "(2 :: int) ^ (j + 1) \<le> 2 ^ 53" using Suc.prems(5) by (intro power_increasing) auto
  then have small: "2 * m + 2 \<le> 2 ^ 53" using Suc.prems(4) by simp
  have "fadd lo hi = of_int (2 * m + 1) * 2 powi e"
  proof -
    have "lo + hi = of_int (2 * m + 1) * 2 powi e" using Suc.prems(1,2) by (simp add: algebra_simps)
    moreover have "fl (of_int (2 * m + 1) * 2 powi e) = of_int (2 * m + 1) * 2 powi e"
      using Suc.prems small by (intro fl_exact [of _ "2 * m + 1" e]) auto
    ultimately show ?thesis by simp
  qed
  then have "fdiv (fadd lo hi) 2 = fl (of_int (2 * m + 1) * 2 powi (e - 1))" unfolding half by simp
  also have "\<dots> = of_int (2 * m + 1) * 2 powi (e - 1)"
    using Suc.prems small by (intro fl_exact [of _ "2 * m + 1" "e - 1"]) auto
  finally have mid: "fdiv (fadd lo hi) 2 = of_int (2 * m + 1) * 2 powi (e - 1)" .
  have ends: "lo = of_int (2 * m) * 2 powi (e - 1)" "hi = of_int (2 * m + 1 + 1) * 2 powi (e - 1)"
    using Suc.prems(1,2) unfolding half by simp_all
  have ex: "e - 1 - int n = e - int (Suc n)" by simp
  show ?case
  proof (cases "clippedMean (fdiv (fadd lo hi) 2) < share")
    case True
    have "\<exists>m'. 0 \<le> m' \<and> bisect n share (fdiv (fadd lo hi) 2) hi
        = (of_int m' * 2 powi (e - 1 - int n), of_int (m' + 1) * 2 powi (e - 1 - int n))"
      using Suc.prems by (intro Suc.IH [OF mid ends(2), where j = "j + 1"]) auto
    then show ?thesis using True unfolding ex by (simp add: Let_def)
  next
    case False
    have "\<exists>m'. 0 \<le> m' \<and> bisect n share lo (fdiv (fadd lo hi) 2)
        = (of_int m' * 2 powi (e - 1 - int n), of_int (m' + 1) * 2 powi (e - 1 - int n))"
      using Suc.prems by (intro Suc.IH [OF ends(1) mid, where j = "j + 1"]) auto
    then show ?thesis using False unfolding ex by (simp add: Let_def)
  qed
qed auto

text \<open>
  C21: For every share the configuration accepts the search for the scale ends, and the scale it returns
  lies in an interval shorter than 2 to the -46 at whose lower end the clipped mean of the curve is
  below the share (or which starts at zero) and at whose upper end it reaches the share.
\<close>

theorem ghostScale_brackets:
  assumes "share \<le> 1/2" "6 \<le> fuel"
  shows "\<exists>s lo hi. ghostScale fuel share = Some s \<and> 0 \<le> lo \<and> lo \<le> s \<and> s \<le> hi \<and> hi - lo \<le> 2 powi -46
    \<and> (lo = 0 \<or> clippedMean lo < share) \<and> share \<le> clippedMean hi"
proof -
  obtain h where h: "h \<le> 6" "doubleUp fuel share 1 = Some (2 ^ h)" "share \<le> clippedMean (2 ^ h)"
    using doubleUp_returns [of share 0 fuel] assms by auto
  have fh: "fl (2 ^ h) = 2 ^ h" by (rule fl_exact [of _ 1 "int h"]) simp_all
  have "\<exists>m. 0 \<le> m \<and> bisect 52 share 0 (2 ^ h)
      = (of_int m * 2 powi (int h - int 52), of_int (m + 1) * 2 powi (int h - int 52))"
    by (rule bisect_exact [of 0 0 "int h" "2 ^ h" 0]) (use h(1) in simp_all)
  then obtain m where m: "bisect 52 share 0 (2 ^ h)
      = (of_int m * 2 powi (int h - 52), of_int (m + 1) * 2 powi (int h - 52))"
    by (metis of_nat_numeral)
  have "brackets share 0 (2 ^ h)" using h(3) by (simp add: brackets_def)
  then obtain l1 u1 where b1: "bisect 52 share 0 (2 ^ h) = (l1, u1)" "0 \<le> l1" "l1 \<le> u1" "fl l1 = l1" "fl u1 = u1"
      "brackets share l1 u1"
    using bisect_within [of 0 "2 ^ h" share 52] fh by auto
  then obtain lo hi where b2: "bisect 8 share l1 u1 = (lo, hi)" "l1 \<le> lo" "lo \<le> hi" "hi \<le> u1"
      "fl lo = lo" "fl hi = hi" "brackets share lo hi"
    using bisect_within [of l1 u1 share 8] by auto
  have "u1 - l1 = 2 powi (int h - 52)" using m b1(1) by (simp add: algebra_simps)
  also have "\<dots> \<le> 2 powi -46" unfolding pow2_mono using h(1) by simp
  finally have "hi - lo \<le> 2 powi -46" using b2 by linarith
  moreover have "bisect 60 share 0 (2 ^ h) = (lo, hi)" using bisect_add [of 52 8 share 0 "2 ^ h"] b1(1) b2(1) by simp
  moreover have "0 \<le> lo" using b1 b2 by linarith
  ultimately have "ghostScale fuel share = Some (fdiv (fadd lo hi) 2)" using h(2) by (simp add: ghostScale_def)
  then show ?thesis
    using fl_midpoint [OF \<open>0 \<le> lo\<close> b2(3,5,6)] b2(7) \<open>hi - lo \<le> 2 powi -46\<close> \<open>0 \<le> lo\<close>
    unfolding brackets_def by blast
qed

theorem ghostScale_brackets_witness: "\<exists>s. ghostScale 6 (1/10) = Some s"
  using ghostScale_brackets [of "1/10" 6] by fastforce

section \<open>Layouts\<close>

definition layoutOk :: "ghostLayout \<Rightarrow> bool" where
  "layoutOk l \<longleftrightarrow> length l = 17 \<and> (\<forall>c \<in> set l. c \<le> ghostBucketCap)"

lemma layoutOk_empty [simp]: "layoutOk emptyLayout"
  by (simp add: layoutOk_def emptyLayout_def)

lemma layoutOk_bump: "layoutOk l \<Longrightarrow> k < 17 \<Longrightarrow> l ! k < ghostBucketCap \<Longrightarrow> layoutOk (l[k := Suc (l ! k)])"
  using set_update_subset_insert [of l k "Suc (l ! k)"] by (auto simp: layoutOk_def)

lemma layout_split: "length l = 17 \<Longrightarrow> sum_list l = (\<Sum>k<8. l ! k) + (\<Sum>k=8..<17. l ! k)"
  by (simp add: sum_list_sum_nth sum.atLeastLessThan_concat flip: atLeast0LessThan)

lemma spread_ok:
  assumes "layoutOk l" "\<forall>k < 8. l ! k = 0"
  shows "layoutOk (fst (spread m l r)) \<and> (\<forall>k < 8. fst (spread m l r) ! k = 0)
    \<and> layoutTotal (fst (spread m l r)) = min (layoutTotal l + m) 144"
  using assms
proof (induction m arbitrary: l r)
  case 0
  have "(\<Sum>k=8..<17. l ! k) \<le> (\<Sum>k=8..<(17::nat). 16)"
    using 0 by (intro sum_mono) (auto simp: layoutOk_def ghostBucketCap_def)
  then show ?case using 0 by (simp add: layoutTotal_def layout_split layoutOk_def)
next
  case (Suc m)
  have len: "length l = 17" using Suc.prems by (simp add: layoutOk_def)
  have tot: "layoutTotal l = (\<Sum>k=8..<17. l ! k)" using Suc.prems len by (simp add: layoutTotal_def layout_split)
  have cap: "\<forall>k < 17. l ! k \<le> 16" using Suc.prems len by (auto simp: layoutOk_def ghostBucketCap_def)
  define opened where "opened = filter (\<lambda>k. l ! k < ghostBucketCap) [8..<17]"
  have op: "filter (\<lambda>k. l ! k < ghostBucketCap) [nat (ghostSpreadMin - ghostMinDist)..<length l] = opened"
    by (simp add: opened_def ghostSpreadMin_def ghostMinDist_def len)
  have so: "set opened = {k. 8 \<le> k \<and> k < 17 \<and> l ! k < ghostBucketCap}"
    unfolding opened_def set_filter set_upt by auto
  show ?case
  proof (cases "opened = []")
    case True
    then have full: "16 \<le> l ! k" if "8 \<le> k" "k < 17" for k
      using that so by (force simp: ghostBucketCap_def)
    have "(\<Sum>k=8..<17. l ! k) = (\<Sum>k=8..<(17::nat). 16)"
      by (rule sum.cong) (use full cap order_antisym in auto)
    then have "layoutTotal l = 144" unfolding tot by simp
    then show ?thesis using Suc.prems True op by simp
  next
    case False
    obtain x r1 where x: "Intn (length opened) r = (x, r1)" by force
    then have "opened ! x \<in> set opened" using False Intn_less [of "length opened" r] by simp
    then have k: "8 \<le> opened ! x" "opened ! x < 17" "l ! (opened ! x) < ghostBucketCap"
      by (auto simp: so)
    define l1 where "l1 = l[opened ! x := l ! (opened ! x) + 1]"
    have l1: "layoutOk l1" "\<forall>k < 8. l1 ! k = 0"
      using Suc.prems k by (auto simp: l1_def layoutOk_bump)
    have "layoutTotal l1 = layoutTotal l + 1"
      using k len sum_list_update [of "opened ! x" l] member_le_sum_list [of "l ! (opened ! x)" l]
      by (simp add: l1_def layoutTotal_def)
    then show ?thesis using Suc.IH [OF l1, of r1] False op x by (simp add: l1_def Let_def)
  qed
qed

text \<open>
  A sampled layout never overfills a bucket, leaves the buckets nearer than 248 empty, and holds the
  rounded share of the expected table, up to what the nine buckets can take.
\<close>

theorem sampleGhostLayout_spec:
  "layoutOk (fst (sampleGhostLayout r scale nodes))
    \<and> (\<forall>k < 8. fst (sampleGhostLayout r scale nodes) ! k = 0)
    \<and> layoutTotal (fst (sampleGhostLayout r scale nodes))
        = min (nat (mathRound (fmul (fst (ghostShare r scale)) (expectedTableSize nodes)))) (9 * ghostBucketCap)"
proof -
  have "\<forall>k < 8. emptyLayout ! k = 0" "layoutTotal emptyLayout = 0"
    by (simp_all add: emptyLayout_def layoutTotal_def)
  then show ?thesis
    using spread_ok [OF layoutOk_empty] by (simp add: sampleGhostLayout_def case_prod_beta Let_def ghostBucketCap_def)
qed

theorem sampleGhostLayout_spec_witness:
  "fst (sampleGhostLayout (randNew (\<lambda>_. cycleSource) 1) 1 100) ! 3 = 0"
  using sampleGhostLayout_spec [of "randNew (\<lambda>_. cycleSource) 1" 1 100] by simp

lemma countDead_ok: "countDead ident key d i xs l = Inr l' \<Longrightarrow> layoutOk l \<Longrightarrow> d < 17 \<Longrightarrow> layoutOk l'"
proof (induction ident key d i xs l rule: countDead.induct)
  case (2 ident key d i x xs l)
  then show ?case by (auto simp: layoutOk_bump split: option.splits if_splits)
qed simp

lemma nodeLayout_ok: "nodeLayout ident bs l = Inr l' \<Longrightarrow> layoutOk l \<Longrightarrow> layoutOk l'"
proof (induction ident bs l rule: nodeLayout.induct)
  case (2 ident key es bs l)
  obtain d ok where d: "Atoi key = (d, ok)" by force
  with "2.prems" have r: "ok" "ghostMinDist \<le> d" "d \<le> 256" by (auto split: if_splits)
  then have n: "nat (d - ghostMinDist) < 17" by (simp add: ghostMinDist_def nat_less_iff)
  from "2.prems" d r obtain l1 where l1: "countDead ident key (nat (d - ghostMinDist)) 0 es l = Inr l1"
      "nodeLayout ident bs l1 = Inr l'" by (auto split: sum.splits)
  then have "layoutOk l1" using countDead_ok n "2.prems" by blast
  then show ?case using "2.IH" [OF d [symmetric] refl _ l1(1) l1(2)] r by simp
qed simp

lemma crawlEntries_ok: "crawlEntries ns = Inr es \<Longrightarrow> \<forall>(ident, l) \<in> set es. layoutOk l"
proof (induction ns arbitrary: es rule: crawlEntries.induct)
  case (2 ident bks ns)
  from "2.prems" obtain bs l es1 where e: "bks = Some bs" "nodeLayout ident bs emptyLayout = Inr l"
      "crawlEntries ns = Inr es1" "es = (ident, l) # es1"
    by (auto split: option.splits sum.splits)
  then show ?case using "2.IH" [OF e(1,2,3)] nodeLayout_ok [OF e(2)] by simp
qed simp

lemma loadGhostLayouts_ok:
  assumes "loadGhostLayouts doc = Inr ls"
  shows "ls \<noteq> [] \<and> (\<forall>l \<in> set ls. layoutOk l)"
proof -
  from assms obtain es where es: "crawlEntries (concat (map snd (filter (\<lambda>(key, _). key = ''nodes'') doc))) = Inr es"
      "es \<noteq> []" "ls = map snd (sort_key fst es)"
    by (auto simp: loadGhostLayouts_def split: sum.splits if_splits)
  have "sort_key fst es \<noteq> []" using es(2) by (metis length_sort length_0_conv)
  then show ?thesis using es(3) crawlEntries_ok [OF es(1)] by fastforce
qed

section \<open>Filling the buckets\<close>

definition signed :: "('k, 'id) cryptoLib \<Rightarrow> ('k, 'id) ghostPool \<Rightarrow> nat \<Rightarrow> string option" where
  "signed cl p j = signRecord cl (gpKeys p ! j) (gpIp p ! j) (ghostPort j)"

definition poolOk :: "('k, 'id) cryptoLib \<Rightarrow> ('k, 'id) ghostPool \<Rightarrow> bool" where
  "poolOk cl p \<longleftrightarrow> length (gpEnr p) = length (gpIds p)
     \<and> (\<forall>j < length (gpIds p). gpEnr p ! j = [] \<or> signed cl p j = Some (gpEnr p ! j))"

text \<open>The records cached in the pool are the ones signing gives, so a pool only gains records.\<close>

definition samePool :: "('k, 'id) cryptoLib \<Rightarrow> ('k, 'id) ghostPool \<Rightarrow> ('k, 'id) ghostPool \<Rightarrow> bool" where
  "samePool cl p q \<longleftrightarrow> gpKeys q = gpKeys p \<and> gpIds q = gpIds p \<and> gpIp q = gpIp p \<and> poolOk cl q"

lemma samePool_refl: "poolOk cl p \<Longrightarrow> samePool cl p p"
  by (simp add: samePool_def)

lemma samePool_trans: "samePool cl p q \<Longrightarrow> samePool cl q q' \<Longrightarrow> samePool cl p q'"
  by (simp add: samePool_def)

lemma samePool_signed: "samePool cl p q \<Longrightarrow> signed cl q = signed cl p"
  by (simp add: samePool_def signed_def fun_eq_iff)

lemma record_gp_signed:
  assumes "poolOk cl p" "j < length (gpIds p)" "record_gp cl p j = Some (s, q)"
  shows "signed cl p j = Some s \<and> samePool cl p q"
  using assms
  by (auto simp: record_gp_def samePool_def poolOk_def signed_def nth_list_update split: if_splits option.splits)

lemma set_drop_swapAt:
  assumes "t + x < length c"
  shows "set (drop t (swapAt t (t + x) c)) = set (drop t c)"
proof -
  have "take t (swapAt t (t + x) c) = take t c" by (simp add: swapAt_def)
  moreover have "mset (take t d) + mset (drop t d) = mset d" for d :: "'a list"
    by (metis append_take_drop_id mset_append)
  ultimately have "mset (drop t (swapAt t (t + x) c)) = mset (drop t c)"
    using mset_swapAt [of t c "t + x"] assms by (metis add_left_cancel add_lessD1)
  then show ?thesis by (metis set_mset_mset)
qed

lemma takeGhosts_spec:
  assumes "takeGhosts cl t m c r p gs = Inr (gs', r', p')" "poolOk cl p" "distinct c" "t + m \<le> length c"
    and "\<forall>j \<in> set c. j < length (gpIds p)"
  shows "\<exists>js. length js = m \<and> distinct js \<and> set js \<subseteq> set (drop t c) \<and> samePool cl p p'
    \<and> (\<exists>new. gs' = gs @ new \<and> map Some new = map (signed cl p) js)"
  using assms
proof (induction m arbitrary: t c r p gs)
  case 0
  then show ?case by (simp add: samePool_refl)
next
  case (Suc m)
  obtain x r1 where x: "Intn (length c - t) r = (x, r1)" by force
  then have tx: "t + x < length c" using Intn_less [of "length c - t" r] Suc.prems(4) by simp
  define d where "d = swapAt t (t + x) c"
  have d: "distinct d" "length d = length c" "set d = set c" "set (drop t d) = set (drop t c)"
  proof -
    have m: "mset d = mset c" using tx by (simp add: d_def)
    show "distinct d" using m Suc.prems(3) by (metis mset_eq_imp_distinct_iff)
    show "set d = set c" using m by (rule mset_eq_setD)
  qed (simp_all add: d_def set_drop_swapAt [OF tx])
  have dt: "drop t d = d ! t # drop (Suc t) d" using tx d(2) by (simp add: Cons_nth_drop_Suc)
  have j: "d ! t < length (gpIds p)" using Suc.prems(5) d tx by (metis add_lessD1 nth_mem)
  from Suc.prems(1) x obtain s q where q: "record_gp cl p (d ! t) = Some (s, q)"
      "takeGhosts cl (t + 1) m d r1 q (gs @ [s]) = Inr (gs', r', p')"
    by (auto simp: Let_def split: option.splits simp flip: d_def)
  have sq: "signed cl p (d ! t) = Some s" "samePool cl p q"
    using record_gp_signed [OF Suc.prems(2) j q(1)] by auto
  obtain js new where js: "length js = m" "distinct js" "set js \<subseteq> set (drop (t + 1) d)" "samePool cl q p'"
      "gs' = (gs @ [s]) @ new" "map Some new = map (signed cl q) js"
    using Suc.IH [OF q(2)] sq(2) d Suc.prems by (auto simp: samePool_def)
  have "d ! t \<notin> set js" using js(3) d(1) dt distinct_drop [of d t] by auto
  moreover have "set (d ! t # js) \<subseteq> set (drop t c)" using js(3) d(4) dt by auto
  ultimately show ?case
    using js sq samePool_trans samePool_signed [OF sq(2)]
    by (intro exI [of _ "d ! t # js"]) auto
qed

lemma fillBuckets_spec:
  assumes "fillBuckets cl bs r p a = Inr (a', r', p')" "poolOk cl p"
    and "\<forall>(c, want) \<in> set bs. distinct c \<and> (\<forall>j \<in> set c. j < length (gpIds p))"
  shows "\<exists>jss new. length jss = length bs \<and> samePool cl p p'
    \<and> (\<forall>k < length bs. distinct (jss ! k) \<and> set (jss ! k) \<subseteq> set (fst (bs ! k))
          \<and> length (jss ! k) = min (snd (bs ! k)) (length (fst (bs ! k))))
    \<and> map Some new = map (signed cl p) (concat jss)
    \<and> a' = a\<lparr>aGhosts := aGhosts a @ new,
             aGhostsUnplaced := aGhostsUnplaced a + int (sum_list (map snd bs)) - int (length new)\<rparr>"
  using assms
proof (induction cl bs r p a rule: fillBuckets.induct)
  case (1 cl r p a)
  then show ?case by (intro exI [of _ "[]"]) (simp add: samePool_refl)
next
  case (2 cl c want bs r p a)
  define n where "n = min want (length c)"
  define b where "b = a\<lparr>aGhostsUnplaced := aGhostsUnplaced a + int (want - n)\<rparr>"
  from "2.prems"(1) obtain gs r1 p1 where t: "takeGhosts cl 0 n c r p (aGhosts a) = Inr (gs, r1, p1)"
      "fillBuckets cl bs r1 p1 (b\<lparr>aGhosts := gs\<rparr>) = Inr (a', r', p')"
    by (auto simp: Let_def split: sum.splits simp flip: n_def b_def)
  obtain js new where js: "length js = n" "distinct js" "set js \<subseteq> set c" "samePool cl p p1"
      "gs = aGhosts a @ new" "map Some new = map (signed cl p) js"
    using takeGhosts_spec [OF t(1) "2.prems"(2)] "2.prems"(3) by (auto simp: n_def b_def)
  have tb: "takeGhosts cl 0 n c r p (aGhosts b) = Inr (gs, r1, p1)" using t(1) by (simp add: b_def)
  have p1: "poolOk cl p1" "gpIds p1 = gpIds p" using js(4) by (auto simp: samePool_def)
  obtain jss rest where R: "length jss = length bs" "samePool cl p1 p'"
      "\<forall>k < length bs. distinct (jss ! k) \<and> set (jss ! k) \<subseteq> set (fst (bs ! k))
          \<and> length (jss ! k) = min (snd (bs ! k)) (length (fst (bs ! k)))"
      "map Some rest = map (signed cl p1) (concat jss)"
      "a' = b\<lparr>aGhosts := gs @ rest,
             aGhostsUnplaced := aGhostsUnplaced b + int (sum_list (map snd bs)) - int (length rest)\<rparr>"
    using "2.IH" [OF n_def b_def tb refl refl t(2) p1(1)] "2.prems"(3) p1 by auto
  have ln: "length new = n" using js(1,6) by (metis length_map)
  have nw: "n \<le> want" by (simp add: n_def)
  have "a' = a\<lparr>aGhosts := aGhosts a @ (new @ rest),
             aGhostsUnplaced := aGhostsUnplaced a + int (sum_list (map snd ((c, want) # bs))) - int (length (new @ rest))\<rparr>"
    unfolding R(5) b_def js(5) using ln nw by (simp add: of_nat_diff)
  moreover have "map Some (new @ rest) = map (signed cl p) (concat (js # jss))"
    using js(6) R(4) samePool_signed [OF js(4)] by simp
  moreover have "\<forall>k < length ((c, want) # bs). distinct ((js # jss) ! k) \<and> set ((js # jss) ! k) \<subseteq> set (fst (((c, want) # bs) ! k))
          \<and> length ((js # jss) ! k) = min (snd (((c, want) # bs) ! k)) (length (fst (((c, want) # bs) ! k)))"
    using R(3) js(1,2,3) by (auto simp: n_def nth_Cons split: nat.split)
  moreover have "samePool cl p p'" using js(4) R(2) samePool_trans by blast
  ultimately show ?case using R(1) by (intro exI [of _ "js # jss"] exI [of _ "new @ rest"]) simp
qed

text \<open>
  What a node's ghosts promise: bucket by bucket, different pool identities at that distance from the
  node, as many as the layout asks for or the pool has; their records in order; the rest unplaced;
  nothing else of the assignment changed.
\<close>

definition ghostsFit :: "('k, 'id) cryptoLib \<Rightarrow> ('k, 'id) ghostPool \<Rightarrow> 'id \<Rightarrow> ghostLayout \<Rightarrow> Assignment \<Rightarrow> Assignment \<Rightarrow> bool" where
  "ghostsFit cl p self l a a' \<longleftrightarrow>
     (\<exists>jss new. length jss = 17
        \<and> (\<forall>k < 17. distinct (jss ! k) \<and> (\<forall>j \<in> set (jss ! k). j < length (gpIds p) \<and> ghostBucket cl self (gpIds p ! j) = k)
              \<and> length (jss ! k) = min (l ! k) (card {j. j < length (gpIds p) \<and> ghostBucket cl self (gpIds p ! j) = k}))
        \<and> map Some new = map (signed cl p) (concat jss)
        \<and> a' = a\<lparr>aGhosts := aGhosts a @ new,
                 aGhostsUnplaced := aGhostsUnplaced a + int (layoutTotal l) - int (length new)\<rparr>)"

lemma ghostCands_nth:
  assumes "k < 17"
  shows "distinct (ghostCands cl self pids ! k)"
    "set (ghostCands cl self pids ! k) = {j. j < length pids \<and> ghostBucket cl self (pids ! j) = k}"
  using assms by (auto simp: ghostCands_def simp del: upt_Suc upt_rec_numeral)

lemma length_ghostCands [simp]: "length (ghostCands cl self pids) = 17"
  by (simp add: ghostCands_def del: upt_Suc upt_rec_numeral)

lemma fillBuckets_fit:
  assumes "fillBuckets cl (zip (ghostCands cl self (gpIds p)) l) r p a = Inr (a', r', p')" "poolOk cl p" "length l = 17"
  shows "ghostsFit cl p self l a a' \<and> samePool cl p p'"
proof -
  let ?bs = "zip (ghostCands cl self (gpIds p)) l"
  have bs: "length ?bs = 17" using assms(3) by simp
  have nth: "?bs ! k = (ghostCands cl self (gpIds p) ! k, l ! k)" if "k < 17" for k
    using that assms(3) by simp
  have "\<forall>(c, want) \<in> set ?bs. distinct c \<and> (\<forall>j \<in> set c. j < length (gpIds p))"
  proof (clarify)
    fix c want assume "(c, want) \<in> set ?bs"
    then obtain k where "k < 17" "?bs ! k = (c, want)" unfolding in_set_conv_nth bs by blast
    then show "distinct c \<and> (\<forall>j \<in> set c. j < length (gpIds p))"
      using ghostCands_nth [of k cl self "gpIds p"] nth [of k] by auto
  qed
  from fillBuckets_spec [OF assms(1,2) this] obtain jss new where j: "length jss = 17" "samePool cl p p'"
      "\<forall>k < 17. distinct (jss ! k) \<and> set (jss ! k) \<subseteq> set (fst (?bs ! k))
          \<and> length (jss ! k) = min (snd (?bs ! k)) (length (fst (?bs ! k)))"
      "map Some new = map (signed cl p) (concat jss)"
      "a' = a\<lparr>aGhosts := aGhosts a @ new, aGhostsUnplaced := aGhostsUnplaced a + int (sum_list (map snd ?bs)) - int (length new)\<rparr>"
    unfolding bs by blast
  have sm: "sum_list (map snd ?bs) = layoutTotal l" using assms(3) by (simp add: layoutTotal_def map_snd_zip)
  have "distinct (jss ! k) \<and> (\<forall>j \<in> set (jss ! k). j < length (gpIds p) \<and> ghostBucket cl self (gpIds p ! j) = k)
      \<and> length (jss ! k) = min (l ! k) (card {j. j < length (gpIds p) \<and> ghostBucket cl self (gpIds p ! j) = k})"
    if k: "k < 17" for k
  proof -
    have c: "length (ghostCands cl self (gpIds p) ! k) = card {j. j < length (gpIds p) \<and> ghostBucket cl self (gpIds p ! j) = k}"
      using ghostCands_nth [OF k, of cl self "gpIds p"] distinct_card by metis
    note jk = j(3) [rule_format, OF k, unfolded nth [OF k] fst_conv snd_conv]
    have "set (jss ! k) \<subseteq> {j. j < length (gpIds p) \<and> ghostBucket cl self (gpIds p ! j) = k}"
      using jk unfolding ghostCands_nth(2) [OF k, of cl self "gpIds p"] by blast
    then show ?thesis using jk unfolding c by blast
  qed
  then show ?thesis unfolding ghostsFit_def using j(1,2,4,5) unfolding sm by blast
qed

lemma ghostsFit_zero:
  assumes "layoutTotal l = 0" "length l = 17"
  shows "ghostsFit cl p self l a a"
proof -
  have "l ! k = 0" if "k < 17" for k
    using assms that by (simp add: layoutTotal_def)
  then have "\<forall>k < 17. distinct (replicate 17 [] ! k) \<and> (\<forall>j \<in> set (replicate 17 [] ! k). j < length (gpIds p) \<and> ghostBucket cl self (gpIds p ! j) = k)
       \<and> length (replicate 17 [] ! k) = min (l ! k) (card {j. j < length (gpIds p) \<and> ghostBucket cl self (gpIds p ! j) = k})"
    by simp
  then show ?thesis unfolding ghostsFit_def using assms(1)
    by (intro exI [of _ "replicate 17 []"] exI [of _ "[]"]) simp
qed

lemma ghostsFit_same: "samePool cl p q \<Longrightarrow> ghostsFit cl q = ghostsFit cl p"
  by (simp add: ghostsFit_def fun_eq_iff samePool_signed) (simp add: samePool_def)

lemma ghostNodes_fit:
  assumes "ghostNodes cl keys replay scale n ias r p = Inr as'" "poolOk cl p"
    and "\<forall>ls. replay = Some ls \<longrightarrow> ls \<noteq> [] \<and> (\<forall>l \<in> set ls. layoutOk l)"
  shows "length as' = length ias \<and> (\<forall>x < length ias. \<exists>l. layoutOk l
      \<and> (\<forall>ls. replay = Some ls \<longrightarrow> l = ls ! (fst (ias ! x) mod length ls))
      \<and> ghostsFit cl p (nodeID cl (keys (fst (ias ! x)))) l (snd (ias ! x)) (as' ! x))"
  using assms(1,2)
proof (induction ias arbitrary: r p as')
  case (Cons ia ias)
  obtain i a where ia: "ia = (i, a)" by force
  obtain l r1 where l: "nextLayout replay scale n i r = (l, r1)" by force
  have lok: "layoutOk l" "\<forall>ls. replay = Some ls \<longrightarrow> l = ls ! (i mod length ls)"
    using l assms(3) sampleGhostLayout_spec [of r scale n] by (auto simp: nextLayout_def split: option.splits)
  let ?self = "nodeID cl (keys i)"
  from Cons.prems(1) obtain a1 r2 q as1 where
      s: "(if layoutTotal l = 0 then Inr (a, r1, p)
           else if \<exists>pid \<in> set (gpIds p). ghostBucket cl ?self pid > 16 then Inl BucketPanic
           else fillBuckets cl (zip (ghostCands cl ?self (gpIds p)) l) r1 p a) = Inr (a1, r2, q)"
      and n: "ghostNodes cl keys replay scale n ias r2 q = Inr as1" and as': "as' = a1 # as1"
    unfolding ia ghostNodes.simps l by (auto simp: Let_def split: sum.splits)
  have len: "length l = 17" using lok(1) by (simp add: layoutOk_def)
  have fit: "ghostsFit cl p ?self l a a1 \<and> samePool cl p q"
  proof (cases "layoutTotal l = 0")
    case True
    then have "a1 = a" "q = p" using s by simp_all
    then show ?thesis using ghostsFit_zero [OF True len] samePool_refl [OF Cons.prems(2)] by simp
  next
    case False
    then have "fillBuckets cl (zip (ghostCands cl ?self (gpIds p)) l) r1 p a = Inr (a1, r2, q)"
      using s by (simp split: if_splits)
    from fillBuckets_fit [OF this Cons.prems(2) len] show ?thesis .
  qed
  then have "poolOk cl q" "ghostsFit cl q = ghostsFit cl p" by (simp_all add: ghostsFit_same) (simp add: samePool_def)
  note IH = Cons.IH [OF n this(1), unfolded this(2)]
  show ?case
  proof (intro conjI allI impI)
    show "length as' = length (ia # ias)" using IH as' by simp
    fix x assume x: "x < length (ia # ias)"
    show "\<exists>l. layoutOk l \<and> (\<forall>ls. replay = Some ls \<longrightarrow> l = ls ! (fst ((ia # ias) ! x) mod length ls))
      \<and> ghostsFit cl p (nodeID cl (keys (fst ((ia # ias) ! x)))) l (snd ((ia # ias) ! x)) (as' ! x)"
    proof (cases x)
      case 0
      then show ?thesis using fit lok by (intro exI [of _ l]) (simp add: ia as')
    next
      case (Suc y)
      then show ?thesis using IH x by (simp add: as')
    qed
  qed
qed simp

lemma poolLoop_ok:
  assumes "poolLoop cl seed n hosts js p0 = Inr p" "set (gpEnr p0) \<subseteq> {[]}" "length (gpEnr p0) = length (gpIds p0)"
  shows "set (gpEnr p) \<subseteq> {[]} \<and> length (gpEnr p) = length (gpIds p) \<and> length (gpIds p) = length (gpIds p0) + length js"
  using assms
proof (induction js arbitrary: p0)
  case (Cons j js)
  from Cons.prems(1) obtain k ip where "poolLoop cl seed n hosts js
      (p0\<lparr>gpKeys := gpKeys p0 @ [k], gpIds := gpIds p0 @ [nodeID cl k], gpIp := gpIp p0 @ [ip], gpEnr := gpEnr p0 @ [[]]\<rparr>) = Inr p"
    by (auto split: option.splits)
  from Cons.IH [OF this] Cons.prems show ?case by simp
qed simp

lemma newGhostPool_ok:
  assumes "newGhostPool cl seed sz n hosts = Inr p"
  shows "poolOk cl p \<and> length (gpIds p) = sz"
proof -
  have e: "set (gpEnr p) \<subseteq> {[]}" "length (gpEnr p) = length (gpIds p)" "length (gpIds p) = sz"
    using poolLoop_ok [OF assms [unfolded newGhostPool_def]] by simp_all
  then have "gpEnr p ! j = []" if "j < length (gpIds p)" for j
    using that nth_mem [of j "gpEnr p"] by (metis empty_iff insert_iff subsetD)
  then show ?thesis using e by (simp add: poolOk_def)
qed

lemma assignGhosts_each:
  assumes "assignGhosts fuel src cl keys cfg hosts doc as = Inr as'"
    and "ghostsOn (Ghosts (scen cfg))" "as \<noteq> []"
  shows "\<exists>p replay. newGhostPool cl (pSeed (Population (scen cfg))) (poolSize (Ghosts (scen cfg)) (length as)) (length as) hosts = Inr p
    \<and> replayOf (Ghosts (scen cfg)) doc = Inr replay \<and> length as' = length as
    \<and> (\<forall>i < length as. \<exists>l. layoutOk l \<and> (\<forall>ls. replay = Some ls \<longrightarrow> l = ls ! (i mod length ls))
          \<and> ghostsFit cl p (nodeID cl (keys i)) l (as ! i) (as' ! i))"
proof -
  from assms obtain replay p scale where e: "replayOf (Ghosts (scen cfg)) doc = Inr replay"
      "newGhostPool cl (pSeed (Population (scen cfg))) (poolSize (Ghosts (scen cfg)) (length as)) (length as) hosts = Inr p"
      "ghostNodes cl keys replay scale (length as) (enumerate 0 as) (randNew src (pSeed (Population (scen cfg)) + 7177)) p = Inr as'"
    by (auto simp: assignGhosts_def Let_def split: sum.splits option.splits)
  have "\<forall>ls. replay = Some ls \<longrightarrow> ls \<noteq> [] \<and> (\<forall>l \<in> set ls. layoutOk l)"
    using e(1) loadGhostLayouts_ok by (fastforce simp: replayOf_def split: if_splits sum.splits)
  from ghostNodes_fit [OF e(3) _ this] newGhostPool_ok [OF e(2)] e(1,2) show ?thesis
    by (auto simp: nth_enumerate_eq)
qed

lemma ghostsFit_sum: "ghostsFit cl p self l a a' \<Longrightarrow>
    int (length (aGhosts a')) + aGhostsUnplaced a' = int (length (aGhosts a)) + aGhostsUnplaced a + int (layoutTotal l)"
  by (auto simp: ghostsFit_def)

lemma ghostsFit_other: "ghostsFit cl p self l a a' \<Longrightarrow> \<exists>gs u. a' = a\<lparr>aGhosts := gs, aGhostsUnplaced := u\<rparr>"
  by (auto simp: ghostsFit_def)

text \<open>Ghosts change only the two ghost fields.\<close>

lemma assignGhosts_other:
  assumes "assignGhosts fuel src cl keys cfg hosts doc as = Inr as'"
  shows "length as' = length as \<and> (\<forall>i < length as. \<exists>gs u. as' ! i = (as ! i)\<lparr>aGhosts := gs, aGhostsUnplaced := u\<rparr>)"
proof (cases "ghostsOn (Ghosts (scen cfg)) \<and> as \<noteq> []")
  case True
  then obtain p where p: "length as' = length as"
      "\<forall>i < length as. \<exists>l. ghostsFit cl p (nodeID cl (keys i)) l (as ! i) (as' ! i)"
    using assignGhosts_each [OF assms] by blast
  have "\<exists>gs u. as' ! i = (as ! i)\<lparr>aGhosts := gs, aGhostsUnplaced := u\<rparr>" if i: "i < length as" for i
  proof -
    obtain l where "ghostsFit cl p (nodeID cl (keys i)) l (as ! i) (as' ! i)" using p(2) i by blast
    then show ?thesis by (rule ghostsFit_other)
  qed
  then show ?thesis using p(1) by blast
next
  case False
  then have "as' = as" using assms by (auto simp: assignGhosts_def Let_def)
  moreover have "\<exists>gs u. a = a\<lparr>aGhosts := gs, aGhostsUnplaced := u\<rparr>" for a
    by (intro exI [of _ "aGhosts a"] exI [of _ "aGhostsUnplaced a"]) simp
  ultimately show ?thesis by blast
qed

text \<open>
  C8: Ghost assignment keeps its promise for every node: the layout replayed from the crawl (or a
  sampled one that respects the bucket size) is met bucket by bucket with different identities at the
  right distance, what the pool cannot fill is counted as unplaced, and the records are those signed
  for the identities.
\<close>

theorem assignGhosts_fits:
  assumes "assignGhosts fuel src cl keys cfg hosts doc as = Inr as'"
    and "ghostsOn (Ghosts (scen cfg))" "as \<noteq> []" "\<forall>a \<in> set as. aGhosts a = [] \<and> aGhostsUnplaced a = 0"
  shows "\<exists>p replay. newGhostPool cl (pSeed (Population (scen cfg))) (poolSize (Ghosts (scen cfg)) (length as)) (length as) hosts = Inr p
    \<and> replayOf (Ghosts (scen cfg)) doc = Inr replay \<and> length as' = length as
    \<and> (\<forall>i < length as. \<exists>l. layoutOk l \<and> (\<forall>ls. replay = Some ls \<longrightarrow> l = ls ! (i mod length ls))
          \<and> ghostsFit cl p (nodeID cl (keys i)) l (as ! i) (as' ! i)
          \<and> int (length (aGhosts (as' ! i))) + aGhostsUnplaced (as' ! i) = int (layoutTotal l))"
proof -
  obtain p replay where e: "newGhostPool cl (pSeed (Population (scen cfg))) (poolSize (Ghosts (scen cfg)) (length as)) (length as) hosts = Inr p"
      "replayOf (Ghosts (scen cfg)) doc = Inr replay" "length as' = length as"
      "\<forall>i < length as. \<exists>l. layoutOk l \<and> (\<forall>ls. replay = Some ls \<longrightarrow> l = ls ! (i mod length ls))
          \<and> ghostsFit cl p (nodeID cl (keys i)) l (as ! i) (as' ! i)"
    using assignGhosts_each [OF assms(1,2,3)] by blast
  have "int (length (aGhosts (as' ! i))) + aGhostsUnplaced (as' ! i) = int (layoutTotal l)"
    if "i < length as" "ghostsFit cl p (nodeID cl (keys i)) l (as ! i) (as' ! i)" for i l
    using ghostsFit_sum [OF that(2)] assms(4) that(1) by simp
  note total = this
  show ?thesis
  proof (intro exI [of _ p] exI [of _ replay] conjI allI impI)
    fix i assume i: "i < length as"
    then obtain l where "layoutOk l" "\<forall>ls. replay = Some ls \<longrightarrow> l = ls ! (i mod length ls)"
        "ghostsFit cl p (nodeID cl (keys i)) l (as ! i) (as' ! i)" using e(4) by blast
    with total [OF i this(3)] show "\<exists>l. layoutOk l \<and> (\<forall>ls. replay = Some ls \<longrightarrow> l = ls ! (i mod length ls))
          \<and> ghostsFit cl p (nodeID cl (keys i)) l (as ! i) (as' ! i)
          \<and> int (length (aGhosts (as' ! i))) + aGhostsUnplaced (as' ! i) = int (layoutTotal l)"
      by (intro exI [of _ l]) simp
  qed (use e in simp_all)
qed

definition demoLib :: "(string, nat) cryptoLib" where
  "demoLib = \<lparr>tryKey = Some, keyHex = (\<lambda>k. k), pubHex = (\<lambda>k. k), nodeID = length, LogDist = (\<lambda>_ _. 256),
     signRecord = (\<lambda>_ _ _. Some ''enr'')\<rparr>"

definition demoConfig :: Config where
  "demoConfig = Default\<lparr>scen := DefaultScenario\<lparr>Ghosts := \<lparr>gShare = 0, gTables = ''t'', gPool = 1\<rparr>\<rparr>\<rparr>"

definition demoHost :: Host where
  "demoHost = \<lparr>hIP = ''0.0.0.7'', hExtIP = [], hBasePort = 30300, hStatusOff = 10000, hTraceFile = []\<rparr>"

definition demoDoc :: "(string \<times> crawlNode list) list" where
  "demoDoc = [(''nodes'', [(''a'', Some [(''256'', [Some False, Some True])])])]"

definition demoAssignment :: Assignment where
  "demoAssignment = assignNode demoConfig (\<lambda>_. demoHost) (\<lambda>_. []) [[0]] [False] [0] 0 (\<lambda>_ _ _. []) (\<lambda>_. []) 0 []"

lemma demo_load: "loadGhostLayouts demoDoc = Inr [emptyLayout[16 := 1]]"
  by code_simp

lemma demo_addr: "parseAddr4 ''0.0.0.7'' = Some 7"
  by code_simp

lemma deriveKey_Some: "try (text @ Itoa (int ctr)) = Some k \<Longrightarrow> deriveKey try text ctr = Some k"
  by (subst deriveKey.simps) simp

lemma demo_pool: "newGhostPool demoLib seed 1 1 (\<lambda>_. demoHost)
    = Inr \<lparr>gpKeys = [ghostSeedText seed 0 @ Itoa 0], gpIds = [length (ghostSeedText seed 0 @ Itoa 0)], gpIp = [7], gpEnr = [[]]\<rparr>"
  by (simp add: newGhostPool_def demoLib_def demoHost_def hostAddr_def demo_addr deriveKey_Some)

lemma takeGhosts_one:
  "record_gp cl p j = Some (s, q) \<Longrightarrow> \<exists>r'. takeGhosts cl 0 1 [j] r p gs = Inr (gs @ [s], r', q)"
proof -
  assume r: "record_gp cl p j = Some (s, q)"
  obtain x r1 where x: "Intn 1 r = (x, r1)" by force
  then have "x = 0" using Intn_less [of 1 r] by simp
  then show ?thesis using x r by (simp add: swapAt_def)
qed

lemma demo_fill:
  assumes "gpIds p = [d]" "gpEnr p = [[]]"
  shows "\<exists>a' r' q. fillBuckets demoLib (zip (ghostCands demoLib self (gpIds p)) (emptyLayout[16 := 1])) r p a = Inr (a', r', q)"
proof -
  have "ghostCands demoLib self [d] = replicate 16 [] @ [[0]]"
    by (simp add: ghostCands_def demoLib_def ghostBucket_def ghostMinDist_def numeral_eq_Suc)
  then have z: "zip (ghostCands demoLib self (gpIds p)) (emptyLayout[16 := 1]) = replicate 16 ([], 0) @ [([0], 1)]"
    using assms by (simp add: emptyLayout_def numeral_eq_Suc)
  have skip: "\<exists>a1. fillBuckets demoLib (replicate n ([], 0) @ bs) r p a = fillBuckets demoLib bs r p a1" for n bs
  proof (induction n arbitrary: a)
    case (Suc n)
    then show ?case by (simp add: Let_def)
  qed auto
  have "\<exists>s q. record_gp demoLib p 0 = Some (s, q)" using assms by (simp add: record_gp_def demoLib_def)
  then obtain s q where sq: "record_gp demoLib p 0 = Some (s, q)" by blast
  obtain a1 where "fillBuckets demoLib (replicate 16 ([], 0) @ [([0], 1)]) r p a = fillBuckets demoLib [([0], 1)] r p a1"
    using skip by blast
  moreover obtain r' where "takeGhosts demoLib 0 1 [0] r p (aGhosts a1) = Inr (aGhosts a1 @ [s], r', q)"
    using takeGhosts_one [OF sq] by blast
  ultimately show ?thesis unfolding z by (auto simp: Let_def)
qed

lemma demo_assign:
  "\<exists>as'. assignGhosts 6 (\<lambda>_. cycleSource) demoLib (\<lambda>_. []) demoConfig (\<lambda>_. demoHost) demoDoc [demoAssignment] = Inr as'"
proof -
  obtain scale where sc: "ghostScale 6 0 = Some scale" using ghostScale_brackets [of 0 6] by auto
  have g: "Ghosts (scen demoConfig) = \<lparr>gShare = 0, gTables = ''t'', gPool = 1\<rparr>" by (simp add: demoConfig_def)
  have l: "layoutTotal (emptyLayout[16 := 1]) = 1" by code_simp
  have b: "ghostBucket demoLib x y = 16" for x y by (simp add: demoLib_def ghostBucket_def ghostMinDist_def)
  define seed where "seed = pSeed (Population (scen demoConfig))"
  define p where "p = \<lparr>gpKeys = [ghostSeedText seed 0 @ Itoa 0], gpIds = [length (ghostSeedText seed 0 @ Itoa 0)], gpIp = [7], gpEnr = [[]]\<rparr>"
  obtain a' r' q where f: "fillBuckets demoLib (zip (ghostCands demoLib (nodeID demoLib []) (gpIds p)) (emptyLayout[16 := 1]))
      (randNew (\<lambda>_. cycleSource) (seed + 7177)) p demoAssignment = Inr (a', r', q)"
  proof -
    have "gpIds p = [length (ghostSeedText seed 0 @ Itoa 0)]" "gpEnr p = [[]]" by (simp_all add: p_def)
    from demo_fill [OF this] that show ?thesis by blast
  qed
  have "newGhostPool demoLib seed 1 1 (\<lambda>_. demoHost) = Inr p" unfolding p_def by (rule demo_pool)
  then show ?thesis using f
    by (simp add: assignGhosts_def Let_def g ghostsOn_def replayOf_def demo_load poolSize_def sc nextLayout_def l b
        flip: seed_def)
qed

theorem assignGhosts_fits_witness:
  "\<exists>as'. assignGhosts 6 (\<lambda>_. cycleSource) demoLib (\<lambda>_. []) demoConfig (\<lambda>_. demoHost) demoDoc [demoAssignment] = Inr as'
     \<and> length as' = 1"
proof -
  obtain as' where a: "assignGhosts 6 (\<lambda>_. cycleSource) demoLib (\<lambda>_. []) demoConfig (\<lambda>_. demoHost) demoDoc [demoAssignment] = Inr as'"
    using demo_assign by blast
  have "ghostsOn (Ghosts (scen demoConfig))" by (simp add: demoConfig_def ghostsOn_def)
  moreover have "\<forall>a \<in> set [demoAssignment]. aGhosts a = [] \<and> aGhostsUnplaced a = 0"
    by (simp add: demoAssignment_def assignNode_def case_prod_beta Let_def)
  ultimately show ?thesis using assignGhosts_fits [OF a] a by auto
qed

end
