(* ===== verification/Generation.thy ===== *)
theory Generation
  imports GhostTables
begin

text \<open>
  \<open>Generate\<close> of \<open>src/pkg/assign/assign.go\<close> composed from its parts (keys, topics, schedule, legacy nodes,
  bootstrap records, churn, ghosts) and the hosts \<open>RunLocal\<close> of \<open>src/pkg/coordinator/local.go\<close> gives it.
  Reading and decoding a churn model file is the parameter \<open>load\<close>, \<open>None\<close> when it fails.
\<close>

section \<open>Definitions\<close>

datatype assignError = TopicModelError | ChurnModelError | GhostError ghostError | GoPanic

definition drawTopics :: "(float64 \<Rightarrow> float64 \<Rightarrow> float64) \<Rightarrow> (string \<Rightarrow> churnModel option) \<Rightarrow> Config \<Rightarrow> rng
    \<Rightarrow> (nat list list \<times> churnModel option \<times> rng) option" where
  "drawTopics pow load cfg r =
     (let po = Population (scen cfg);
          draw = (\<lambda>mo. case DrawTopics pow r (nat (pNodes po)) (pTopics po) (pZipfS po) mo (pCommonTopic po) of
                         (ts, r) \<Rightarrow> Some (ts, mo, r))
      in if pTopicModel po = [] then draw None
         else case load (pTopicModel po) of None \<Rightarrow> None | Some m \<Rightarrow> draw (Some m))"

definition churnModelFor :: "(string \<Rightarrow> churnModel option) \<Rightarrow> ScenarioConfig \<Rightarrow> churnModel option option" where
  "churnModelFor load sc =
     (if scEnabled (SessionChurn sc) \<and> scModel (SessionChurn sc) \<noteq> []
      then case load (scModel (SessionChurn sc)) of None \<Rightarrow> None | Some m \<Rightarrow> Some (Some m)
      else Some None)"

definition nodeURL :: "('k, 'id) cryptoLib \<Rightarrow> 'k list \<Rightarrow> (nat \<Rightarrow> Host) \<Rightarrow> nat \<Rightarrow> string" where
  "nodeURL cl keys hosts i =
     ''enode://'' @ pubHex cl (keys ! i) @ ''@'' @ hostAddr (hosts i) @ '':'' @ Itoa (hBasePort (hosts i))"

text \<open>One node's absences; the outer \<open>None\<close> is a schedule that does not end within the fuel.\<close>

definition nodeChurn :: "(float64 \<Rightarrow> float64 \<Rightarrow> float64) \<Rightarrow> nat \<Rightarrow> (int \<Rightarrow> source) \<Rightarrow> Config \<Rightarrow> churnModel option
    \<Rightarrow> nat list list \<Rightarrow> nat \<Rightarrow> churnEvent list option" where
  "nodeChurn pow fuel src cfg mo topicIdx i =
     (let sc = scen cfg
      in case mo of
           None \<Rightarrow> Some []
         | Some m \<Rightarrow>
             if i = 0 then Some []
             else ScheduleTopic pow fuel m (randNew src (NodeSeed (pSeed (Population sc)) (int i)))
                    (Seconds (phSearchTimeout (PhasesC sc))) (scWindowHours (SessionChurn sc))
                    (ChurnTopic m sc (topicIdx ! i)))"

text \<open>The loop over the nodes, before the ghosts.\<close>

definition assignNodes :: "(int \<Rightarrow> source) \<Rightarrow> ('k, 'id) cryptoLib \<Rightarrow> 'k list \<Rightarrow> Config \<Rightarrow> (nat \<Rightarrow> Host) \<Rightarrow> int
    \<Rightarrow> nat list list \<Rightarrow> bool list \<Rightarrow> churnEvent list list \<Rightarrow> Assignment list" where
  "assignNodes src cl keys cfg hosts t0 topicIdx legacy scheds =
     (let sc = scen cfg; po = Population sc; n = length keys;
          startOff = StartOffsets src (pSeed po) n (phStartWindow (PhasesC sc));
          boots = bootLists (randNew src (pSeed po + 104729)) startOff (pBootstrapSample po) (nodeURL cl keys hosts) [0..<n];
          lookups = (\<lambda>i from to. LookupTimes (randNew src (pSeed po + int i * 40503)) from to (seIntervals (SearchC sc)))
      in map (\<lambda>i. assignNode cfg hosts (\<lambda>i. keyHex cl (keys ! i)) topicIdx legacy startOff t0 lookups
                    (\<lambda>i. scheds ! i) i (boots ! i)) [0..<n])"

text \<open>
  \<open>None\<close>: a key derivation or a schedule does not end. \<open>GoPanic\<close>: no nodes (\<open>keys[0]\<close> of an empty slice),
  or a legacy fraction above one.
\<close>

definition Generate :: "(float64 \<Rightarrow> float64 \<Rightarrow> float64) \<Rightarrow> nat \<Rightarrow> (int \<Rightarrow> source) \<Rightarrow> ('k, 'id) cryptoLib
    \<Rightarrow> (string \<Rightarrow> churnModel option) \<Rightarrow> (string \<times> crawlNode list) list \<Rightarrow> Config \<Rightarrow> (nat \<Rightarrow> Host) \<Rightarrow> int
    \<Rightarrow> (assignError + Assignment list) option" where
  "Generate pow fuel src cl load doc cfg hosts t0 =
     (let sc = scen cfg; po = Population sc; n = nat (pNodes po)
      in if pNodes po < 0 then Some (Inl GoPanic)
         else case those (map (\<lambda>i. deriveKey (tryKey cl) (nodeSeedText (pSeed po) i) 0) [0..<n]) of
           None \<Rightarrow> None
         | Some keys \<Rightarrow>
             (case drawTopics pow load cfg (randNew src (pSeed po)) of
                None \<Rightarrow> Some (Inl TopicModelError)
              | Some (topicIdx, _, r) \<Rightarrow>
                  (case churnModelFor load sc of
                     None \<Rightarrow> Some (Inl ChurnModelError)
                   | Some mo \<Rightarrow>
                       if n = 0 then Some (Inl GoPanic)
                       else case legacySet r (map (map topicName) topicIdx) (pLegacyFrac po) of
                              None \<Rightarrow> Some (Inl GoPanic)
                            | Some (legacy, _) \<Rightarrow>
                                (case those (map (nodeChurn pow fuel src cfg mo topicIdx) [0..<n]) of
                                   None \<Rightarrow> None
                                 | Some scheds \<Rightarrow>
                                     let legacy = (if pLegacyBootnode po then legacy else legacy[0 := False]);
                                         as = assignNodes src cl keys cfg hosts t0 topicIdx legacy scheds
                                     in Some (case assignGhosts fuel src cl (\<lambda>i. keys ! i) cfg hosts doc as of
                                                Inl e \<Rightarrow> Inl (GhostError e) | Inr as \<Rightarrow> Inr as)))))"

text \<open>The hosts of a local run: one address, consecutive ports, status ports 10000 above; with the star
  model each node has the address \<open>starIP\<close> of its namespace.\<close>

definition localHost :: "string \<Rightarrow> (nat \<Rightarrow> string) option \<Rightarrow> LocalConfig \<Rightarrow> nat \<Rightarrow> Host" where
  "localHost trDir starIP lc i =
     \<lparr>hIP = (case starIP of None \<Rightarrow> ''127.0.0.1'' | Some ip \<Rightarrow> ip i), hExtIP = [],
      hBasePort = lcBasePort lc + int i, hStatusOff = 10000,
      hTraceFile = trDir @ ''/node'' @ Itoa (int i) @ ''.json''\<rparr>"

section \<open>Keys\<close>

text \<open>
  Key derivation ends at the first counter whose hash is a valid key, and gives that key.
\<close>

theorem deriveKey_first:
  assumes "try (seedText @ Itoa (int m)) = Some k" "\<forall>c < m. try (seedText @ Itoa (int c)) = None" "ctr \<le> m"
  shows "deriveKey try seedText ctr = Some k"
  using assms(3)
proof (induction "m - ctr" arbitrary: ctr)
  case 0
  then have "ctr = m" by simp
  then show ?case using assms(1) by (subst deriveKey.simps) simp
next
  case (Suc d)
  then have "try (seedText @ Itoa (int ctr)) = None" using assms(2) by simp
  then show ?case using Suc by (subst deriveKey.simps) simp
qed

theorem deriveKey_first_witness:
  "deriveKey (\<lambda>s. if s = ''k1'' then Some True else None) ''k'' 0 = Some True"
proof (rule deriveKey_first [where m = 1])
  have "Itoa (int 1) = ''1''" "Itoa (int 0) = ''0''" by code_simp+
  then show "(if ''k'' @ Itoa (int 1) = ''k1'' then Some True else None) = Some True"
    "\<forall>c < (1 :: nat). (if ''k'' @ Itoa (int c) = ''k1'' then Some True else None) = None" by simp_all
qed simp

section \<open>The schedule of a run\<close>

lemma those_map: "those (map f xs) = Some ys \<Longrightarrow> length ys = length xs \<and> (\<forall>i < length xs. f (xs ! i) = Some (ys ! i))"
proof (induction xs arbitrary: ys)
  case (Cons x xs)
  then obtain y zs where "f x = Some y" "those (map f xs) = Some zs" "ys = y # zs"
    by (auto split: option.splits)
  then show ?case using Cons.IH by (auto simp: less_Suc_eq_0_disj)
qed simp

lemma length_drawTopicList [simp]: "length (fst (drawTopicList draw common n r)) = n"
  by (induction n arbitrary: r) (simp_all add: case_prod_beta Let_def)

lemma length_DrawTopics: "length (fst (DrawTopics pow r n numTopics zipfS mo common)) = n"
  unfolding DrawTopics_def by (simp add: Let_def)

lemma length_bootLists [simp]: "length (bootLists r startOff k url is) = length is"
  by (induction "is" arbitrary: r) (simp_all add: case_prod_beta Let_def)

lemma bootLists_hd:
  "i < length is \<Longrightarrow> is ! i \<noteq> 0 \<Longrightarrow> \<exists>bs. bootLists r startOff k url is ! i = url 0 # bs"
proof (induction "is" arbitrary: i r)
  case (Cons j js)
  then show ?case by (cases i) (auto simp: case_prod_beta Let_def)
qed simp

text \<open>What a successful generation went through.\<close>

lemma Generate_parts:
  assumes "Generate pow fuel src cl load doc cfg hosts t0 = Some (Inr as)"
  shows "\<exists>keys topicIdx legacy scheds. length keys = nat (pNodes (Population (scen cfg))) \<and> keys \<noteq> []
    \<and> deriveKey (tryKey cl) (nodeSeedText (pSeed (Population (scen cfg))) 0) 0 = Some (keys ! 0)
    \<and> length topicIdx = length keys \<and> length scheds = length keys \<and> scheds ! 0 = []
    \<and> (pLegacyBootnode (Population (scen cfg)) \<or> legacy ! 0 = False \<or> legacy = [])
    \<and> assignGhosts fuel src cl (\<lambda>i. keys ! i) cfg hosts doc (assignNodes src cl keys cfg hosts t0 topicIdx legacy scheds) = Inr as"
proof -
  let ?po = "Population (scen cfg)" let ?n = "nat (pNodes ?po)"
  from assms obtain keys topicIdx mm r mo legacy r' scheds where
      k: "those (map (\<lambda>i. deriveKey (tryKey cl) (nodeSeedText (pSeed ?po) i) 0) [0..<?n]) = Some keys"
      and t: "drawTopics pow load cfg (randNew src (pSeed ?po)) = Some (topicIdx, mm, r)"
      and n: "?n \<noteq> 0"
      and l: "legacySet r (map (map topicName) topicIdx) (pLegacyFrac ?po) = Some (legacy, r')"
      and s: "those (map (nodeChurn pow fuel src cfg mo topicIdx) [0..<?n]) = Some scheds"
      and g: "assignGhosts fuel src cl (\<lambda>i. keys ! i) cfg hosts doc (assignNodes src cl keys cfg hosts t0 topicIdx
               (if pLegacyBootnode ?po then legacy else legacy[0 := False]) scheds) = Inr as"
    unfolding Generate_def Let_def by (auto split: if_splits option.splits sum.splits prod.splits)
  have lk: "length keys = ?n" "deriveKey (tryKey cl) (nodeSeedText (pSeed ?po) 0) 0 = Some (keys ! 0)"
    using those_map [OF k] n by auto
  have lt: "length topicIdx = ?n"
    using t length_DrawTopics unfolding drawTopics_def Let_def
    by (auto split: if_splits option.splits prod.splits) (metis fst_conv length_DrawTopics)+
  have ls: "length scheds = ?n" "scheds ! 0 = []"
  proof -
    show "length scheds = ?n" using those_map [OF s] by simp
    have "nodeChurn pow fuel src cfg mo topicIdx 0 = Some (scheds ! 0)" using those_map [OF s] n by auto
    then show "scheds ! 0 = []" by (simp add: nodeChurn_def Let_def split: option.splits)
  qed
  have "pLegacyBootnode ?po \<or> (if pLegacyBootnode ?po then legacy else legacy[0 := False]) ! 0 = False
      \<or> (if pLegacyBootnode ?po then legacy else legacy[0 := False]) = []"
    by (cases legacy) auto
  then show ?thesis using lk lt ls n g by (intro exI conjI) auto
qed

lemma Milliseconds_nonneg: "0 \<le> d \<Longrightarrow> 0 \<le> Milliseconds d"
  by (auto simp: Milliseconds_def nsMilli_def)

text \<open>What the phase clock guarantees to the node at index \<open>i\<close>.\<close>

lemma phaseClock_ok:
  assumes pc: "phaseClock ph n so t0 = (ra, ro, sa, st)" and i: "i < n" and n: "length so = n"
    and so: "\<forall>x \<in> set so. 0 \<le> x \<and> x \<le> Milliseconds (phStartWindow ph)"
    and w: "0 \<le> phStartWindow ph" "0 \<le> phRegisterStagger ph"
  shows "ra = t0 + Milliseconds (phBootstrapWait ph) \<and> st = sa + Milliseconds (phSearchTimeout ph)
    \<and> so ! i \<le> ro ! i \<and> ra + ro ! i + Milliseconds (phRegisterWait ph) \<le> sa
    \<and> (0 < phStartWindow ph \<longrightarrow> ro ! i = so ! i)"
proof (cases "0 < phStartWindow ph")
  case True
  moreover have "so ! i \<le> Milliseconds (phStartWindow ph)" using so i n nth_mem by blast
  ultimately show ?thesis using pc by (auto simp: phaseClock_def Let_def)
next
  case False
  have nn: "0 \<le> Milliseconds (phRegisterStagger ph)" using w by (simp add: Milliseconds_nonneg)
  have "0 \<le> so ! i" "so ! i \<le> Milliseconds (phStartWindow ph)" using so i n nth_mem by blast+
  with False w have "so ! i = 0" by (simp add: Milliseconds_def)
  moreover have "int i * Milliseconds (phRegisterStagger ph) \<le> int n * Milliseconds (phRegisterStagger ph)"
    using i nn by (intro mult_right_mono) auto
  ultimately show ?thesis using False pc i nn by (auto simp: phaseClock_def Let_def)
qed

text \<open>What a node is assigned, before and after the ghosts are handed out.\<close>

lemma assigned_node:
  fixes cfg keys src
  defines "po \<equiv> Population (scen cfg)" and "ph \<equiv> PhasesC (scen cfg)" and "n \<equiv> length keys"
  defines "so \<equiv> StartOffsets src (pSeed po) n (phStartWindow ph)"
  assumes g: "assignGhosts fuel src cl ks cfg hosts doc (assignNodes src cl keys cfg hosts t0 topicIdx legacy scheds) = Inr as"
    and pc: "phaseClock ph n so t0 = (ra, ro, sa, st)" and lt: "length topicIdx = n" and i: "i < n"
  shows "aIdx (as ! i) = i
    \<and> aPhases (as ! i) = \<lparr>StartAt = t0 + so ! i, RegisterBase = ra, RegisterAt = ra + ro ! i,
          SearchAt = sa + int i * Milliseconds (phSearchStagger ph), StopAt = st\<rparr>
    \<and> (if i = 0 then aBootnodes (as ! i) = [] \<and> aChurn (as ! i) = []
       else \<exists>bs. aBootnodes (as ! i) = nodeURL cl keys hosts 0 # bs)"
proof -
  let ?as = "assignNodes src cl keys cfg hosts t0 topicIdx legacy scheds"
  define B where "B = bootLists (randNew src (pSeed po + 104729)) so (pBootstrapSample po) (nodeURL cl keys hosts) [0..<n]"
  have len: "length ?as = n" by (simp add: assignNodes_def Let_def n_def)
  obtain gs u where gh: "as ! i = (?as ! i)\<lparr>aGhosts := gs, aGhostsUnplaced := u\<rparr>"
    using assignGhosts_other [OF g] len i by blast
  have b: "i \<noteq> 0 \<Longrightarrow> \<exists>bs. B ! i = nodeURL cl keys hosts 0 # bs"
    using bootLists_hd [of i "[0..<n]"] i by (simp add: B_def)
  have "aIdx (?as ! i) = i \<and> aPhases (?as ! i) = \<lparr>StartAt = t0 + so ! i, RegisterBase = ra, RegisterAt = ra + ro ! i,
            SearchAt = sa + int i * Milliseconds (phSearchStagger ph), StopAt = st\<rparr>
      \<and> aBootnodes (?as ! i) = (if i \<noteq> 0 then B ! i else []) \<and> aChurn (?as ! i) = (if i \<noteq> 0 then scheds ! i else [])"
    using i pc lt by (simp add: assignNodes_def assignNode_def Let_def flip: po_def ph_def n_def so_def B_def)
  with gh b show ?thesis by (cases "i = 0") auto
qed

text \<open>
  C7: The generated schedule is consistent for every node: a node starts within the start window and
  registers no sooner than the bootstrap wait after its own start (exactly that with a start window),
  searches start after the last registration and the register wait, all stop together; everyone but the
  bootnode contacts the bootnode first, and the bootnode has no bootnodes and no absences.
\<close>

theorem Generate_schedule:
  assumes "Generate pow fuel src cl load doc cfg hosts t0 = Some (Inr as)"
  defines "ph \<equiv> PhasesC (scen cfg)" and "n \<equiv> nat (pNodes (Population (scen cfg)))"
  assumes "0 \<le> phStartWindow ph" "0 \<le> phRegisterStagger ph" "0 \<le> phSearchStagger ph" "0 \<le> phSearchTimeout ph"
  shows "length as = n \<and> 0 < n
    \<and> (\<forall>i < n. let a = as ! i; p = aPhases a in aIdx a = i
          \<and> t0 \<le> StartAt p \<and> StartAt p \<le> t0 + Milliseconds (phStartWindow ph)
          \<and> StartAt p + Milliseconds (phBootstrapWait ph) \<le> RegisterAt p
          \<and> (0 < phStartWindow ph \<longrightarrow> RegisterAt p = StartAt p + Milliseconds (phBootstrapWait ph))
          \<and> RegisterAt p + Milliseconds (phRegisterWait ph) \<le> SearchAt p
          \<and> StopAt p = StopAt (aPhases (as ! 0))
          \<and> StopAt p = SearchAt (aPhases (as ! 0)) + Milliseconds (phSearchTimeout ph)
          \<and> (if i = 0 then aBootnodes a = [] \<and> aChurn a = []
             else \<exists>bs keys. deriveKey (tryKey cl) (nodeSeedText (pSeed (Population (scen cfg))) 0) 0 = Some (keys ! 0)
                     \<and> aBootnodes a = nodeURL cl keys hosts 0 # bs))"
proof -
  let ?po = "Population (scen cfg)"
  obtain keys topicIdx legacy scheds where
      lk: "length keys = n" "keys \<noteq> []" and lt: "length topicIdx = n"
      and k0: "deriveKey (tryKey cl) (nodeSeedText (pSeed ?po) 0) 0 = Some (keys ! 0)"
      and g: "assignGhosts fuel src cl (\<lambda>i. keys ! i) cfg hosts doc (assignNodes src cl keys cfg hosts t0 topicIdx legacy scheds) = Inr as"
    using Generate_parts [OF assms(1)] unfolding n_def by auto
  have n: "0 < n" using lk by auto
  define so where "so = StartOffsets src (pSeed ?po) n (phStartWindow ph)"
  have so: "length so = n" "\<forall>x \<in> set so. 0 \<le> x \<and> x \<le> Milliseconds (phStartWindow ph)"
    using StartOffsets_spec [OF assms(4) n, of src "pSeed ?po"] by (simp_all add: so_def)
  obtain ra ro sa st where pc: "phaseClock ph n so t0 = (ra, ro, sa, st)" by (metis prod_cases4)
  note clock = phaseClock_ok [OF pc _ so assms(4,5)]
  note node = assigned_node [OF g, folded ph_def, unfolded lk(1), folded so_def, OF pc lt]
  show ?thesis
  proof (intro conjI allI impI)
    show "length as = n" "0 < n" using assignGhosts_other [OF g] lk n by (simp_all add: assignNodes_def Let_def)
    fix i assume i: "i < n"
    have si: "0 \<le> so ! i" "so ! i \<le> Milliseconds (phStartWindow ph)" using i so nth_mem by blast+
    have stag: "0 \<le> int i * Milliseconds (phSearchStagger ph)" using assms(6) by (simp add: Milliseconds_nonneg)
    have "if i = 0 then aBootnodes (as ! i) = [] \<and> aChurn (as ! i) = []
        else \<exists>bs keys. deriveKey (tryKey cl) (nodeSeedText (pSeed ?po) 0) 0 = Some (keys ! 0)
               \<and> aBootnodes (as ! i) = nodeURL cl keys hosts 0 # bs"
      using node [OF i] k0 by (auto split: if_splits)
    then show "let a = as ! i; p = aPhases a in aIdx a = i
          \<and> t0 \<le> StartAt p \<and> StartAt p \<le> t0 + Milliseconds (phStartWindow ph)
          \<and> StartAt p + Milliseconds (phBootstrapWait ph) \<le> RegisterAt p
          \<and> (0 < phStartWindow ph \<longrightarrow> RegisterAt p = StartAt p + Milliseconds (phBootstrapWait ph))
          \<and> RegisterAt p + Milliseconds (phRegisterWait ph) \<le> SearchAt p
          \<and> StopAt p = StopAt (aPhases (as ! 0))
          \<and> StopAt p = SearchAt (aPhases (as ! 0)) + Milliseconds (phSearchTimeout ph)
          \<and> (if i = 0 then aBootnodes a = [] \<and> aChurn a = []
             else \<exists>bs keys. deriveKey (tryKey cl) (nodeSeedText (pSeed ?po) 0) 0 = Some (keys ! 0)
                     \<and> aBootnodes a = nodeURL cl keys hosts 0 # bs)"
      using clock [OF i] node [OF i] node [OF n] si stag by (simp add: Let_def)
  qed
qed

lemma demo_generate:
  "\<exists>as. Generate (\<lambda>_ _. 1) 0 (\<lambda>_. cycleSource) demoLib (\<lambda>_. None) [] Default (\<lambda>_. demoHost) 1000 = Some (Inr as)"
proof -
  have those_Some: "those (map (\<lambda>x. Some (f x)) xs) = Some (map f xs)" for f :: "nat \<Rightarrow> 'b" and xs
    by (induction xs) simp_all
  have keys: "deriveKey (tryKey demoLib) t 0 = Some (t @ Itoa (int 0))" for t
    by (rule deriveKey_Some) (simp add: demoLib_def)
  have ghosts: "assignGhosts 0 src cl ks Default hosts doc as = Inr as" for src cl ks hosts doc and as
    by (simp add: assignGhosts_def Let_def Default_def DefaultScenario_def ghostsOn_def)
  have churn: "nodeChurn pow fuel src Default None ti = (\<lambda>i. Some [])" for pow fuel src ti
    by (simp add: nodeChurn_def Let_def fun_eq_iff)
  have po: "Population (scen Default) = Population DefaultScenario" by (simp add: Default_def)
  have topics: "drawTopics pow load Default r = Some (replicate 5 [0], None, r)" for pow load r
    by (simp add: drawTopics_def Let_def po DrawTopics_def DefaultScenario_def)
  have cm: "churnModelFor load (scen Default) = Some None" for load
    by (simp add: churnModelFor_def Default_def DefaultScenario_def)
  have leg: "legacySet r ts (pLegacyFrac (Population (scen Default))) = Some (replicate (length ts) False, r)" for r ts
    by (simp add: legacySet_def Default_def DefaultScenario_def)
  have n: "nat (pNodes (Population (scen Default))) = 5" "\<not> pNodes (Population (scen Default)) < 0"
    by (simp_all add: Default_def DefaultScenario_def)
  show ?thesis
    unfolding Generate_def Let_def keys those_Some topics cm leg churn ghosts
    using n by (simp add: leg ghosts churn those_Some del: upt_Suc upt_rec_numeral)
qed

theorem Generate_schedule_witness:
  "\<exists>as. Generate (\<lambda>_ _. 1) 0 (\<lambda>_. cycleSource) demoLib (\<lambda>_. None) [] Default (\<lambda>_. demoHost) 1000 = Some (Inr as)
     \<and> length as = 5 \<and> aBootnodes (as ! 0) = []"
proof -
  obtain as where g: "Generate (\<lambda>_ _. 1) 0 (\<lambda>_. cycleSource) demoLib (\<lambda>_. None) [] Default (\<lambda>_. demoHost) 1000 = Some (Inr as)"
    using demo_generate by blast
  have "0 \<le> phStartWindow (PhasesC (scen Default))" "0 \<le> phRegisterStagger (PhasesC (scen Default))"
    "0 \<le> phSearchStagger (PhasesC (scen Default))" "0 \<le> phSearchTimeout (PhasesC (scen Default))"
    "nat (pNodes (Population (scen Default))) = 5"
    by (simp_all add: Default_def DefaultScenario_def nsSecond_def)
  then show ?thesis using Generate_schedule [OF g] g by (auto simp: Let_def)
qed

section \<open>Ghost ports\<close>

text \<open>
  In a configuration that was accepted for the local backend, no node listens, for discovery or for
  status, on a port a ghost record advertises.
\<close>

theorem ghost_ports_free:
  assumes "validate statOk name cfg = Inr cfg'" "ghostsOn (Ghosts (scen cfg))" "Backend (testbed cfg) = ''local''"
    and "int i < pNodes (Population (scen cfg))"
  shows "hBasePort (localHost d star (Local (testbed cfg)) i) \<noteq> ghostPort j
    \<and> hBasePort (localHost d star (Local (testbed cfg)) i) + hStatusOff (localHost d star (Local (testbed cfg)) i) \<noteq> ghostPort j"
proof -
  have "checkGhosts statOk cfg = None"
    using assms(1) by (auto simp: validate_def Let_def split: if_splits option.splits)
  then have c: "\<not> (lcBasePort (Local (testbed cfg)) < 30000 \<and> lcBasePort (Local (testbed cfg)) + pNodes (Population (scen cfg)) + 10000 > 20000)"
    using assms(2,3) by (auto simp: checkGhosts_def Let_def GhostPortBase_def GhostPortSpan_def split: if_splits)
  have "20000 \<le> ghostPort j" "ghostPort j < 30000"
    using pos_mod_sign [of 10000 "int j"] pos_mod_bound [of 10000 "int j"]
    by (simp_all add: ghostPort_def GhostPortBase_def GhostPortSpan_def)
  then show ?thesis using c assms(4) by (auto simp: localHost_def)
qed

definition ghostLocalConfig :: Config where
  "ghostLocalConfig = demoConfig\<lparr>testbed := DefaultTestbed\<lparr>Backend := ''local''\<rparr>\<rparr>"

theorem ghost_ports_free_witness:
  "hBasePort (localHost ''traces'' None (Local (testbed ghostLocalConfig)) 4) \<noteq> ghostPort 7"
proof -
  have "\<exists>c. validate True ''run'' ghostLocalConfig = Inr c" "Backend (testbed ghostLocalConfig) = ''local''"
    "ghostsOn (Ghosts (scen ghostLocalConfig))" "int 4 < pNodes (Population (scen ghostLocalConfig))"
    by (simp_all add: ghostLocalConfig_def demoConfig_def Default_def DefaultScenario_def DefaultTestbed_def validate_def
        checkGhosts_def ghostsOn_def Let_def GhostPortBase_def GhostPortSpan_def)
  then show ?thesis using ghost_ports_free by blast
qed

end
