(* ===== verification/Placement.thy ===== *)
theory Placement
  imports AddrPool Scenario
begin

text \<open>
  The cloud backend's placement of nodes on machines (\<open>src/pkg/coordinator/cloud.go\<close>): by region with
  pinned nodes (\<open>place\<close>), by /24 for runs on crawl addresses (\<open>placeByPrefix\<close>), and the routes that make
  every /24 reachable (\<open>prefixRoutes\<close>). The iteration order of a Go map is the parameter \<open>iter\<close>, any
  function that returns a permutation of the entries.
\<close>

section \<open>Inventories\<close>

record invHost =
  ihIndex :: int
  ihIP :: string
  ihPublic :: string
  ihNodes :: int
  ihRegion :: string
  ihPort :: int

record Inventory =
  Coordinator :: string
  Routes :: string
  Hosts :: "invHost list"

type_synonym slot = "nat \<times> nat"

definition capacity :: "Inventory \<Rightarrow> int" where
  "capacity iv = sum_list (map ihNodes (Hosts iv))"

datatype placeError = NoFreeIn nat string | FewerInstances | PrefixTooBig "32 word" nat | NoHosts

section \<open>Placement by region\<close>

text \<open>The free slots of every region, and the regions in the order they first appear.\<close>

fun addHost :: "nat \<times> invHost \<Rightarrow> string list \<times> (string, slot list) gomap \<Rightarrow> string list \<times> (string, slot list) gomap" where
  "addHost (h, host) (order, free) =
     (if mhas free (ihRegion host) then order else order @ [ihRegion host],
      fold (\<lambda>k free. mput (ihRegion host) (mget [] free (ihRegion host) @ [(h, k)]) free) [0..<nat (ihNodes host)] free)"

definition freeSlots :: "invHost list \<Rightarrow> string list \<times> (string, slot list) gomap" where
  "freeSlots hosts = fold addHost (enumerate 0 hosts) ([], [])"

definition take_slot :: "string \<Rightarrow> (string, slot list) gomap \<Rightarrow> (slot \<times> (string, slot list) gomap) option" where
  "take_slot region free =
     (case mget [] free region of [] \<Rightarrow> None | s # ss \<Rightarrow> Some (s, mput region ss free))"

text \<open>Nodes pinned in range, and node 0 to the home region when the inventory has regions.\<close>

fun pin :: "nat \<Rightarrow> int \<times> string \<Rightarrow> (nat, string) gomap \<Rightarrow> (nat, string) gomap" where
  "pin n (idx, r) p = (if 0 \<le> idx \<and> idx < int n then mput (nat idx) r p else p)"

definition pinnedNodes :: "nat \<Rightarrow> (int, string) gomap \<Rightarrow> string \<Rightarrow> string \<Rightarrow> (nat, string) gomap" where
  "pinnedNodes n nodeRegions firstRegion home =
     (let p = fold (pin n) nodeRegions []
      in if \<not> mhas p 0 \<and> firstRegion \<noteq> [] then mput 0 home p else p)"

fun placePinned :: "(nat \<times> string) list \<Rightarrow> nat list \<times> nat list \<times> (string, slot list) gomap
    \<Rightarrow> placeError + nat list \<times> nat list \<times> (string, slot list) gomap" where
  "placePinned [] st = Inr st"
| "placePinned ((idx, r) # ps) (hostOf, local, free) =
     (case take_slot r free of
        None \<Rightarrow> Inl (NoFreeIn idx r)
      | Some ((h, k), free) \<Rightarrow> placePinned ps (hostOf[idx := h], local[idx := k], free))"

text \<open>A stable sort by "is the home region".\<close>

definition homeFirst :: "string \<Rightarrow> string list \<Rightarrow> string list" where
  "homeFirst home order = filter (\<lambda>r. r = home) order @ filter (\<lambda>r. r \<noteq> home) order"

fun skipEmpty :: "(string, slot list) gomap \<Rightarrow> string list \<Rightarrow> string list" where
  "skipEmpty free [] = []"
| "skipEmpty free (r # rs) = (if mget [] free r = [] then skipEmpty free rs else r # rs)"

text \<open>The rest in index order; \<open>rs\<close> is \<open>order[ri:]\<close>.\<close>

fun placeRest :: "nat list \<Rightarrow> string list \<Rightarrow> nat list \<times> nat list \<times> (string, slot list) gomap
    \<Rightarrow> placeError + nat list \<times> nat list \<times> (string, slot list) gomap" where
  "placeRest [] rs st = Inr st"
| "placeRest (idx # idxs) rs (hostOf, local, free) =
     (case skipEmpty free rs of
        [] \<Rightarrow> Inl FewerInstances
      | r # rs \<Rightarrow>
          (case take_slot r free of
             None \<Rightarrow> Inl FewerInstances
           | Some ((h, k), free) \<Rightarrow> placeRest idxs (r # rs) (hostOf[idx := h], local[idx := k], free)))"

definition placeRegions :: "((nat, string) gomap \<Rightarrow> (nat \<times> string) list) \<Rightarrow> Config \<Rightarrow> Inventory
    \<Rightarrow> placeError + nat list \<times> nat list" where
  "placeRegions iter cfg iv =
     (let n = nat (pNodes (Population (scen cfg))); home = clHomeRegion (Cloud (testbed cfg));
          (order, free) = freeSlots (Hosts iv)
      in if Hosts iv = [] then Inl NoHosts
         else let pinned = pinnedNodes n (nNodeRegions (Network (scen cfg))) (ihRegion (Hosts iv ! 0)) home
              in case placePinned (iter pinned) (replicate n 0, replicate n 0, free) of
                   Inl e \<Rightarrow> Inl e
                 | Inr st \<Rightarrow>
                     (case placeRest (filter (\<lambda>i. \<not> mhas pinned i) [0..<n]) (homeFirst home order) st of
                        Inl e \<Rightarrow> Inl e
                      | Inr (hostOf, local, _) \<Rightarrow> Inr (hostOf, local)))"

section \<open>Placement by /24\<close>

text \<open>The machine with the most room among those the group fits on, the first of equals.\<close>

fun bestHost :: "nat list \<Rightarrow> nat \<Rightarrow> nat option \<Rightarrow> nat list \<Rightarrow> nat option" where
  "bestHost room need h [] = h"
| "bestHost room need h (c # cs) =
     bestHost room need
       (if room ! c \<ge> need \<and> (case h of None \<Rightarrow> True | Some b \<Rightarrow> room ! c > room ! b) then Some c else h) cs"

text \<open>Room left on a machine: \<open>cap_[c]-occ[c]\<close>, which never gets negative.\<close>

definition roomOf :: "nat list \<Rightarrow> nat list \<Rightarrow> nat list" where
  "roomOf caps occ = map (\<lambda>c. caps ! c - occ ! c) [0..<length caps]"

fun placeGroup :: "nat \<Rightarrow> nat list \<Rightarrow> nat list \<times> nat list \<times> nat list \<Rightarrow> nat list \<times> nat list \<times> nat list" where
  "placeGroup h [] st = st"
| "placeGroup h (i # is) (hostOf, local, occ) =
     placeGroup h is (hostOf[i := h], local[i := occ ! h], occ[h := occ ! h + 1])"

fun placeGroups :: "nat list \<Rightarrow> (32 word \<times> nat list) list \<Rightarrow> nat list \<times> nat list \<times> nat list
    \<Rightarrow> placeError + nat list \<times> nat list \<times> nat list" where
  "placeGroups caps [] st = Inr st"
| "placeGroups caps ((pre, g) # gs) (hostOf, local, occ) =
     (case bestHost (roomOf caps occ) (length g) None [0..<length caps] of
        None \<Rightarrow> Inl (PrefixTooBig pre (length g))
      | Some h \<Rightarrow> placeGroups caps gs (placeGroup h g (hostOf, local, occ)))"

text \<open>Largest groups first, equal ones by prefix.\<close>

definition groupOrder :: "(32 word, nat list) gomap \<Rightarrow> (32 word \<times> nat list) list" where
  "groupOrder gs = sort_key (\<lambda>(pre, g). - int (length g)) (sort_key (\<lambda>(pre, g). uint pre) gs)"

definition placeByPrefix :: "Config \<Rightarrow> Inventory \<Rightarrow> addressPool \<Rightarrow> placeError + nat list \<times> nat list" where
  "placeByPrefix cfg iv pool =
     (let n = nat (pNodes (Population (scen cfg)));
          caps = map (nat \<circ> ihNodes) (Hosts iv)
      in case placeGroups caps (groupOrder (Groups pool)) (replicate n 0, replicate n 0, replicate (length caps) 0) of
           Inl e \<Rightarrow> Inl e
         | Inr (hostOf, local, _) \<Rightarrow> Inr (hostOf, local))"

definition place_nodes :: "((nat, string) gomap \<Rightarrow> (nat \<times> string) list) \<Rightarrow> Config \<Rightarrow> Inventory \<Rightarrow> addressPool option
    \<Rightarrow> placeError + nat list \<times> nat list" where
  "place_nodes iter cfg iv pool =
     (case pool of Some p \<Rightarrow> placeByPrefix cfg iv p | None \<Rightarrow> placeRegions iter cfg iv)"

section \<open>Routes\<close>

record Route =
  rtPrefix :: string
  rtVia :: string

definition ownerOf :: "addressPool \<Rightarrow> nat list \<Rightarrow> (32 word, nat) gomap" where
  "ownerOf pool hostOf = map (\<lambda>(pre, idxs). (pre, hostOf ! (idxs ! 0))) (Groups pool)"

definition prefixRoutes :: "addressPool option \<Rightarrow> nat list \<Rightarrow> Inventory \<Rightarrow> Route list list" where
  "prefixRoutes pool hostOf iv =
     (case pool of
        None \<Rightarrow> replicate (length (Hosts iv)) []
      | Some p \<Rightarrow>
          map (\<lambda>h. map (\<lambda>(pre, o'). \<lparr>rtPrefix = CIDR pre, rtVia = ihIP (Hosts iv ! o')\<rparr>)
                     (filter (\<lambda>(pre, o'). o' \<noteq> h) (ownerOf p hostOf)))
              [0..<length (Hosts iv)])"

text \<open>The fetch queues of \<open>eachByHost\<close>: the nodes of every host in index order.\<close>

definition hostQueues :: "nat \<Rightarrow> (nat \<Rightarrow> nat) \<Rightarrow> (nat, nat list) gomap" where
  "hostQueues n hostOf = fold (\<lambda>i q. mput (hostOf i) (mget [] q (hostOf i) @ [i]) q) [0..<n] []"

lemma hostQueues_get: "mget [] (hostQueues n f) h = filter (\<lambda>i. f i = h) [0..<n]"
  by (induction n) (auto simp: hostQueues_def)

section \<open>Slots\<close>

definition validSlot :: "invHost list \<Rightarrow> slot \<Rightarrow> bool" where
  "validSlot hosts s \<longleftrightarrow> fst s < length hosts \<and> snd s < nat (ihNodes (hosts ! fst s))"

definition slotRegion :: "invHost list \<Rightarrow> slot \<Rightarrow> string" where
  "slotRegion hosts s = ihRegion (hosts ! fst s)"

definition slotOf :: "nat list \<Rightarrow> nat list \<Rightarrow> nat \<Rightarrow> slot" where
  "slotOf hostOf local i = (hostOf ! i, local ! i)"

text \<open>
  The invariant of both loops: the nodes placed so far (\<open>D\<close>) have different valid slots, the free lists
  hold each remaining slot once, under its region, and no slot is lost.
\<close>

definition placing :: "invHost list \<Rightarrow> nat \<Rightarrow> nat set \<Rightarrow> nat list \<times> nat list \<times> (string, slot list) gomap \<Rightarrow> bool" where
  "placing hosts n D st = (case st of (hostOf, local, free) \<Rightarrow>
     length hostOf = n \<and> length local = n \<and> D \<subseteq> {..<n} \<and> inj_on (slotOf hostOf local) D
     \<and> (\<forall>r. distinct (mget [] free r))
     \<and> (\<forall>r. \<forall>s \<in> set (mget [] free r). validSlot hosts s \<and> slotRegion hosts s = r \<and> s \<notin> slotOf hostOf local ` D)
     \<and> (\<forall>i \<in> D. validSlot hosts (slotOf hostOf local i))
     \<and> (\<forall>s. validSlot hosts s \<longrightarrow> s \<in> slotOf hostOf local ` D \<or> s \<in> set (mget [] free (slotRegion hosts s))))"

lemma slotOf_update:
  "i < length hostOf \<Longrightarrow> i < length local \<Longrightarrow> slotOf (hostOf[i := h]) (local[i := k]) j = (if j = i then (h, k) else slotOf hostOf local j)"
  by (simp add: slotOf_def)

lemma take_slot_placing:
  assumes "placing hosts n D (hostOf, local, free)" "take_slot r free = Some ((h, k), free')" "i < n" "i \<notin> D"
  shows "placing hosts n (insert i D) (hostOf[i := h], local[i := k], free') \<and> validSlot hosts (h, k) \<and> slotRegion hosts (h, k) = r"
proof -
  from assms(2) obtain ss where f: "mget [] free r = (h, k) # ss" "free' = mput r ss free"
    by (auto simp: take_slot_def split: list.splits)
  note P = assms(1) [unfolded placing_def prod.case]
  have s: "validSlot hosts (h, k)" "slotRegion hosts (h, k) = r" "(h, k) \<notin> slotOf hostOf local ` D" "(h, k) \<notin> set ss"
    using P f(1) by (metis list.set_intros(1), metis list.set_intros(1), metis list.set_intros(1), metis distinct.simps(2))
  define sl where "sl = slotOf (hostOf[i := h]) (local[i := k])"
  have sl: "sl i = (h, k)" "j \<noteq> i \<Longrightarrow> sl j = slotOf hostOf local j" for j
    using P assms(3) by (simp_all add: sl_def slotOf_update)
  have img: "sl ` insert i D = insert (h, k) (slotOf hostOf local ` D)"
  proof -
    have "sl ` D = slotOf hostOf local ` D" using assms(4) by (intro image_cong refl) (metis sl(2))
    then show ?thesis using sl(1) by simp
  qed
  have "inj_on sl D" using P sl(2) assms(4) by (metis (no_types, lifting) inj_on_cong)
  then have 1: "inj_on sl (insert i D)"
    using s(3) sl assms(4) by (auto simp: inj_on_insert image_iff) (metis sl(2))+
  have get: "mget [] free' q = (if q = r then ss else mget [] free q)" for q by (simp add: f(2))
  have 2: "\<forall>q. distinct (mget [] free' q)" using P f(1) unfolding get by (metis distinct.simps(2))
  have 3: "\<forall>q. \<forall>t \<in> set (mget [] free' q). validSlot hosts t \<and> slotRegion hosts t = q \<and> t \<notin> sl ` insert i D"
  proof (intro allI ballI)
    fix q t assume t: "t \<in> set (mget [] free' q)"
    then have tf: "t \<in> set (mget [] free q)" using f(1) by (auto simp: get split: if_splits)
    have "t \<noteq> (h, k)"
    proof (cases "q = r")
      case True
      then show ?thesis using t s(4) by (auto simp: get)
    next
      case False
      then show ?thesis using tf P s(2) by metis
    qed
    then show "validSlot hosts t \<and> slotRegion hosts t = q \<and> t \<notin> sl ` insert i D"
      unfolding img using P tf by auto
  qed
  have 4: "\<forall>j \<in> insert i D. validSlot hosts (sl j)" using P sl s(1) by (metis insertE)
  have 5: "\<forall>t. validSlot hosts t \<longrightarrow> t \<in> sl ` insert i D \<or> t \<in> set (mget [] free' (slotRegion hosts t))"
    unfolding img get using P f(1) s(2) by (metis insertE insertI1 insertI2 list.set(2))
  show ?thesis using 1 2 3 4 5 s(1,2) P assms(3) unfolding placing_def prod.case sl_def by simp
qed

lemma placePinned_placing:
  assumes "placing hosts n D st" "placePinned ps st = Inr st'" "distinct (map fst ps)"
    and "\<forall>(i, r) \<in> set ps. i < n \<and> i \<notin> D"
  shows "placing hosts n (D \<union> fst ` set ps) st'
    \<and> (\<forall>(i, r) \<in> set ps. fst st' ! i < length hosts \<and> ihRegion (hosts ! (fst st' ! i)) = r)
    \<and> (\<forall>j. j \<notin> fst ` set ps \<longrightarrow> fst st' ! j = fst st ! j)"
  using assms
proof (induction ps arbitrary: D st)
  case (Cons p ps)
  obtain i r where p: "p = (i, r)" by force
  obtain hostOf local free where st: "st = (hostOf, local, free)" by (metis prod_cases3)
  from Cons.prems(2) obtain h k free' where t: "take_slot r free = Some ((h, k), free')"
      "placePinned ps (hostOf[i := h], local[i := k], free') = Inr st'"
    by (auto simp: p st split: option.splits)
  have i: "i < n" "i \<notin> D" using Cons.prems(4) p by auto
  have T: "placing hosts n (insert i D) (hostOf[i := h], local[i := k], free')" "validSlot hosts (h, k)" "slotRegion hosts (h, k) = r"
    using take_slot_placing [OF Cons.prems(1) [unfolded st] t(1) i] by auto
  have "\<forall>(j, q) \<in> set ps. j < n \<and> j \<notin> insert i D" using Cons.prems(3,4) p by force
  then have IH: "placing hosts n (insert i D \<union> fst ` set ps) st'"
      "\<forall>(j, q) \<in> set ps. fst st' ! j < length hosts \<and> ihRegion (hosts ! (fst st' ! j)) = q"
      "\<forall>j. j \<notin> fst ` set ps \<longrightarrow> fst st' ! j = hostOf[i := h] ! j"
    using Cons.IH [OF T(1) t(2)] Cons.prems(3) by auto
  have len: "length hostOf = n" using Cons.prems(1) by (simp add: placing_def st)
  have "i \<notin> fst ` set ps" using Cons.prems(3) p by simp
  then have "fst st' ! i = h" using IH(3) i len by simp
  then have "fst st' ! i < length hosts \<and> ihRegion (hosts ! (fst st' ! i)) = r"
    using T by (simp add: validSlot_def slotRegion_def)
  then show ?case using IH p st by (auto simp: insert_commute)
qed simp

lemma skipEmpty_head: "skipEmpty free rs = r # rs' \<Longrightarrow> mget [] free r \<noteq> [] \<and> set (r # rs') \<subseteq> set rs"
  by (induction rs) (auto split: if_splits)

lemma placeRest_placing:
  assumes "placing hosts n D st" "placeRest idxs rs st = Inr st'" "distinct idxs" "\<forall>i \<in> set idxs. i < n \<and> i \<notin> D"
  shows "placing hosts n (D \<union> set idxs) st' \<and> (\<forall>j. j \<notin> set idxs \<longrightarrow> fst st' ! j = fst st ! j)"
  using assms
proof (induction idxs arbitrary: D st rs)
  case (Cons i idxs)
  obtain hostOf local free where st: "st = (hostOf, local, free)" by (metis prod_cases3)
  from Cons.prems(2) obtain r rs' h k free' where t: "take_slot r free = Some ((h, k), free')"
      "placeRest idxs (r # rs') (hostOf[i := h], local[i := k], free') = Inr st'"
    by (auto simp: st split: option.splits list.splits)
  have i: "i < n" "i \<notin> D" using Cons.prems(4) by auto
  have T: "placing hosts n (insert i D) (hostOf[i := h], local[i := k], free')"
    using take_slot_placing [OF Cons.prems(1) [unfolded st] t(1) i] by auto
  have "\<forall>j \<in> set idxs. j < n \<and> j \<notin> insert i D" using Cons.prems(3,4) by auto
  then have "placing hosts n (insert i D \<union> set idxs) st'" "\<forall>j. j \<notin> set idxs \<longrightarrow> fst st' ! j = hostOf[i := h] ! j"
    using Cons.IH [OF T t(2)] Cons.prems(3) by auto
  then show ?case using st by auto
qed simp

section \<open>All slots are free at the start\<close>

lemma fold_append_key:
  "mget [] (fold (\<lambda>k m. mput key (mget [] m key @ [f k]) m) ks m) q = mget [] m q @ (if q = key then map f ks else [])"
  by (induction ks arbitrary: m) auto

lemma fold_append_has:
  "mhas (fold (\<lambda>k m. mput key (mget [] m key @ [f k]) m) ks m) q \<longleftrightarrow> mhas m q \<or> (q = key \<and> ks \<noteq> [])"
  by (induction ks arbitrary: m) auto

definition slotsBelow :: "invHost list \<Rightarrow> nat \<Rightarrow> string \<Rightarrow> slot set" where
  "slotsBelow hosts m r = {s. validSlot hosts s \<and> slotRegion hosts s = r \<and> fst s < m}"

lemma freeSlots_inv:
  assumes "m \<le> length hosts"
  defines "st \<equiv> fold addHost (take m (enumerate 0 hosts)) ([], [])"
  shows "(\<forall>r. distinct (mget [] (snd st) r) \<and> set (mget [] (snd st) r) = slotsBelow hosts m r)
    \<and> (\<forall>r. mhas (snd st) r \<longrightarrow> r \<in> set (fst st)) \<and> (\<forall>h < m. ihRegion (hosts ! h) \<in> set (fst st))"
  using assms(1) unfolding st_def
proof (induction m)
  case 0
  then show ?case by (simp add: slotsBelow_def)
next
  case (Suc m)
  define en where "en = enumerate 0 hosts"
  have m: "m < length hosts" using Suc.prems by simp
  have tk: "take (Suc m) en = take m en @ [(m, hosts ! m)]"
    using m by (simp add: en_def take_Suc_conv_app_nth nth_enumerate_eq)
  obtain order free where of: "fold addHost (take m en) ([], []) = (order, free)" by force
  have IH: "\<forall>r. distinct (mget [] free r) \<and> set (mget [] free r) = slotsBelow hosts m r"
      "\<forall>r. mhas free r \<longrightarrow> r \<in> set order" "\<forall>h < m. ihRegion (hosts ! h) \<in> set order"
    using Suc.IH Suc.prems of unfolding en_def by auto
  let ?reg = "ihRegion (hosts ! m)" and ?ks = "[0..<nat (ihNodes (hosts ! m))]"
  define order' where "order' = (if mhas free ?reg then order else order @ [?reg])"
  define free' where "free' = fold (\<lambda>k free. mput ?reg (mget [] free ?reg @ [(m, k)]) free) ?ks free"
  have st: "fold addHost (take (Suc m) en) ([], []) = (order', free')"
    unfolding tk using of by (simp add: order'_def free'_def)
  have get: "mget [] free' r = mget [] free r @ (if r = ?reg then map (\<lambda>k. (m, k)) ?ks else [])" for r
    unfolding free'_def by (rule fold_append_key)
  have below: "slotsBelow hosts (Suc m) r = slotsBelow hosts m r \<union> (if r = ?reg then Pair m ` {0..<nat (ihNodes (hosts ! m))} else {})" for r
    using m by (auto simp: slotsBelow_def validSlot_def slotRegion_def less_Suc_eq)
  have "distinct (mget [] free' r) \<and> set (mget [] free' r) = slotsBelow hosts (Suc m) r" for r
    unfolding get below using IH(1) by (auto simp: distinct_map inj_on_def slotsBelow_def)
  moreover have "mhas free' r \<longrightarrow> r \<in> set order'" for r
    unfolding free'_def fold_append_has order'_def using IH(2) by auto
  moreover have "\<forall>h < Suc m. ihRegion (hosts ! h) \<in> set order'"
    using IH(2,3) by (auto simp: order'_def less_Suc_eq)
  ultimately show ?case using st unfolding en_def by simp
qed

lemma freeSlots_ok:
  assumes "freeSlots hosts = (order, free)"
  shows "placing hosts n {} (replicate n 0, replicate n 0, free) \<and> (\<forall>h < length hosts. ihRegion (hosts ! h) \<in> set order)"
proof -
  have "(\<forall>r. distinct (mget [] free r) \<and> set (mget [] free r) = slotsBelow hosts (length hosts) r)
      \<and> (\<forall>h < length hosts. ihRegion (hosts ! h) \<in> set order)"
    using freeSlots_inv [of "length hosts" hosts] assms unfolding freeSlots_def by simp
  then show ?thesis by (auto simp: placing_def slotsBelow_def validSlot_def slotRegion_def)
qed

lemma pinnedNodes_ok:
  "mapOk (pinnedNodes n nrs fr home) \<and> (\<forall>i. mhas (pinnedNodes n nrs fr home) i \<longrightarrow> i < n \<or> (i = 0 \<and> fr \<noteq> []))"
proof -
  have "mapOk (fold (pin n) nrs m) \<and> (\<forall>i. mhas (fold (pin n) nrs m) i \<longrightarrow> i < n)"
    if "mapOk m" "\<forall>i. mhas m i \<longrightarrow> i < n" for m
    using that
  proof (induction nrs arbitrary: m)
    case (Cons x nrs)
    then have "mapOk (pin n x m)" "\<forall>i. mhas (pin n x m) i \<longrightarrow> i < n" by (cases x; auto simp: nat_less_iff)+
    with Cons.IH show ?case by simp
  qed simp
  from this [of "[]"] have "mapOk (fold (pin n) nrs []) \<and> (\<forall>i. mhas (fold (pin n) nrs []) i \<longrightarrow> i < n)" by simp
  then show ?thesis unfolding pinnedNodes_def Let_def by auto
qed

lemma pin_fold_get:
  "mapOk nrs \<Longrightarrow> map_of (fold (pin n) nrs m) i
     = (case map_of nrs (int i) of Some r \<Rightarrow> if i < n then Some r else map_of m i | None \<Rightarrow> map_of m i)"
proof (induction nrs arbitrary: m)
  case (Cons x nrs)
  obtain idx q where x: "x = (idx, q)" by force
  have ok: "mapOk nrs" and fresh: "map_of nrs idx = None"
    using Cons.prems x by (auto simp: mapOk_def map_of_eq_None_iff)
  show ?case
  proof (cases "idx = int i")
    case True
    then show ?thesis using Cons.IH [OF ok] x fresh by (simp add: update_conv')
  next
    case False
    then have "map_of (pin n (idx, q) m) i = map_of m i" by (auto simp: update_conv')
    then show ?thesis using Cons.IH [OF ok, of "pin n (idx, q) m"] x False
      by (simp split: option.split del: pin.simps)
  qed
qed simp

lemma pinnedNodes_get:
  assumes "mapOk nrs" "map_of nrs (int i) = Some r" "i < n"
  shows "map_of (pinnedNodes n nrs fr home) i = Some r"
proof -
  have "map_of (fold (pin n) nrs []) i = Some r" using pin_fold_get [OF assms(1), of n "[]" i] assms by simp
  then show ?thesis by (auto simp: pinnedNodes_def Let_def update_conv' mhas_map_of)
qed

lemma card_validSlot: "finite {s. validSlot hosts s} \<and> int (card {s. validSlot hosts s}) \<ge> sum_list (map ihNodes hosts)"
proof -
  have eq: "{s. validSlot hosts s} = (SIGMA h:{..<length hosts}. {..<nat (ihNodes (hosts ! h))})"
    by (auto simp: validSlot_def)
  have "int (card {s. validSlot hosts s}) = (\<Sum>h<length hosts. int (nat (ihNodes (hosts ! h))))" unfolding eq by simp
  also have "\<dots> \<ge> (\<Sum>h<length hosts. ihNodes (hosts ! h))" by (intro sum_mono) simp
  finally show ?thesis unfolding eq by (simp add: sum_list_sum_nth lessThan_atLeast0)
qed

lemma skipEmpty_keeps: "r \<in> set rs \<Longrightarrow> mget [] free r \<noteq> [] \<Longrightarrow> r \<in> set (skipEmpty free rs)"
  by (induction rs) auto

lemma placeRest_total:
  assumes "placing hosts n D st" "\<forall>r. mget [] (snd (snd st)) r \<noteq> [] \<longrightarrow> r \<in> set rs"
    and "int n \<le> sum_list (map ihNodes hosts)" "distinct idxs" "\<forall>i \<in> set idxs. i < n \<and> i \<notin> D"
  shows "\<exists>st'. placeRest idxs rs st = Inr st'"
  using assms
proof (induction idxs arbitrary: D st rs)
  case (Cons i idxs)
  obtain hostOf local free where st: "st = (hostOf, local, free)" by (metis prod_cases3)
  note P = Cons.prems(1) [unfolded st placing_def prod.case]
  have i: "i < n" "i \<notin> D" using Cons.prems(5) by auto
  have fin: "finite {..<n}" by simp
  have "D \<subset> {..<n}" using P i by auto
  from psubset_card_mono [OF fin this] have "card D < n" by simp
  moreover have finD: "finite D" using \<open>D \<subset> {..<n}\<close> fin by (metis finite_subset psubset_imp_subset)
  moreover have "card (slotOf hostOf local ` D) \<le> card D" using finD by (rule card_image_le)
  ultimately have "card (slotOf hostOf local ` D) < card {s. validSlot hosts s}"
    using card_validSlot [of hosts] Cons.prems(3) by linarith
  moreover have "finite (slotOf hostOf local ` D)" using finD by simp
  ultimately have "\<not> {s. validSlot hosts s} \<subseteq> slotOf hostOf local ` D"
    using card_mono [of "slotOf hostOf local ` D"] by (meson leD)
  then obtain t where "validSlot hosts t" "t \<notin> slotOf hostOf local ` D" by blast
  then have "t \<in> set (mget [] free (slotRegion hosts t))" using P by metis
  then have "mget [] free (slotRegion hosts t) \<noteq> []" by force
  then have "slotRegion hosts t \<in> set (skipEmpty free rs)" using skipEmpty_keeps Cons.prems(2) st by simp
  then obtain r rs' where sk: "skipEmpty free rs = r # rs'" by (cases "skipEmpty free rs") auto
  then obtain h k ss where f: "mget [] free r = (h, k) # ss"
    using skipEmpty_head by (metis list.exhaust surj_pair)
  then have tk: "take_slot r free = Some ((h, k), mput r ss free)" by (simp add: take_slot_def)
  have T: "placing hosts n (insert i D) (hostOf[i := h], local[i := k], mput r ss free)"
    using take_slot_placing [OF Cons.prems(1) [unfolded st] tk i] by auto
  have "\<forall>q. mget [] (snd (snd (hostOf[i := h], local[i := k], mput r ss free))) q \<noteq> [] \<longrightarrow> q \<in> set (r # rs')"
    using Cons.prems(2) st skipEmpty_keeps sk by (metis list.set_intros(1) mget_mput snd_conv)
  moreover have "\<forall>j \<in> set idxs. j < n \<and> j \<notin> insert i D" using Cons.prems(4,5) by auto
  ultimately obtain st' where "placeRest idxs (r # rs') (hostOf[i := h], local[i := k], mput r ss free) = Inr st'"
    using Cons.IH [OF T] Cons.prems(3,4) by (meson distinct.simps(2))
  then show ?case using st sk tk by (cases st') simp
next
  case Nil
  then show ?case by (intro exI [of _ st]) simp
qed

lemma placeRegions_parts:
  assumes "\<forall>m. mset (iter m) = mset m" "mapOk (nNodeRegions (Network (scen cfg)))" "0 < pNodes (Population (scen cfg))"
  defines "n \<equiv> nat (pNodes (Population (scen cfg)))"
  obtains ps rest order free where
    "placing (Hosts iv) n {} (replicate n 0, replicate n 0, free)"
    "\<forall>h < length (Hosts iv). ihRegion (Hosts iv ! h) \<in> set order"
    "placeRegions iter cfg iv = (if Hosts iv = [] then Inl NoHosts
      else case placePinned ps (replicate n 0, replicate n 0, free) of Inl e \<Rightarrow> Inl e
        | Inr st \<Rightarrow> (case placeRest rest (homeFirst (clHomeRegion (Cloud (testbed cfg))) order) st of
             Inl e \<Rightarrow> Inl e | Inr (hostOf, local, _) \<Rightarrow> Inr (hostOf, local)))"
    "distinct (map fst ps)" "\<forall>(i, r) \<in> set ps. i < n \<and> i \<notin> {}" "distinct rest"
    "set rest = {..<n} - fst ` set ps" "fst ` set ps \<union> set rest = {..<n}"
    "\<forall>i < n. \<forall>r. map_of (nNodeRegions (Network (scen cfg))) (int i) = Some r \<longrightarrow> (i, r) \<in> set ps"
proof -
  define home where "home = clHomeRegion (Cloud (testbed cfg))"
  define nrs where "nrs = nNodeRegions (Network (scen cfg))"
  define pinned where "pinned = pinnedNodes n nrs (ihRegion (Hosts iv ! 0)) home"
  define rest where "rest = filter (\<lambda>i. \<not> mhas pinned i) [0..<n]"
  obtain order free where f: "freeSlots (Hosts iv) = (order, free)" by force
  note start = freeSlots_ok [OF f, of n]
  have eq: "placeRegions iter cfg iv = (if Hosts iv = [] then Inl NoHosts
      else case placePinned (iter pinned) (replicate n 0, replicate n 0, free) of Inl e \<Rightarrow> Inl e
        | Inr st \<Rightarrow> (case placeRest rest (homeFirst home order) st of
             Inl e \<Rightarrow> Inl e | Inr (hostOf, local, _) \<Rightarrow> Inr (hostOf, local)))"
    unfolding placeRegions_def Let_def f prod.case pinned_def rest_def home_def nrs_def n_def by (rule refl)
  have n: "0 < n" using assms(3) by (simp add: n_def)
  have setp: "set (iter pinned) = set pinned" using assms(1) by (metis mset_eq_setD)
  have keys: "fst ` set (iter pinned) = {i. mhas pinned i}" unfolding setp by (auto simp: mhas_def)
  note P = pinnedNodes_ok [of n nrs "ihRegion (Hosts iv ! 0)" home, folded pinned_def]
  have dist: "distinct (map fst (iter pinned))"
    using assms(1) P by (metis mapOk_def mset_map mset_eq_imp_distinct_iff)
  have below: "i \<in> fst ` set (iter pinned) \<Longrightarrow> i < n" for i using P n unfolding keys by auto
  have pr: "\<forall>(i, r) \<in> set (iter pinned). i < n \<and> i \<notin> {}" using below by force
  have rs: "distinct rest" "set rest = {..<n} - fst ` set (iter pinned)" unfolding keys by (auto simp: rest_def)
  have all: "fst ` set (iter pinned) \<union> set rest = {..<n}" using below rs(2) by blast
  have "(i, r) \<in> set (iter pinned)" if "i < n" "map_of nrs (int i) = Some r" for i r
  proof -
    have "map_of pinned i = Some r" unfolding pinned_def using pinnedNodes_get assms(2) that by (simp add: nrs_def)
    then show ?thesis unfolding setp by (rule map_of_SomeD)
  qed
  then show thesis using that [OF conjunct1 [OF start] conjunct2 [OF start] eq [unfolded home_def] dist pr rs all] by (simp add: nrs_def)
qed

lemma placing_slots:
  assumes "placing hosts n {..<n} (hostOf, local, fr)"
  shows "length hostOf = n \<and> length local = n \<and> (\<forall>i < n. validSlot hosts (hostOf ! i, local ! i))
    \<and> (\<forall>i < n. \<forall>j < n. (hostOf ! i, local ! i) = (hostOf ! j, local ! j) \<longrightarrow> i = j)"
proof -
  have "length hostOf = n" "length local = n" "inj_on (slotOf hostOf local) {..<n}"
      "\<forall>i \<in> {..<n}. validSlot hosts (slotOf hostOf local i)"
    using assms unfolding placing_def prod.case by auto
  then show ?thesis by (simp add: inj_on_def slotOf_def)
qed

text \<open>The filling loop does not run out while the inventory has room.\<close>

lemma placeRest_room:
  assumes "placing hosts n D st" "\<forall>h < length hosts. ihRegion (hosts ! h) \<in> set order" "int n \<le> sum_list (map ihNodes hosts)"
    and "distinct rest" "set rest = {..<n} - D"
  shows "\<exists>st'. placeRest rest (homeFirst home order) st = Inr st'"
proof -
  have "r \<in> set (homeFirst home order)" if ne: "mget [] (snd (snd st)) r \<noteq> []" for r
  proof -
    from ne obtain t where "t \<in> set (mget [] (snd (snd st)) r)" by (metis last_in_set)
    then have "validSlot hosts t" "slotRegion hosts t = r" using assms(1) unfolding placing_def by (cases st; auto)+
    then have "r \<in> set order" using assms(2) by (auto simp: validSlot_def slotRegion_def)
    then show ?thesis by (auto simp: homeFirst_def)
  qed
  then show ?thesis using assms(3-5) by (intro placeRest_total [OF assms(1)]) auto
qed

lemma placePinned_error: "placePinned ps st \<noteq> Inl FewerInstances"
  by (induction ps st rule: placePinned.induct) (auto split: option.splits)

text \<open>
  C23: Placement by region: whatever order the pinned nodes are visited in, every node gets its own slot
  on a machine that has it, pinned nodes in their region; and when the inventory has room for the
  population the filling loop never runs out of slots.
\<close>

theorem placeRegions_slots:
  assumes "\<forall>m. mset (iter m) = mset m" "mapOk (nNodeRegions (Network (scen cfg)))" "0 < pNodes (Population (scen cfg))"
  defines "n \<equiv> nat (pNodes (Population (scen cfg)))"
  shows "(\<forall>hostOf local. placeRegions iter cfg iv = Inr (hostOf, local) \<longrightarrow>
      length hostOf = n \<and> length local = n
      \<and> (\<forall>i < n. validSlot (Hosts iv) (hostOf ! i, local ! i))
      \<and> (\<forall>i < n. \<forall>j < n. (hostOf ! i, local ! i) = (hostOf ! j, local ! j) \<longrightarrow> i = j)
      \<and> (\<forall>i < n. \<forall>r. map_of (nNodeRegions (Network (scen cfg))) (int i) = Some r \<longrightarrow> ihRegion (Hosts iv ! (hostOf ! i)) = r))
    \<and> (pNodes (Population (scen cfg)) \<le> capacity iv \<longrightarrow> placeRegions iter cfg iv \<noteq> Inl FewerInstances)"
proof -
  from placeRegions_parts [OF assms(1-3), folded n_def, of iv] obtain ps rest order free where
    start: "placing (Hosts iv) n {} (replicate n 0, replicate n 0, free)"
      "\<forall>h < length (Hosts iv). ihRegion (Hosts iv ! h) \<in> set order"
    and eq: "placeRegions iter cfg iv = (if Hosts iv = [] then Inl NoHosts
      else case placePinned ps (replicate n 0, replicate n 0, free) of Inl e \<Rightarrow> Inl e
        | Inr st \<Rightarrow> (case placeRest rest (homeFirst (clHomeRegion (Cloud (testbed cfg))) order) st of
             Inl e \<Rightarrow> Inl e | Inr (hostOf, local, _) \<Rightarrow> Inr (hostOf, local)))"
    and ps: "distinct (map fst ps)" "\<forall>(i, r) \<in> set ps. i < n \<and> i \<notin> {}"
    and rest: "distinct rest" "set rest = {..<n} - fst ` set ps" "fst ` set ps \<union> set rest = {..<n}"
    and pins: "\<forall>i < n. \<forall>r. map_of (nNodeRegions (Network (scen cfg))) (int i) = Some r \<longrightarrow> (i, r) \<in> set ps" .
  have ok: "length hostOf = n \<and> length local = n \<and> (\<forall>i < n. validSlot (Hosts iv) (hostOf ! i, local ! i))
      \<and> (\<forall>i < n. \<forall>j < n. (hostOf ! i, local ! i) = (hostOf ! j, local ! j) \<longrightarrow> i = j)
      \<and> (\<forall>i < n. \<forall>r. map_of (nNodeRegions (Network (scen cfg))) (int i) = Some r \<longrightarrow> ihRegion (Hosts iv ! (hostOf ! i)) = r)"
    if res: "placeRegions iter cfg iv = Inr (hostOf, local)" for hostOf local
  proof -
    from res obtain st fr where s: "placePinned ps (replicate n 0, replicate n 0, free) = Inr st"
        "placeRest rest (homeFirst (clHomeRegion (Cloud (testbed cfg))) order) st = Inr (hostOf, local, fr)"
      unfolding eq by (auto split: if_splits sum.splits)
    note P = placePinned_placing [OF start(1) s(1) ps]
    have R: "placing (Hosts iv) n {..<n} (hostOf, local, fr)" "\<forall>j. j \<notin> set rest \<longrightarrow> hostOf ! j = fst st ! j"
      using placeRest_placing [OF _ s(2) rest(1), of "Hosts iv" n "fst ` set ps"] P rest(2,3) by auto
    have "ihRegion (Hosts iv ! (hostOf ! i)) = r" if ir: "(i, r) \<in> set ps" for i r
    proof -
      have "i \<notin> set rest" using ir rest(2) by force
      then show ?thesis using bspec [OF conjunct1 [OF conjunct2 [OF P]] ir] R(2) by simp
    qed
    then show ?thesis using placing_slots [OF R(1)] pins by blast
  qed
  moreover have "placeRegions iter cfg iv \<noteq> Inl FewerInstances" if "pNodes (Population (scen cfg)) \<le> capacity iv"
  proof -
    have cap: "int n \<le> sum_list (map ihNodes (Hosts iv))" using that assms(3) by (simp add: n_def capacity_def)
    have "\<exists>st'. placeRest rest (homeFirst (clHomeRegion (Cloud (testbed cfg))) order) st = Inr st'"
      if "placePinned ps (replicate n 0, replicate n 0, free) = Inr st" for st
      using placePinned_placing [OF start(1) that ps] rest by (intro placeRest_room [OF _ start(2) cap]) auto
    then show ?thesis using placePinned_error [of ps] unfolding eq by (fastforce split: if_splits sum.splits)
  qed
  ultimately show ?thesis by blast
qed

section \<open>Groups\<close>

lemma Groups_get:
  "mapOk (Groups pool) \<and> map_of (Groups pool) p
     = (if p \<in> set (nodePrefix pool) then Some (filter (\<lambda>i. nodePrefix pool ! i = p) [0..<length (nodePrefix pool)]) else None)"
proof -
  define grp where "grp xs = fold (\<lambda>(i, p) g. mput p (mget [] g p @ [i]) g) (enumerate 0 xs) []" for xs :: "32 word list"
  have "mapOk (grp xs) \<and> (\<forall>p. map_of (grp xs) p = (if p \<in> set xs then Some (filter (\<lambda>i. xs ! i = p) [0..<length xs]) else None))" for xs
  proof (induction xs rule: rev_induct)
    case (snoc x xs)
    have g: "grp (xs @ [x]) = mput x (mget [] (grp xs) x @ [length xs]) (grp xs)"
      by (simp add: grp_def enumerate_append_eq)
    have old: "filter (\<lambda>i. (xs @ [x]) ! i = p) [0..<length xs] = filter (\<lambda>i. xs ! i = p) [0..<length xs]" for p
      by (intro filter_cong refl) (simp add: nth_append)
    have none: "p \<notin> set xs \<Longrightarrow> filter (\<lambda>i. xs ! i = p) [0..<length xs] = []" for p
      by (auto simp: filter_empty_conv)
    show ?case using snoc.IH none by (auto simp: g old mget_def update_conv')
  qed (simp add: grp_def)
  then show ?thesis by (simp add: grp_def Groups_def)
qed

lemma Groups_entry:
  assumes "(p, g) \<in> set (Groups pool)"
  shows "g = filter (\<lambda>i. nodePrefix pool ! i = p) [0..<length (nodePrefix pool)] \<and> g \<noteq> [] \<and> distinct g"
proof -
  have "map_of (Groups pool) p = Some g" using map_of_is_SomeI assms Groups_get [of pool p] unfolding mapOk_def by metis
  then have g: "g = filter (\<lambda>i. nodePrefix pool ! i = p) [0..<length (nodePrefix pool)]" "p \<in> set (nodePrefix pool)"
    using Groups_get [of pool p] by (auto split: if_splits)
  then show ?thesis by (auto simp: filter_empty_conv in_set_conv_nth)
qed

lemma Groups_has:
  "i < length (nodePrefix pool) \<Longrightarrow> \<exists>g. (nodePrefix pool ! i, g) \<in> set (Groups pool) \<and> i \<in> set g"
  using Groups_get [of pool "nodePrefix pool ! i"] by (auto dest!: map_of_SomeD)

section \<open>Whole groups on one machine\<close>

definition packing :: "nat list \<Rightarrow> nat \<Rightarrow> nat set \<Rightarrow> nat list \<times> nat list \<times> nat list \<Rightarrow> bool" where
  "packing caps n D st = (case st of (hostOf, local, occ) \<Rightarrow>
     length hostOf = n \<and> length local = n \<and> length occ = length caps
     \<and> (\<forall>h < length caps. occ ! h \<le> caps ! h)
     \<and> (\<forall>i \<in> D. hostOf ! i < length caps \<and> local ! i < occ ! (hostOf ! i))
     \<and> inj_on (slotOf hostOf local) D)"

lemma placeGroup_packing:
  assumes "packing caps n D (hostOf, local, occ)" "h < length caps" "occ ! h + length g \<le> caps ! h"
    and "distinct g" "set g \<inter> D = {}" "set g \<subseteq> {..<n}"
    and "placeGroup h g (hostOf, local, occ) = (hostOf', local', occ')"
  shows "packing caps n (D \<union> set g) (hostOf', local', occ') \<and> (\<forall>i \<in> set g. hostOf' ! i = h)
    \<and> (\<forall>i. i \<notin> set g \<longrightarrow> hostOf' ! i = hostOf ! i)"
  using assms
proof (induction g arbitrary: D hostOf local occ)
  case (Cons i g)
  note P = Cons.prems(1) [unfolded packing_def prod.case]
  have i: "i < n" "i \<notin> D" "i \<notin> set g" using Cons.prems(4-6) by auto
  let ?ho = "hostOf[i := h]" and ?lo = "local[i := occ ! h]" and ?oc = "occ[h := occ ! h + 1]"
  have len: "length hostOf = n" "length local = n" "length occ = length caps" using P by auto
  have old: "j \<in> D \<Longrightarrow> slotOf ?ho ?lo j = slotOf hostOf local j" for j
    using i(2) by (metis nth_list_update_neq slotOf_def)
  have new: "slotOf ?ho ?lo i = (h, occ ! h)" using i(1) len by (simp add: slotOf_def)
  have "slotOf hostOf local j \<noteq> (h, occ ! h)" if "j \<in> D" for j using P that by (auto simp: slotOf_def)
  then have "slotOf ?ho ?lo i \<notin> slotOf ?ho ?lo ` D" using old new by (metis imageE)
  moreover have "inj_on (slotOf ?ho ?lo) D" using P old by (metis inj_on_cong)
  ultimately have inj: "inj_on (slotOf ?ho ?lo) (insert i D)" using i(2) by simp
  have bnd: "\<forall>j \<in> insert i D. ?ho ! j < length caps \<and> ?lo ! j < ?oc ! (?ho ! j)"
  proof
    fix j assume j: "j \<in> insert i D"
    show "?ho ! j < length caps \<and> ?lo ! j < ?oc ! (?ho ! j)"
    proof (cases "j = i")
      case True
      then show ?thesis using i(1) len Cons.prems(2) by simp
    next
      case False
      then have "hostOf ! j < length caps" "local ! j < occ ! (hostOf ! j)" using P j by auto
      then show ?thesis using False len Cons.prems(2) by (auto simp: nth_list_update)
    qed
  qed
  have "\<forall>c < length caps. ?oc ! c \<le> caps ! c" using P Cons.prems(2,3) by (simp add: nth_list_update)
  then have "packing caps n (insert i D) (?ho, ?lo, ?oc)" using inj bnd len by (simp add: packing_def)
  moreover have "?oc ! h + length g \<le> caps ! h" using Cons.prems(2,3) len by simp
  moreover have "set g \<inter> insert i D = {}" "distinct g" "set g \<subseteq> {..<n}" using Cons.prems(4-6) by auto
  moreover have "placeGroup h g (?ho, ?lo, ?oc) = (hostOf', local', occ')" using Cons.prems(7) by simp
  ultimately have "packing caps n (insert i D \<union> set g) (hostOf', local', occ')" "\<forall>j \<in> set g. hostOf' ! j = h"
      "\<forall>j. j \<notin> set g \<longrightarrow> hostOf' ! j = ?ho ! j"
    using Cons.IH [of "insert i D" ?ho ?lo ?oc] Cons.prems(2) by auto
  then show ?case using i len by (auto simp: nth_list_update)
qed simp

lemma bestHost_fits:
  "bestHost room need h cs = Some b \<Longrightarrow> b \<in> set cs \<and> need \<le> room ! b \<or> h = Some b"
  by (induction room need h cs rule: bestHost.induct) (auto split: if_splits)

lemma placeGroups_packing:
  assumes "packing caps n D st" "placeGroups caps gs st = Inr st'" "distinct (concat (map snd gs))"
    and "(\<Union>(p, g) \<in> set gs. set g) \<inter> D = {}" "(\<Union>(p, g) \<in> set gs. set g) \<subseteq> {..<n}" "\<forall>(p, g) \<in> set gs. g \<noteq> []"
  shows "packing caps n (D \<union> (\<Union>(p, g) \<in> set gs. set g)) st'
    \<and> (\<forall>p g. (p, g) \<in> set gs \<longrightarrow> (\<exists>h. \<forall>i \<in> set g. fst st' ! i = h))
    \<and> (\<forall>i. i \<notin> (\<Union>(p, g) \<in> set gs. set g) \<longrightarrow> fst st' ! i = fst st ! i)"
  using assms
proof (induction gs arbitrary: D st)
  case (Cons pg gs)
  obtain p g where pg: "pg = (p, g)" by force
  obtain hostOf local occ where st: "st = (hostOf, local, occ)" by (metis prod_cases3)
  from Cons.prems(2) obtain h where h: "bestHost (roomOf caps occ) (length g) None [0..<length caps] = Some h"
      "placeGroups caps gs (placeGroup h g (hostOf, local, occ)) = Inr st'"
    by (auto simp: pg st split: option.splits)
  obtain ho lo oc where pl: "placeGroup h g (hostOf, local, occ) = (ho, lo, oc)" by (metis prod_cases3)
  have hc: "h < length caps" "length g \<le> caps ! h - occ ! h" using bestHost_fits [OF h(1)] by (auto simp: roomOf_def)
  moreover have "0 < length g" using Cons.prems(6) pg by simp
  ultimately have room: "occ ! h + length g \<le> caps ! h" by linarith
  have dis: "distinct g" "set g \<inter> D = {}" "set g \<subseteq> {..<n}" using Cons.prems(3-5) pg by auto
  note G = placeGroup_packing [OF Cons.prems(1) [unfolded st] hc(1) room dis pl]
  have rest: "(\<Union>(p, g) \<in> set gs. set g) \<inter> set g = {}" using Cons.prems(3) pg by fastforce
  have "(\<Union>(p, g) \<in> set gs. set g) \<inter> (D \<union> set g) = {}" using Cons.prems(4) pg rest by auto
  moreover have "distinct (concat (map snd gs))" "(\<Union>(p, g) \<in> set gs. set g) \<subseteq> {..<n}" "\<forall>(p, g) \<in> set gs. g \<noteq> []"
    using Cons.prems(3,5,6) by auto
  ultimately have IH: "packing caps n (D \<union> set g \<union> (\<Union>(p, g) \<in> set gs. set g)) st'"
      "\<forall>p g. (p, g) \<in> set gs \<longrightarrow> (\<exists>h. \<forall>i \<in> set g. fst st' ! i = h)"
      "\<forall>i. i \<notin> (\<Union>(p, g) \<in> set gs. set g) \<longrightarrow> fst st' ! i = ho ! i"
    using Cons.IH [OF conjunct1 [OF G] h(2) [unfolded pl]] by auto
  have same: "\<forall>i \<in> set g. fst st' ! i = h" using IH(3) rest G by (metis disjoint_iff)
  have "D \<union> (\<Union>(p, g) \<in> set (pg # gs). set g) = D \<union> set g \<union> (\<Union>(p, g) \<in> set gs. set g)" by (auto simp: pg)
  moreover have "\<forall>q k. (q, k) \<in> set (pg # gs) \<longrightarrow> (\<exists>h. \<forall>i \<in> set k. fst st' ! i = h)" using IH(2) same pg by auto
  moreover have "\<forall>i. i \<notin> (\<Union>(p, g) \<in> set (pg # gs). set g) \<longrightarrow> fst st' ! i = fst st ! i"
    using IH(3) G by (auto simp: pg st)
  ultimately show ?case using IH(1) by simp
qed auto

lemma concat_groups:
  assumes "distinct (map fst gs)" "\<forall>(p, g) \<in> set gs. distinct g \<and> (\<forall>i \<in> set g. f i = p)"
  shows "distinct (concat (map snd gs))"
  using assms by (induction gs) fastforce+

lemma groupOrder_set: "set (groupOrder gs) = set gs \<and> mset (groupOrder gs) = mset gs"
  by (simp add: groupOrder_def)

lemma placeByPrefix_ok:
  assumes "length (nodePrefix pool) = nat (pNodes (Population (scen cfg)))"
    and "placeByPrefix cfg iv pool = Inr (hostOf, local)"
  defines "n \<equiv> nat (pNodes (Population (scen cfg)))"
  shows "\<exists>occ. packing (map (nat \<circ> ihNodes) (Hosts iv)) n {..<n} (hostOf, local, occ)"
    and "\<forall>p g. (p, g) \<in> set (Groups pool) \<longrightarrow> (\<exists>h. \<forall>i \<in> set g. hostOf ! i = h)"
proof -
  let ?caps = "map (nat \<circ> ihNodes) (Hosts iv)" and ?gs = "groupOrder (Groups pool)"
  from assms(2) obtain occ where run: "placeGroups ?caps ?gs (replicate n 0, replicate n 0, replicate (length ?caps) 0) = Inr (hostOf, local, occ)"
    by (auto simp: placeByPrefix_def n_def Let_def split: sum.splits)
  have start: "packing ?caps n {} (replicate n 0, replicate n 0, replicate (length ?caps) 0)"
    by (simp add: packing_def)
  have ent: "g = filter (\<lambda>i. nodePrefix pool ! i = p) [0..<n] \<and> g \<noteq> [] \<and> distinct g" if "(p, g) \<in> set ?gs" for p g
    using that Groups_entry [of p g pool] assms(1) groupOrder_set [of "Groups pool"] unfolding n_def by metis
  have "distinct (map fst (Groups pool))" using Groups_get [of pool] by (simp add: mapOk_def)
  then have "distinct (map fst ?gs)" using groupOrder_set by (metis mset_eq_imp_distinct_iff mset_map)
  then have dis: "distinct (concat (map snd ?gs))"
  proof (rule concat_groups [where f = "\<lambda>i. nodePrefix pool ! i"])
    show "\<forall>(p, g) \<in> set ?gs. distinct g \<and> (\<forall>i \<in> set g. nodePrefix pool ! i = p)" using ent by fastforce
  qed
  have all: "(\<Union>(p, g) \<in> set ?gs. set g) = {..<n}"
  proof
    show "(\<Union>(p, g) \<in> set ?gs. set g) \<subseteq> {..<n}" using ent by fastforce
    show "{..<n} \<subseteq> (\<Union>(p, g) \<in> set ?gs. set g)"
      using Groups_has [of _ pool] groupOrder_set [of "Groups pool"] assms(1) by (fastforce simp: n_def)
  qed
  have ne: "\<forall>(p, g) \<in> set ?gs. g \<noteq> []" using ent by blast
  note R = placeGroups_packing [OF start run dis _ _ ne, unfolded all]
  show "\<exists>occ. packing ?caps n {..<n} (hostOf, local, occ)" using R by auto
  show "\<forall>p g. (p, g) \<in> set (Groups pool) \<longrightarrow> (\<exists>h. \<forall>i \<in> set g. hostOf ! i = h)"
    using R groupOrder_set [of "Groups pool"] by auto
qed

text \<open>
  C11: Placement on crawl addresses: every node has a slot of its own within its machine's capacity, all
  nodes of a /24 are on one machine, and each machine gets a route for exactly the /24s that live on
  another machine, by way of that machine.
\<close>

theorem placeByPrefix_routes:
  assumes "length (nodePrefix pool) = nat (pNodes (Population (scen cfg)))"
    and "place_nodes iter cfg iv (Some pool) = Inr (hostOf, local)"
  defines "n \<equiv> nat (pNodes (Population (scen cfg)))"
  shows "(\<forall>i < n. validSlot (Hosts iv) (hostOf ! i, local ! i))
    \<and> (\<forall>i < n. \<forall>j < n. (hostOf ! i, local ! i) = (hostOf ! j, local ! j) \<longrightarrow> i = j)
    \<and> (\<forall>i < n. \<forall>j < n. nodePrefix pool ! i = nodePrefix pool ! j \<longrightarrow> hostOf ! i = hostOf ! j)
    \<and> (\<forall>h < length (Hosts iv). set (prefixRoutes (Some pool) hostOf iv ! h)
        = (\<lambda>i. \<lparr>rtPrefix = CIDR (nodePrefix pool ! i), rtVia = ihIP (Hosts iv ! (hostOf ! i))\<rparr>) ` {i. i < n \<and> hostOf ! i \<noteq> h})"
proof -
  have run: "placeByPrefix cfg iv pool = Inr (hostOf, local)" using assms(2) by (simp add: place_nodes_def)
  note ok = placeByPrefix_ok [OF assms(1) run, folded n_def]
  from ok(1) obtain occ where P: "packing (map (nat \<circ> ihNodes) (Hosts iv)) n {..<n} (hostOf, local, occ)" by blast
  have valid: "\<forall>i < n. validSlot (Hosts iv) (hostOf ! i, local ! i)"
  proof (intro allI impI)
    fix i assume "i < n"
    then have "hostOf ! i < length (Hosts iv)" "local ! i < occ ! (hostOf ! i)" using P by (simp_all add: packing_def)
    moreover have "occ ! (hostOf ! i) \<le> nat (ihNodes (Hosts iv ! (hostOf ! i)))"
      using P calculation(1) by (simp add: packing_def)
    ultimately show "validSlot (Hosts iv) (hostOf ! i, local ! i)" by (simp add: validSlot_def)
  qed
  have inj: "\<forall>i < n. \<forall>j < n. (hostOf ! i, local ! i) = (hostOf ! j, local ! j) \<longrightarrow> i = j"
    using P by (simp add: packing_def inj_on_def slotOf_def)
  have len: "length (nodePrefix pool) = n" using assms(1) by (simp add: n_def)
  have same: "hostOf ! i = hostOf ! j" if ij: "i < n" "j < n" "nodePrefix pool ! i = nodePrefix pool ! j" for i j
  proof -
    from Groups_has [of i pool] obtain g where g: "(nodePrefix pool ! i, g) \<in> set (Groups pool)" using ij(1) len by auto
    from Groups_entry [OF g] have "i \<in> set g" "j \<in> set g" using ij len by auto
    then show ?thesis using ok(2) g by metis
  qed
  have owner: "set (ownerOf pool hostOf) = (\<lambda>i. (nodePrefix pool ! i, hostOf ! i)) ` {..<n}"
  proof
    show "set (ownerOf pool hostOf) \<subseteq> (\<lambda>i. (nodePrefix pool ! i, hostOf ! i)) ` {..<n}"
    proof
      fix x assume "x \<in> set (ownerOf pool hostOf)"
      then obtain p g where g: "(p, g) \<in> set (Groups pool)" "x = (p, hostOf ! (g ! 0))" by (auto simp: ownerOf_def)
      from Groups_entry [OF g(1)] have "g \<noteq> []" "\<forall>i \<in> set g. i < n \<and> nodePrefix pool ! i = p" using len by auto
      then have "g ! 0 < n \<and> nodePrefix pool ! (g ! 0) = p" by (simp add: hd_conv_nth [symmetric])
      then show "x \<in> (\<lambda>i. (nodePrefix pool ! i, hostOf ! i)) ` {..<n}" using g(2) by blast
    qed
    show "(\<lambda>i. (nodePrefix pool ! i, hostOf ! i)) ` {..<n} \<subseteq> set (ownerOf pool hostOf)"
    proof
      fix x assume "x \<in> (\<lambda>i. (nodePrefix pool ! i, hostOf ! i)) ` {..<n}"
      then obtain i where i: "i < n" "x = (nodePrefix pool ! i, hostOf ! i)" by auto
      from Groups_has [of i pool] obtain g where g: "(nodePrefix pool ! i, g) \<in> set (Groups pool)" "i \<in> set g" using i len by blast
      have "g ! 0 \<in> set g" using g(2) by (cases g) auto
      then have "hostOf ! (g ! 0) = hostOf ! i" using ok(2) g by metis
      then show "x \<in> set (ownerOf pool hostOf)" using i(2) g(1) by (force simp: ownerOf_def)
    qed
  qed
  have "set (prefixRoutes (Some pool) hostOf iv ! h)
        = (\<lambda>i. \<lparr>rtPrefix = CIDR (nodePrefix pool ! i), rtVia = ihIP (Hosts iv ! (hostOf ! i))\<rparr>) ` {i. i < n \<and> hostOf ! i \<noteq> h}"
    if "h < length (Hosts iv)" for h
    using that owner by (auto simp: prefixRoutes_def)
  then show ?thesis using valid inj same by blast
qed

section \<open>Witnesses\<close>

definition twoHosts :: Inventory where
  "twoHosts = \<lparr>Coordinator = ''c'', Routes = '''',
     Hosts = [\<lparr>ihIndex = 0, ihIP = ''192.0.2.1'', ihPublic = '''', ihNodes = 3, ihRegion = ''eu'', ihPort = 0\<rparr>,
              \<lparr>ihIndex = 1, ihIP = ''192.0.2.2'', ihPublic = '''', ihNodes = 3, ihRegion = ''us'', ihPort = 0\<rparr>]\<rparr>"

definition twoRegionsConfig :: Config where
  "twoRegionsConfig = Default\<lparr>scen := DefaultScenario\<lparr>Network := (Network DefaultScenario)\<lparr>nNodeRegions := [(3, ''us''), (0, ''eu'')]\<rparr>\<rparr>\<rparr>"

theorem placeRegions_slots_witness:
  "placeRegions (\<lambda>m. m) twoRegionsConfig twoHosts = Inr ([0, 0, 0, 1, 1], [0, 1, 2, 0, 1])
    \<and> ihRegion (Hosts twoHosts ! ([0, 0, 0, 1, 1] ! 3)) = ''us''"
proof -
  have run: "placeRegions (\<lambda>m. m) twoRegionsConfig twoHosts = Inr ([0, 0, 0, 1, 1], [0, 1, 2, 0, 1])"
    by code_simp
  have prem: "mapOk (nNodeRegions (Network (scen twoRegionsConfig)))" "0 < pNodes (Population (scen twoRegionsConfig))"
    "3 < nat (pNodes (Population (scen twoRegionsConfig)))"
    "map_of (nNodeRegions (Network (scen twoRegionsConfig))) (int 3) = Some ''us''"
    by code_simp+
  show ?thesis using placeRegions_slots [of "\<lambda>m. m" twoRegionsConfig twoHosts] prem run by blast
qed

definition twoPrefixes :: addressPool where
  "twoPrefixes = \<lparr>ips = [], nodePrefix = [0x010203, 0x010204, 0x010203, 0x010204, 0x010203], used = []\<rparr>"

theorem placeByPrefix_routes_witness:
  "\<exists>hostOf local. place_nodes (\<lambda>m. m) Default twoHosts (Some twoPrefixes) = Inr (hostOf, local) \<and> hostOf ! 0 = hostOf ! 4"
proof -
  have run: "place_nodes (\<lambda>m. m) Default twoHosts (Some twoPrefixes) = Inr ([0, 1, 0, 1, 0], [0, 0, 1, 1, 2])"
    by code_simp
  have "length (nodePrefix twoPrefixes) = nat (pNodes (Population (scen Default)))" "0 < nat (pNodes (Population (scen Default)))"
    "4 < nat (pNodes (Population (scen Default)))" "nodePrefix twoPrefixes ! 0 = nodePrefix twoPrefixes ! 4"
    by code_simp+
  then show ?thesis using placeByPrefix_routes [of twoPrefixes Default "\<lambda>m. m" twoHosts] run by blast
qed

end
