(* ===== verification/HostDrops.thy ===== *)
theory HostDrops
  imports GoFloat GoString "HOL-Library.Char_ord" "HOL-Library.List_Lexorder"
begin

text \<open>
  Packet drops on the machines of a run: the samples a host takes (\<open>src/pkg/host/monitor.go\<close>,
  \<open>netns.go\<close>, \<open>ena.go\<close>) and the verdict over them (\<open>src/pkg/coordinator/collect.go\<close>): \<open>hostDrops\<close>,
  \<open>upToStop\<close>, \<open>windowDropLine\<close> and \<open>dropLine\<close>. The counters are cumulative \<open>int64\<close> values, far from
  wrapping, and are integers here.
\<close>

section \<open>Samples\<close>

record NetSample =
  QdiscDrops :: int
  QdiscOverlimits :: int
  QdiscBacklog :: int
  QdiscQlen :: int
  UDPRcvbufErrors :: int
  UDPSndbufErrors :: int
  UDPInErrors :: int
  UDPNoPorts :: int
  VethRxDropped :: int
  VethTxDropped :: int

definition add_ns :: "NetSample \<Rightarrow> NetSample \<Rightarrow> NetSample" where
  "add_ns s p = \<lparr>QdiscDrops = QdiscDrops s + QdiscDrops p, QdiscOverlimits = QdiscOverlimits s + QdiscOverlimits p,
     QdiscBacklog = QdiscBacklog s + QdiscBacklog p, QdiscQlen = QdiscQlen s + QdiscQlen p,
     UDPRcvbufErrors = UDPRcvbufErrors s + UDPRcvbufErrors p, UDPSndbufErrors = UDPSndbufErrors s + UDPSndbufErrors p,
     UDPInErrors = UDPInErrors s + UDPInErrors p, UDPNoPorts = UDPNoPorts s + UDPNoPorts p,
     VethRxDropped = VethRxDropped s + VethRxDropped p, VethTxDropped = VethTxDropped s + VethTxDropped p\<rparr>"

record NodeSample =
  nsIdx :: int
  CPUPct :: float64
  RSSMB :: float64
  FDs :: int
  nsNet :: NetSample

record ARPSample =
  Entries :: int
  UnresolvedDiscards :: int
  TableFulls :: int
  ForcedGCRuns :: int

record ENASample =
  ENAIface :: string
  PPSAllowanceExceeded :: int
  BWInAllowanceExceeded :: int
  BWOutAllowanceExceeded :: int
  ConntrackAllowanceExceeded :: int
  LinklocalAllowanceExceeded :: int

record Sample =
  AtMs :: int
  Load1 :: float64
  MemAvailMB :: int
  hostRcvbufErrors :: int
  hostInErrors :: int
  sNodes :: "NodeSample list"
  Netns :: "NetSample option"
  NetnsMaxBacklog :: int
  NetnsSampled :: int
  NetnsExpected :: int
  NetnsMs :: float64
  ARP :: "ARPSample option"
  sENA :: ENASample
  ENAError :: string

text \<open>What \<open>sample\<close> puts in a sample about the namespaces: \<open>names\<close> of the host, \<open>nets\<close> the ones read.\<close>

definition zeroNet :: NetSample where
  "zeroNet = \<lparr>QdiscDrops = 0, QdiscOverlimits = 0, QdiscBacklog = 0, QdiscQlen = 0, UDPRcvbufErrors = 0,
     UDPSndbufErrors = 0, UDPInErrors = 0, UDPNoPorts = 0, VethRxDropped = 0, VethTxDropped = 0\<rparr>"

definition sampleNetns :: "nat \<Rightarrow> NetSample list \<Rightarrow> Sample \<Rightarrow> Sample" where
  "sampleNetns names nets s =
     (if names = 0 then s
      else s\<lparr>NetnsSampled := int (length nets), NetnsExpected := int names,
             Netns := (if nets = [] then Netns s else Some (fold (\<lambda>n a. add_ns a n) nets zeroNet)),
             NetnsMaxBacklog := fold (\<lambda>n b. max b (QdiscBacklog n)) nets (NetnsMaxBacklog s)\<rparr>)"

section \<open>The counters of a host\<close>

text \<open>
  \<open>increase\<close>: the measured values in order; a value below the one before is a counter that was reset,
  after which the new value is all rise.
\<close>

fun increaseLoop :: "('s \<Rightarrow> int) \<Rightarrow> int \<Rightarrow> int option \<Rightarrow> ('s \<times> bool) list \<Rightarrow> int" where
  "increaseLoop v tot prev [] = tot"
| "increaseLoop v tot prev ((s, ok) # hs) =
     (if \<not> ok then increaseLoop v tot prev hs
      else let x = v s
           in increaseLoop v (case prev of None \<Rightarrow> tot | Some p \<Rightarrow> if x \<ge> p then tot + (x - p) else tot + x) (Some x) hs)"

definition increase :: "'s list \<Rightarrow> bool list \<Rightarrow> ('s \<Rightarrow> int) \<Rightarrow> int" where
  "increase hs ok v = increaseLoop v 0 None (zip hs ok)"

definition measured :: "'s list \<Rightarrow> ('s \<Rightarrow> bool) \<Rightarrow> bool list" where
  "measured hs f = map f hs"

definition covered :: "bool list \<Rightarrow> bool" where
  "covered ok \<longleftrightarrow> length ok \<ge> 2 \<and> ok ! 0 \<and> ok ! (length ok - 1)"

definition gap :: "string \<Rightarrow> nat \<Rightarrow> (string, int) gomap \<Rightarrow> (string, int) gomap" where
  "gap src n gaps = (if n > 0 then madd src (int n) gaps else gaps)"

definition hasNetns :: "Sample \<Rightarrow> bool" where
  "hasNetns s \<longleftrightarrow> Netns s \<noteq> None \<or> NetnsExpected s > 0"

definition hasARP :: "Sample \<Rightarrow> bool" where
  "hasARP s \<longleftrightarrow> ARP s \<noteq> None"

definition hasENA :: "Sample \<Rightarrow> bool" where
  "hasENA s \<longleftrightarrow> ENAIface (sENA s) \<noteq> []"

definition enaHost :: "Sample list \<Rightarrow> bool" where
  "enaHost hs \<longleftrightarrow> list_ex hasENA hs \<or> ENAError (hs ! (length hs - 1)) \<noteq> []"

section \<open>Categories\<close>

datatype dropCount = DropCount (What: string) (dcN: int) (dcHosts: int) (By: "dropCount list")

definition netnsTop :: "Sample list \<Rightarrow> int" where
  "netnsTop hs = fold (\<lambda>s tp. max tp (NetnsSampled s)) hs 0"

definition netnsOk :: "int \<Rightarrow> Sample \<Rightarrow> bool" where
  "netnsOk tp s =
     (let want = if NetnsExpected s = 0 then tp else NetnsExpected s
      in Netns s \<noteq> None \<and> NetnsSampled s > 0 \<and> NetnsSampled s = want)"

text \<open>The counters of a pointer that may be nil; they are only read on samples that have it.\<close>

definition nsVal :: "(NetSample \<Rightarrow> int) \<Rightarrow> Sample \<Rightarrow> int" where
  "nsVal f s = (case Netns s of None \<Rightarrow> 0 | Some n \<Rightarrow> f n)"

definition arpVal :: "(ARPSample \<Rightarrow> int) \<Rightarrow> Sample \<Rightarrow> int" where
  "arpVal f s = (case ARP s of None \<Rightarrow> 0 | Some a \<Rightarrow> f a)"

definition netnsHost :: "Sample list \<Rightarrow> int \<times> int \<times> (string, int) gomap \<Rightarrow> int \<times> int \<times> (string, int) gomap" where
  "netnsHost hs acc = (case acc of (qdisc, rcvbuf, gaps) \<Rightarrow>
     if \<not> list_ex hasNetns hs then (qdisc, rcvbuf, gaps)
     else let ok = measured hs (netnsOk (netnsTop hs))
          in (qdisc + increase hs ok (nsVal QdiscDrops), rcvbuf + increase hs ok (nsVal UDPRcvbufErrors),
              if covered ok then gaps else gap ''netns'' 1 gaps))"

definition netnsDrops :: "Sample list list \<Rightarrow> nat \<Rightarrow> (string, int) gomap \<Rightarrow> dropCount list \<times> (string, int) gomap" where
  "netnsDrops live absent gaps =
     (if \<not> list_ex (list_ex hasNetns) live then ([], gaps)
      else let noNetns = length (filter (\<lambda>hs. \<not> list_ex hasNetns hs) live);
               (qdisc, rcvbuf, gaps) = fold netnsHost live (0, 0, gap ''netns'' (noNetns + absent) gaps)
           in ([DropCount ''netem'' qdisc 0 [], DropCount ''namespace UDP receive buffer'' rcvbuf 0 []], gaps))"

definition arpHost :: "Sample list \<Rightarrow> int \<times> (string, int) gomap \<Rightarrow> int \<times> (string, int) gomap" where
  "arpHost hs acc = (case acc of (arp, gaps) \<Rightarrow>
     if \<not> list_ex hasARP hs then (arp, gaps)
     else let ok = measured hs hasARP
          in (arp + increase hs ok (arpVal UnresolvedDiscards) + increase hs ok (arpVal TableFulls),
              if covered ok then gaps else gap ''ARP'' 1 gaps))"

definition arpDrops :: "Sample list list \<Rightarrow> nat \<Rightarrow> (string, int) gomap \<Rightarrow> dropCount list \<times> (string, int) gomap" where
  "arpDrops live absent gaps =
     (if \<not> list_ex (list_ex hasARP) live then ([], gaps)
      else let noARP = length (filter (\<lambda>hs. \<not> list_ex hasARP hs) live);
               (arp, gaps) = fold arpHost live (0, gap ''ARP'' (noARP + absent) gaps)
           in ([DropCount ''ARP'' arp 0 []], gaps))"

definition enaCounters :: "(string \<times> (ENASample \<Rightarrow> int)) list" where
  "enaCounters = [(''pps'', PPSAllowanceExceeded), (''bw_in'', BWInAllowanceExceeded), (''bw_out'', BWOutAllowanceExceeded),
     (''conntrack'', ConntrackAllowanceExceeded), (''linklocal'', LinklocalAllowanceExceeded)]"

definition enaStep :: "Sample list \<Rightarrow> int \<times> int list \<times> (string, int) gomap \<Rightarrow> int \<times> int list \<times> (string, int) gomap" where
  "enaStep hs acc = (case acc of (n, by, gaps) \<Rightarrow>
     if \<not> enaHost hs then (n, by, gaps)
     else let ok = measured hs hasENA;
              ns = map (\<lambda>(_, v). increase hs ok (\<lambda>s. v (sENA s))) enaCounters
          in (n + sum_list ns, map2 (+) by ns, if covered ok then gaps else gap ''ENA'' 1 gaps))"

definition enaDrops :: "Sample list list \<Rightarrow> nat \<Rightarrow> (string, int) gomap \<Rightarrow> dropCount list \<times> (string, int) gomap" where
  "enaDrops live absent gaps =
     (if \<not> list_ex enaHost live then ([], gaps)
      else let (n, by, gaps) = fold enaStep live (0, map (\<lambda>_. 0) enaCounters, gap ''ENA'' absent gaps)
           in ([DropCount ''ENA allowance'' n 0 (map2 (\<lambda>(w, _) b. DropCount w b 0 []) enaCounters by)], gaps))"

definition udpHost :: "Sample list \<Rightarrow> int \<times> int \<Rightarrow> int \<times> int" where
  "udpHost hs acc = (case acc of (n, h) \<Rightarrow>
     let x = increase hs (measured hs (\<lambda>_. True)) hostRcvbufErrors
     in if x > 0 then (n + x, h + 1) else (n, h))"

definition udpDrops :: "Sample list list \<Rightarrow> dropCount" where
  "udpDrops live = (case fold udpHost live (0, 0) of (n, h) \<Rightarrow> DropCount ''host UDP receive buffer'' n h [])"

definition hostDrops :: "Sample list list \<Rightarrow> dropCount list \<times> (string, int) gomap" where
  "hostDrops hosts =
     (let live = filter (\<lambda>hs. hs \<noteq> []) hosts; absent = length (filter (\<lambda>hs. hs = []) hosts);
          (netns, gaps) = netnsDrops live absent [];
          (arp, gaps) = arpDrops live absent gaps;
          (ena, gaps) = enaDrops live absent gaps
      in (netns @ arp @ ena @ [udpDrops live], gaps))"

section \<open>The window and the verdict\<close>

text \<open>A sample after the stop is kept only when it closes the interval that crosses it.\<close>

definition upToStop1 :: "int \<Rightarrow> Sample list \<Rightarrow> Sample list" where
  "upToStop1 stop hs =
     (let k = sortSearch (length hs) (\<lambda>j. AtMs (hs ! j) > stop)
      in take (if 0 < k \<and> k < length hs \<and> AtMs (hs ! (k - 1)) < stop then k + 1 else k) hs)"

definition upToStop :: "Sample list list \<Rightarrow> int \<Rightarrow> Sample list list" where
  "upToStop hosts stop = map (upToStop1 stop) hosts"

fun joinWith :: "string \<Rightarrow> string list \<Rightarrow> string" where
  "joinWith sep [] = []"
| "joinWith sep [w] = w"
| "joinWith sep (w # ws) = w @ sep @ joinWith sep ws"

definition dropString :: "dropCount \<Rightarrow> string" where
  "dropString c =
     (let by = map (\<lambda>b. What b @ '' '' @ Itoa (dcN b)) (filter (\<lambda>b. dcN b > 0) (By c))
      in What c @ '' '' @ Itoa (dcN c) @ (if by = [] then [] else '' ('' @ joinWith '', '' by @ '')''))"

definition dropLine :: "dropCount list \<Rightarrow> (string, int) gomap \<Rightarrow> string \<Rightarrow> string" where
  "dropLine cats gaps w =
     (if length cats = 1 then
        (if dcN (cats ! 0) > 0
         then ''UDP receive-buffer drops'' @ w @ '': '' @ Itoa (dcN (cats ! 0)) @ '' on '' @ Itoa (dcHosts (cats ! 0))
              @ '' hosts (host saturation; treat timings with care)''
         else ''no UDP receive-buffer drops'' @ w)
      else
        let all = sum_list (map dcN cats);
            line = (if all > 0 then Itoa all @ '' packet drops'' @ w @ '' (treat timings with care): '' else ''no packet drops'' @ w @ '': '')
              @ joinWith '', '' (map dropString cats)
        in if gaps = [] then line
           else let line = line @ ''; not measured throughout: ''
                      @ joinWith '', '' (map (\<lambda>src. src @ '' on '' @ Itoa (mget 0 gaps src) @ '' hosts'') (sort (map fst gaps)))
                in if all = 0 then ''insufficient coverage, '' @ line else line)"

text \<open>
  What the counters rose after the stop: the categories of the whole series less those of the window,
  with their total.
\<close>

definition catOf :: "dropCount list \<Rightarrow> string \<Rightarrow> dropCount" where
  "catOf cats w = (case find (\<lambda>c. What c = w) (rev cats) of None \<Rightarrow> DropCount [] 0 0 [] | Some c \<Rightarrow> c)"

definition lateBy :: "dropCount list \<Rightarrow> dropCount list \<Rightarrow> dropCount list" where
  "lateBy bs ws = map (\<lambda>(i, b). if i < length ws then DropCount (What b) (dcN b - dcN (ws ! i)) (dcHosts b) (By b) else b) (enumerate 0 bs)"

definition lateDrop :: "dropCount list \<Rightarrow> dropCount \<Rightarrow> dropCount" where
  "lateDrop cats c = (let w = catOf cats (What c) in DropCount (What c) (dcN c - dcN w) 0 (lateBy (By c) (By w)))"

definition lateDrops :: "dropCount list \<Rightarrow> dropCount list \<Rightarrow> int \<times> string list" where
  "lateDrops cats all =
     (let ds = filter (\<lambda>d. dcN d > 0) (map (lateDrop cats) all) in (sum_list (map dcN ds), map dropString ds))"

definition windowDropLine :: "Sample list list \<Rightarrow> int \<Rightarrow> string" where
  "windowDropLine hosts stop =
     (if stop \<le> 0 then (case hostDrops hosts of (cats, gaps) \<Rightarrow> dropLine cats gaps '''')
      else let (cats, gaps) = hostDrops (upToStop hosts stop);
               line = dropLine cats gaps '' up to the stop'';
               (late, parts) = lateDrops cats (fst (hostDrops hosts))
           in if late > 0
              then line @ ''; '' @ Itoa late @ '' after the stop (trace collection), not counted: '' @ joinWith '', '' parts
              else line)"

section \<open>Rises\<close>

fun rises :: "int list \<Rightarrow> int" where
  "rises [] = 0"
| "rises [x] = 0"
| "rises (x # y # xs) = (if y \<ge> x then y - x else y) + rises (y # xs)"

lemma increaseLoop_rises:
  "increaseLoop v tot (Some p) (zip hs (map f hs)) = tot + rises (p # map v (filter f hs))"
  by (induction hs arbitrary: tot p) (auto simp: Let_def)

lemma increaseLoop_first:
  "increaseLoop v tot None (zip hs (map f hs)) = tot + rises (map v (filter f hs))"
  by (induction hs arbitrary: tot) (auto simp: Let_def increaseLoop_rises)

lemma increase_rises: "increase hs (measured hs f) v = rises (map v (filter f hs))"
  by (simp add: increase_def measured_def increaseLoop_first)

lemma rises_nonneg: "\<forall>x \<in> set xs. 0 \<le> x \<Longrightarrow> 0 \<le> rises xs"
  by (induction xs rule: rises.induct) auto

lemma rises_append: "\<forall>x \<in> set (xs @ ys). 0 \<le> x \<Longrightarrow> rises xs \<le> rises (xs @ ys)"
proof (induction xs rule: rises.induct)
  case 1
  then show ?case using rises_nonneg [of ys] by simp
next
  case (2 x)
  then show ?case using rises_nonneg [of "[x] @ ys"] by simp
qed simp

lemma rises_sorted: "xs \<noteq> [] \<Longrightarrow> sorted xs \<Longrightarrow> rises xs = xs ! (length xs - 1) - xs ! 0"
  by (induction xs rule: rises.induct) auto

text \<open>The rise of a counter over the samples that measured it.\<close>

definition riseOf :: "(Sample \<Rightarrow> bool) \<Rightarrow> (Sample \<Rightarrow> int) \<Rightarrow> Sample list \<Rightarrow> int" where
  "riseOf f v hs = rises (map v (filter f hs))"

lemma riseOf_none: "\<not> list_ex f hs \<Longrightarrow> riseOf f v hs = 0"
proof -
  assume "\<not> list_ex f hs"
  then have "filter f hs = []" by (auto simp: list_ex_iff filter_empty_conv)
  then show ?thesis by (simp add: riseOf_def)
qed

lemma riseOf_Nil [simp]: "riseOf f v [] = 0"
  by (simp add: riseOf_def)

lemma netnsOk_hasNetns: "\<not> list_ex hasNetns hs \<Longrightarrow> \<not> list_ex (netnsOk t) hs"
  by (auto simp: list_ex_iff netnsOk_def hasNetns_def Let_def)

definition netnsRise :: "(NetSample \<Rightarrow> int) \<Rightarrow> Sample list \<Rightarrow> int" where
  "netnsRise v hs = riseOf (netnsOk (netnsTop hs)) (nsVal v) hs"

definition arpRise :: "Sample list \<Rightarrow> int" where
  "arpRise hs = riseOf hasARP (arpVal UnresolvedDiscards) hs + riseOf hasARP (arpVal TableFulls) hs"

definition enaRise :: "Sample list \<Rightarrow> int" where
  "enaRise hs = (\<Sum>(_, v) \<leftarrow> enaCounters. riseOf hasENA (\<lambda>s. v (sENA s)) hs)"

definition udpRise :: "Sample list \<Rightarrow> int" where
  "udpRise hs = riseOf (\<lambda>_. True) hostRcvbufErrors hs"

definition netnsGap :: "Sample list \<Rightarrow> bool" where
  "netnsGap hs \<longleftrightarrow> \<not> covered (measured hs (netnsOk (netnsTop hs)))"

definition arpGap :: "Sample list \<Rightarrow> bool" where
  "arpGap hs \<longleftrightarrow> \<not> covered (measured hs hasARP)"

definition enaGap :: "Sample list \<Rightarrow> bool" where
  "enaGap hs \<longleftrightarrow> hs = [] \<or> enaHost hs \<and> \<not> covered (measured hs hasENA)"

lemma covered_ex: "covered (measured hs f) \<Longrightarrow> list_ex f hs"
  by (cases hs) (auto simp: covered_def measured_def)

lemma Nil_gaps [simp]: "netnsGap []" "arpGap []" "enaGap []"
  by (simp_all add: netnsGap_def arpGap_def enaGap_def covered_def measured_def)

lemma no_netns: "\<not> list_ex hasNetns hs \<Longrightarrow> netnsGap hs \<and> netnsRise v hs = 0"
  using covered_ex netnsOk_hasNetns riseOf_none by (auto simp: netnsGap_def netnsRise_def)

lemma no_arp: "\<not> list_ex hasARP hs \<Longrightarrow> arpGap hs \<and> arpRise hs = 0"
  using covered_ex riseOf_none by (auto simp: arpGap_def arpRise_def)

lemma no_ena: "\<not> enaHost hs \<Longrightarrow> enaRise hs = 0"
  using riseOf_none by (auto simp: enaHost_def enaRise_def enaCounters_def)

lemma mget_gap [simp]: "mget 0 (gap s n g) src = mget 0 g src + (if src = s then int n else 0)"
  by (simp add: gap_def)

section \<open>Each category is the sum of its rises\<close>

lemma netnsHost_fold:
  "fst (fold netnsHost live (q, r, g)) = q + (\<Sum>hs \<leftarrow> live. netnsRise QdiscDrops hs)
   \<and> fst (snd (fold netnsHost live (q, r, g))) = r + (\<Sum>hs \<leftarrow> live. netnsRise UDPRcvbufErrors hs)
   \<and> mget 0 (snd (snd (fold netnsHost live (q, r, g)))) src
       = mget 0 g src + (if src = ''netns'' then int (length (filter (\<lambda>hs. list_ex hasNetns hs \<and> netnsGap hs) live)) else 0)"
proof (induction live arbitrary: q r g)
  case (Cons hs live)
  have "netnsHost hs (q, r, g) = (q + netnsRise QdiscDrops hs, r + netnsRise UDPRcvbufErrors hs,
      if list_ex hasNetns hs \<and> netnsGap hs then gap ''netns'' 1 g else g)"
    using no_netns [of hs] by (simp add: netnsHost_def Let_def increase_rises netnsRise_def riseOf_def netnsGap_def)
  then show ?case using Cons.IH by simp
qed simp

lemma arpHost_fold:
  "fst (fold arpHost live (n, g)) = n + (\<Sum>hs \<leftarrow> live. arpRise hs)
   \<and> mget 0 (snd (fold arpHost live (n, g))) src
       = mget 0 g src + (if src = ''ARP'' then int (length (filter (\<lambda>hs. list_ex hasARP hs \<and> arpGap hs) live)) else 0)"
proof (induction live arbitrary: n g)
  case (Cons hs live)
  have "arpHost hs (n, g) = (n + arpRise hs, if list_ex hasARP hs \<and> arpGap hs then gap ''ARP'' 1 g else g)"
    using no_arp [of hs] by (simp add: arpHost_def Let_def increase_rises arpRise_def riseOf_def arpGap_def)
  then show ?case using Cons.IH by simp
qed simp

lemma enaStep_fold:
  "fst (fold enaStep live (n, by, g)) = n + (\<Sum>hs \<leftarrow> live. enaRise hs)
   \<and> mget 0 (snd (snd (fold enaStep live (n, by, g)))) src
       = mget 0 g src + (if src = ''ENA'' then int (length (filter (\<lambda>hs. hs \<noteq> [] \<and> enaGap hs) live)) else 0)"
  if "\<forall>hs \<in> set live. hs \<noteq> []"
  using that
proof (induction live arbitrary: n "by" g)
  case (Cons hs live)
  have hs: "hs \<noteq> []" using Cons.prems by simp
  have "\<exists>bs. enaStep hs (n, by, g) = (n + enaRise hs, bs, if enaGap hs then gap ''ENA'' 1 g else g)"
    using no_ena [of hs] hs
    by (auto simp: enaStep_def Let_def increase_rises enaRise_def riseOf_def enaGap_def case_prod_beta)
  then obtain bs where s: "enaStep hs (n, by, g) = (n + enaRise hs, bs, if enaGap hs then gap ''ENA'' 1 g else g)" by blast
  then show ?case using Cons.IH [of "n + enaRise hs" bs "if enaGap hs then gap ''ENA'' 1 g else g"] Cons.prems hs by auto
qed simp

lemma udpHost_fold:
  "\<forall>hs \<in> set live. 0 \<le> udpRise hs \<Longrightarrow> fst (fold udpHost live (n, h)) = n + (\<Sum>hs \<leftarrow> live. udpRise hs)"
proof (induction live arbitrary: n h)
  case (Cons hs live)
  then show ?case by (auto simp: udpHost_def increase_rises Let_def udpRise_def riseOf_def)
qed simp

definition categories :: "string list" where
  "categories = [''netem'', ''namespace UDP receive buffer'', ''ARP'', ''ENA allowance'', ''host UDP receive buffer'']"

text \<open>The count of a category, zero when the verdict does not list it.\<close>

definition catRise :: "string \<Rightarrow> Sample list \<Rightarrow> int" where
  "catRise w hs =
     (if w = ''netem'' then netnsRise QdiscDrops hs
      else if w = ''namespace UDP receive buffer'' then netnsRise UDPRcvbufErrors hs
      else if w = ''ARP'' then arpRise hs else if w = ''ENA allowance'' then enaRise hs
      else if w = ''host UDP receive buffer'' then udpRise hs else 0)"

definition catSum :: "string \<Rightarrow> Sample list list \<Rightarrow> int" where
  "catSum w hosts = (\<Sum>hs \<leftarrow> hosts. catRise w hs)"

lemma netnsTop_Nil [simp]: "netnsRise v [] = 0" "arpRise [] = 0" "enaRise [] = 0" "udpRise [] = 0"
  by (simp_all add: netnsRise_def arpRise_def enaRise_def udpRise_def enaCounters_def)

lemma sum_live: "f [] = 0 \<Longrightarrow> (\<Sum>hs \<leftarrow> filter (\<lambda>hs. hs \<noteq> []) hosts. f hs) = (\<Sum>hs \<leftarrow> hosts. f hs :: int)"
  by (induction hosts) auto

lemma sum_zero: "\<forall>x \<in> set xs. f x = 0 \<Longrightarrow> (\<Sum>x \<leftarrow> xs. f x) = (0 :: int)"
  by (induction xs) auto

lemma live_ex: "f [] = False \<Longrightarrow> list_ex f (filter (\<lambda>hs. hs \<noteq> []) hosts) \<longleftrightarrow> list_ex f hosts"
  by (induction hosts) auto

lemma length_filter_cases:
  assumes "\<And>x. \<not> P x \<Longrightarrow> Q x"
  shows "length (filter (\<lambda>x. \<not> P x) xs) + length (filter (\<lambda>x. P x \<and> Q x) xs) = length (filter Q xs)"
  using assms by (induction xs) auto

lemma filter_live: "g [] \<Longrightarrow> length (filter g (filter (\<lambda>hs. hs \<noteq> []) hosts)) + length (filter (\<lambda>hs. hs = []) hosts) = length (filter g hosts)"
  by (induction hosts) auto

lemma netnsDrops_spec:
  assumes "live = filter (\<lambda>hs. hs \<noteq> []) hosts" "absent = length (filter (\<lambda>hs. hs = []) hosts)"
  shows "fst (netnsDrops live absent g) = (if list_ex (list_ex hasNetns) hosts
      then [DropCount ''netem'' (catSum ''netem'' hosts) 0 [],
            DropCount ''namespace UDP receive buffer'' (catSum ''namespace UDP receive buffer'' hosts) 0 []] else [])"
    and "mget 0 (snd (netnsDrops live absent g)) src = mget 0 g src
      + (if src = ''netns'' \<and> list_ex (list_ex hasNetns) hosts then int (length (filter netnsGap hosts)) else 0)"
    and "\<not> list_ex (list_ex hasNetns) hosts \<Longrightarrow> catSum ''netem'' hosts = 0 \<and> catSum ''namespace UDP receive buffer'' hosts = 0"
proof -
  have ex: "list_ex (list_ex hasNetns) live \<longleftrightarrow> list_ex (list_ex hasNetns) hosts"
    unfolding assms(1) by (rule live_ex) simp
  have sums: "(\<Sum>hs \<leftarrow> live. netnsRise v hs) = (\<Sum>hs \<leftarrow> hosts. netnsRise v hs)" for v
    unfolding assms(1) by (rule sum_live) simp
  have "length (filter (\<lambda>hs. \<not> list_ex hasNetns hs) live) + length (filter (\<lambda>hs. list_ex hasNetns hs \<and> netnsGap hs) live)
      = length (filter netnsGap live)"
    using no_netns by (intro length_filter_cases) auto
  moreover have "length (filter netnsGap live) + absent = length (filter netnsGap hosts)"
    unfolding assms by (rule filter_live) simp
  ultimately have n: "length (filter (\<lambda>hs. \<not> list_ex hasNetns hs) live) + absent
      + length (filter (\<lambda>hs. list_ex hasNetns hs \<and> netnsGap hs) live) = length (filter netnsGap hosts)" by linarith
  define g0 where "g0 = gap ''netns'' (length (filter (\<lambda>hs. \<not> list_ex hasNetns hs) live) + absent) g"
  note F = netnsHost_fold [of live 0 0 g0]
  show "fst (netnsDrops live absent g) = (if list_ex (list_ex hasNetns) hosts
      then [DropCount ''netem'' (catSum ''netem'' hosts) 0 [],
            DropCount ''namespace UDP receive buffer'' (catSum ''namespace UDP receive buffer'' hosts) 0 []] else [])"
    using F sums by (simp add: netnsDrops_def ex case_prod_beta catSum_def catRise_def flip: g0_def)
  show "mget 0 (snd (netnsDrops live absent g)) src = mget 0 g src
      + (if src = ''netns'' \<and> list_ex (list_ex hasNetns) hosts then int (length (filter netnsGap hosts)) else 0)"
    using F n by (simp add: netnsDrops_def ex case_prod_beta flip: g0_def) (simp add: g0_def)
  show "\<not> list_ex (list_ex hasNetns) hosts \<Longrightarrow> catSum ''netem'' hosts = 0 \<and> catSum ''namespace UDP receive buffer'' hosts = 0"
    using no_netns by (auto simp: catSum_def catRise_def list_ex_iff intro!: sum_zero)
qed

lemma arpDrops_spec:
  assumes "live = filter (\<lambda>hs. hs \<noteq> []) hosts" "absent = length (filter (\<lambda>hs. hs = []) hosts)"
  shows "fst (arpDrops live absent g) = (if list_ex (list_ex hasARP) hosts then [DropCount ''ARP'' (catSum ''ARP'' hosts) 0 []] else [])"
    and "mget 0 (snd (arpDrops live absent g)) src = mget 0 g src
      + (if src = ''ARP'' \<and> list_ex (list_ex hasARP) hosts then int (length (filter arpGap hosts)) else 0)"
    and "\<not> list_ex (list_ex hasARP) hosts \<Longrightarrow> catSum ''ARP'' hosts = 0"
proof -
  have ex: "list_ex (list_ex hasARP) live \<longleftrightarrow> list_ex (list_ex hasARP) hosts"
    unfolding assms(1) by (rule live_ex) simp
  have sums: "(\<Sum>hs \<leftarrow> live. arpRise hs) = (\<Sum>hs \<leftarrow> hosts. arpRise hs)"
    unfolding assms(1) by (rule sum_live) simp
  have "length (filter (\<lambda>hs. \<not> list_ex hasARP hs) live) + length (filter (\<lambda>hs. list_ex hasARP hs \<and> arpGap hs) live)
      = length (filter arpGap live)"
    using no_arp by (intro length_filter_cases) auto
  moreover have "length (filter arpGap live) + absent = length (filter arpGap hosts)"
    unfolding assms by (rule filter_live) simp
  ultimately have n: "length (filter (\<lambda>hs. \<not> list_ex hasARP hs) live) + absent
      + length (filter (\<lambda>hs. list_ex hasARP hs \<and> arpGap hs) live) = length (filter arpGap hosts)" by linarith
  define g0 where "g0 = gap ''ARP'' (length (filter (\<lambda>hs. \<not> list_ex hasARP hs) live) + absent) g"
  note F = arpHost_fold [of live 0 g0]
  show "fst (arpDrops live absent g) = (if list_ex (list_ex hasARP) hosts then [DropCount ''ARP'' (catSum ''ARP'' hosts) 0 []] else [])"
    using F sums by (simp add: arpDrops_def ex case_prod_beta catSum_def catRise_def flip: g0_def)
  show "mget 0 (snd (arpDrops live absent g)) src = mget 0 g src
      + (if src = ''ARP'' \<and> list_ex (list_ex hasARP) hosts then int (length (filter arpGap hosts)) else 0)"
    using F n by (simp add: arpDrops_def ex case_prod_beta flip: g0_def) (simp add: g0_def)
  show "\<not> list_ex (list_ex hasARP) hosts \<Longrightarrow> catSum ''ARP'' hosts = 0"
    using no_arp by (auto simp: catSum_def catRise_def list_ex_iff intro!: sum_zero)
qed

lemma enaDrops_spec:
  assumes "live = filter (\<lambda>hs. hs \<noteq> []) hosts" "absent = length (filter (\<lambda>hs. hs = []) hosts)"
  shows "\<exists>bs. fst (enaDrops live absent g) = (if list_ex enaHost live then [DropCount ''ENA allowance'' (catSum ''ENA allowance'' hosts) 0 bs] else [])"
    and "mget 0 (snd (enaDrops live absent g)) src = mget 0 g src
      + (if src = ''ENA'' \<and> list_ex enaHost live then int (length (filter enaGap hosts)) else 0)"
    and "\<not> list_ex enaHost live \<Longrightarrow> catSum ''ENA allowance'' hosts = 0"
proof -
  have sums: "(\<Sum>hs \<leftarrow> live. enaRise hs) = (\<Sum>hs \<leftarrow> hosts. enaRise hs)"
    unfolding assms(1) by (rule sum_live) simp
  have ne: "\<forall>hs \<in> set live. hs \<noteq> []" using assms(1) by simp
  have "filter (\<lambda>hs. hs \<noteq> [] \<and> enaGap hs) live = filter enaGap live" using ne by (intro filter_cong) auto
  moreover have "length (filter enaGap live) + absent = length (filter enaGap hosts)"
    unfolding assms by (rule filter_live) simp
  ultimately have n: "int absent + int (length (filter (\<lambda>hs. hs \<noteq> [] \<and> enaGap hs) live)) = int (length (filter enaGap hosts))"
    by simp
  note F = enaStep_fold [OF ne, of 0 "map (\<lambda>_. 0) enaCounters" "gap ''ENA'' absent g"]
  show "\<exists>bs. fst (enaDrops live absent g) = (if list_ex enaHost live then [DropCount ''ENA allowance'' (catSum ''ENA allowance'' hosts) 0 bs] else [])"
    using F sums by (simp add: enaDrops_def case_prod_beta catSum_def catRise_def)
  show "mget 0 (snd (enaDrops live absent g)) src = mget 0 g src
      + (if src = ''ENA'' \<and> list_ex enaHost live then int (length (filter enaGap hosts)) else 0)"
    using F n by (simp add: enaDrops_def case_prod_beta)
  show "\<not> list_ex enaHost live \<Longrightarrow> catSum ''ENA allowance'' hosts = 0"
  proof -
    assume "\<not> list_ex enaHost live"
    then have "(\<Sum>hs \<leftarrow> live. enaRise hs) = 0" using no_ena by (auto simp: list_ex_iff intro!: sum_zero)
    then show ?thesis using sums by (simp add: catSum_def catRise_def)
  qed
qed

text \<open>
  Counters of a run are never negative. A sample that read namespaces normally says how many it expected, as
  \<open>sample\<close> records it; where it does not, the most namespaces any sample of the host read are expected.
\<close>

definition sampleOk :: "Sample \<Rightarrow> bool" where
  "sampleOk s \<longleftrightarrow> 0 \<le> hostRcvbufErrors s
     \<and> (\<forall>n. Netns s = Some n \<longrightarrow> 0 \<le> QdiscDrops n \<and> 0 \<le> UDPRcvbufErrors n)
     \<and> (\<forall>a. ARP s = Some a \<longrightarrow> 0 \<le> UnresolvedDiscards a \<and> 0 \<le> TableFulls a)
     \<and> (\<forall>v \<in> set (map snd enaCounters). 0 \<le> v (sENA s))"

definition expectedOk :: "Sample \<Rightarrow> bool" where
  "expectedOk s \<longleftrightarrow> (Netns s \<noteq> None \<longrightarrow> NetnsExpected s > 0)"

lemma sampleOk_vals:
  assumes "sampleOk s"
  shows "0 \<le> nsVal QdiscDrops s" "0 \<le> nsVal UDPRcvbufErrors s" "0 \<le> arpVal UnresolvedDiscards s"
    "0 \<le> arpVal TableFulls s" "0 \<le> hostRcvbufErrors s" "(w, v) \<in> set enaCounters \<Longrightarrow> 0 \<le> v (sENA s)"
  using assms by (auto simp: sampleOk_def nsVal_def arpVal_def split: option.splits)

lemma expectedOk_any: "expectedOk s \<Longrightarrow> netnsOk t s = netnsOk u s"
  by (auto simp: expectedOk_def netnsOk_def Let_def)

lemma riseOf_nonneg: "\<forall>s \<in> set hs. 0 \<le> v s \<Longrightarrow> 0 \<le> riseOf f v hs"
  unfolding riseOf_def by (rule rises_nonneg) auto

lemma riseOf_take: "\<forall>s \<in> set hs. 0 \<le> v s \<Longrightarrow> riseOf f v (take k hs) \<le> riseOf f v hs"
proof -
  assume v: "\<forall>s \<in> set hs. 0 \<le> v s"
  have "map v (filter f hs) = map v (filter f (take k hs)) @ map v (filter f (drop k hs))"
    by (metis append_take_drop_id filter_append map_append)
  moreover have "\<forall>x \<in> set (map v (filter f hs)). 0 \<le> x" using v by auto
  ultimately show ?thesis unfolding riseOf_def by (metis rises_append)
qed

lemma netnsRise_any:
  assumes "\<forall>s \<in> set hs. expectedOk s"
  shows "netnsRise v hs = riseOf (netnsOk t) (nsVal v) hs"
proof -
  have "filter (netnsOk (netnsTop hs)) hs = filter (netnsOk t) hs"
    using assms expectedOk_any by (intro filter_cong) auto
  then show ?thesis by (simp add: netnsRise_def riseOf_def)
qed

lemma enaRise_unfold:
  "enaRise hs = riseOf hasENA (\<lambda>s. PPSAllowanceExceeded (sENA s)) hs + (riseOf hasENA (\<lambda>s. BWInAllowanceExceeded (sENA s)) hs
    + (riseOf hasENA (\<lambda>s. BWOutAllowanceExceeded (sENA s)) hs + (riseOf hasENA (\<lambda>s. ConntrackAllowanceExceeded (sENA s)) hs
    + riseOf hasENA (\<lambda>s. LinklocalAllowanceExceeded (sENA s)) hs)))"
  by (simp add: enaRise_def enaCounters_def)

lemma sampleOk_ena:
  "sampleOk s \<Longrightarrow> 0 \<le> PPSAllowanceExceeded (sENA s) \<and> 0 \<le> BWInAllowanceExceeded (sENA s)
    \<and> 0 \<le> BWOutAllowanceExceeded (sENA s) \<and> 0 \<le> ConntrackAllowanceExceeded (sENA s) \<and> 0 \<le> LinklocalAllowanceExceeded (sENA s)"
  by (simp add: sampleOk_def enaCounters_def)

lemma catRise_take:
  assumes "\<forall>s \<in> set hs. sampleOk s" and expected: "\<forall>s \<in> set hs. expectedOk s"
  shows "0 \<le> catRise w (take k hs) \<and> catRise w (take k hs) \<le> catRise w hs"
proof -
  have ok: "\<forall>s \<in> set (take k hs). expectedOk s" using expected by (meson in_set_takeD)
  have 1: "0 \<le> riseOf f v (take k hs) \<and> riseOf f v (take k hs) \<le> riseOf f v hs" if "\<forall>s \<in> set hs. 0 \<le> v s" for f v
    using that riseOf_nonneg [of "take k hs" v f] riseOf_take [of hs v f k] by (meson in_set_takeD)
  have ns: "netnsRise v (take k hs) = riseOf (netnsOk 0) (nsVal v) (take k hs)" "netnsRise v hs = riseOf (netnsOk 0) (nsVal v) hs" for v
    using netnsRise_any expected ok by auto
  have "0 \<le> netnsRise QdiscDrops (take k hs) \<and> netnsRise QdiscDrops (take k hs) \<le> netnsRise QdiscDrops hs"
    unfolding ns using assms sampleOk_vals by (intro 1) auto
  moreover have "0 \<le> netnsRise UDPRcvbufErrors (take k hs) \<and> netnsRise UDPRcvbufErrors (take k hs) \<le> netnsRise UDPRcvbufErrors hs"
    unfolding ns using assms sampleOk_vals by (intro 1) auto
  moreover have "0 \<le> arpRise (take k hs) \<and> arpRise (take k hs) \<le> arpRise hs"
    using 1 [of "arpVal UnresolvedDiscards" hasARP] 1 [of "arpVal TableFulls" hasARP] assms sampleOk_vals(3,4)
    unfolding arpRise_def by (meson add_mono add_nonneg_nonneg)
  moreover have "0 \<le> enaRise (take k hs) \<and> enaRise (take k hs) \<le> enaRise hs"
    unfolding enaRise_unfold using assms sampleOk_ena by (intro conjI add_nonneg_nonneg add_mono 1 [THEN conjunct1] 1 [THEN conjunct2]) auto
  moreover have "0 \<le> udpRise (take k hs) \<and> udpRise (take k hs) \<le> udpRise hs"
    unfolding udpRise_def using assms sampleOk_vals by (intro 1) auto
  ultimately show ?thesis by (simp add: catRise_def)
qed

definition hostsOk :: "Sample list list \<Rightarrow> bool" where
  "hostsOk hosts \<longleftrightarrow> (\<forall>hs \<in> set hosts. \<forall>s \<in> set hs. sampleOk s)"

definition hostsExpected :: "Sample list list \<Rightarrow> bool" where
  "hostsExpected hosts \<longleftrightarrow> (\<forall>hs \<in> set hosts. \<forall>s \<in> set hs. expectedOk s)"

lemma upToStop1_take: "\<exists>k. upToStop1 stop hs = take k hs"
  by (auto simp: upToStop1_def Let_def)

lemma upToStop_ok: "hostsOk hosts \<Longrightarrow> hostsOk (upToStop hosts stop)"
  using upToStop1_take unfolding hostsOk_def upToStop_def by (metis (no_types, lifting) imageE in_set_takeD list.set_map)

lemma catSum_window:
  assumes "hostsOk hosts" "hostsExpected hosts"
  shows "0 \<le> catSum w (upToStop hosts stop) \<and> catSum w (upToStop hosts stop) \<le> catSum w hosts"
proof -
  have each: "0 \<le> catRise w (upToStop1 stop hs) \<and> catRise w (upToStop1 stop hs) \<le> catRise w hs" if "hs \<in> set hosts" for hs
    using upToStop1_take [of stop hs] catRise_take assms that by (metis hostsOk_def hostsExpected_def)
  have "0 \<le> (\<Sum>hs \<leftarrow> hosts. catRise w (upToStop1 stop hs))" using each by (intro sum_list_nonneg) auto
  moreover have "(\<Sum>hs \<leftarrow> hosts. catRise w (upToStop1 stop hs)) \<le> (\<Sum>hs \<leftarrow> hosts. catRise w hs)"
    using each by (intro sum_list_mono) auto
  ultimately show ?thesis by (simp add: catSum_def upToStop_def comp_def)
qed

lemma udpDrops_spec:
  assumes "hostsOk hosts" "live = filter (\<lambda>hs. hs \<noteq> []) hosts"
  shows "\<exists>h. udpDrops live = DropCount ''host UDP receive buffer'' (catSum ''host UDP receive buffer'' hosts) h []"
proof -
  have "0 \<le> udpRise hs" if "hs \<in> set live" for hs
    using that assms sampleOk_vals(5) unfolding udpRise_def hostsOk_def by (intro riseOf_nonneg) auto
  then have "fst (fold udpHost live (0, 0)) = (\<Sum>hs \<leftarrow> live. udpRise hs)" using udpHost_fold [of live 0 0] by simp
  also have "\<dots> = (\<Sum>hs \<leftarrow> hosts. udpRise hs)" unfolding assms(2) by (rule sum_live) simp
  finally show ?thesis by (simp add: udpDrops_def case_prod_beta catSum_def catRise_def)
qed

lemma hostDrops_split:
  assumes "hostsOk hosts"
  obtains n a e u where "fst (hostDrops hosts) = n @ a @ e @ [u]"
    and "n = [] \<and> catSum ''netem'' hosts = 0 \<and> catSum ''namespace UDP receive buffer'' hosts = 0
      \<or> n = [DropCount ''netem'' (catSum ''netem'' hosts) 0 [],
             DropCount ''namespace UDP receive buffer'' (catSum ''namespace UDP receive buffer'' hosts) 0 []]"
    and "a = [] \<and> catSum ''ARP'' hosts = 0 \<or> a = [DropCount ''ARP'' (catSum ''ARP'' hosts) 0 []]"
    and "e = [] \<and> catSum ''ENA allowance'' hosts = 0 \<or> (\<exists>bs. e = [DropCount ''ENA allowance'' (catSum ''ENA allowance'' hosts) 0 bs])"
    and "\<exists>h. u = DropCount ''host UDP receive buffer'' (catSum ''host UDP receive buffer'' hosts) h []"
proof -
  define live where "live = filter (\<lambda>hs. hs \<noteq> []) hosts"
  define absent where "absent = length (filter (\<lambda>hs. hs = []) hosts)"
  define g1 where "g1 = snd (netnsDrops live absent [])"
  define g2 where "g2 = snd (arpDrops live absent g1)"
  have eq: "fst (hostDrops hosts) = fst (netnsDrops live absent []) @ fst (arpDrops live absent g1) @ fst (enaDrops live absent g2) @ [udpDrops live]"
    by (simp add: hostDrops_def Let_def case_prod_beta live_def absent_def g1_def g2_def)
  note N = netnsDrops_spec [OF live_def absent_def] and A = arpDrops_spec [OF live_def absent_def]
    and E = enaDrops_spec [OF live_def absent_def]
  show thesis
  proof (rule that [OF eq])
    show "\<exists>h. udpDrops live = DropCount ''host UDP receive buffer'' (catSum ''host UDP receive buffer'' hosts) h []"
      using udpDrops_spec [OF assms live_def] .
    show "fst (enaDrops live absent g2) = [] \<and> catSum ''ENA allowance'' hosts = 0
        \<or> (\<exists>bs. fst (enaDrops live absent g2) = [DropCount ''ENA allowance'' (catSum ''ENA allowance'' hosts) 0 bs])"
      using E(1) [of g2] E(3) by (cases "list_ex enaHost live") auto
    show "fst (arpDrops live absent g1) = [] \<and> catSum ''ARP'' hosts = 0 \<or> fst (arpDrops live absent g1) = [DropCount ''ARP'' (catSum ''ARP'' hosts) 0 []]"
      using A(1) [of g1] A(3) by auto
  qed (use N(1) [of "[]"] N(3) in auto)
qed

text \<open>A sum over the listed categories that only depends on the name is the sum over all of them.\<close>

lemma sum_listed:
  assumes "hostsOk hosts" "\<And>w. catSum w hosts = 0 \<Longrightarrow> f w = 0"
  shows "(\<Sum>c \<leftarrow> fst (hostDrops hosts). f (What c)) = (\<Sum>w \<leftarrow> categories. f w :: int)"
proof -
  obtain n a e u where S: "fst (hostDrops hosts) = n @ a @ e @ [u]"
    and n: "n = [] \<and> catSum ''netem'' hosts = 0 \<and> catSum ''namespace UDP receive buffer'' hosts = 0
      \<or> n = [DropCount ''netem'' (catSum ''netem'' hosts) 0 [],
             DropCount ''namespace UDP receive buffer'' (catSum ''namespace UDP receive buffer'' hosts) 0 []]"
    and a: "a = [] \<and> catSum ''ARP'' hosts = 0 \<or> a = [DropCount ''ARP'' (catSum ''ARP'' hosts) 0 []]"
    and e: "e = [] \<and> catSum ''ENA allowance'' hosts = 0 \<or> (\<exists>bs. e = [DropCount ''ENA allowance'' (catSum ''ENA allowance'' hosts) 0 bs])"
    and u: "\<exists>h. u = DropCount ''host UDP receive buffer'' (catSum ''host UDP receive buffer'' hosts) h []"
    using hostDrops_split [OF assms(1)] by blast
  have "(\<Sum>c \<leftarrow> n. f (What c)) = f ''netem'' + f ''namespace UDP receive buffer''" using n assms(2) by auto
  moreover have "(\<Sum>c \<leftarrow> a. f (What c)) = f ''ARP''" using a assms(2) by auto
  moreover have "(\<Sum>c \<leftarrow> e. f (What c)) = f ''ENA allowance''" using e assms(2) by auto
  moreover have "f (What u) = f ''host UDP receive buffer''" using u by auto
  ultimately show ?thesis unfolding S by (simp add: categories_def)
qed

lemma hostDrops_names:
  assumes "hostsOk hosts"
  shows "c \<in> set (fst (hostDrops hosts)) \<Longrightarrow> What c \<in> set categories \<and> dcN c = catSum (What c) hosts"
    and "w \<in> set categories \<Longrightarrow> w \<notin> What ` set (fst (hostDrops hosts)) \<Longrightarrow> catSum w hosts = 0"
proof -
  obtain n a e u where S: "fst (hostDrops hosts) = n @ a @ e @ [u]"
    and n: "n = [] \<and> catSum ''netem'' hosts = 0 \<and> catSum ''namespace UDP receive buffer'' hosts = 0
      \<or> n = [DropCount ''netem'' (catSum ''netem'' hosts) 0 [],
             DropCount ''namespace UDP receive buffer'' (catSum ''namespace UDP receive buffer'' hosts) 0 []]"
    and a: "a = [] \<and> catSum ''ARP'' hosts = 0 \<or> a = [DropCount ''ARP'' (catSum ''ARP'' hosts) 0 []]"
    and e: "e = [] \<and> catSum ''ENA allowance'' hosts = 0 \<or> (\<exists>bs. e = [DropCount ''ENA allowance'' (catSum ''ENA allowance'' hosts) 0 bs])"
    and u: "\<exists>h. u = DropCount ''host UDP receive buffer'' (catSum ''host UDP receive buffer'' hosts) h []"
    using hostDrops_split [OF assms(1)] by blast
  show "What c \<in> set categories \<and> dcN c = catSum (What c) hosts" if "c \<in> set (fst (hostDrops hosts))"
  proof -
    from that consider "c \<in> set n" | "c \<in> set a" | "c \<in> set e" | "c = u" unfolding S by auto
    then show ?thesis
    proof cases
      case 1
      then show ?thesis using n by (auto simp: categories_def)
    next
      case 2
      then show ?thesis using a by (auto simp: categories_def)
    next
      case 3
      then show ?thesis using e by (auto simp: categories_def)
    next
      case 4
      then show ?thesis using u by (auto simp: categories_def)
    qed
  qed
  show "catSum w hosts = 0" if w: "w \<in> set categories" and out: "w \<notin> What ` set (fst (hostDrops hosts))"
  proof -
    have o: "w \<notin> What ` set n" "w \<notin> What ` set a" "w \<notin> What ` set e" "w \<noteq> What u" using out unfolding S by auto
    have "w = ''netem'' \<or> w = ''namespace UDP receive buffer'' \<or> w = ''ARP'' \<or> w = ''ENA allowance''
        \<or> w = ''host UDP receive buffer''" using w by (simp only: categories_def list.set insert_iff empty_iff simp_thms)
    then show ?thesis
    proof (elim disjE)
      assume "w = ''netem''" then show ?thesis using o(1) n by auto
    next
      assume "w = ''namespace UDP receive buffer''" then show ?thesis using o(1) n by auto
    next
      assume "w = ''ARP''" then show ?thesis using o(2) a by auto
    next
      assume "w = ''ENA allowance''" then show ?thesis using o(3) e by auto
    next
      assume "w = ''host UDP receive buffer''" then show ?thesis using o(4) u by auto
    qed
  qed
qed

lemma hostDrops_cats:
  assumes "hostsOk hosts"
  shows "w \<in> set categories \<Longrightarrow> dcN (catOf (fst (hostDrops hosts)) w) = catSum w hosts"
    and "sum_list (map dcN (fst (hostDrops hosts))) = (\<Sum>w \<leftarrow> categories. catSum w hosts)"
proof -
  show "dcN (catOf (fst (hostDrops hosts)) w) = catSum w hosts" if w: "w \<in> set categories"
  proof (cases "find (\<lambda>c. What c = w) (rev (fst (hostDrops hosts)))")
    case None
    then have "w \<notin> What ` set (fst (hostDrops hosts))" by (auto simp: find_None_iff)
    then show ?thesis using None hostDrops_names(2) [OF assms w] by (simp add: catOf_def)
  next
    case (Some c)
    then have "c \<in> set (fst (hostDrops hosts))" "What c = w" by (auto simp: find_Some_iff) (metis length_rev nth_mem set_rev)
    then show ?thesis using Some hostDrops_names(1) [OF assms] by (simp add: catOf_def)
  qed
  have "map dcN (fst (hostDrops hosts)) = map (\<lambda>c. catSum (What c) hosts) (fst (hostDrops hosts))"
    using hostDrops_names(1) [OF assms] by (intro map_cong refl) blast
  then show "sum_list (map dcN (fst (hostDrops hosts))) = (\<Sum>w \<leftarrow> categories. catSum w hosts)"
    using sum_listed [OF assms, of "\<lambda>w. catSum w hosts", OF _] by metis
qed

lemma gaps_split:
  "mget 0 (snd (hostDrops hosts)) src =
     (if src = ''netns'' \<and> list_ex (list_ex hasNetns) hosts then int (length (filter netnsGap hosts)) else 0)
   + (if src = ''ARP'' \<and> list_ex (list_ex hasARP) hosts then int (length (filter arpGap hosts)) else 0)
   + (if src = ''ENA'' \<and> list_ex enaHost (filter (\<lambda>hs. hs \<noteq> []) hosts) then int (length (filter enaGap hosts)) else 0)"
proof -
  define live where "live = filter (\<lambda>hs. hs \<noteq> []) hosts"
  define absent where "absent = length (filter (\<lambda>hs. hs = []) hosts)"
  define g1 where "g1 = snd (netnsDrops live absent [])"
  define g2 where "g2 = snd (arpDrops live absent g1)"
  have "snd (hostDrops hosts) = snd (enaDrops live absent g2)"
    by (simp add: hostDrops_def Let_def case_prod_beta live_def absent_def g1_def g2_def)
  moreover have "mget 0 ([] :: (string, int) gomap) src = 0" by simp
  ultimately show ?thesis
    using enaDrops_spec(2) [OF live_def absent_def, of g2 src] arpDrops_spec(2) [OF live_def absent_def, of g1 src, folded g2_def]
      netnsDrops_spec(2) [OF live_def absent_def, of "[]" src, folded g1_def]
    unfolding live_def [symmetric] by (simp only: add_0)
qed

lemma sum_positive: "\<forall>x \<in> set xs. 0 \<le> f x \<Longrightarrow> (\<Sum>x \<leftarrow> filter (\<lambda>x. f x > 0) xs. f x) = (\<Sum>x \<leftarrow> xs. f x :: int)"
  by (induction xs) auto

text \<open>The counters of the ENA category.\<close>

definition enaCounterSum :: "(ENASample \<Rightarrow> int) \<Rightarrow> Sample list list \<Rightarrow> int" where
  "enaCounterSum v hosts = (\<Sum>hs \<leftarrow> hosts. riseOf hasENA (\<lambda>s. v (sENA s)) hs)"

lemma map2_map: "map2 f (map g xs) (map h xs) = map (\<lambda>x. f (g x) (h x)) xs"
  by (induction xs) auto

lemma enaStep_by:
  "fst (snd (fold enaStep live (n, map (\<lambda>a. f (snd a)) enaCounters, g)))
     = map (\<lambda>a. f (snd a) + enaCounterSum (snd a) live) enaCounters"
proof (induction live arbitrary: n f g)
  case Nil
  then show ?case by (simp add: enaCounterSum_def)
next
  case (Cons hs live)
  have none: "riseOf hasENA (\<lambda>s. v (sENA s)) hs = 0" if "\<not> enaHost hs" for v
    using that by (intro riseOf_none) (simp add: enaHost_def)
  have "\<exists>n' g'. enaStep hs (n, map (\<lambda>a. f (snd a)) enaCounters, g)
      = (n', map (\<lambda>a. f (snd a) + riseOf hasENA (\<lambda>s. snd a (sENA s)) hs) enaCounters, g')"
  proof (cases "enaHost hs")
    case True
    then show ?thesis by (simp add: enaStep_def Let_def increase_rises riseOf_def map2_map case_prod_beta)
  next
    case False
    then show ?thesis by (simp add: enaStep_def none)
  qed
  then obtain n' g' where "enaStep hs (n, map (\<lambda>a. f (snd a)) enaCounters, g)
      = (n', map (\<lambda>a. f (snd a) + riseOf hasENA (\<lambda>s. snd a (sENA s)) hs) enaCounters, g')" by blast
  with Cons.IH [of n' "\<lambda>v. f v + riseOf hasENA (\<lambda>s. v (sENA s)) hs" g'] show ?case
    by (simp add: enaCounterSum_def add.assoc case_prod_beta)
qed

lemma enaDrops_by:
  assumes "list_ex enaHost live"
  shows "\<exists>m. fst (enaDrops live absent g) = [DropCount ''ENA allowance'' m 0 (map (\<lambda>(w, v). DropCount w (enaCounterSum v live) 0 []) enaCounters)]"
proof -
  obtain n y g' where f: "fold enaStep live (0, map (\<lambda>_. 0) enaCounters, gap ''ENA'' absent g) = (n, y, g')" by (metis prod.exhaust)
  have "y = map (\<lambda>(w, v). enaCounterSum v live) enaCounters"
    using enaStep_by [of live 0 "\<lambda>_. 0" "gap ''ENA'' absent g"] unfolding f by (simp add: case_prod_beta)
  moreover have "map2 (\<lambda>(w, _) b. DropCount w b 0 []) enaCounters (map (\<lambda>(w, v). enaCounterSum v live) enaCounters)
      = map (\<lambda>(w, v). DropCount w (enaCounterSum v live) 0 []) enaCounters"
    using map2_map [of "\<lambda>(w, _) b. DropCount w b 0 []" "\<lambda>x. x" enaCounters "\<lambda>(w, v). enaCounterSum v live"]
    by (simp add: case_prod_beta)
  ultimately show ?thesis using assms f by (simp add: enaDrops_def)
qed

lemma hostDrops_ena:
  assumes ok: "hostsOk hosts" and ena: "list_ex enaHost (filter (\<lambda>hs. hs \<noteq> []) hosts)"
  shows "map dcN (By (catOf (fst (hostDrops hosts)) ''ENA allowance'')) = map (\<lambda>(w, v). enaCounterSum v hosts) enaCounters"
proof -
  define live where "live = filter (\<lambda>hs. hs \<noteq> []) hosts"
  define absent where "absent = length (filter (\<lambda>hs. hs = []) hosts)"
  define g2 where "g2 = snd (arpDrops live absent (snd (netnsDrops live absent [])))"
  have eq: "fst (hostDrops hosts) = fst (netnsDrops live absent []) @ fst (arpDrops live absent (snd (netnsDrops live absent [])))
      @ fst (enaDrops live absent g2) @ [udpDrops live]"
    by (simp add: hostDrops_def Let_def case_prod_beta live_def absent_def g2_def)
  obtain m where e: "fst (enaDrops live absent g2) = [DropCount ''ENA allowance'' m 0 (map (\<lambda>(w, v). DropCount w (enaCounterSum v live) 0 []) enaCounters)]"
    using enaDrops_by ena unfolding live_def by blast
  obtain h where u: "udpDrops live = DropCount ''host UDP receive buffer'' (catSum ''host UDP receive buffer'' hosts) h []"
    using udpDrops_spec [OF ok live_def] by blast
  have "catOf (fst (hostDrops hosts)) ''ENA allowance'' = DropCount ''ENA allowance'' m 0 (map (\<lambda>(w, v). DropCount w (enaCounterSum v live) 0 []) enaCounters)"
    unfolding eq by (simp add: catOf_def e u)
  moreover have "enaCounterSum v live = enaCounterSum v hosts" for v
    unfolding enaCounterSum_def live_def by (rule sum_live) simp
  ultimately show ?thesis by (simp add: comp_def case_prod_beta)
qed

lemma lateDrops_total:
  assumes "hostsOk hosts" and expected: "hostsExpected hosts"
  shows "fst (lateDrops (fst (hostDrops (upToStop hosts stop))) (fst (hostDrops hosts)))
    = sum_list (map dcN (fst (hostDrops hosts))) - sum_list (map dcN (fst (hostDrops (upToStop hosts stop))))"
proof -
  let ?win = "upToStop hosts stop"
  define cats where "cats = fst (hostDrops ?win)"
  define every where "every = fst (hostDrops hosts)"
  define late where "late w = catSum w hosts - catSum w ?win" for w
  have okw: "hostsOk ?win" using upToStop_ok [OF assms(1)] .
  have d: "dcN (lateDrop cats c) = late (What c)" if "c \<in> set every" for c
    using hostDrops_names(1) [OF assms(1) that [unfolded every_def]] hostDrops_cats(1) [OF okw]
    by (simp add: lateDrop_def Let_def cats_def late_def)
  have nn: "0 \<le> late w" for w using catSum_window [OF assms(1) expected, of w stop] by (simp add: late_def)
  have "fst (lateDrops cats every) = (\<Sum>d \<leftarrow> filter (\<lambda>d. dcN d > 0) (map (lateDrop cats) every). dcN d)"
    by (simp add: lateDrops_def Let_def)
  also have "\<dots> = (\<Sum>d \<leftarrow> map (lateDrop cats) every. dcN d)" using d nn by (intro sum_positive) auto
  also have "\<dots> = (\<Sum>c \<leftarrow> every. late (What c))" using d by (simp add: comp_def cong: map_cong)
  also have "\<dots> = (\<Sum>w \<leftarrow> categories. late w)"
    unfolding every_def
  proof (rule sum_listed [OF assms(1)])
    show "late w = 0" if "catSum w hosts = 0" for w
      using catSum_window [OF assms(1) expected, of w stop] that by (simp add: late_def)
  qed
  also have "\<dots> = sum_list (map dcN every) - sum_list (map dcN cats)"
    unfolding every_def cats_def hostDrops_cats(2) [OF assms(1)] hostDrops_cats(2) [OF okw] late_def
    by (simp add: sum_list_subtractf)
  finally show ?thesis unfolding cats_def every_def .
qed

text \<open>
  C14: The drop verdict counts every category's rises over the samples that measured it, resets
  included, over all hosts, and the ENA category each of its counters; where a sample does not say how many
  namespaces it expected, those that read the most are the ones that count. A source that some host
  has is reported unmeasured on exactly the hosts whose first or last sample misses it, hosts without samples
  included; for ENA only hosts that have it or its error are among them; nothing else is reported unmeasured. When
  every sample says what it expected, the drops up to the stop and the late ones reported after it add up
  to the whole series, so no packet is counted twice or lost.
\<close>

theorem hostDrops_account:
  assumes "hostsOk hosts"
  shows "(\<forall>w \<in> set categories. dcN (catOf (fst (hostDrops hosts)) w) = catSum w hosts)
    \<and> (list_ex enaHost (filter (\<lambda>hs. hs \<noteq> []) hosts) \<longrightarrow>
         map dcN (By (catOf (fst (hostDrops hosts)) ''ENA allowance'')) = map (\<lambda>(w, v). enaCounterSum v hosts) enaCounters)
    \<and> mget 0 (snd (hostDrops hosts)) ''netns'' = (if list_ex (list_ex hasNetns) hosts then int (length (filter netnsGap hosts)) else 0)
    \<and> mget 0 (snd (hostDrops hosts)) ''ARP'' = (if list_ex (list_ex hasARP) hosts then int (length (filter arpGap hosts)) else 0)
    \<and> mget 0 (snd (hostDrops hosts)) ''ENA''
        = (if list_ex enaHost (filter (\<lambda>hs. hs \<noteq> []) hosts) then int (length (filter enaGap hosts)) else 0)
    \<and> (src \<notin> {''netns'', ''ARP'', ''ENA''} \<longrightarrow> mget 0 (snd (hostDrops hosts)) src = 0)
    \<and> (hostsExpected hosts \<longrightarrow> fst (lateDrops (fst (hostDrops (upToStop hosts stop))) (fst (hostDrops hosts)))
        + sum_list (map dcN (fst (hostDrops (upToStop hosts stop)))) = sum_list (map dcN (fst (hostDrops hosts))))"
proof (intro conjI impI)
  show "\<forall>w \<in> set categories. dcN (catOf (fst (hostDrops hosts)) w) = catSum w hosts"
    using hostDrops_cats(1) [OF assms] by blast
  show "fst (lateDrops (fst (hostDrops (upToStop hosts stop))) (fst (hostDrops hosts)))
      + sum_list (map dcN (fst (hostDrops (upToStop hosts stop)))) = sum_list (map dcN (fst (hostDrops hosts)))" if "hostsExpected hosts"
    using lateDrops_total [OF assms that, of stop] by simp
  show "map dcN (By (catOf (fst (hostDrops hosts)) ''ENA allowance'')) = map (\<lambda>(w, v). enaCounterSum v hosts) enaCounters"
    if "list_ex enaHost (filter (\<lambda>hs. hs \<noteq> []) hosts)"
    using hostDrops_ena [OF assms that] .
qed (use gaps_split [of hosts] in simp_all)

section \<open>Witness\<close>

definition plainSample :: "int \<Rightarrow> int \<Rightarrow> int \<Rightarrow> Sample" where
  "plainSample t drops arp = \<lparr>AtMs = t, Load1 = 0, MemAvailMB = 0, hostRcvbufErrors = drops, hostInErrors = 0, sNodes = [],
     Netns = None, NetnsMaxBacklog = 0, NetnsSampled = 0, NetnsExpected = 0, NetnsMs = 0,
     ARP = Some \<lparr>Entries = 1, UnresolvedDiscards = arp, TableFulls = 0, ForcedGCRuns = 0\<rparr>,
     sENA = \<lparr>ENAIface = [], PPSAllowanceExceeded = 0, BWInAllowanceExceeded = 0, BWOutAllowanceExceeded = 0,
       ConntrackAllowanceExceeded = 0, LinklocalAllowanceExceeded = 0\<rparr>, ENAError = []\<rparr>"

definition twoSeries :: "Sample list list" where
  "twoSeries = [[plainSample 1 5 0, plainSample 2 7 1, plainSample 4 9 1], [plainSample 1 0 3, plainSample 3 0 2], []]"

lemma twoSeries_ok: "hostsOk twoSeries"
  by (simp add: hostsOk_def twoSeries_def plainSample_def sampleOk_def enaCounters_def)

theorem hostDrops_account_witness:
  "dcN (catOf (fst (hostDrops twoSeries)) ''ARP'') = 3 \<and> mget 0 (snd (hostDrops twoSeries)) ''ARP'' = 1"
proof -
  have "catSum ''ARP'' twoSeries = 3" "''ARP'' \<in> set categories" "list_ex (list_ex hasARP) twoSeries"
      "int (length (filter arpGap twoSeries)) = 1"
    by (simp_all add: catSum_def catRise_def categories_def twoSeries_def plainSample_def arpRise_def riseOf_def
        hasARP_def arpVal_def arpGap_def covered_def measured_def)
  then show ?thesis using hostDrops_account [OF twoSeries_ok, of "''ARP''" 3] by auto
qed

end
