(* ===== verification/NetParse.thy ===== *)
theory NetParse
  imports HostDrops "HOL-Library.Word" "HOL-Library.Monad_Syntax" "HOL-Library.Sublist"
begin

unbundle bit_operations_syntax

text \<open>
  What the host monitor reads (\<open>src/pkg/host/netns.go\<close>, \<open>ena.go\<close>): the text tables of \<open>/proc\<close>, the
  netlink dump of the qdiscs, and the ethtool statistics. Slicing and decoding out of range is a
  panic, \<open>None\<close>; so is a loop that does not end, as the loops over messages and attributes are
  partial functions. The byte order of the machine is a parameter.
\<close>

type_synonym bytes = "8 word list"

section \<open>Text tables\<close>

fun snmpScan :: "string \<Rightarrow> string list \<Rightarrow> (string, int) gomap option" where
  "snmpScan p (a # b # ls) =
     (if HasPrefix a p \<and> HasPrefix b p
      then Some (fold (\<lambda>(k, v) m. mput k (fst (ParseInt v 10)) m) (zip (tl (Fields a)) (tl (Fields b))) [])
      else snmpScan p (b # ls))"
| "snmpScan p ls = None"

definition parseSnmp :: "string \<Rightarrow> string \<Rightarrow> (string, int) gomap option" where
  "parseSnmp b proto = snmpScan (proto @ '':'') (Split (CHR 0x0A) b)"

fun netDevScan :: "string \<Rightarrow> string list \<Rightarrow> int \<times> int \<times> bool" where
  "netDevScan dev [] = (0, 0, False)"
| "netDevScan dev (l # ls) =
     (let (nm, rs, found) = Cut l (CHR '':'')
      in if \<not> found \<or> TrimSpace nm \<noteq> dev then netDevScan dev ls
         else let f = Fields rs
              in if length f < 12 then (0, 0, False)
                 else (fst (ParseInt (f ! 3) 10), fst (ParseInt (f ! 11) 10), True))"

definition parseNetDev :: "string \<Rightarrow> string \<Rightarrow> int \<times> int \<times> bool" where
  "parseNetDev b dev = netDevScan dev (Split (CHR 0x0A) b)"

definition neighCell :: "string \<times> string \<Rightarrow> (string, int) gomap \<Rightarrow> (string, int) gomap" where
  "neighCell kf m = (case kf of (k, f) \<Rightarrow>
     let v = fst (ParseInt f 16) in if k = ''entries'' then mput k v m else madd k v m)"

definition parseNeighStat :: "string \<Rightarrow> (string, int) gomap option" where
  "parseNeighStat b =
     (let lines = Split (CHR 0x0A) (TrimSpace b)
      in if length lines < 2 then None
         else let keys = Fields (lines ! 0)
              in Some (fold (\<lambda>l m. fold neighCell (zip keys (Fields l)) m) (tl lines) []))"

text \<open>The default route with the lowest metric.\<close>

definition routeStep :: "string \<Rightarrow> string \<times> int \<Rightarrow> string \<times> int" where
  "routeStep l acc = (case acc of (best, metric) \<Rightarrow>
     let f = Fields l
     in if length f < 8 \<or> f ! 1 \<noteq> ''00000000'' \<or> f ! 7 \<noteq> ''00000000'' then (best, metric)
        else let flags = fst (ParseInt (f ! 3) 16); m = fst (ParseInt (f ! 6) 10)
             in if flags AND 1 \<noteq> 0 \<and> (metric < 0 \<or> m < metric) then (f ! 0, m) else (best, metric))"

definition defaultRouteIface :: "string \<Rightarrow> string" where
  "defaultRouteIface b = fst (fold routeStep (tl (Split (CHR 0x0A) b)) ('''', -1))"

section \<open>ENA statistics\<close>

definition enaField :: "string \<times> 64 word \<Rightarrow> ENASample \<times> bool \<Rightarrow> ENASample \<times> bool" where
  "enaField nv acc = (case nv of (n, w) \<Rightarrow> case acc of (s, found) \<Rightarrow>
     let v = sint w
     in (if n = ''pps_allowance_exceeded'' then s\<lparr>PPSAllowanceExceeded := v\<rparr>
         else if n = ''bw_in_allowance_exceeded'' then s\<lparr>BWInAllowanceExceeded := v\<rparr>
         else if n = ''bw_out_allowance_exceeded'' then s\<lparr>BWOutAllowanceExceeded := v\<rparr>
         else if n = ''conntrack_allowance_exceeded'' then s\<lparr>ConntrackAllowanceExceeded := v\<rparr>
         else if n = ''linklocal_allowance_exceeded'' then s\<lparr>LinklocalAllowanceExceeded := v\<rparr> else s,
         found \<or> HasSuffix n ''_allowance_exceeded''))"

definition enaFromStats :: "string \<Rightarrow> string list \<Rightarrow> 64 word list \<Rightarrow> ENASample" where
  "enaFromStats iface names vals =
     (let (s, found) = fold enaField (zip names vals)
        (\<lparr>ENAIface = [], PPSAllowanceExceeded = 0, BWInAllowanceExceeded = 0, BWOutAllowanceExceeded = 0,
          ConntrackAllowanceExceeded = 0, LinklocalAllowanceExceeded = 0\<rparr>, False)
      in if found then s\<lparr>ENAIface := iface\<rparr> else s)"

datatype enaError = NoAllowance string

definition enaSample :: "string \<Rightarrow> string list \<Rightarrow> 64 word list \<Rightarrow> enaError + ENASample" where
  "enaSample iface names vals =
     (let s = enaFromStats iface names vals in if ENAIface s = [] then Inl (NoAllowance iface) else Inr s)"

text \<open>\<open>rem\<close> is the number of names still expected.\<close>

fun parseGStrings :: "bytes \<Rightarrow> nat \<Rightarrow> string list" where
  "parseGStrings b 0 = []"
| "parseGStrings b (Suc rem) =
     (if 32 \<le> length b
      then map (\<lambda>c. char_of (unat c)) (takeWhile (\<lambda>c. c \<noteq> 0) (take 32 b)) # parseGStrings (drop 32 b) rem
      else [])"

section \<open>Netlink\<close>

datatype endian = Little | Big

fun leNat :: "bytes \<Rightarrow> nat" where
  "leNat [] = 0"
| "leNat (x # xs) = unat x + 256 * leNat xs"

definition getNat :: "endian \<Rightarrow> nat \<Rightarrow> bytes \<Rightarrow> nat option" where
  "getNat e n b =
     (if n \<le> length b then Some (leNat (case e of Little \<Rightarrow> take n b | Big \<Rightarrow> rev (take n b))) else None)"

definition u16 :: "endian \<Rightarrow> bytes \<Rightarrow> 16 word option" where
  "u16 e b = map_option of_nat (getNat e 2 b)"

definition u32 :: "endian \<Rightarrow> bytes \<Rightarrow> 32 word option" where
  "u32 e b = map_option of_nat (getNat e 4 b)"

definition slice :: "bytes \<Rightarrow> nat \<Rightarrow> nat \<Rightarrow> bytes option" where
  "slice b i j = (if i \<le> j \<and> j \<le> length b then Some (take (j - i) (drop i b)) else None)"

definition sliceFrom :: "bytes \<Rightarrow> nat \<Rightarrow> bytes option" where
  "sliceFrom b i = slice b i (length b)"

definition align4 :: "nat \<Rightarrow> nat" where
  "align4 n = (n + 3) div 4 * 4"

definition nlmsgHdrLen :: nat where "nlmsgHdrLen = 16"
definition tcmsgLen :: nat where "tcmsgLen = 20"
definition nlmsgDone :: "16 word" where "nlmsgDone = 3"
definition nlmsgError :: "16 word" where "nlmsgError = 2"
definition rtmNewQdisc :: "16 word" where "rtmNewQdisc = 36"
definition tcaStats2 :: "16 word" where "tcaStats2 = 7"
definition tcaStatsQueue :: "16 word" where "tcaStatsQueue = 3"
definition tcHRoot :: "32 word" where "tcHRoot = 0xFFFFFFFF"

text \<open>The payload of the first attribute of a type; the inner option is Go's \<open>nil\<close>.\<close>

partial_function (option) rtattr :: "endian \<Rightarrow> 16 word \<Rightarrow> bytes \<Rightarrow> bytes option option" where
  "rtattr e typ b =
     (if length b < 4 then Some None
      else do {
        l \<leftarrow> u16 e b;
        b2 \<leftarrow> sliceFrom b 2;
        t \<leftarrow> u16 e b2;
        if unat l < 4 \<or> unat l > length b then Some None
        else if t AND 0x3FFF = typ then do { p \<leftarrow> slice b 4 (unat l); Some (Some p) }
        else if align4 (unat l) \<ge> length b then Some None
        else do { b' \<leftarrow> sliceFrom b (align4 (unat l)); rtattr e typ b' }
      })"

record qdiscStats =
  Ifindex :: "32 word"
  Qlen :: "32 word"
  Backlog :: "32 word"
  Drops :: "32 word"
  Requeues :: "32 word"
  Overlims :: "32 word"

text \<open>\<open>Errno\<close> carries \<open>-e\<close>, an \<open>int32\<close>.\<close>

datatype nlError = BadLength nat | Errno "32 word"

definition at32 :: "endian \<Rightarrow> bytes \<Rightarrow> nat \<Rightarrow> 32 word option" where
  "at32 e b i = do { c \<leftarrow> sliceFrom b i; u32 e c }"

definition queueStats :: "endian \<Rightarrow> qdiscStats \<Rightarrow> bytes \<Rightarrow> qdiscStats option" where
  "queueStats e q v = do {
     a \<leftarrow> u32 e v; b \<leftarrow> at32 e v 4; c \<leftarrow> at32 e v 8; d \<leftarrow> at32 e v 12; f \<leftarrow> at32 e v 16;
     Some (q\<lparr>Qlen := a, Backlog := b, Drops := c, Requeues := d, Overlims := f\<rparr>) }"

definition newQdisc :: "endian \<Rightarrow> bytes \<Rightarrow> qdiscStats list \<Rightarrow> qdiscStats list option" where
  "newQdisc e msg qs =
     (if length msg < tcmsgLen then Some qs
      else do {
        parent \<leftarrow> at32 e msg 12;
        if parent \<noteq> tcHRoot then Some qs
        else do {
          ix \<leftarrow> at32 e msg 4;
          let q = \<lparr>Ifindex = ix, Qlen = 0, Backlog = 0, Drops = 0, Requeues = 0, Overlims = 0\<rparr>;
          attrs \<leftarrow> sliceFrom msg tcmsgLen;
          st \<leftarrow> rtattr e tcaStats2 attrs;
          q \<leftarrow> (case st of None \<Rightarrow> Some q
            | Some st \<Rightarrow> do {
                v \<leftarrow> rtattr e tcaStatsQueue st;
                case v of None \<Rightarrow> Some q | Some v \<Rightarrow> if length v \<ge> 20 then queueStats e q v else Some q });
          Some (qs @ [q]) } })"

definition errorMsg :: "endian \<Rightarrow> bytes \<Rightarrow> nlError option option" where
  "errorMsg e msg =
     (if length msg < 4 then Some None
      else do { x \<leftarrow> u32 e msg; Some (if x \<noteq> 0 then Some (Errno (- x)) else None) })"

partial_function (option) dumpLoop :: "endian \<Rightarrow> qdiscStats list \<Rightarrow> bytes \<Rightarrow> (qdiscStats list \<times> bool \<times> nlError option) option" where
  "dumpLoop e qs b =
     (if length b < nlmsgHdrLen then Some (qs, False, None)
      else do {
        l \<leftarrow> u32 e b;
        b4 \<leftarrow> sliceFrom b 4;
        typ \<leftarrow> u16 e b4;
        if unat l < nlmsgHdrLen \<or> unat l > length b then Some (qs, False, Some (BadLength (unat l)))
        else do {
          msg \<leftarrow> slice b nlmsgHdrLen (unat l);
          if typ = nlmsgDone then Some (qs, True, None)
          else do {
            er \<leftarrow> (if typ = nlmsgError then errorMsg e msg else Some None);
            case er of
              Some x \<Rightarrow> Some (qs, True, Some x)
            | None \<Rightarrow> do {
                qs' \<leftarrow> (if typ = rtmNewQdisc then newQdisc e msg qs else Some qs);
                if align4 (unat l) \<ge> length b then Some (qs', False, None)
                else do { b' \<leftarrow> sliceFrom b (align4 (unat l)); dumpLoop e qs' b' } } } } })"

definition parseQdiscDump :: "endian \<Rightarrow> bytes \<Rightarrow> (qdiscStats list \<times> bool \<times> nlError option) option" where
  "parseQdiscDump e b = dumpLoop e [] b"

section \<open>No panic, every loop ends\<close>

lemma u16_Some: "2 \<le> length b \<Longrightarrow> \<exists>w. u16 e b = Some w"
  by (simp add: u16_def getNat_def)

lemma u32_Some: "4 \<le> length b \<Longrightarrow> \<exists>w. u32 e b = Some w"
  by (simp add: u32_def getNat_def)

lemma sliceFrom_Some: "i \<le> length b \<Longrightarrow> sliceFrom b i = Some (drop i b)"
  by (simp add: sliceFrom_def slice_def)

lemma slice_Some: "i \<le> j \<Longrightarrow> j \<le> length b \<Longrightarrow> slice b i j = Some (take (j - i) (drop i b))"
  by (simp add: slice_def)

lemma at32_Some: "i + 4 \<le> length b \<Longrightarrow> \<exists>w. at32 e b i = Some w"
  using u32_Some [of "drop i b" e] by (auto simp: at32_def sliceFrom_Some)

lemma align4_ge: "n \<le> align4 n"
  unfolding align4_def by presburger

text \<open>An attribute's payload is a part of the buffer, after the four bytes of its header.\<close>

lemma sublist_drop_take: "sublist (take n (drop m b)) b"
  by (meson sublist_drop sublist_order.order.trans sublist_take)

lemma rtattr_part: "\<exists>r. rtattr e typ b = Some r \<and> (case r of None \<Rightarrow> True | Some x \<Rightarrow> sublist x b \<and> length x + 4 \<le> length b)"
proof (induction b rule: length_induct)
  case (1 b)
  show ?case
  proof (cases "length b < 4")
    case True
    then show ?thesis by (intro exI [of _ None]) (subst rtattr.simps, simp)
  next
    case False
    then obtain l where l: "u16 e b = Some l" using u16_Some [of b e] by auto
    have d: "sliceFrom b 2 = Some (drop 2 b)" using False by (simp add: sliceFrom_Some)
    have "2 \<le> length (drop 2 b)" using False by simp
    then obtain t where t: "u16 e (drop 2 b) = Some t" using u16_Some by blast
    let ?n = "align4 (unat l)"
    show ?thesis
    proof (cases "unat l < 4 \<or> unat l > length b")
      case True
      then show ?thesis using False l d t by (intro exI [of _ None]) (subst rtattr.simps, simp)
    next
      case ok: False
      show ?thesis
      proof (cases "t AND 0x3FFF = typ")
        case True
        then have "rtattr e typ b = Some (Some (take (unat l - 4) (drop 4 b)))"
          using False l d t ok by (subst rtattr.simps) (simp add: slice_Some not_le)
        then show ?thesis using ok by (intro exI [of _ "Some (take (unat l - 4) (drop 4 b))"]) (auto simp: sublist_drop_take)
      next
        case other: False
        show ?thesis
        proof (cases "?n < length b")
          case True
          have step: "rtattr e typ b = rtattr e typ (drop ?n b)"
            using False l d t ok other True by (subst rtattr.simps) (simp add: sliceFrom_Some not_le)
          have "length (drop ?n b) < length b" using align4_ge [of "unat l"] ok True by simp
          then obtain r where "rtattr e typ (drop ?n b) = Some r"
              "case r of None \<Rightarrow> True | Some x \<Rightarrow> sublist x (drop ?n b) \<and> length x + 4 \<le> length (drop ?n b)" using 1 by blast
          then show ?thesis unfolding step
            by (intro exI [of _ r]) (auto split: option.splits intro: sublist_order.order.trans [OF _ sublist_drop])
        next
          case last: False
          then show ?thesis using False l d t ok other by (intro exI [of _ None]) (subst rtattr.simps, simp)
        qed
      qed
    qed
  qed
qed

lemma rtattr_total: "\<exists>r. rtattr e typ b = Some r"
  using rtattr_part by blast

lemma queueStats_total: "20 \<le> length v \<Longrightarrow> \<exists>r. queueStats e q v = Some r \<and> Ifindex r = Ifindex q"
  using u32_Some [of v e] at32_Some [of 4 v e] at32_Some [of 8 v e] at32_Some [of 12 v e] at32_Some [of 16 v e]
  by (auto simp: queueStats_def)

text \<open>A message adds at most one qdisc, that of a root, with the interface index of its traffic-control header.\<close>

lemma newQdisc_total:
  "newQdisc e msg qs = Some qs \<or> (\<exists>q. newQdisc e msg qs = Some (qs @ [q]) \<and> tcmsgLen \<le> length msg
     \<and> at32 e msg 12 = Some tcHRoot \<and> at32 e msg 4 = Some (Ifindex q))"
proof (cases "length msg < tcmsgLen")
  case False
  then have len: "20 \<le> length msg" by (simp add: tcmsgLen_def)
  obtain p ix where p: "at32 e msg 12 = Some p" "at32 e msg 4 = Some ix"
    using at32_Some [of 12 msg e] at32_Some [of 4 msg e] len by auto
  have s: "sliceFrom msg tcmsgLen = Some (drop tcmsgLen msg)" using False by (simp add: sliceFrom_Some)
  obtain st where st: "rtattr e tcaStats2 (drop tcmsgLen msg) = Some st" using rtattr_total by blast
  have inner: "\<exists>r. (case st of None \<Rightarrow> Some q | Some st \<Rightarrow> rtattr e tcaStatsQueue st \<bind>
      (\<lambda>v. case v of None \<Rightarrow> Some q | Some v \<Rightarrow> if length v \<ge> 20 then queueStats e q v else Some q)) = Some r \<and> Ifindex r = Ifindex q" for q
  proof (cases st)
    case (Some x)
    obtain v where "rtattr e tcaStatsQueue x = Some v" using rtattr_total by blast
    then show ?thesis using Some queueStats_total by (cases v) auto
  qed simp
  show ?thesis using False p s st inner [of "\<lparr>Ifindex = ix, Qlen = 0, Backlog = 0, Drops = 0, Requeues = 0, Overlims = 0\<rparr>"]
    by (auto simp: newQdisc_def Let_def)
qed (simp add: newQdisc_def)

text \<open>The root qdisc of a message that starts at byte \<open>i\<close> of the buffer.\<close>

definition rootAt :: "endian \<Rightarrow> bytes \<Rightarrow> nat \<Rightarrow> qdiscStats \<Rightarrow> bool" where
  "rootAt e b i q \<longleftrightarrow> i + 36 \<le> length b \<and> u16 e (drop (i + 4) b) = Some rtmNewQdisc
     \<and> at32 e b (i + 28) = Some tcHRoot \<and> at32 e b (i + 20) = Some (Ifindex q)"

lemma at32_drop:
  assumes "n + i \<le> length b"
  shows "at32 e (drop n b) i = at32 e b (n + i)"
proof -
  have "i \<le> length b - n" using assms by arith
  with assms show ?thesis by (simp add: at32_def sliceFrom_Some add.commute)
qed

lemma rootAt_drop: "rootAt e (drop n b) i q \<Longrightarrow> rootAt e b (n + i) q"
  by (auto simp: rootAt_def at32_drop ac_simps)

lemma at32_take:
  assumes "i + 4 \<le> n" "i + 4 \<le> length b"
  shows "at32 e (take n b) i = at32 e b i"
proof -
  have "take 4 (drop i (take n b)) = take 4 (drop i b)" using assms(1) by (simp add: drop_take min_def)
  with assms show ?thesis by (simp add: at32_def sliceFrom_Some u32_def getNat_def split: endian.split)
qed

lemma rootAt_message:
  assumes "u16 e (drop 4 b) = Some rtmNewQdisc" "msg = take k (drop 16 b)" "20 \<le> length msg"
    "at32 e msg 12 = Some tcHRoot" "at32 e msg 4 = Some (Ifindex q)"
  shows "rootAt e b 0 q"
proof -
  have len: "20 \<le> k" "36 \<le> length b" using assms(2,3) by auto
  then have "at32 e msg i = at32 e b (16 + i)" if "i \<le> 16" for i
    using that unfolding assms(2) by (subst at32_take) (simp_all add: at32_drop)
  from this [of 12] this [of 4] assms(1,4,5) len show ?thesis by (simp add: rootAt_def)
qed

text \<open>The smallest message that gives a qdisc has a netlink and a traffic-control header.\<close>

lemma dumpLoop_total:
  "\<exists>qs' d er. dumpLoop e qs b = Some (qs @ qs', d, er) \<and> 36 * length qs' \<le> length b \<and> list_all (\<lambda>q. \<exists>i. rootAt e b i q) qs'"
proof (induction b arbitrary: qs rule: length_induct)
  case (1 b)
  show ?case
  proof (cases "length b < nlmsgHdrLen")
    case True
    then show ?thesis by (intro exI [of _ "[]"] exI [of _ False] exI [of _ None]) (subst dumpLoop.simps, simp)
  next
    case False
    then have len: "16 \<le> length b" by (simp add: nlmsgHdrLen_def)
    obtain l t where l: "u32 e b = Some l" "sliceFrom b 4 = Some (drop 4 b)" "u16 e (drop 4 b) = Some t"
    proof -
      have "2 \<le> length (drop 4 b)" using len by simp
      then obtain l t where "u32 e b = Some l" "u16 e (drop 4 b) = Some t"
        using u32_Some [of b e] u16_Some [of "drop 4 b" e] len by auto
      then show thesis using that len by (simp add: sliceFrom_Some)
    qed
    show ?thesis
    proof (cases "unat l < nlmsgHdrLen \<or> unat l > length b")
      case True
      then show ?thesis using False l
        by (intro exI [of _ "[]"] exI [of _ False] exI [of _ "Some (BadLength (unat l))"]) (subst dumpLoop.simps, simp)
    next
      case ok: False
      define msg where "msg = take (unat l - nlmsgHdrLen) (drop nlmsgHdrLen b)"
      have m: "slice b nlmsgHdrLen (unat l) = Some msg" using ok by (simp add: slice_Some msg_def)
      obtain er where er: "(if t = nlmsgError then errorMsg e msg else Some None) = Some er"
      proof -
        have "\<exists>er. errorMsg e msg = Some er" using u32_Some [of msg e] by (cases "length msg < 4") (auto simp: errorMsg_def)
        then show thesis using that by (cases "t = nlmsgError") auto
      qed
      have "length msg = unat l - 16 \<and> 16 \<le> unat l" using ok by (auto simp: msg_def nlmsgHdrLen_def)
      then have lm: "length msg + 16 = unat l" by simp
      obtain new where new: "(if t = rtmNewQdisc then newQdisc e msg qs else Some qs) = Some (qs @ new)"
        and grow: "36 * length new \<le> unat l" "list_all (\<lambda>q. \<exists>i. rootAt e b i q) new"
      proof (cases "t = rtmNewQdisc \<and> newQdisc e msg qs \<noteq> Some qs")
        case True
        then obtain q where q: "newQdisc e msg qs = Some (qs @ [q])" "tcmsgLen \<le> length msg"
            "at32 e msg 12 = Some tcHRoot" "at32 e msg 4 = Some (Ifindex q)" using newQdisc_total [of e msg qs] by blast
        have "rootAt e b 0 q"
          using rootAt_message [OF _ _ _ q(3,4), where b = b and k = "unat l - 16"] q(2) l(3) True
          by (simp add: msg_def nlmsgHdrLen_def tcmsgLen_def)
        then show thesis using that [of "[q]"] q True lm by (auto simp: tcmsgLen_def)
      qed (use that [of "[]"] in auto)
      have le: "unat l \<le> length b" "16 \<le> unat l" using ok by (simp_all add: nlmsgHdrLen_def)
      note step = dumpLoop.simps [of e qs b]
      show ?thesis
      proof (cases "t \<noteq> nlmsgDone \<and> er = None \<and> align4 (unat l) < length b")
        case True
        let ?n = "align4 (unat l)"
        have "length (drop ?n b) < length b" using align4_ge [of "unat l"] le True unfolding length_drop by linarith
        then obtain qs2 d er2 where r: "dumpLoop e (qs @ new) (drop ?n b) = Some ((qs @ new) @ qs2, d, er2)"
            "36 * length qs2 \<le> length (drop ?n b)" "list_all (\<lambda>q. \<exists>i. rootAt e (drop ?n b) i q) qs2" using 1 by blast
        have "dumpLoop e qs b = Some (qs @ (new @ qs2), d, er2)"
          using step False l ok m er new True r(1) by (simp add: sliceFrom_Some)
        moreover have "36 * length (new @ qs2) \<le> length b"
        proof -
          have "?n < length b" using True by simp
          with r(2) have "36 * length qs2 + ?n \<le> length b" unfolding length_drop by (rule_tac le_diff_conv2 [THEN iffD1]) simp_all
          moreover have "36 * length new \<le> ?n" using grow(1) align4_ge [of "unat l"] by simp
          ultimately show ?thesis by simp
        qed
        moreover have "list_all (\<lambda>q. \<exists>i. rootAt e b i q) (new @ qs2)"
        proof -
          have "list_all (\<lambda>q. \<exists>i. rootAt e b i q) qs2" by (rule list.pred_mono_strong [OF r(3)]) (blast intro: rootAt_drop)
          with grow(2) show ?thesis by simp
        qed
        ultimately show ?thesis by blast
      next
        case stop: False
        then have "(\<exists>er. dumpLoop e qs b = Some (qs @ [], True, er)) \<or> dumpLoop e qs b = Some (qs @ new, False, None)"
          using step False l ok m er new by (cases er; cases "t = nlmsgDone"; simp add: not_less)
        then show ?thesis
        proof
          assume "\<exists>er. dumpLoop e qs b = Some (qs @ [], True, er)"
          then obtain x where "dumpLoop e qs b = Some (qs @ [], True, x)" by blast
          then show ?thesis by (intro exI [of _ "[]"] exI [of _ True] exI [of _ x]) simp
        next
          assume "dumpLoop e qs b = Some (qs @ new, False, None)"
          then show ?thesis using grow le by (intro exI [of _ new] exI [of _ False] exI [of _ None]) simp
        qed
      qed
    qed
  qed
qed

text \<open>
  C15: Whatever bytes arrive, parsing a qdisc dump and looking up an attribute end and never read out of
  range. Every qdisc returned is the root qdisc of a message in the buffer, with the interface index that
  message gives; there is at most one for every 36 bytes; and the payload of an attribute is a part of the
  buffer that leaves room for its header, whatever lengths the messages and attributes claim.
\<close>

theorem parseQdiscDump_total:
  "(\<exists>qs d er. parseQdiscDump e b = Some (qs, d, er) \<and> 36 * length qs \<le> length b \<and> list_all (\<lambda>q. \<exists>i. rootAt e b i q) qs)
   \<and> (\<exists>p. rtattr e typ b = Some p \<and> (case p of None \<Rightarrow> True | Some x \<Rightarrow> sublist x b \<and> length x + 4 \<le> length b))"
  using dumpLoop_total [of e "[]" b] rtattr_part by (simp add: parseQdiscDump_def)

end
