(* ===== verification/Drive.thy ===== *)
theory Drive
  imports Generation
begin

text \<open>
  How a run is driven (\<open>src/pkg/coordinator/drive.go\<close>, with \<open>planned\<close> and \<open>stopOf\<close> of \<open>collect.go\<close> and the
  trace fetching of \<open>cloud.go\<close>): one goroutine per node applies its churn events until the stop, a
  shared log counts the calls, and the traces are fetched in two passes.
\<close>

section \<open>The churn log\<close>

definition churnFailShown :: int where "churnFailShown = 20"

datatype churnOp = Kill | Start

record churnLog =
  clOut :: "string list"
  departs :: int
  rejoins :: int
  killFailed :: int
  startFailed :: int

definition newChurnLog :: churnLog where
  "newChurnLog = \<lparr>clOut = [], departs = 0, rejoins = 0, killFailed = 0, startFailed = 0\<rparr>"

definition opName :: "churnOp \<Rightarrow> string" where
  "opName op = (case op of Kill \<Rightarrow> ''kill'' | Start \<Rightarrow> ''start'')"

definition record_cl :: "churnOp \<Rightarrow> nat \<Rightarrow> string option \<Rightarrow> churnLog \<Rightarrow> churnLog" where
  "record_cl op idx err c =
     (case err of
        None \<Rightarrow> (case op of Kill \<Rightarrow> c\<lparr>departs := departs c + 1\<rparr> | Start \<Rightarrow> c\<lparr>rejoins := rejoins c + 1\<rparr>)
      | Some e \<Rightarrow>
          let c = (case op of Kill \<Rightarrow> c\<lparr>killFailed := killFailed c + 1\<rparr> | Start \<Rightarrow> c\<lparr>startFailed := startFailed c + 1\<rparr>);
              n = killFailed c + startFailed c
          in if n \<le> churnFailShown
             then c\<lparr>clOut := clOut c @ [''[churn] '' @ opName op @ '' node '' @ Itoa (int idx) @ '': '' @ e]\<rparr>
             else if n = churnFailShown + 1 then c\<lparr>clOut := clOut c @ [''[churn] further failures counted only'']\<rparr>
             else c)"

definition active_cl :: "churnLog \<Rightarrow> bool" where
  "active_cl c \<longleftrightarrow> departs c + rejoins c > 0 \<or> killFailed c + startFailed c > 0"

definition summary_cl :: "churnLog \<Rightarrow> string" where
  "summary_cl c = ''departs='' @ Itoa (departs c) @ '' rejoins='' @ Itoa (rejoins c)
     @ (if killFailed c + startFailed c > 0
        then '' failed kills='' @ Itoa (killFailed c) @ '' starts='' @ Itoa (startFailed c) else [])"

section \<open>Driving one node\<close>

definition UnixMilli :: "int \<Rightarrow> gotime" where
  "UnixMilli ms = ms * nsMilli"

definition churnTimes :: "gotime \<Rightarrow> churnEvent \<Rightarrow> gotime \<times> gotime" where
  "churnTimes searchAt ev = (searchAt + truncInt (fmul (DownAt ev) (ofInt nsSecond)), searchAt + truncInt (fmul (UpAt ev) (ofInt nsSecond)))"

text \<open>The calls of a node's goroutine with the times it waits for before each.\<close>

fun driveEvents :: "gotime \<Rightarrow> gotime \<Rightarrow> churnEvent list \<Rightarrow> (gotime \<times> churnOp) list" where
  "driveEvents searchAt stopAt [] = []"
| "driveEvents searchAt stopAt (ev # evs) =
     (let (down, up) = churnTimes searchAt ev
      in if \<not> down < stopAt then []
         else (if DownAt ev > 0 then [(down, Kill)] else [])
           @ (if \<not> up < stopAt then [] else (up, Start) # driveEvents searchAt stopAt evs))"

definition searchStart :: "Assignment list \<Rightarrow> gotime" where
  "searchStart as = UnixMilli (SearchAt (aPhases (as ! 0)))"

definition stopTime :: "Assignment list \<Rightarrow> gotime" where
  "stopTime as = UnixMilli (StopAt (aPhases (as ! 0)))"

definition driveCalls :: "Assignment list \<Rightarrow> Assignment \<Rightarrow> (gotime \<times> churnOp) list" where
  "driveCalls as a = driveEvents (searchStart as) (stopTime as) (aChurn a)"

section \<open>What is planned\<close>

fun plannedEvents :: "gotime \<Rightarrow> gotime \<Rightarrow> churnEvent list \<Rightarrow> int \<times> int \<Rightarrow> int \<times> int" where
  "plannedEvents searchAt stopAt [] (d, r) = (d, r)"
| "plannedEvents searchAt stopAt (ev # evs) (d, r) =
     (let (down, up) = churnTimes searchAt ev
      in if \<not> down < stopAt then (d, r)
         else let d = (if DownAt ev > 0 then d + 1 else d)
              in if \<not> up < stopAt then (d, r) else plannedEvents searchAt stopAt evs (d, r + 1))"

definition planned :: "Assignment list \<Rightarrow> int \<times> int" where
  "planned as = fold (\<lambda>a. plannedEvents (searchStart as) (stopTime as) (aChurn a)) as (0, 0)"

definition stopOf :: "Assignment list \<Rightarrow> int" where
  "stopOf as = fold (\<lambda>a stop. max stop (StopAt (aPhases a))) as 0"

section \<open>Fetching the traces\<close>

text \<open>
  \<open>ok i k\<close> says whether the \<open>k\<close>-th attempt to fetch node \<open>i\<close>'s trace succeeds: three attempts in the
  first pass, three more in the second for the nodes that failed. The state is the number of traces
  fetched and the nodes that failed.
\<close>

fun fetchAttempts :: "(nat \<Rightarrow> bool) \<Rightarrow> nat list \<Rightarrow> bool" where
  "fetchAttempts ok [] = False"
| "fetchAttempts ok (k # ks) = (if ok k then True else fetchAttempts ok ks)"

definition firstPass :: "(nat \<Rightarrow> nat \<Rightarrow> bool) \<Rightarrow> nat \<Rightarrow> int \<times> nat list \<Rightarrow> int \<times> nat list" where
  "firstPass ok i st = (case st of (got, failed) \<Rightarrow>
     if fetchAttempts (ok i) [0..<3] then (got + 1, failed) else (got, failed @ [i]))"

definition secondPass :: "(nat \<Rightarrow> nat \<Rightarrow> bool) \<Rightarrow> nat \<Rightarrow> int \<times> nat list \<Rightarrow> int \<times> nat list" where
  "secondPass ok i st = (case st of (got, failed) \<Rightarrow>
     if fetchAttempts (ok i) [3..<6] then (got + 1, remove1 i failed) else (got, failed))"

definition fetchTraces :: "(nat \<Rightarrow> nat \<Rightarrow> bool) \<Rightarrow> nat list \<Rightarrow> (nat list \<Rightarrow> nat list) \<Rightarrow> int \<times> nat list" where
  "fetchTraces ok order retryOrder =
     (let (got, failed) = fold (firstPass ok) order (0, [])
      in if failed = [] then (got, failed) else fold (secondPass ok) (retryOrder failed) (got, failed))"

section \<open>Lemmas\<close>

lemma plannedEvents_calls:
  "plannedEvents s e evs (d, r) = (d + int (length (filter (\<lambda>c. snd c = Kill) (driveEvents s e evs))),
     r + int (length (filter (\<lambda>c. snd c = Start) (driveEvents s e evs))))"
  by (induction evs arbitrary: d r) (auto simp: Let_def split: prod.split)

lemma planned_calls:
  "planned as = (int (length (filter (\<lambda>c. snd c = Kill) (concat (map (driveCalls as) as)))),
     int (length (filter (\<lambda>c. snd c = Start) (concat (map (driveCalls as) as)))))"
proof -
  have "fold (\<lambda>a. plannedEvents s e (aChurn a)) bs (d, r)
     = (d + int (length (filter (\<lambda>c. snd c = Kill) (concat (map (\<lambda>a. driveEvents s e (aChurn a)) bs)))),
        r + int (length (filter (\<lambda>c. snd c = Start) (concat (map (\<lambda>a. driveEvents s e (aChurn a)) bs)))))" for s e bs d r
    by (induction bs arbitrary: d r) (auto simp: plannedEvents_calls)
  from this [of "searchStart as" "stopTime as" "as" 0 0] show ?thesis
    by (simp add: planned_def driveCalls_def [abs_def])
qed

lemma record_cl_counts:
  "departs (record_cl op i err c) + killFailed (record_cl op i err c) = departs c + killFailed c + (if op = Kill then 1 else 0)"
  "rejoins (record_cl op i err c) + startFailed (record_cl op i err c) = rejoins c + startFailed c + (if op = Start then 1 else 0)"
  "killFailed (record_cl op i err c) + startFailed (record_cl op i err c) = killFailed c + startFailed c + (if err = None then 0 else 1)"
  by (auto simp: record_cl_def Let_def split: option.split churnOp.split)

lemma record_cl_out:
  "int (length (clOut c)) = min 21 (killFailed c + startFailed c) \<Longrightarrow>
   int (length (clOut (record_cl op i err c))) = min 21 (killFailed (record_cl op i err c) + startFailed (record_cl op i err c))"
  by (auto simp: record_cl_def Let_def churnFailShown_def split: option.split churnOp.split)

definition applyCalls :: "(nat \<times> churnOp \<times> string option) list \<Rightarrow> churnLog \<Rightarrow> churnLog" where
  "applyCalls calls c = fold (\<lambda>(i, op, err). record_cl op i err) calls c"

lemma applyCalls_counts:
  "departs (applyCalls calls c) + killFailed (applyCalls calls c) = departs c + killFailed c + int (length (filter (\<lambda>(_, op, _). op = Kill) calls))
   \<and> rejoins (applyCalls calls c) + startFailed (applyCalls calls c) = rejoins c + startFailed c + int (length (filter (\<lambda>(_, op, _). op = Start) calls))
   \<and> killFailed (applyCalls calls c) + startFailed (applyCalls calls c) = killFailed c + startFailed c + int (length (filter (\<lambda>(_, _, err). err \<noteq> None) calls))"
proof (induction calls arbitrary: c)
  case (Cons x calls)
  obtain i op err where x: "x = (i, op, err)" by (metis prod_cases3)
  show ?case using Cons [of "record_cl op i err c"] record_cl_counts [of op i err c] x by (simp add: applyCalls_def)
qed (simp add: applyCalls_def)

lemma applyCalls_out:
  "int (length (clOut c)) = min 21 (killFailed c + startFailed c) \<Longrightarrow>
   int (length (clOut (applyCalls calls c))) = min 21 (killFailed (applyCalls calls c) + startFailed (applyCalls calls c))"
proof (induction calls arbitrary: c)
  case (Cons x calls)
  obtain i op err where x: "x = (i, op, err)" by (metis prod_cases3)
  show ?case using Cons.IH [OF record_cl_out [OF Cons.prems]] x by (simp add: applyCalls_def)
qed (simp add: applyCalls_def)

lemma filter_mset_length: "mset xs = mset ys \<Longrightarrow> length (filter P xs) = length (filter P ys)"
  by (metis mset_filter size_mset)

lemma churnTimes_mono:
  "0 \<le> DownAt ev \<Longrightarrow> DownAt ev \<le> UpAt ev \<Longrightarrow> fst (churnTimes s ev) \<le> snd (churnTimes s ev)"
  by (simp add: churnTimes_def truncInt_mono fl_mono fl_nonneg ofInt_def nsSecond_def mult_right_mono)

lemma churnTimes_next:
  "0 \<le> UpAt ev \<Longrightarrow> UpAt ev \<le> DownAt ev' \<Longrightarrow> snd (churnTimes s ev) \<le> fst (churnTimes s ev')"
  by (simp add: churnTimes_def truncInt_mono fl_mono fl_nonneg ofInt_def nsSecond_def mult_right_mono)

lemma driveEvents_ordered:
  assumes "absences w t evs" "0 \<le> t"
  shows "sorted (map fst (driveEvents s e evs)) \<and> (\<forall>c \<in> set (driveEvents s e evs). fst c < e)
    \<and> (\<forall>c \<in> set (driveEvents s e evs). s + truncInt (fmul t (ofInt nsSecond)) \<le> fst c)"
  using assms
proof (induction evs arbitrary: t)
  case (Cons ev evs)
  have ev: "t \<le> DownAt ev" "DownAt ev \<le> UpAt ev" "absences w (UpAt ev) evs" using Cons.prems by auto
  have IH: "sorted (map fst (driveEvents s e evs))" "\<forall>c \<in> set (driveEvents s e evs). fst c < e"
    "\<forall>c \<in> set (driveEvents s e evs). snd (churnTimes s ev) \<le> fst c"
    using Cons.IH [OF ev(3)] ev Cons.prems(2) by (auto simp: churnTimes_def)
  have du: "fst (churnTimes s ev) \<le> snd (churnTimes s ev)" using churnTimes_mono ev Cons.prems(2) by simp
  have td: "s + truncInt (fmul t (ofInt nsSecond)) \<le> fst (churnTimes s ev)"
    using churnTimes_next [of "\<lparr>DownAt = 0, UpAt = t\<rparr>" ev s] ev(1) Cons.prems(2) by (simp add: churnTimes_def)
  show ?case using IH du td by (auto simp: Let_def case_prod_beta)
qed simp

lemma driveEvents_alternate:
  assumes "absences w t evs" "0 \<le> t" "\<forall>ev \<in> set evs. 0 < UpAt ev"
  shows "successively (\<noteq>) (map snd (driveEvents s e evs)) \<and> (0 < t \<longrightarrow> driveEvents s e evs \<noteq> [] \<longrightarrow> snd (hd (driveEvents s e evs)) = Kill)"
  using assms
proof (induction evs arbitrary: t)
  case (Cons ev evs)
  have "absences w (UpAt ev) evs" "0 < UpAt ev" "0 \<le> UpAt ev" "\<forall>ev \<in> set evs. 0 < UpAt ev" using Cons.prems by auto
  from Cons.IH [OF this(1,3,4)] this(2)
  have IH: "successively (\<noteq>) (map snd (driveEvents s e evs))"
      "driveEvents s e evs \<noteq> [] \<longrightarrow> snd (hd (driveEvents s e evs)) = Kill" by auto
  have "successively (\<noteq>) (Start # map snd (driveEvents s e evs))"
    using IH by (cases "driveEvents s e evs") auto
  moreover have "0 < t \<Longrightarrow> 0 < DownAt ev" using Cons.prems(1) by auto
  ultimately show ?case by (auto simp: Let_def case_prod_beta successively_Cons)
qed simp

lemma fetchTraces_counts:
  assumes "distinct order" "\<And>f. set (retryOrder f) = set f" "\<And>f. distinct f \<Longrightarrow> distinct (retryOrder f)"
  shows "fst (fetchTraces ok order retryOrder) + int (length (snd (fetchTraces ok order retryOrder))) = int (length order)
    \<and> (\<forall>i. i \<in> set (snd (fetchTraces ok order retryOrder)) \<longleftrightarrow> i \<in> set order \<and> (\<forall>k < 6. \<not> ok i k))"
proof -
  have att: "fetchAttempts f ks \<longleftrightarrow> (\<exists>k \<in> set ks. f k)" for f ks by (induction f ks rule: fetchAttempts.induct) auto
  have first: "fold (firstPass ok) xs (g, fs) = (g + int (length (filter (\<lambda>i. fetchAttempts (ok i) [0..<3]) xs)),
      fs @ filter (\<lambda>i. \<not> fetchAttempts (ok i) [0..<3]) xs)" for xs g fs
    by (induction xs arbitrary: g fs) (auto simp: firstPass_def)
  have second: "distinct xs \<Longrightarrow> set xs \<subseteq> set fs \<Longrightarrow> distinct fs \<Longrightarrow>
      fst (fold (secondPass ok) xs (g, fs)) + int (length (snd (fold (secondPass ok) xs (g, fs)))) = g + int (length fs)
      \<and> (\<forall>i. i \<in> set (snd (fold (secondPass ok) xs (g, fs))) \<longleftrightarrow> i \<in> set fs \<and> \<not> (i \<in> set xs \<and> fetchAttempts (ok i) [3..<6]))" for xs g fs
  proof (induction xs arbitrary: g fs)
    case (Cons x xs)
    show ?case
    proof (cases "fetchAttempts (ok x) [3..<6]")
      case True
      have s: "secondPass ok x (g, fs) = (g + 1, remove1 x fs)" using True by (simp add: secondPass_def)
      have "distinct xs" "set xs \<subseteq> set (remove1 x fs)" "distinct (remove1 x fs)" using Cons.prems by auto
      moreover have "0 < length fs" "x \<in> set fs" using Cons.prems(2) by auto
      then have "int (length (remove1 x fs)) = int (length fs) - 1" by (simp add: length_remove1 of_nat_diff Suc_leI)
      ultimately show ?thesis using Cons.IH [of "remove1 x fs" "g + 1"] s Cons.prems True by auto
    next
      case False
      then have s: "secondPass ok x (g, fs) = (g, fs)" by (simp add: secondPass_def)
      have p: "distinct xs" "set xs \<subseteq> set fs" "distinct fs" using Cons.prems by auto
      show ?thesis unfolding fold_simps(2) s using Cons.IH [of fs g] p False by (metis set_ConsD list.set_intros(2))
    qed
  qed simp
  define F where "F = filter (\<lambda>i. \<not> fetchAttempts (ok i) [0..<3]) order"
  define G where "G = int (length (filter (\<lambda>i. fetchAttempts (ok i) [0..<3]) order))"
  have F: "distinct F" "G + int (length F) = int (length order)" "\<forall>i. i \<in> set F \<longleftrightarrow> i \<in> set order \<and> (\<forall>k < 3. \<not> ok i k)"
    using assms(1) sum_length_filter_compl [of "\<lambda>i. fetchAttempts (ok i) [0..<3]" order] by (auto simp: F_def G_def att)
  have six: "(\<forall>k < 3. \<not> ok i k) \<and> \<not> fetchAttempts (ok i) [3..<6] \<longleftrightarrow> (\<forall>k < 6. \<not> ok i k)" for i
    unfolding att set_upt by (auto simp: not_less)
  have run: "fetchTraces ok order retryOrder = (if F = [] then (G, F) else fold (secondPass ok) (retryOrder F) (G, F))"
    using first [of order 0 "[]"] by (simp add: fetchTraces_def F_def G_def)
  define L where "L i = fetchAttempts (ok i) [3..<6]" for i
  note S = second [of "retryOrder F" F G, OF assms(3) [OF F(1)] _ F(1), folded L_def]
  show ?thesis
  proof (cases "F = []")
    case True
    then show ?thesis using F run six by auto
  next
    case False
    have "i \<in> set F \<and> (i \<in> set F \<longrightarrow> \<not> L i) \<longleftrightarrow> i \<in> set order \<and> (\<forall>k < 6. \<not> ok i k)" for i
      using F(3) six [of i, folded L_def] by blast
    then show ?thesis using False run S assms(2) F(2) by simp
  qed
qed

text \<open>
  C12: Whatever order the nodes' goroutines run in and whichever calls fail, the churn log accounts for
  exactly the departures and returns that \<open>planned\<close> announces, and prints every failure up to the
  twentieth and one line for the rest. Each node's calls fall before the stop, in time order, departures
  and returns alternating.
\<close>

theorem drive_applies_planned:
  assumes "mset (map (\<lambda>(i, op, err). (i, op)) calls) = mset (concat (map (\<lambda>a. map (\<lambda>c. (aIdx a, snd c)) (driveCalls as a)) as))"
  defines "c \<equiv> applyCalls calls newChurnLog"
  shows "(departs c + killFailed c, rejoins c + startFailed c) = planned as
    \<and> length (clOut c) = min 21 (length (filter (\<lambda>(_, _, err). err \<noteq> None) calls))
    \<and> (\<forall>a \<in> set as. absences w 0 (aChurn a) \<longrightarrow> sorted (map fst (driveCalls as a))
        \<and> (\<forall>x \<in> set (driveCalls as a). fst x < stopTime as)
        \<and> ((\<forall>ev \<in> set (aChurn a). 0 < UpAt ev) \<longrightarrow> successively (\<noteq>) (map snd (driveCalls as a))))"
proof (intro conjI)
  have flt: "length (filter (\<lambda>(_, op, _). op = k) calls) = length (filter (\<lambda>c. snd c = k) (concat (map (driveCalls as) as)))" for k
  proof -
    have "length (filter (\<lambda>(_, op, _). op = k) calls) = length (filter (\<lambda>(_, op). op = k) (map (\<lambda>(i, op, err). (i, op)) calls))"
      by (induction calls) auto
    also have "\<dots> = length (filter (\<lambda>(_, op). op = k) (concat (map (\<lambda>a. map (\<lambda>c. (aIdx a, snd c)) (driveCalls as a)) as)))"
      using assms(1) by (rule filter_mset_length)
    also have "\<dots> = length (filter (\<lambda>c. snd c = k) (concat (map (driveCalls as) as)))"
      by (simp add: filter_concat length_concat comp_def filter_map case_prod_beta)
    finally show ?thesis .
  qed
  note N = applyCalls_counts [of calls newChurnLog]
  show "(departs c + killFailed c, rejoins c + startFailed c) = planned as"
    using N flt [of Kill] flt [of Start] unfolding c_def planned_calls by (simp add: newChurnLog_def)
  have "int (length (clOut c)) = min 21 (killFailed c + startFailed c)"
    unfolding c_def by (rule applyCalls_out) (simp add: newChurnLog_def)
  then show "length (clOut c) = min 21 (length (filter (\<lambda>(_, _, err). err \<noteq> None) calls))"
    using N unfolding c_def by (simp add: newChurnLog_def)
  show "\<forall>a \<in> set as. absences w 0 (aChurn a) \<longrightarrow> sorted (map fst (driveCalls as a))
        \<and> (\<forall>x \<in> set (driveCalls as a). fst x < stopTime as)
        \<and> ((\<forall>ev \<in> set (aChurn a). 0 < UpAt ev) \<longrightarrow> successively (\<noteq>) (map snd (driveCalls as a)))"
    using driveEvents_ordered driveEvents_alternate unfolding driveCalls_def by blast
qed

section \<open>Witness\<close>

definition demoNode :: "nat \<Rightarrow> churnEvent list \<Rightarrow> Assignment" where
  "demoNode i evs = \<lparr>aIdx = i, aKey = '''', aIP = ''127.0.0.1'', aExtIP = '''', aPort = 30300, aStatusPort = 40300,
     aBootnodes = [], aTopics = [''topic-0''], aMaxPeers = 50, aDialRatio = 3,
     aPhases = \<lparr>StartAt = 0, RegisterBase = 0, RegisterAt = 0, SearchAt = 1000, StopAt = 61000\<rparr>,
     aSearch = \<lparr>sModel = ''once'', sTargetCount = 5, sRequestTimeout = 0, LookupAtMs = [], sInitialResults = 0, sResultIntervalMs = 0\<rparr>,
     aTopic = \<lparr>tAdLifetimeMs = 0, tAdCacheSize = 0, tRegAttemptTimeoutMs = 0, tSearchBucketSize = 0, tTopicNodesLimit = 0,
       tAuxNodesLimit = 0, tSearchYieldFloor = 0, tSearchAuxRadius = 0, tSearchTableDepth = 0, tRegTableDepth = 0,
       tRegBucketSize = 0, tRegBucketStandby = 0\<rparr>,
     aLegacy = False, aLegacyFork = False, aSampleMs = 0, aChurn = evs, aTraceFile = '''', aGhosts = [], aGhostsUnplaced = 0\<rparr>"

definition demoRun :: "Assignment list" where
  "demoRun = [demoNode 0 [], demoNode 1 [\<lparr>DownAt = 0, UpAt = 5\<rparr>, \<lparr>DownAt = 20, UpAt = 60\<rparr>]]"

lemma demo_seconds:
  "0 \<le> n \<Longrightarrow> n \<le> 100 \<Longrightarrow> truncInt (fmul (of_int n) (ofInt nsSecond)) = n * 1000000000"
proof -
  assume n: "0 \<le> n" "n \<le> 100"
  have "ofInt nsSecond = of_int 1000000000" using fl_of_int [of 1000000000] by (simp add: ofInt_def nsSecond_def)
  moreover have "fl (of_int (n * 1000000000)) = of_int (n * 1000000000)" using n by (intro fl_of_int) simp
  ultimately have "fmul (of_int n) (ofInt nsSecond) = of_int (n * 1000000000)" by simp
  then show ?thesis by (simp only: truncInt_of_int)
qed

lemma demoRun_calls: "map (\<lambda>a. map (\<lambda>c. (aIdx a, snd c)) (driveCalls demoRun a)) demoRun = [[], [(1, Start), (1, Kill)]]"
  using demo_seconds [of 0] demo_seconds [of 5] demo_seconds [of 20] demo_seconds [of 60]
  by (simp add: driveCalls_def demoRun_def demoNode_def searchStart_def stopTime_def UnixMilli_def nsMilli_def churnTimes_def)

theorem drive_applies_planned_witness:
  "planned demoRun = (1, 1) \<and> length (clOut (applyCalls [(1, Start, None), (1, Kill, Some ''refused'')] newChurnLog)) = 1"
proof -
  let ?calls = "[(1, Start, None), (1, Kill, Some ''refused'')] :: (nat \<times> churnOp \<times> string option) list"
  have p: "mset (map (\<lambda>(i, op, err). (i, op)) ?calls) = mset (concat (map (\<lambda>a. map (\<lambda>c. (aIdx a, snd c)) (driveCalls demoRun a)) demoRun))"
    unfolding demoRun_calls by simp
  have "departs (applyCalls ?calls newChurnLog) + killFailed (applyCalls ?calls newChurnLog) = 1"
    "rejoins (applyCalls ?calls newChurnLog) + startFailed (applyCalls ?calls newChurnLog) = 1"
    "length (filter (\<lambda>(_, _, err). err \<noteq> None) ?calls) = 1"
    by (simp_all add: applyCalls_def record_cl_def newChurnLog_def churnFailShown_def)
  then show ?thesis using drive_applies_planned [OF p, of 0] by simp
qed

end
