(* ===== verification/Lookup.thy ===== *)
theory Lookup
  imports Prelude
begin

text \<open>
  A node's lookups (\<open>src/pkg/workload/lookup.go\<close>). A lookup is a state machine driven by what its
  \<open>select\<close> statements receive: the iterator's next node or end, the time limit, the stop channel, and
  the end of a pause between two results. Each event carries the time at which the loop handles it. The
  iterator and its counters belong to the discovery library: the counters are the parameter
  \<open>contacts\<close>.
\<close>

section \<open>Results\<close>

record 'id Found =
  fID :: 'id
  fAtMs :: int

record 'id Lookup =
  StartMs :: int
  LatencyMs :: int
  FirstMs :: int
  Results :: nat
  HitTarget :: bool
  lkFound :: "'id Found list"
  Queries :: int
  Contacted :: int

section \<open>One lookup\<close>

record 'id lookupCfg =
  isRegistrant :: "('id \<Rightarrow> bool) option"
  target :: nat
  timeout :: duration
  deadline :: gotime
  initial :: int
  interval :: duration
  started :: gotime

definition stopAtTime :: "'id lookupCfg \<Rightarrow> gotime" where
  "stopAtTime c = (if timeout c > 0 \<and> started c + timeout c < deadline c then started c + timeout c else deadline c)"

text \<open>Where the loop waits: in the first \<open>select\<close> or in the pause, which lasts until the given time.\<close>

datatype waitPoint = ForNext | Pausing gotime

record 'id lookupState =
  seen :: "'id list"
  found :: "'id Found list"
  paceStart :: "gotime option"
  waiting :: waitPoint

datatype 'id lookupEvent = GotNode 'id | IterEnd | TimeUp | StopClosed | PauseOver

definition newLookup :: "'id lookupState" where
  "newLookup = \<lparr>seen = [], found = [], paceStart = None, waiting = ForNext\<rparr>"

definition sinceMs :: "'id lookupCfg \<Rightarrow> gotime \<Rightarrow> int" where
  "sinceMs c now = Milliseconds (now - started c)"

definition done_lk :: "(int \<times> int) option \<Rightarrow> 'id lookupCfg \<Rightarrow> 'id lookupState \<Rightarrow> gotime \<Rightarrow> bool \<Rightarrow> 'id Lookup" where
  "done_lk contacts c st now hit =
     \<lparr>StartMs = started c sdiv nsMilli, LatencyMs = sinceMs c now,
      FirstMs = (if found st \<noteq> [] then fAtMs (found st ! 0) else -1),
      Results = length (seen st), HitTarget = hit, lkFound = found st,
      Queries = (case contacts of None \<Rightarrow> -1 | Some (q, _) \<Rightarrow> q),
      Contacted = (case contacts of None \<Rightarrow> -1 | Some (_, n) \<Rightarrow> n)\<rparr>"

datatype 'id stepResult =
    Running "'id lookupState" "'id Lookup list"
  | Returned "'id Lookup" bool "'id Lookup list"

text \<open>
  One event. The list holds what \<open>progress\<close> is called with; \<open>None\<close> is an event that the waiting
  \<open>select\<close> does not listen for.
\<close>

definition checkTarget :: "(int \<times> int) option \<Rightarrow> 'id lookupCfg \<Rightarrow> 'id lookupState \<Rightarrow> gotime \<Rightarrow> 'id Lookup list \<Rightarrow> 'id stepResult" where
  "checkTarget contacts c st now ups =
     (if target c > 0 \<and> length (seen st) \<ge> target c then Returned (done_lk contacts c st now True) False ups
      else Running (st\<lparr>waiting := ForNext\<rparr>) ups)"

definition gotNode :: "(int \<times> int) option \<Rightarrow> 'id lookupCfg \<Rightarrow> 'id lookupState \<Rightarrow> 'id \<Rightarrow> gotime \<Rightarrow> 'id stepResult" where
  "gotNode contacts c st i now =
     (if (case isRegistrant c of None \<Rightarrow> True | Some f \<Rightarrow> f i) \<and> i \<notin> set (seen st)
      then let st = st\<lparr>seen := seen st @ [i], found := found st @ [\<lparr>fID = i, fAtMs = sinceMs c now\<rparr>]\<rparr>;
               ups = [done_lk contacts c st now False];
               over = int (length (seen st)) - initial c
           in if interval c > 0 \<and> over \<ge> 0
              then let p = (case paceStart st of None \<Rightarrow> now | Some p \<Rightarrow> p)
                   in Running (st\<lparr>paceStart := Some p, waiting := Pausing (p + over * interval c)\<rparr>) ups
              else checkTarget contacts c st now ups
      else checkTarget contacts c st now [])"

definition lookupStep :: "(int \<times> int) option \<Rightarrow> 'id lookupCfg \<Rightarrow> 'id lookupState \<Rightarrow> 'id lookupEvent \<Rightarrow> gotime \<Rightarrow> 'id stepResult option" where
  "lookupStep contacts c st ev now =
     (case ev of
        GotNode i \<Rightarrow> (if waiting st = ForNext then Some (gotNode contacts c st i now) else None)
      | IterEnd \<Rightarrow> (if waiting st = ForNext then Some (Returned (done_lk contacts c st now False) False []) else None)
      | TimeUp \<Rightarrow> (if now \<ge> stopAtTime c then Some (Returned (done_lk contacts c st now False) False []) else None)
      | StopClosed \<Rightarrow> Some (Returned (done_lk contacts c st now False) True [])
      | PauseOver \<Rightarrow> (case waiting st of
            ForNext \<Rightarrow> None
          | Pausing t \<Rightarrow> if now \<ge> t then Some (checkTarget contacts c st now []) else None))"

text \<open>\<open>runOne\<close> on a sequence of events: the lookup, whether it was stopped, and the progress reports.\<close>

fun runOne :: "(int \<times> int) option \<Rightarrow> 'id lookupCfg \<Rightarrow> 'id lookupState \<Rightarrow> ('id lookupEvent \<times> gotime) list
    \<Rightarrow> ('id Lookup \<times> bool \<times> 'id Lookup list) option" where
  "runOne contacts c st [] = None"
| "runOne contacts c st ((ev, now) # evs) =
     (case lookupStep contacts c st ev now of
        None \<Rightarrow> None
      | Some (Returned l stopped ups) \<Rightarrow> Some (l, stopped, ups)
      | Some (Running st ups) \<Rightarrow>
          (case runOne contacts c st evs of
             None \<Rightarrow> None
           | Some (l, stopped, ups') \<Rightarrow> Some (l, stopped, ups @ ups')))"

text \<open>\<open>Continuous\<close> reports its lookup once more when it ends.\<close>

definition Continuous :: "(int \<times> int) option \<Rightarrow> 'id lookupCfg \<Rightarrow> ('id lookupEvent \<times> gotime) list \<Rightarrow> 'id Lookup list option" where
  "Continuous contacts c evs =
     map_option (\<lambda>(l, _, ups). ups @ [l]) (runOne contacts (c\<lparr>target := 0, timeout := 0\<rparr>) newLookup evs)"

section \<open>Scheduled lookups\<close>

datatype 'id waitResult = AtTime | AtDeadline | AtStop

text \<open>
  \<open>waits k\<close> is what the \<open>select\<close> before the \<open>k\<close>-th lookup receives and \<open>look k\<close> the outcome of the
  lookup itself.
\<close>

fun scheduledFrom :: "gotime \<Rightarrow> (nat \<Rightarrow> 'id waitResult) \<Rightarrow> (nat \<Rightarrow> 'id Lookup \<times> bool) \<Rightarrow> nat \<Rightarrow> gotime list \<Rightarrow> 'id Lookup list" where
  "scheduledFrom dl waits look k [] = []"
| "scheduledFrom dl waits look k (t # ts) =
     (if \<not> t < dl then []
      else if waits k \<noteq> AtTime then []
      else case look k of (l, stopped) \<Rightarrow> if stopped then [] else l # scheduledFrom dl waits look (k + 1) ts)"

definition Scheduled :: "gotime \<Rightarrow> (nat \<Rightarrow> 'id waitResult) \<Rightarrow> (nat \<Rightarrow> 'id Lookup \<times> bool) \<Rightarrow> gotime list \<Rightarrow> 'id Lookup list" where
  "Scheduled dl waits look at = scheduledFrom dl waits look 0 at"

section \<open>What a lookup returns\<close>

definition accepts :: "'id lookupCfg \<Rightarrow> 'id \<Rightarrow> bool" where
  "accepts c i \<longleftrightarrow> (case isRegistrant c of None \<Rightarrow> True | Some f \<Rightarrow> f i)"

text \<open>The accepted nodes of a sequence of events, each once, in the order first seen.\<close>

fun firstSeen :: "'id lookupCfg \<Rightarrow> 'id list \<Rightarrow> ('id lookupEvent \<times> gotime) list \<Rightarrow> 'id list" where
  "firstSeen c acc [] = acc"
| "firstSeen c acc ((GotNode i, _) # evs) = firstSeen c (if accepts c i \<and> i \<notin> set acc then acc @ [i] else acc) evs"
| "firstSeen c acc (_ # evs) = firstSeen c acc evs"

lemma firstSeen_distinct:
  "distinct acc \<Longrightarrow> \<forall>i \<in> set acc. accepts c i \<Longrightarrow> distinct (firstSeen c acc evs) \<and> (\<forall>i \<in> set (firstSeen c acc evs). accepts c i)"
proof (induction c acc evs rule: firstSeen.induct)
  case (2 c acc i t evs)
  let ?acc = "if accepts c i \<and> i \<notin> set acc then acc @ [i] else acc"
  have "distinct ?acc" "\<forall>i \<in> set ?acc. accepts c i" using "2.prems" by auto
  from "2.IH" [OF this] show ?case unfolding firstSeen.simps .
qed simp_all

lemma firstSeen_prefix: "\<exists>zs. firstSeen c acc evs = acc @ zs"
proof (induction c acc evs rule: firstSeen.induct)
  case (2 c acc i t evs)
  then show ?case by (cases "accepts c i \<and> i \<notin> set acc") auto
qed simp_all

definition lookupInv :: "'id lookupCfg \<Rightarrow> 'id lookupState \<Rightarrow> bool" where
  "lookupInv c st \<longleftrightarrow> map fID (found st) = seen st
     \<and> (target c > 0 \<longrightarrow> (if waiting st = ForNext then length (seen st) < target c else length (seen st) \<le> target c))
     \<and> (interval c \<le> 0 \<longrightarrow> waiting st = ForNext)"

definition resultOk :: "'id lookupCfg \<Rightarrow> 'id Lookup \<Rightarrow> bool" where
  "resultOk c l \<longleftrightarrow> Results l = length (lkFound l)
     \<and> FirstMs l = (if lkFound l = [] then -1 else fAtMs (lkFound l ! 0))
     \<and> (HitTarget l \<longrightarrow> target c > 0 \<and> Results l = target c)
     \<and> (interval c \<le> 0 \<longrightarrow> target c > 0 \<longrightarrow> \<not> HitTarget l \<longrightarrow> Results l < target c)"

lemma done_resultOk:
  assumes "map fID (found st) = seen st"
    and "hit \<Longrightarrow> target c > 0 \<and> length (seen st) = target c"
    and "interval c \<le> 0 \<Longrightarrow> target c > 0 \<Longrightarrow> \<not> hit \<Longrightarrow> length (seen st) < target c"
  shows "resultOk c (done_lk contacts c st now hit)"
proof -
  have "length (seen st) = length (found st)" using assms(1) by (metis length_map)
  then show ?thesis using assms(2,3) by (auto simp: resultOk_def done_lk_def)
qed

lemma checkTarget_ok:
  assumes "map fID (found st) = seen st" "target c > 0 \<longrightarrow> length (seen st) \<le> target c"
  shows "(case checkTarget contacts c st now ups of
      Running st' ups' \<Rightarrow> lookupInv c st' \<and> found st' = found st \<and> ups' = ups
    | Returned l stopped ups' \<Rightarrow> resultOk c l \<and> lkFound l = found st \<and> \<not> stopped \<and> ups' = ups)"
  using assms done_resultOk [OF assms(1), of True c contacts now]
  by (auto simp: checkTarget_def lookupInv_def done_lk_def)

lemma seen_found: "map fID (found st) = seen st \<Longrightarrow> length (seen st) = length (found st)"
  by (metis length_map)

text \<open>One step: the found list grows by at most the node just received, and every progress report shows it.\<close>

lemma lookupStep_ok:
  assumes "lookupInv c st" "lookupStep contacts c st ev now = Some s"
  defines "f \<equiv> (case s of Running st' _ \<Rightarrow> found st' | Returned l _ _ \<Rightarrow> lkFound l)"
    and "ups \<equiv> (case s of Running _ u \<Rightarrow> u | Returned _ _ u \<Rightarrow> u)"
  shows "map fID f = firstSeen c (map fID (found st)) [(ev, now)]
    \<and> take (length (found st)) f = found st
    \<and> map lkFound ups = map (\<lambda>k. take k f) [length (found st) + 1..<length f + 1]
    \<and> (\<forall>u \<in> set ups. \<not> HitTarget u)
    \<and> (case s of Running st' _ \<Rightarrow> lookupInv c st' | Returned l stopped _ \<Rightarrow> resultOk c l \<and> (stopped \<longrightarrow> ev = StopClosed))"
proof -
  have mf: "map fID (found st) = seen st" and tgt: "target c > 0 \<longrightarrow> length (seen st) \<le> target c"
    and noint: "interval c \<le> 0 \<Longrightarrow> waiting st = ForNext"
    and lt: "waiting st = ForNext \<Longrightarrow> target c > 0 \<Longrightarrow> length (seen st) < target c"
    using assms(1) by (auto simp: lookupInv_def split: if_splits)
  have quit: "resultOk c (done_lk contacts c st now False)"
    using noint lt by (intro done_resultOk [OF mf]) auto
  have lkF: "lkFound (done_lk contacts c st' now hit) = found st'" for st' hit by (simp add: done_lk_def)
  show ?thesis
  proof (cases ev)
    case (GotNode i)
    then have w: "waiting st = ForNext" and s: "s = gotNode contacts c st i now"
      using assms(2) by (auto simp: lookupStep_def split: if_splits)
    show ?thesis
    proof (cases "accepts c i \<and> i \<notin> set (seen st)")
      case True
      define st1 where "st1 = st\<lparr>seen := seen st @ [i], found := found st @ [\<lparr>fID = i, fAtMs = sinceMs c now\<rparr>]\<rparr>"
      have m1: "map fID (found st1) = seen st1" using mf by (simp add: st1_def)
      have t1: "target c > 0 \<longrightarrow> length (seen st1) \<le> target c" using lt [OF w] by (auto simp: st1_def)
      define u where "u = [done_lk contacts c st1 now False]"
      have upd: "map lkFound u = map (\<lambda>k. take k (found st1)) [length (found st) + 1..<length (found st1) + 1]"
        "\<forall>x \<in> set u. \<not> HitTarget x" by (simp_all add: u_def lkF) (simp_all add: st1_def done_lk_def)
      have f1: "map fID (found st1) = firstSeen c (map fID (found st)) [(ev, now)]" "take (length (found st)) (found st1) = found st"
        using True mf GotNode by (auto simp: st1_def)
      show ?thesis
      proof (cases "interval c > 0 \<and> int (length (seen st1)) - initial c \<ge> 0")
        case p: True
        then obtain q where "s = Running (st1\<lparr>paceStart := fst q, waiting := Pausing (snd q)\<rparr>) u"
          using True unfolding s gotNode_def Let_def accepts_def [symmetric] st1_def [symmetric] u_def [symmetric]
          by (simp add: Let_def) (metis fst_conv snd_conv)
        then show ?thesis using upd f1 m1 t1 p by (simp add: f_def ups_def lookupInv_def)
      next
        case np: False
        then have s': "s = checkTarget contacts c st1 now u"
          using True unfolding s gotNode_def Let_def accepts_def [symmetric] st1_def [symmetric] u_def [symmetric] by auto
        show ?thesis using checkTarget_ok [OF m1 t1, where contacts = contacts and now = now and ups = u] upd f1 unfolding s'
          by (auto simp: f_def ups_def s' split: stepResult.splits)
      qed
    next
      case False
      then have s': "s = checkTarget contacts c st now []" by (auto simp: s gotNode_def accepts_def)
      have "firstSeen c (map fID (found st)) [(ev, now)] = map fID (found st)" using False mf GotNode by auto
      then show ?thesis using checkTarget_ok [OF mf tgt, where contacts = contacts and now = now and ups = "[]"] unfolding s'
        by (auto simp: f_def ups_def s' split: stepResult.splits)
    qed
  next
    case PauseOver
    then have s': "s = checkTarget contacts c st now []" using assms(2) by (auto simp: lookupStep_def split: waitPoint.splits if_splits)
    show ?thesis using checkTarget_ok [OF mf tgt, where contacts = contacts and now = now and ups = "[]"] PauseOver unfolding s'
      by (auto simp: f_def ups_def s' split: stepResult.splits)
  qed (use assms(2) quit lkF in \<open>auto simp: lookupStep_def f_def ups_def split: if_splits\<close>)
qed

lemma firstSeen_append: "firstSeen c acc (xs @ ys) = firstSeen c (firstSeen c acc xs) ys"
  by (induction c acc xs rule: firstSeen.induct) simp_all

lemma runOne_from:
  assumes "lookupInv c st" "runOne contacts c st evs = Some (l, stopped, ups)"
  shows "\<exists>handled later. evs = handled @ later
    \<and> map fID (lkFound l) = firstSeen c (map fID (found st)) handled
    \<and> take (length (found st)) (lkFound l) = found st
    \<and> map lkFound ups = map (\<lambda>k. take k (lkFound l)) [length (found st) + 1..<length (lkFound l) + 1]
    \<and> (\<forall>u \<in> set ups. \<not> HitTarget u) \<and> resultOk c l
    \<and> (stopped \<longrightarrow> (\<exists>t. (StopClosed, t) \<in> set handled))"
  using assms
proof (induction evs arbitrary: st ups)
  case (Cons x evs)
  obtain ev now where x: "x = (ev, now)" by force
  from Cons.prems(2) obtain s where s: "lookupStep contacts c st ev now = Some s" by (auto simp: x split: option.splits)
  note step = lookupStep_ok [OF Cons.prems(1) s]
  show ?case
  proof (cases s)
    case (Returned l' stopped' ups')
    then have "l' = l" "stopped' = stopped" "ups' = ups" using Cons.prems(2) s x by simp_all
    then show ?thesis using step Returned by (intro exI [of _ "[x]"] exI [of _ evs]) (auto simp: x)
  next
    case (Running st' ups1)
    then obtain ups2 where r: "runOne contacts c st' evs = Some (l, stopped, ups2)" "ups = ups1 @ ups2"
      using Cons.prems(2) s x by (auto split: option.splits)
    have st': "lookupInv c st'" "map fID (found st') = firstSeen c (map fID (found st)) [x]"
      "take (length (found st)) (found st') = found st"
      "map lkFound ups1 = map (\<lambda>k. take k (found st')) [length (found st) + 1..<length (found st') + 1]"
      "\<forall>u \<in> set ups1. \<not> HitTarget u" using step Running x by auto
    from Cons.IH [OF st'(1) r(1)] obtain handled later where IH: "evs = handled @ later"
      "map fID (lkFound l) = firstSeen c (map fID (found st')) handled"
      "take (length (found st')) (lkFound l) = found st'"
      "map lkFound ups2 = map (\<lambda>k. take k (lkFound l)) [length (found st') + 1..<length (lkFound l) + 1]"
      "\<forall>u \<in> set ups2. \<not> HitTarget u" "resultOk c l" "stopped \<longrightarrow> (\<exists>t. (StopClosed, t) \<in> set handled)" by blast
    have le1: "length (found st) \<le> length (found st')" using st'(3) by (metis length_take min.absorb_iff2 nat_le_linear min.commute)
    have le2: "length (found st') \<le> length (lkFound l)" using IH(3) by (metis length_take min.absorb_iff2 nat_le_linear min.commute)
    have "take k (found st') = take k (lkFound l)" if "k \<le> length (found st')" for k
      using IH(3) that by (metis min.absorb1 take_take)
    then have "map lkFound ups1 = map (\<lambda>k. take k (lkFound l)) [length (found st) + 1..<length (found st') + 1]"
      unfolding st'(4) by (intro map_cong refl) (simp del: upt_Suc)
    then have "map lkFound ups = map (\<lambda>k. take k (lkFound l)) ([length (found st) + 1..<length (found st') + 1] @ [length (found st') + 1..<length (lkFound l) + 1])"
      using IH(4) r(2) by simp
    also have "[length (found st) + 1..<length (found st') + 1] @ [length (found st') + 1..<length (lkFound l) + 1] = [length (found st) + 1..<length (lkFound l) + 1]"
      using upt_add_eq_append [of "length (found st) + 1" "length (found st') + 1" "length (lkFound l) - length (found st')"] le1 le2
      by (simp del: upt_Suc)
    finally have ups: "map lkFound ups = map (\<lambda>k. take k (lkFound l)) [length (found st) + 1..<length (lkFound l) + 1]" .
    have "take (length (found st)) (lkFound l) = found st"
      using IH(3) st'(3) le1 by (metis min.absorb1 take_take)
    moreover have "map fID (lkFound l) = firstSeen c (map fID (found st)) (x # handled)"
      using IH(2) st'(2) firstSeen_append [of c "map fID (found st)" "[x]" handled] by simp
    ultimately show ?thesis using IH ups st'(5) r(2)
      by (intro exI [of _ "x # handled"] exI [of _ later]) auto
  qed
qed simp

lemma newLookup_inv: "lookupInv c newLookup"
  by (simp add: lookupInv_def newLookup_def)

text \<open>
  C13: Whatever a lookup receives and in whatever order, it returns exactly the registrants among the
  nodes it handled, each once in the order first seen. It reports the target hit only with exactly the
  target's number of results, and without pauses it misses the target only with fewer. Every progress
  report shows one result more than the one before, and only a closed stop channel makes it a stopped one.
\<close>

theorem runOne_results:
  assumes "runOne contacts c newLookup evs = Some (l, stopped, ups)"
  shows "(\<exists>handled later. evs = handled @ later \<and> map fID (lkFound l) = firstSeen c [] handled
        \<and> (stopped \<longrightarrow> (\<exists>t. (StopClosed, t) \<in> set handled)))
    \<and> distinct (map fID (lkFound l)) \<and> (\<forall>f \<in> set (lkFound l). accepts c (fID f))
    \<and> Results l = length (lkFound l) \<and> FirstMs l = (if lkFound l = [] then -1 else fAtMs (lkFound l ! 0))
    \<and> (HitTarget l \<longrightarrow> target c > 0 \<and> Results l = target c)
    \<and> (interval c \<le> 0 \<longrightarrow> target c > 0 \<longrightarrow> (HitTarget l \<longleftrightarrow> Results l \<ge> target c))
    \<and> map lkFound ups = map (\<lambda>k. take k (lkFound l)) [1..<Results l + 1] \<and> (\<forall>u \<in> set ups. \<not> HitTarget u)"
proof -
  from runOne_from [OF newLookup_inv assms] obtain handled later where R: "evs = handled @ later"
    "map fID (lkFound l) = firstSeen c [] handled"
    "map lkFound ups = map (\<lambda>k. take k (lkFound l)) [1..<length (lkFound l) + 1]"
    "\<forall>u \<in> set ups. \<not> HitTarget u" "resultOk c l" "stopped \<longrightarrow> (\<exists>t. (StopClosed, t) \<in> set handled)"
    by (auto simp: newLookup_def)
  have d: "distinct (map fID (lkFound l))" "\<forall>i \<in> set (map fID (lkFound l)). accepts c i"
    using firstSeen_distinct [of "[]" c handled] unfolding R(2) by auto
  have res: "Results l = length (lkFound l)" "FirstMs l = (if lkFound l = [] then -1 else fAtMs (lkFound l ! 0))"
    "HitTarget l \<longrightarrow> target c > 0 \<and> Results l = target c"
    "interval c \<le> 0 \<longrightarrow> target c > 0 \<longrightarrow> \<not> HitTarget l \<longrightarrow> Results l < target c"
    using R(5) unfolding resultOk_def by blast+
  have hit: "interval c \<le> 0 \<longrightarrow> target c > 0 \<longrightarrow> (HitTarget l \<longleftrightarrow> Results l \<ge> target c)"
    using res(3,4) by (metis leD order.refl)
  have acc: "\<forall>f \<in> set (lkFound l). accepts c (fID f)" using d(2) by simp
  show ?thesis using R(1,2,6) R(3,4) d(1) acc res(1-3) hit by auto
qed

text \<open>The lookups of a schedule are recorded in order, up to the first that is not due, interrupted or stopped.\<close>

lemma scheduledFrom_prefix:
  "\<exists>m \<le> length ts. scheduledFrom dl waits look k ts = map (\<lambda>j. fst (look (k + j))) [0..<m]
    \<and> (\<forall>j < m. ts ! j < dl \<and> waits (k + j) = AtTime \<and> \<not> snd (look (k + j)))
    \<and> (m < length ts \<longrightarrow> \<not> (ts ! m < dl \<and> waits (k + m) = AtTime \<and> \<not> snd (look (k + m))))"
proof (induction ts arbitrary: k)
  case (Cons t ts)
  show ?case
  proof (cases "t < dl \<and> waits k = AtTime \<and> \<not> snd (look k)")
    case True
    from Cons.IH [of "k + 1"] obtain m where m: "m \<le> length ts"
      "scheduledFrom dl waits look (k + 1) ts = map (\<lambda>j. fst (look (k + 1 + j))) [0..<m]"
      "\<forall>j < m. ts ! j < dl \<and> waits (k + 1 + j) = AtTime \<and> \<not> snd (look (k + 1 + j))"
      "m < length ts \<longrightarrow> \<not> (ts ! m < dl \<and> waits (k + 1 + m) = AtTime \<and> \<not> snd (look (k + 1 + m)))" by blast
    have "map (\<lambda>j. fst (look (k + j))) [0..<Suc m] = fst (look k) # map (\<lambda>j. fst (look (k + 1 + j))) [0..<m]"
      by (simp add: map_upt_Suc del: upt_Suc)
    then show ?thesis using True m by (intro exI [of _ "Suc m"]) (auto simp: case_prod_beta less_Suc_eq_0_disj simp del: upt_Suc)
  next
    case False
    then show ?thesis by (intro exI [of _ 0]) (auto simp: case_prod_beta)
  qed
qed simp

section \<open>Witness\<close>

definition oneTarget :: "nat lookupCfg" where
  "oneTarget = \<lparr>isRegistrant = Some (\<lambda>i. i < 10), target = 2, timeout = 5 * nsSecond, deadline = 100 * nsSecond,
     initial = 0, interval = 0, started = nsSecond\<rparr>"

theorem runOne_results_witness:
  "\<exists>l. runOne (Some (7, 4)) oneTarget newLookup
      [(GotNode 3, 2 * nsSecond), (GotNode 40, 2 * nsSecond), (GotNode 3, 3 * nsSecond), (GotNode 5, 3 * nsSecond), (TimeUp, 9 * nsSecond)]
      = Some l \<and> HitTarget (fst l) \<and> Results (fst l) = 2 \<and> distinct (map fID (lkFound (fst l)))"
proof -
  let ?evs = "[(GotNode 3, 2 * nsSecond), (GotNode 40, 2 * nsSecond), (GotNode 3, 3 * nsSecond), (GotNode 5, 3 * nsSecond), (TimeUp, 9 * nsSecond)]"
  have "\<exists>l ups. runOne (Some (7, 4)) oneTarget newLookup ?evs = Some (l, False, ups) \<and> HitTarget l"
    by (simp add: lookupStep_def gotNode_def checkTarget_def newLookup_def oneTarget_def done_lk_def)
  then obtain l stopped ups where run: "runOne (Some (7, 4)) oneTarget newLookup ?evs = Some (l, stopped, ups)" "HitTarget l"
    by blast
  show ?thesis using runOne_results [OF run(1)] run by (intro exI [of _ "(l, stopped, ups)"]) (simp add: oneTarget_def)
qed

end
