(* ===== verification/Emulation.thy ===== *)
theory Emulation
  imports Placement Assign
begin

text \<open>
  Emulated wide-area networks: the star model and the region table (\<open>src/pkg/wan/star.go\<close>,
  \<open>regions.go\<close>), the plan of virtual nodes (\<open>src/pkg/distem/layout.go\<close>), and what a host prepares and
  starts (\<open>src/pkg/host/host.go\<close>). The exponential and the logarithm of the standard library are the
  parameters \<open>expF\<close> and \<open>logF\<close>; running the commands, files and processes are outside the model.
\<close>

section \<open>The star model\<close>

record Star =
  MinMs :: float64
  MaxMs :: float64
  JitterMs :: float64
  RateKbps :: int

definition Delay :: "(float64 \<Rightarrow> float64) \<Rightarrow> (float64 \<Rightarrow> float64) \<Rightarrow> Star \<Rightarrow> rng \<Rightarrow> duration \<times> rng" where
  "Delay expF logF s r =
     (let (u, r) = Float64 r;
          d = fmul (MinMs s) (expF (fmul u (logF (fdiv (MaxMs s) (MinMs s)))))
      in (truncInt (fmul d (ofInt nsMilli)), r))"

definition Commands :: "Star \<Rightarrow> string \<Rightarrow> string \<Rightarrow> string \<Rightarrow> duration \<Rightarrow> string list" where
  "Commands s nm bridge cidr delay =
     (let veth = ''v'' @ nm; peer = ''h'' @ nm;
          netem = ''ip netns exec '' @ nm @ '' tc qdisc add dev '' @ veth @ '' root netem delay '' @ Itoa (Milliseconds delay)
            @ ''ms '' @ Itoa (truncInt (JitterMs s)) @ ''ms''
      in [''ip netns add '' @ nm,
          ''ip link add '' @ veth @ '' type veth peer name '' @ peer,
          ''ip link set '' @ veth @ '' netns '' @ nm,
          ''ip link set '' @ peer @ '' master '' @ bridge @ '' up'',
          ''ip -n '' @ nm @ '' addr add '' @ cidr @ '' dev '' @ veth,
          ''ip -n '' @ nm @ '' link set lo up'',
          ''ip -n '' @ nm @ '' link set '' @ veth @ '' up'',
          netem @ (if RateKbps s > 0 then '' rate '' @ Itoa (RateKbps s) @ ''kbit'' else [])])"

definition Teardown :: "string \<Rightarrow> string list" where
  "Teardown nm = [''ip netns del '' @ nm]"

definition starOf :: "WanConfig \<Rightarrow> Star option" where
  "starOf w = (if \<not> wEnabled w then None
     else Some \<lparr>MinMs = wDelayMinMs w, MaxMs = wDelayMaxMs w, JitterMs = wJitterMs w, RateKbps = wRateKbps w\<rparr>)"

section \<open>The region table\<close>

record RTTTable =
  Intra :: float64
  RTT :: "(string, (string, float64) gomap) gomap"

datatype rttError = NoRTT string string

definition OneWay :: "RTTTable \<Rightarrow> string \<Rightarrow> string \<Rightarrow> rttError + float64" where
  "OneWay t a b =
     (if a = b then Inr (fdiv (Intra t) 2)
      else case map_of (mget [] (RTT t) a) b of
             Some x \<Rightarrow> Inr (fdiv x 2)
           | None \<Rightarrow> (case map_of (mget [] (RTT t) b) a of
                       Some x \<Rightarrow> Inr (fdiv x 2)
                     | None \<Rightarrow> Inl (NoRTT a b)))"

fun latencyRow :: "RTTTable \<Rightarrow> string list \<Rightarrow> nat \<Rightarrow> nat list \<Rightarrow> rttError + float64 list" where
  "latencyRow t regions i [] = Inr []"
| "latencyRow t regions i (j # js) =
     (case (if i = j then Inr 0 else OneWay t (regions ! i) (regions ! j)) of
        Inl e \<Rightarrow> Inl e
      | Inr d \<Rightarrow> (case latencyRow t regions i js of Inl e \<Rightarrow> Inl e | Inr ds \<Rightarrow> Inr (d # ds)))"

fun latencyRows :: "RTTTable \<Rightarrow> string list \<Rightarrow> nat list \<Rightarrow> rttError + float64 list list" where
  "latencyRows t regions [] = Inr []"
| "latencyRows t regions (i # is) =
     (case latencyRow t regions i [0..<length regions] of
        Inl e \<Rightarrow> Inl e
      | Inr r \<Rightarrow> (case latencyRows t regions is of Inl e \<Rightarrow> Inl e | Inr rs \<Rightarrow> Inr (r # rs)))"

definition LatencyMatrix :: "RTTTable \<Rightarrow> string list \<Rightarrow> rttError + float64 list list" where
  "LatencyMatrix t regions = latencyRows t regions [0..<length regions]"

section \<open>The plan\<close>

record Vnode =
  vnName :: string
  vnRegion :: string
  vnPnode :: string
  vnIP :: string

record Plan =
  Vnodes :: "Vnode list"
  Matrix :: "float64 list list"
  plRegions :: "string list"

datatype layoutError = NoPhysicalNodes | NoLatency rttError

text \<open>The regions of the fleet: the home region first, the others by name.\<close>

definition regionOrder :: "string \<Rightarrow> string list \<Rightarrow> string list" where
  "regionOrder home rs = filter (\<lambda>r. r = home) rs @ sort (filter (\<lambda>r. r \<noteq> home) rs)"

definition vnodeAt :: "string list \<Rightarrow> string \<Rightarrow> nat \<Rightarrow> Vnode" where
  "vnodeAt pnodes r i = \<lparr>vnName = ''vn'' @ Itoa (int i), vnRegion = r, vnPnode = pnodes ! (i mod length pnodes), vnIP = ''''\<rparr>"

fun layVnodes :: "string list \<Rightarrow> (string, int) gomap \<Rightarrow> string list \<Rightarrow> nat \<Rightarrow> Vnode list" where
  "layVnodes pnodes fleet [] i = []"
| "layVnodes pnodes fleet (r # rs) i =
     (let n = nat (mget 0 fleet r)
      in map (vnodeAt pnodes r) [i..<i + n] @ layVnodes pnodes fleet rs (i + n))"

fun drawDelays :: "(float64 \<Rightarrow> float64) \<Rightarrow> (float64 \<Rightarrow> float64) \<Rightarrow> Star \<Rightarrow> nat \<Rightarrow> rng \<Rightarrow> float64 list" where
  "drawDelays expF logF s 0 r = []"
| "drawDelays expF logF s (Suc n) r =
     (let (d, r) = Delay expF logF s r in fdiv (ofInt d) (ofInt nsMilli) # drawDelays expF logF s n r)"

definition starMatrix :: "float64 list \<Rightarrow> float64 list list" where
  "starMatrix d = map (\<lambda>i. map (\<lambda>j. if i \<noteq> j then fadd (d ! i) (d ! j) else 0) [0..<length d]) [0..<length d]"

definition Layout :: "(float64 \<Rightarrow> float64) \<Rightarrow> (float64 \<Rightarrow> float64) \<Rightarrow> (int \<Rightarrow> source) \<Rightarrow> Config \<Rightarrow> string list \<Rightarrow> RTTTable
    \<Rightarrow> layoutError + Plan" where
  "Layout expF logF src cfg pnodes table =
     (if pnodes = [] then Inl NoPhysicalNodes
      else let fleet = Fleet cfg;
               regions = regionOrder (clHomeRegion (Cloud (testbed cfg))) (map fst fleet);
               vs = layVnodes pnodes fleet regions 0;
               w = Wan (testbed cfg)
           in if nModel (Network (scen cfg)) = ''star''
              then Inr \<lparr>Vnodes = vs,
                     Matrix = starMatrix (drawDelays expF logF
                       \<lparr>MinMs = wDelayMinMs w, MaxMs = wDelayMaxMs w, JitterMs = wJitterMs w, RateKbps = 0\<rparr> (length vs)
                       (randNew src (pSeed (Population (scen cfg)) + 7))),
                     plRegions = regions\<rparr>
              else case LatencyMatrix table (map vnRegion vs) of
                     Inl e \<Rightarrow> Inl (NoLatency e)
                   | Inr m \<Rightarrow> Inr \<lparr>Vnodes = vs, Matrix = m, plRegions = regions\<rparr>)"

definition Names :: "Plan \<Rightarrow> string list" where
  "Names p = map vnName (Vnodes p)"

text \<open>\<open>Apply\<close>'s grouping of the vnodes by physical node, in the order the physical nodes appear.\<close>

definition byPnode :: "Vnode list \<Rightarrow> (string, string list) gomap \<times> string list" where
  "byPnode vs = fold (\<lambda>v (m, order).
     (mput (vnPnode v) (mget [] m (vnPnode v) @ [vnName v]) m,
      if mhas m (vnPnode v) then order else order @ [vnPnode v])) vs ([], [])"

definition inventoryHosts :: "Plan \<Rightarrow> invHost list" where
  "inventoryHosts p = map (\<lambda>(i, v). \<lparr>ihIndex = int i, ihIP = vnIP v, ihPublic = '''', ihNodes = 1, ihRegion = vnRegion v, ihPort = 9000\<rparr>)
     (enumerate 0 (Vnodes p))"

section \<open>Addresses of a host\<close>

definition Bridge :: string where "Bridge = ''tbbr0''"

definition dotted :: "int list \<Rightarrow> string" where
  "dotted ns = Join CHR ''.'' (map Itoa ns)"

definition Subnet :: "int \<Rightarrow> string" where
  "Subnet h = dotted [10, 100 + h, 0, 0] @ ''/16''"

definition BridgeAddr :: "int \<Rightarrow> string" where
  "BridgeAddr h = dotted [10, 100 + h, 255, 254]"

definition NodeIP :: "int \<Rightarrow> nat \<Rightarrow> string" where
  "NodeIP h k = dotted [10, 100 + h, int ((k + 1) div 256), int ((k + 1) mod 256)]"

definition nsName :: "nat \<Rightarrow> string" where
  "nsName idx = ''tb'' @ Itoa (int idx)"

section \<open>Preparing a host\<close>

record Runner =
  NodeBinary :: string
  LegacyBinary :: string
  PlainBinary :: string
  rWan :: "Star option"
  rHost :: int
  rSeed :: int
  rRoutes :: "Route list"
  RealAddrs :: bool
  NetRoutes :: bool
  rProcs :: "nat list"
  rDelay :: "(nat, duration) gomap"
  rLegacy :: "(nat, string) gomap"
  rStatus :: "(nat, string) gomap"

datatype prepError = NoBinary nat string | NotLinux | NotOnLink string

definition legacyBinary :: "Runner \<Rightarrow> Assignment \<Rightarrow> string \<times> string" where
  "legacyBinary r a = (if aLegacyFork a then (PlainBinary r, ''plain (legacy on the fork)'') else (LegacyBinary r, ''legacy''))"

fun prepBinaries :: "Assignment list \<Rightarrow> Runner \<Rightarrow> prepError + Runner" where
  "prepBinaries [] r = Inr r"
| "prepBinaries (a # as) r =
     (let r = r\<lparr>rStatus := mput (aIdx a) (aIP a @ '':'' @ Itoa (aStatusPort a)) (rStatus r)\<rparr>;
          (bin, what) = legacyBinary r a
      in if aLegacy a \<and> bin = [] then Inl (NoBinary (aIdx a) what)
         else prepBinaries as (if aLegacy a then r\<lparr>rLegacy := mput (aIdx a) bin (rLegacy r)\<rparr> else r))"

definition hostCmds :: "Runner \<Rightarrow> string list" where
  "hostCmds r =
     [''sysctl -q -w net.ipv4.ip_forward=1'',
      ''sysctl -q -w net.ipv4.neigh.default.gc_thresh1=8192'',
      ''sysctl -q -w net.ipv4.neigh.default.gc_thresh2=32768'',
      ''sysctl -q -w net.ipv4.neigh.default.gc_thresh3=65536'',
      ''sysctl -q -w net.core.rmem_max=33554432'',
      ''sysctl -q -w net.core.wmem_max=33554432'',
      ''sysctl -q -w net.core.rmem_default=16777216'',
      ''sysctl -q -w net.core.wmem_default=16777216'',
      ''ip link add '' @ Bridge @ '' type bridge'',
      ''ip addr add '' @ BridgeAddr (rHost r) @ ''/16 dev '' @ Bridge,
      ''ip link set '' @ Bridge @ '' up'']
     @ (if RealAddrs r then [''sysctl -q -w net.ipv4.conf.all.rp_filter=0'', ''sysctl -q -w net.ipv4.conf.default.rp_filter=0''] else [])"

text \<open>One node: its commands and, on crawl addresses, the machine's route to it.\<close>

definition nodeCmds :: "Runner \<Rightarrow> Star \<Rightarrow> nat \<Rightarrow> Assignment \<Rightarrow> duration \<Rightarrow> string list \<times> string list" where
  "nodeCmds r s k a d =
     (let ns = nsName (aIdx a); veth = ''v'' @ ns
      in if RealAddrs r
         then (Commands s ns Bridge (aIP a @ ''/32'') d
                @ [''ip -n '' @ ns @ '' route add '' @ BridgeAddr (rHost r) @ ''/32 dev '' @ veth,
                   ''ip -n '' @ ns @ '' route add default via '' @ BridgeAddr (rHost r)],
               [''route replace '' @ aIP a @ ''/32 dev '' @ Bridge])
         else (Commands s ns Bridge (NodeIP (rHost r) k @ ''/16'') d
                @ [''ip -n '' @ ns @ '' route add default via '' @ BridgeAddr (rHost r)], []))"

fun prepNodes :: "(float64 \<Rightarrow> float64) \<Rightarrow> (float64 \<Rightarrow> float64) \<Rightarrow> Star \<Rightarrow> (nat \<times> Assignment) list \<Rightarrow> rng \<Rightarrow> Runner
    \<Rightarrow> string list \<times> string list \<times> Runner" where
  "prepNodes expF logF s [] g r = ([], [], r)"
| "prepNodes expF logF s ((k, a) # as) g r =
     (let (d, g) = Delay expF logF s g;
          (cmds, routes) = nodeCmds r s k a d;
          (cmds', routes', r) = prepNodes expF logF s as g (r\<lparr>rDelay := mput (aIdx a) d (rDelay r)\<rparr>)
      in (cmds @ cmds', routes @ routes', r))"

text \<open>The routes to other machines and the addresses they go through; \<open>prs\<close> in the order of the map.\<close>

definition peerRoutes :: "Runner \<Rightarrow> (int \<times> string) list \<Rightarrow> (string \<times> string) list" where
  "peerRoutes r prs =
     (if RealAddrs r then map (\<lambda>rt. (rtPrefix rt, rtVia rt)) (rRoutes r)
      else if \<not> NetRoutes r then map (\<lambda>(h, addr). (Subnet h, addr)) (filter (\<lambda>(h, addr). h \<noteq> rHost r) prs)
      else [])"

text \<open>\<open>Prepare\<close>: the commands run, the route batch, and the runner's tables. \<open>onLink\<close> asks the kernel.\<close>

definition Prepare :: "(float64 \<Rightarrow> float64) \<Rightarrow> (float64 \<Rightarrow> float64) \<Rightarrow> (int \<Rightarrow> source) \<Rightarrow> bool \<Rightarrow> (string \<Rightarrow> bool)
    \<Rightarrow> Assignment list \<Rightarrow> (int \<times> string) list \<Rightarrow> Runner \<Rightarrow> prepError + string list \<times> string list \<times> Runner" where
  "Prepare expF logF src linux onLink as prs r =
     (case prepBinaries as r of
        Inl e \<Rightarrow> Inl e
      | Inr r \<Rightarrow>
          (case rWan r of
             None \<Rightarrow> Inr ([], [], r)
           | Some s \<Rightarrow>
               if \<not> linux then Inl NotLinux
               else let (cmds, routes, r) = prepNodes expF logF s (enumerate 0 as) (randNew src (rSeed r + rHost r)) r;
                        pr = peerRoutes r prs
                    in case find (\<lambda>via. \<not> onLink via) (map snd pr) of
                         Some via \<Rightarrow> Inl (NotOnLink via)
                       | None \<Rightarrow> Inr (hostCmds r @ cmds,
                           routes @ map (\<lambda>(p, via). ''route replace '' @ p @ '' via '' @ via) pr, r)))"

section \<open>Starting and stopping\<close>

datatype startResult = Launched "string list" | AskedUp | LaunchFailed

definition nodeArgs :: "(string list \<Rightarrow> string list) \<Rightarrow> string \<Rightarrow> int \<Rightarrow> Runner \<Rightarrow> nat \<Rightarrow> string list" where
  "nodeArgs rootArgs asgFile verbosity r idx =
     (let bin = (case map_of (rLegacy r) idx of None \<Rightarrow> NodeBinary r | Some b \<Rightarrow> b);
          args = [bin, ''-assignment'', asgFile, ''-v'', Itoa verbosity]
      in if rWan r \<noteq> None then rootArgs [''ip'', ''netns'', ''exec'', nsName idx] @ args else args)"

definition rootArgs :: "bool \<Rightarrow> string list \<Rightarrow> string list" where
  "rootArgs isRoot args = (if isRoot then args else [''sudo'', ''-n''] @ args)"

text \<open>\<open>ok\<close> says whether the process could be launched.\<close>

definition Start_node :: "bool \<Rightarrow> bool \<Rightarrow> string \<Rightarrow> int \<Rightarrow> nat \<Rightarrow> Runner \<Rightarrow> startResult \<times> Runner" where
  "Start_node ok isRoot asgFile verbosity idx r =
     (if idx \<in> set (rProcs r) then (AskedUp, r)
      else if \<not> ok then (LaunchFailed, r)
      else (Launched (nodeArgs (rootArgs isRoot) asgFile verbosity r idx), r\<lparr>rProcs := rProcs r @ [idx]\<rparr>))"

definition terminate :: "nat \<Rightarrow> Runner \<Rightarrow> bool \<times> Runner" where
  "terminate idx r = (idx \<in> set (rProcs r), r\<lparr>rProcs := filter (\<lambda>i. i \<noteq> idx) (rProcs r)\<rparr>)"

definition StopAll :: "Runner \<Rightarrow> string list \<times> Runner" where
  "StopAll r =
     (let r' = fold (\<lambda>i r. snd (terminate i r)) (rProcs r) r
      in (if rWan r' = None then [] else concat (map (\<lambda>(i, _). Teardown (nsName i)) (rDelay r')) @ [''ip link del '' @ Bridge], r'))"

section \<open>Addresses are different\<close>

lemma Itoa_inj: "0 \<le> a \<Longrightarrow> 0 \<le> b \<Longrightarrow> Itoa a = Itoa b \<Longrightarrow> a = b"
proof -
  assume "0 \<le> a" "0 \<le> b" "Itoa a = Itoa b"
  then have "natToStr (nat a) = natToStr (nat b)" by (simp add: Itoa_def)
  then have "nat a = nat b" by (metis digitsVal_natToStr option.inject)
  then show ?thesis using \<open>0 \<le> a\<close> \<open>0 \<le> b\<close> by simp
qed

lemma Itoa_no_dot: "CHR ''.'' \<notin> set (Itoa n)"
  using natToStr_digits isDigit_not by (auto simp: Itoa_def)

lemma dotted_inj:
  assumes "dotted xs = dotted ys" "xs \<noteq> []" "ys \<noteq> []" "\<forall>x \<in> set xs \<union> set ys. 0 \<le> x"
  shows "xs = ys"
proof -
  have "map Itoa xs = Split (CHR ''.'') (dotted xs)" "map Itoa ys = Split (CHR ''.'') (dotted ys)"
    unfolding dotted_def using assms(2,3) Itoa_no_dot by (simp_all add: Split_Join)
  then have "map Itoa xs = map Itoa ys" using assms(1) by simp
  moreover have "inj_on Itoa (set xs \<union> set ys)" using assms(4) Itoa_inj by (auto simp: inj_on_def)
  ultimately show ?thesis by (simp add: inj_on_map_eq_map)
qed

lemma NodeIP_inj: "0 \<le> h \<Longrightarrow> 0 \<le> h' \<Longrightarrow> NodeIP h k = NodeIP h' k' \<longleftrightarrow> h = h' \<and> k = k'"
proof
  assume h: "0 \<le> h" "0 \<le> h'" and eq: "NodeIP h k = NodeIP h' k'"
  from dotted_inj [OF eq [unfolded NodeIP_def]] h
  have "h = h'" "(k + 1) div 256 = (k' + 1) div 256" "(k + 1) mod 256 = (k' + 1) mod 256" by auto
  then have "k + 1 = k' + 1" by (metis div_mult_mod_eq)
  then show "h = h' \<and> k = k'" using \<open>h = h'\<close> by simp
qed simp

lemma NodeIP_bridge: "0 \<le> h \<Longrightarrow> 0 \<le> h' \<Longrightarrow> NodeIP h k = BridgeAddr h' \<longleftrightarrow> h = h' \<and> k = 65533"
proof
  assume h: "0 \<le> h" "0 \<le> h'" and eq: "NodeIP h k = BridgeAddr h'"
  from dotted_inj [OF eq [unfolded NodeIP_def BridgeAddr_def]] h
  have "h = h'" "(k + 1) div 256 = 255" "(k + 1) mod 256 = 254" by auto
  then have "k + 1 = 65534" using div_mult_mod_eq [of "k + 1" 256] by linarith
  then show "h = h' \<and> k = 65533" using \<open>h = h'\<close> by simp
qed (simp add: NodeIP_def BridgeAddr_def)

section \<open>The latency matrix\<close>

lemma latencyRow_ok:
  "latencyRow t regions i js = Inr ds \<Longrightarrow> length ds = length js
    \<and> (\<forall>k < length js. if js ! k = i then ds ! k = 0 else OneWay t (regions ! i) (regions ! (js ! k)) = Inr (ds ! k))"
proof (induction js arbitrary: ds)
  case (Cons j js)
  from Cons.prems obtain d ds' where d: "(if i = j then Inr 0 else OneWay t (regions ! i) (regions ! j)) = Inr d"
      "latencyRow t regions i js = Inr ds'" "ds = d # ds'"
    by (auto split: sum.splits)
  have IH: "length ds' = length js"
    "\<forall>k < length js. if js ! k = i then ds' ! k = 0 else OneWay t (regions ! i) (regions ! (js ! k)) = Inr (ds' ! k)"
    using Cons.IH [OF d(2)] by simp_all
  have "if (j # js) ! k = i then ds ! k = 0 else OneWay t (regions ! i) (regions ! ((j # js) ! k)) = Inr (ds ! k)"
    if "k < length (j # js)" for k
  proof (cases k)
    case 0
    then show ?thesis using d(1,3) by (cases "i = j") simp_all
  next
    case (Suc m)
    then show ?thesis using IH(2) d(3) that by simp
  qed
  moreover have "length ds = length (j # js)" using IH(1) d(3) by simp
  ultimately show ?case by blast
qed simp

lemma latencyRows_ok:
  "latencyRows t regions is = Inr m \<Longrightarrow> length m = length is
    \<and> (\<forall>k < length is. latencyRow t regions (is ! k) [0..<length regions] = Inr (m ! k))"
proof (induction "is" arbitrary: m)
  case (Cons i js)
  from Cons.prems obtain d ds' where d: "latencyRow t regions i [0..<length regions] = Inr d"
      "latencyRows t regions js = Inr ds'" "m = d # ds'"
    by (auto split: sum.splits)
  from Cons.IH [OF d(2)] d show ?case by (auto simp: nth_Cons split: nat.split)
qed simp

lemma LatencyMatrix_entry:
  assumes "LatencyMatrix t regions = Inr m" "i < length regions" "j < length regions"
  shows "length m = length regions \<and> length (m ! i) = length regions
    \<and> (if i = j then m ! i ! j = 0 else OneWay t (regions ! i) (regions ! j) = Inr (m ! i ! j))"
proof -
  note R = latencyRows_ok [OF assms(1) [unfolded LatencyMatrix_def]]
  then have "latencyRow t regions i [0..<length regions] = Inr (m ! i)" using assms(2) by simp
  from latencyRow_ok [OF this] show ?thesis using R assms(2,3) by (auto split: if_splits)
qed

text \<open>Both directions of a pair, where the table gives both, agree.\<close>

definition symTable :: "RTTTable \<Rightarrow> bool" where
  "symTable t \<longleftrightarrow> (\<forall>a b x y. map_of (mget [] (RTT t) a) b = Some x \<longrightarrow> map_of (mget [] (RTT t) b) a = Some y \<longrightarrow> x = y)"

lemma OneWay_sym: "symTable t \<Longrightarrow> OneWay t a b = Inr d \<Longrightarrow> OneWay t b a = Inr d"
  unfolding symTable_def OneWay_def by (auto split: option.splits if_splits)

lemma layVnodes_length: "length (layVnodes pnodes fleet rs i) = sum_list (map (\<lambda>r. nat (mget 0 fleet r)) rs)"
  by (induction rs arbitrary: i) (auto simp: Let_def)

lemma layVnodes_nth:
  "k < length (layVnodes pnodes fleet rs i) \<Longrightarrow>
    vnName (layVnodes pnodes fleet rs i ! k) = ''vn'' @ Itoa (int (i + k))
    \<and> vnPnode (layVnodes pnodes fleet rs i ! k) = pnodes ! ((i + k) mod length pnodes)"
proof (induction rs arbitrary: i k)
  case (Cons r rs)
  show ?case
  proof (cases "k < nat (mget 0 fleet r)")
    case True
    then show ?thesis by (simp add: Let_def nth_append vnodeAt_def)
  next
    case False
    then show ?thesis using Cons.IH [of "k - nat (mget 0 fleet r)" "i + nat (mget 0 fleet r)"] Cons.prems
      by (auto simp: Let_def nth_append)
  qed
qed simp

lemma layVnodes_count:
  "distinct rs \<Longrightarrow> length (filter (\<lambda>v. vnRegion v = q) (layVnodes pnodes fleet rs i)) = (if q \<in> set rs then nat (mget 0 fleet q) else 0)"
proof (induction rs arbitrary: i)
  case (Cons r rs)
  have "filter (\<lambda>v. vnRegion v = q) (map (vnodeAt pnodes r) js) = (if q = r then map (vnodeAt pnodes r) js else [])" for js
    by (induction js) (auto simp: vnodeAt_def)
  then show ?case using Cons by (auto simp: Let_def)
qed simp

lemma regionOrder_set: "set (regionOrder home rs) = set rs \<and> (distinct rs \<longrightarrow> distinct (regionOrder home rs))"
  by (auto simp: regionOrder_def)

lemma length_drawDelays: "length (drawDelays expF logF s n r) = n"
  by (induction n arbitrary: r) (auto simp: Let_def case_prod_beta)

lemma fadd_comm: "fadd x y = fadd y x"
  by (simp add: add.commute)

lemma Fleet_mapOk: "mapOk (Fleet c)"
proof -
  obtain out n where p: "fleetPinned (nNodeRegions (Network (scen c))) [] (pNodes (Population (scen c))) = (out, n)" by force
  have out: "mapOk out" using fleetPinned_sum [OF mapOk_Nil p] by simp
  let ?w = "nRegions (Network (scen c))"
  obtain o1 g1 r1 where e: "fleetExact ?w (fold (\<lambda>(k, v) s. fadd s v) ?w 0) n (sort (map fst ?w)) out 0 = (o1, g1, r1)"
    by (metis prod_cases3)
  have rm: "mapOk m \<Longrightarrow> mapOk (fleetRemainder k ks rs m)" for k ks rs m
    by (induction k ks rs m rule: fleetRemainder.induct) (auto simp: Let_def)
  show ?thesis using out p e rm fleetExact_sum [OF out e] by (simp add: Fleet_def Let_def)
qed

lemma starMatrix_entry:
  "i < length d \<Longrightarrow> j < length d \<Longrightarrow> starMatrix d ! i ! j = (if i = j then 0 else fadd (d ! i) (d ! j))"
  by (simp add: starMatrix_def)

lemma Layout_split:
  assumes "Layout expF logF src cfg pnodes table = Inr p"
  shows "pnodes \<noteq> [] \<and> Vnodes p = layVnodes pnodes (Fleet cfg) (plRegions p) 0
    \<and> plRegions p = regionOrder (clHomeRegion (Cloud (testbed cfg))) (map fst (Fleet cfg))
    \<and> ((\<exists>d. length d = length (Vnodes p) \<and> Matrix p = starMatrix d) \<or> LatencyMatrix table (map vnRegion (Vnodes p)) = Inr (Matrix p))"
proof (cases "nModel (Network (scen cfg)) = ''star''")
  case True
  define vs where "vs = layVnodes pnodes (Fleet cfg) (regionOrder (clHomeRegion (Cloud (testbed cfg))) (map fst (Fleet cfg))) 0"
  obtain d where "Matrix p = starMatrix d" "length d = length vs" "Vnodes p = vs" "pnodes \<noteq> []"
    "plRegions p = regionOrder (clHomeRegion (Cloud (testbed cfg))) (map fst (Fleet cfg))"
    using assms True length_drawDelays unfolding Layout_def Let_def vs_def [symmetric] by (auto split: if_splits)
  then show ?thesis unfolding vs_def by auto
next
  case False
  then show ?thesis using assms by (auto simp: Layout_def Let_def split: if_splits sum.splits)
qed

text \<open>
  The plan of virtual nodes: each region gets as many as the fleet says, the physical nodes are
  filled round robin, the names are distinct and number the nodes in order, and the latency matrix is
  square with a zero diagonal and, for a table whose directions agree, symmetric.
\<close>

theorem Layout_plan:
  assumes "Layout expF logF src cfg pnodes table = Inr p"
  defines "vs \<equiv> Vnodes p"
  shows "(\<forall>q. length (filter (\<lambda>v. vnRegion v = q) vs) = nat (mget 0 (Fleet cfg) q))
    \<and> (\<forall>k < length vs. vnPnode (vs ! k) = pnodes ! (k mod length pnodes))
    \<and> distinct (Names p)
    \<and> (\<forall>i < length vs. length (Matrix p ! i) = length vs \<and> Matrix p ! i ! i = 0)
    \<and> (symTable table \<longrightarrow> (\<forall>i < length vs. \<forall>j < length vs. Matrix p ! i ! j = Matrix p ! j ! i))"
proof -
  note L = Layout_split [OF assms(1)]
  let ?rs = "plRegions p"
  have vs: "vs = layVnodes pnodes (Fleet cfg) ?rs 0" using L by (simp add: vs_def)
  have rs: "distinct ?rs" "set ?rs = fst ` set (Fleet cfg)"
    using L regionOrder_set Fleet_mapOk [of cfg] by (auto simp: mapOk_def)
  have "length (filter (\<lambda>v. vnRegion v = q) vs) = nat (mget 0 (Fleet cfg) q)" for q
  proof (cases "q \<in> set ?rs")
    case True
    then show ?thesis unfolding vs using layVnodes_count [OF rs(1)] by simp
  next
    case False
    then have "\<not> mhas (Fleet cfg) q" using rs(2) by (simp add: mhas_def)
    then show ?thesis unfolding vs using layVnodes_count [OF rs(1)] False by (simp add: mget_missing)
  qed
  moreover have nth: "vnName (vs ! k) = ''vn'' @ Itoa (int k) \<and> vnPnode (vs ! k) = pnodes ! (k mod length pnodes)"
    if "k < length vs" for k using layVnodes_nth [of k pnodes "Fleet cfg" ?rs 0] that unfolding vs by simp
  moreover have "distinct (Names p)"
  proof -
    have "Names p = map (\<lambda>k. ''vn'' @ Itoa (int k)) [0..<length vs]"
      unfolding Names_def vs_def [symmetric] using nth by (intro nth_equalityI) simp_all
    moreover have "inj (\<lambda>k. ''vn'' @ Itoa (int k))"
      by (rule injI) (metis Itoa_inj of_nat_0_le_iff of_nat_eq_iff same_append_eq)
    then have "inj_on (\<lambda>k. ''vn'' @ Itoa (int k)) {0..<length vs}" by (rule inj_on_subset) simp
    ultimately show ?thesis by (simp add: distinct_map del: append.simps)
  qed
  moreover have "length (Matrix p ! i) = length vs \<and> Matrix p ! i ! i = 0" if "i < length vs" for i
    using L LatencyMatrix_entry [of table "map vnRegion vs" "Matrix p" i i] that
    by (auto simp: vs_def starMatrix_entry) (simp add: starMatrix_def)
  moreover have "Matrix p ! i ! j = Matrix p ! j ! i" if sym: "symTable table" and i: "i < length vs" "j < length vs" for i j
  proof -
    have "Matrix p ! i ! j = Matrix p ! j ! i" if m: "LatencyMatrix table (map vnRegion vs) = Inr (Matrix p)"
    proof (cases "i = j")
      case False
      then have "OneWay table (map vnRegion vs ! i) (map vnRegion vs ! j) = Inr (Matrix p ! i ! j)"
        "OneWay table (map vnRegion vs ! j) (map vnRegion vs ! i) = Inr (Matrix p ! j ! i)"
        using LatencyMatrix_entry [OF m, of i j] LatencyMatrix_entry [OF m, of j i] i by auto
      then show ?thesis using OneWay_sym [OF sym] by (metis sum.inject(2))
    qed simp
    moreover have "Matrix p ! i ! j = Matrix p ! j ! i" if "length d = length vs" "Matrix p = starMatrix d" for d
      using starMatrix_entry [of i d j] starMatrix_entry [of j d i] that i fadd_comm [of "d ! i" "d ! j"] by simp
    ultimately show ?thesis using L unfolding vs_def by blast
  qed
  ultimately show ?thesis by blast
qed

text \<open>
  The addresses a host gives its nodes are pairwise different over all hosts and local indices, and
  none is the address of a bridge except the one of local index 65533, which is its own host's: a
  subnet has room for 65533 nodes.
\<close>

theorem NodeIP_distinct:
  assumes "0 \<le> h" "0 \<le> h'"
  shows "(NodeIP h k = NodeIP h' k' \<longleftrightarrow> h = h' \<and> k = k') \<and> (NodeIP h k = BridgeAddr h' \<longleftrightarrow> h = h' \<and> k = 65533)"
  using NodeIP_inj [OF assms] NodeIP_bridge [OF assms] by (simp only:)

text \<open>What a prepared host has asked the kernel, and which nodes it knows.\<close>

lemma prepNodes_delay:
  "prepNodes expF logF s as g r = (cmds, routes, r') \<Longrightarrow> (\<forall>i. mhas (rDelay r') i \<longleftrightarrow> mhas (rDelay r) i \<or> i \<in> (\<lambda>(k, a). aIdx a) ` set as)
    \<and> rRoutes r' = rRoutes r \<and> RealAddrs r' = RealAddrs r \<and> NetRoutes r' = NetRoutes r \<and> rHost r' = rHost r"
proof (induction as arbitrary: g r cmds routes)
  case (Cons x as)
  obtain k a where x: "x = (k, a)" by force
  obtain d g' where d: "Delay expF logF s g = (d, g')" by force
  obtain c1 c2 where n: "nodeCmds r s k a d = (c1, c2)" by force
  obtain c3 c4 r1 where p: "prepNodes expF logF s as g' (r\<lparr>rDelay := mput (aIdx a) d (rDelay r)\<rparr>) = (c3, c4, r1)"
    by (metis prod_cases3)
  have r1: "r1 = r'" using Cons.prems by (simp add: x d n p)
  show ?case using Cons.IH [OF p [unfolded r1]] by (auto simp: x)
qed simp

lemma Start_node_once:
  "snd (Start_node ok isRoot f v idx r) = r' \<Longrightarrow> distinct (rProcs r) \<Longrightarrow> distinct (rProcs r')
    \<and> (idx \<in> set (rProcs r) \<longrightarrow> fst (Start_node ok isRoot f v idx r) = AskedUp)"
  by (auto simp: Start_node_def)

lemma StopAll_none: "rProcs (snd (StopAll r)) = []"
proof -
  have "rProcs (fold (\<lambda>i r. snd (terminate i r)) is r) = filter (\<lambda>i. i \<notin> set is) (rProcs r)" for "is" r
    by (induction "is" arbitrary: r) (auto simp: terminate_def intro!: filter_cong)
  then show ?thesis by (simp add: StopAll_def Let_def)
qed

section \<open>Witnesses\<close>

theorem NodeIP_distinct_witness: "NodeIP 0 255 \<noteq> NodeIP 0 256 \<and> NodeIP 3 65533 = BridgeAddr 3"
  using NodeIP_distinct [of 0 0 255 256] NodeIP_distinct [of 3 3 65533 0] by simp

definition twoRegions :: Config where
  "twoRegions = Default\<lparr>scen := DefaultScenario\<lparr>
     Population := (Population DefaultScenario)\<lparr>pNodes := 2\<rparr>,
     Network := (Network DefaultScenario)\<lparr>nModel := ''regions'', nNodeRegions := [(1, ''a''), (0, ''b'')]\<rparr>\<rparr>\<rparr>"

definition oneWayTable :: RTTTable where
  "oneWayTable = \<lparr>Intra = 2, RTT = [(''b'', [(''a'', 90)])]\<rparr>"

theorem Layout_plan_witness:
  "\<exists>p. Layout (\<lambda>x. x) (\<lambda>x. x) (\<lambda>_. cycleSource) twoRegions [''m0'', ''m1''] oneWayTable = Inr p \<and> distinct (Names p)"
proof -
  have "Fleet twoRegions = [(''a'', 1), (''b'', 1), (''us-east-1'', 0)]"
    by (simp add: twoRegions_def Fleet_def Default_def DefaultScenario_def DefaultTestbed_def madd_def mget_def)
  then have "\<exists>p. Layout (\<lambda>x. x) (\<lambda>x. x) (\<lambda>_. cycleSource) twoRegions [''m0'', ''m1''] oneWayTable = Inr p"
    by (simp add: Layout_def Let_def twoRegions_def Default_def DefaultScenario_def DefaultTestbed_def regionOrder_def
        vnodeAt_def LatencyMatrix_def OneWay_def oneWayTable_def mget_def upt_rec)
  then obtain p where "Layout (\<lambda>x. x) (\<lambda>x. x) (\<lambda>_. cycleSource) twoRegions [''m0'', ''m1''] oneWayTable = Inr p" ..
  from this Layout_plan [OF this] show ?thesis by blast
qed

end
