(* ===== verification/Crawler.thy ===== *)
theory Crawler
  imports Prelude GoFloat GoString
begin

text \<open>
  The crawler (\<open>src/cmd/crawl/main.go\<close>): the registry of every node seen, the prober that records when
  nodes come up and go down, the counts of a sweep and the FINDNODE sampler. A node record of the
  discovery library is the fields the crawler reads; what a PING, an ENR request or a FINDNODE returns
  is an argument. The parts of \<open>main\<close> that open sockets and files are left out.
\<close>

section \<open>Registry\<close>

record 'id enrNode =
  nID :: 'id
  Seq :: int
  IP :: "string option"
  UDP :: int

record 'id nodeState =
  node :: "'id enrNode"
  up :: bool
  everUp :: bool
  attempts :: int
  misses :: int
  lastPong :: gotime
  upSince :: gotime
  pongs :: int
  nextAt :: gotime
  queued :: bool

text \<open>The transitions of one node, by the value of their \<open>ev\<close> field, with the fields each one sets.\<close>

datatype transition =
    TUp
  | TPong (rtt: int)
  | TMiss (missErr: string)
  | TDown (downMisses: int) (sinceUp: int) (downPongs: int) (downErr: string)

record sweepEvent =
  swKnown :: int
  swEverUp :: int
  swUp :: int
  swPings :: int
  swPongs :: int
  swDeadPings :: int
  swDeadPongs :: int
  swLate :: int
  swNew :: int
  swDead :: int
  swErrs :: "(string, int) gomap"
  swSamples :: int
  swSampleErr :: int

datatype 'id crawlEvent =
    Seen "'id enrNode" string
  | EnrChanged "'id enrNode" string
  | Trans 'id transition
  | SweepEv int sweepEvent
  | Reply 'id "int list" "'id list" string

record 'id registry =
  nodes :: "('id, 'id nodeState) gomap"
  events :: "'id crawlEvent list"
  rPings :: int
  rPongs :: int
  rDeadPings :: int
  rDeadPongs :: int
  rSamples :: int
  rSampleErr :: int
  errs :: "(string, int) gomap"

definition newRegistry :: "'id registry" where
  "newRegistry = \<lparr>nodes = [], events = [], rPings = 0, rPongs = 0, rDeadPings = 0, rDeadPongs = 0,
     rSamples = 0, rSampleErr = 0, errs = []\<rparr>"

definition write_ev :: "'id registry \<Rightarrow> 'id crawlEvent \<Rightarrow> 'id registry" where
  "write_ev r e = r\<lparr>events := events r @ [e]\<rparr>"

definition fast :: "int \<Rightarrow> 'id nodeState \<Rightarrow> bool" where
  "fast newTries st \<longleftrightarrow> everUp st \<or> attempts st < newTries"

text \<open>The zero \<open>time.Time\<close>, year 1, is before every time the crawler sees.\<close>

definition zeroTime :: gotime where "zeroTime = -62135596800 * nsSecond"

definition newNodeState :: "'id enrNode \<Rightarrow> 'id nodeState" where
  "newNodeState n = \<lparr>node = n, up = False, everUp = False, attempts = 0, misses = 0, lastPong = zeroTime,
     upSince = zeroTime, pongs = 0, nextAt = zeroTime, queued = False\<rparr>"

text \<open>
  A record learned from the crawl, a probe or the bootnode list: the critical section, and the event the
  caller writes after releasing the mutex.
\<close>

definition observe :: "'id registry \<Rightarrow> 'id enrNode \<Rightarrow> string \<Rightarrow> 'id registry \<times> 'id crawlEvent list" where
  "observe r n src =
     (case map_of (nodes r) (nID n) of
        None \<Rightarrow> (r\<lparr>nodes := mput (nID n) (newNodeState n) (nodes r)\<rparr>, [Seen n src])
      | Some st \<Rightarrow>
          if Seq n > Seq (node st) then (r\<lparr>nodes := mput (nID n) (st\<lparr>node := n\<rparr>) (nodes r)\<rparr>, [EnrChanged n src])
          else (r, []))"

text \<open>
  What a goroutine does between its own critical sections: it writes an event, or observes a record, after
  which it writes the event of that. Other goroutines run in between.
\<close>

datatype 'id act = WriteEv "'id crawlEvent" | Observe "'id enrNode" string

fun doAct :: "'id registry \<Rightarrow> 'id act \<Rightarrow> 'id registry \<times> 'id act list" where
  "doAct r (WriteEv e) = (write_ev r e, [])"
| "doAct r (Observe n src) = (let (r, es) = observe r n src in (r, map WriteEv es))"

text \<open>The same, undisturbed.\<close>

definition runActs :: "'id act list \<Rightarrow> 'id registry \<Rightarrow> 'id registry" where
  "runActs = fold (\<lambda>a r. let (r, as) = doAct r a in fold (\<lambda>a r. fst (doAct r a)) as r)"

definition errKind :: "string \<Rightarrow> string" where
  "errKind s =
     (let i = length (takeWhile (\<lambda>c. c \<noteq> CHR '':'') s);
          s = (if i < length s \<and> i > 0 then take i s else s)
      in if length s > 40 then take 40 s else s)"

section \<open>Sweeps\<close>

definition sweepNode :: "gotime \<Rightarrow> int \<Rightarrow> 'id nodeState \<Rightarrow> sweepEvent \<Rightarrow> sweepEvent" where
  "sweepNode late newTries st ev =
     (let ev = (if everUp st then ev\<lparr>swEverUp := swEverUp ev + 1,
                                     swLate := swLate ev + (if nextAt st < late then 1 else 0)\<rparr>
                else if attempts st < newTries then ev\<lparr>swNew := swNew ev + 1\<rparr>
                else ev\<lparr>swDead := swDead ev + 1\<rparr>)
      in if up st then ev\<lparr>swUp := swUp ev + 1\<rparr> else ev)"

definition sweepCount :: "'id registry \<Rightarrow> gotime \<Rightarrow> duration \<Rightarrow> int \<Rightarrow> sweepEvent" where
  "sweepCount r now probe newTries =
     fold (sweepNode (now - probe) newTries) (map snd (nodes r))
       \<lparr>swKnown = int (length (nodes r)), swEverUp = 0, swUp = 0, swPings = rPings r, swPongs = rPongs r,
        swDeadPings = rDeadPings r, swDeadPongs = rDeadPongs r, swLate = 0, swNew = 0, swDead = 0,
        swErrs = errs r, swSamples = rSamples r, swSampleErr = rSampleErr r\<rparr>"

definition sweep :: "'id registry \<Rightarrow> int \<Rightarrow> gotime \<Rightarrow> duration \<Rightarrow> int \<Rightarrow> 'id act list" where
  "sweep r n now probe newTries = [WriteEv (SweepEv n (sweepCount r now probe newTries))]"

section \<open>Pings\<close>

record probeConfig =
  probe :: duration
  probeDead :: duration
  maxMisses :: int
  newTries :: int
  workers :: nat
  deadWorkers :: nat

text \<open>Before the PING is sent: on which schedule the node is, and the counter of that schedule.\<close>

definition pingStart :: "probeConfig \<Rightarrow> 'id registry \<Rightarrow> 'id \<Rightarrow> bool \<times> 'id registry" where
  "pingStart cfg r i =
     (let f = (case map_of (nodes r) i of None \<Rightarrow> False | Some st \<Rightarrow> fast (newTries cfg) st)
      in (f, if f then r\<lparr>rPings := rPings r + 1\<rparr> else r\<lparr>rDeadPings := rDeadPings r + 1\<rparr>))"

text \<open>What an answer and what an error change in the node's state, and the transitions they write.\<close>

definition answered :: "'id nodeState \<Rightarrow> gotime \<Rightarrow> gotime \<Rightarrow> 'id nodeState \<times> transition list" where
  "answered st sent t =
     (let raw = (if everUp st then [TPong (Milliseconds (t - sent))] else []);
          st = st\<lparr>lastPong := t, misses := 0, pongs := pongs st + 1\<rparr>
      in if \<not> up st then (st\<lparr>up := True, everUp := True, upSince := t, pongs := 1\<rparr>, raw @ [TUp])
         else (st, raw))"

definition unanswered :: "probeConfig \<Rightarrow> 'id nodeState \<Rightarrow> gotime \<Rightarrow> string \<Rightarrow> 'id nodeState \<times> transition list" where
  "unanswered cfg st t err =
     (let raw = (if everUp st then [TMiss (errKind err)] else []);
          st = st\<lparr>misses := misses st + 1, attempts := (if everUp st then attempts st else attempts st + 1)\<rparr>
      in if up st \<and> misses st \<ge> maxMisses cfg \<and> t - lastPong st \<ge> 2 * probe cfg
         then (st\<lparr>up := False\<rparr>,
               raw @ [TDown (misses st) (truncInt (Seconds (t - upSince st))) (pongs st) (errKind err)])
         else (st, raw))"

definition reschedule :: "probeConfig \<Rightarrow> 'id nodeState \<Rightarrow> gotime \<Rightarrow> 'id nodeState" where
  "reschedule cfg st t =
     st\<lparr>nextAt := (if fast (newTries cfg) st then t + probe cfg else t + probeDead cfg)\<rparr>"

text \<open>
  The critical section after the PING, the transitions that are written after it and whether the node's
  record is requested again after that. The result of the PING is the error text or the sequence number
  the answer announces. \<open>None\<close>: the node is not in the registry, a nil dereference.
\<close>

definition pingDone :: "probeConfig \<Rightarrow> 'id registry \<Rightarrow> 'id \<Rightarrow> bool \<Rightarrow> gotime \<Rightarrow> gotime \<Rightarrow> string + int
    \<Rightarrow> ('id registry \<times> transition list \<times> bool) option" where
  "pingDone cfg r i f sent t res =
     (case map_of (nodes r) i of
        None \<Rightarrow> None
      | Some st \<Rightarrow>
          let st = st\<lparr>queued := False\<rparr>;
              (r, st, trs, refresh) =
                (case res of
                   Inr seqNo \<Rightarrow>
                     let (st', trs) = answered st sent t
                     in (if f then r\<lparr>rPongs := rPongs r + 1\<rparr> else r\<lparr>rDeadPongs := rDeadPongs r + 1\<rparr>,
                         st', trs, seqNo > Seq (node st'))
                 | Inl err \<Rightarrow>
                     let (st', trs) = unanswered cfg st t err
                     in (if everUp st then r\<lparr>errs := madd (errKind err) 1 (errs r)\<rparr> else r, st', trs, False))
          in Some (r\<lparr>nodes := mput i (reschedule cfg st t) (nodes r)\<rparr>, trs, refresh))"

text \<open>The writes and, if the record is requested again, the observation of the answer \<open>enr\<close>.\<close>

definition pingActs :: "'id \<Rightarrow> transition list \<Rightarrow> bool \<Rightarrow> 'id enrNode option \<Rightarrow> 'id act list" where
  "pingActs i trs refresh enr =
     map (\<lambda>tr. WriteEv (Trans i tr)) trs
     @ (case enr of None \<Rightarrow> [] | Some nn \<Rightarrow> if refresh then [Observe nn ''probe''] else [])"

section \<open>The sampler\<close>

definition upNodes :: "'id registry \<Rightarrow> 'id enrNode list" where
  "upNodes r = map (\<lambda>(i, st). node st) (filter (\<lambda>(i, st). up st) (nodes r))"

text \<open>When the requests of one period are handed out: node \<open>i\<close> of the shuffled list at \<open>start + i * gap\<close>.\<close>

definition sampleTimes :: "gotime \<Rightarrow> duration \<Rightarrow> nat \<Rightarrow> gotime list" where
  "sampleTimes start period n = (let gap = period sdiv int (max n 1) in map (\<lambda>i. start + int i * gap) [0..<n])"

text \<open>\<open>perm\<close> is the result of \<open>rand.Perm(9)\<close>.\<close>

definition sampleDists :: "int list \<Rightarrow> int \<Rightarrow> int list" where
  "sampleDists perm k = map (\<lambda>i. 248 + i) (take (nat (min (max k 1) 9)) perm)"

definition logReply :: "'id \<Rightarrow> int list \<Rightarrow> string + 'id enrNode list \<Rightarrow> 'id act list" where
  "logReply i dists res =
     (let ns = (case res of Inl _ \<Rightarrow> [] | Inr ns \<Rightarrow> ns)
      in WriteEv (Reply i dists (map nID ns) (case res of Inl e \<Rightarrow> errKind e | Inr _ \<Rightarrow> []))
         # map (\<lambda>nn. Observe nn ''reply'') ns)"

definition findnode :: "'id registry \<Rightarrow> string + 'id enrNode list \<Rightarrow> 'id registry" where
  "findnode r res = r\<lparr>rSamples := rSamples r + 1,
     rSampleErr := rSampleErr r + (case res of Inl _ \<Rightarrow> 1 | Inr _ \<Rightarrow> 0)\<rparr>"

definition sampleNode :: "'id registry \<Rightarrow> 'id \<Rightarrow> int list \<Rightarrow> int \<Rightarrow> (int list \<Rightarrow> string + 'id enrNode list) \<Rightarrow> 'id registry" where
  "sampleNode r i perm k ask =
     (let d = sampleDists perm k in runActs (logReply i d (ask d)) (findnode r (ask d)))"

text \<open>One request per distance, from the farthest bucket down, until the first error.\<close>

fun sampleFrom :: "'id registry \<Rightarrow> 'id \<Rightarrow> int list \<Rightarrow> (int list \<Rightarrow> string + 'id enrNode list) \<Rightarrow> 'id registry" where
  "sampleFrom r i [] ask = r"
| "sampleFrom r i (d # ds) ask =
     (let r = runActs (logReply i [d] (ask [d])) (findnode r (ask [d]))
      in case ask [d] of Inl _ \<Rightarrow> r | Inr _ \<Rightarrow> sampleFrom r i ds ask)"

definition sampleTable :: "'id registry \<Rightarrow> 'id \<Rightarrow> (int list \<Rightarrow> string + 'id enrNode list) \<Rightarrow> 'id registry" where
  "sampleTable r i ask = sampleFrom r i (rev [224..256]) ask"

section \<open>The probe loop\<close>

text \<open>
  One tick: every node that is due and not queued is queued, for the live or the dead pool. The order
  \<open>ids\<close> of the iteration over the map is unspecified.
\<close>

definition isDue :: "gotime \<Rightarrow> 'id nodeState \<Rightarrow> bool" where
  "isDue t st \<longleftrightarrow> \<not> (queued st \<or> IP (node st) = None \<or> UDP (node st) = 0 \<or> nextAt st > t)"

fun dueNodes :: "probeConfig \<Rightarrow> gotime \<Rightarrow> 'id list \<Rightarrow> 'id registry \<Rightarrow> 'id registry \<times> 'id list \<times> 'id list" where
  "dueNodes cfg t [] r = (r, [], [])"
| "dueNodes cfg t (i # ids) r =
     (case map_of (nodes r) i of
        None \<Rightarrow> dueNodes cfg t ids r
      | Some st \<Rightarrow>
          if isDue t st
          then case dueNodes cfg t ids (r\<lparr>nodes := mput i (st\<lparr>queued := True\<rparr>) (nodes r)\<rparr>) of
                 (r', live, dead) \<Rightarrow>
                   if fast (newTries cfg) st then (r', nID (node st) # live, dead) else (r', live, nID (node st) # dead)
          else dueNodes cfg t ids r)"

text \<open>
  The dispatcher's two lists, the two channels, the pings under way (identity, schedule, time sent) and what
  each goroutine that has left a critical section still has to do. Two ghosts: \<open>hist\<close>, the transitions
  in the order of the critical sections that made them, and \<open>late\<close>, the nodes of which a ping ended
  while transitions of an earlier ping were not written yet.
\<close>

record 'id crawl =
  reg :: "'id registry"
  dueLive :: "'id list"
  dueDead :: "'id list"
  liveCh :: "'id list"
  deadCh :: "'id list"
  inflight :: "('id \<times> bool \<times> gotime) list"
  todo :: "'id act list list"
  hist :: "'id crawlEvent list"
  late :: "'id set"

definition addTodo :: "'id act list \<Rightarrow> 'id crawl \<Rightarrow> 'id crawl" where
  "addTodo as c = c\<lparr>todo := todo c @ [as]\<rparr>"

fun writesOf :: "'id act list \<Rightarrow> 'id crawlEvent list" where
  "writesOf [] = []"
| "writesOf (WriteEv e # as) = e # writesOf as"
| "writesOf (Observe n src # as) = writesOf as"

fun transOf :: "'id \<Rightarrow> 'id crawlEvent list \<Rightarrow> transition list" where
  "transOf i [] = []"
| "transOf i (Trans j tr # es) = (if j = i then tr # transOf i es else transOf i es)"
| "transOf i (_ # es) = transOf i es"

text \<open>The transitions of a node that are not in the log yet.\<close>

definition unwritten :: "'id \<Rightarrow> 'id act list list \<Rightarrow> transition list" where
  "unwritten i tds = concat (map (\<lambda>as. transOf i (writesOf as)) tds)"

definition endPing :: "'id \<Rightarrow> transition list \<Rightarrow> bool \<Rightarrow> 'id enrNode option \<Rightarrow> 'id crawl \<Rightarrow> 'id crawl" where
  "endPing i trs refresh enr c =
     addTodo (pingActs i trs refresh enr)
       (c\<lparr>hist := hist c @ map (Trans i) trs, late := (if unwritten i (todo c) = [] then late c else insert i (late c))\<rparr>)"

definition unqueue :: "'id registry \<Rightarrow> 'id \<Rightarrow> 'id registry" where
  "unqueue r i = (case map_of (nodes r) i of None \<Rightarrow> r
     | Some st \<Rightarrow> r\<lparr>nodes := mput i (st\<lparr>queued := False\<rparr>) (nodes r)\<rparr>)"

definition startPing :: "probeConfig \<Rightarrow> 'id crawl \<Rightarrow> 'id \<Rightarrow> gotime \<Rightarrow> 'id crawl" where
  "startPing cfg c i t =
     (let (f, r) = pingStart cfg (reg c) i in c\<lparr>reg := r, inflight := inflight c @ [(i, f, t)]\<rparr>)"

text \<open>
  The goroutines: the dispatcher, which blocks when the live channel is full and skips a dead node when
  the dead channel is; the workers; the crawlers, whose records arrive at any time; the sweeps and the sampler. A channel holds the node,
  of which a ping reads the identity.
\<close>

inductive crawl_step :: "probeConfig \<Rightarrow> 'id crawl \<Rightarrow> 'id crawl \<Rightarrow> bool" for cfg where
  tick: "dueLive c = [] \<Longrightarrow> dueDead c = [] \<Longrightarrow> mset ids = mset (map fst (nodes (reg c))) \<Longrightarrow>
    dueNodes cfg t ids (reg c) = (r, live, dead) \<Longrightarrow>
    crawl_step cfg c (c\<lparr>reg := r, dueLive := live, dueDead := dead\<rparr>)"
| sendLive: "dueLive c = i # is \<Longrightarrow> length (liveCh c) < 4 * workers cfg \<Longrightarrow>
    crawl_step cfg c (c\<lparr>dueLive := is, liveCh := liveCh c @ [i]\<rparr>)"
| sendDead: "dueLive c = [] \<Longrightarrow> dueDead c = i # is \<Longrightarrow> length (deadCh c) < 4 * deadWorkers cfg \<Longrightarrow>
    crawl_step cfg c (c\<lparr>dueDead := is, deadCh := deadCh c @ [i]\<rparr>)"
| skipDead: "dueLive c = [] \<Longrightarrow> dueDead c = i # is \<Longrightarrow> \<not> length (deadCh c) < 4 * deadWorkers cfg \<Longrightarrow>
    crawl_step cfg c (c\<lparr>dueDead := is, reg := unqueue (reg c) i\<rparr>)"
| takeLive: "liveCh c = i # is \<Longrightarrow> crawl_step cfg c (startPing cfg (c\<lparr>liveCh := is\<rparr>) i t)"
| takeDead: "deadCh c = i # is \<Longrightarrow> crawl_step cfg c (startPing cfg (c\<lparr>deadCh := is\<rparr>) i t)"
| finish: "inflight c = xs @ (i, f, sent) # ys \<Longrightarrow> pingDone cfg (reg c) i f sent t res = Some (r, trs, refresh) \<Longrightarrow>
    crawl_step cfg c (endPing i trs refresh enr (c\<lparr>reg := r, inflight := xs @ ys\<rparr>))"
| act: "todo c = xs @ (a # as) # ys \<Longrightarrow> doAct (reg c) a = (r, bs) \<Longrightarrow>
    crawl_step cfg c (c\<lparr>reg := r, todo := xs @ (bs @ as) # ys\<rparr>)"
| learn: "crawl_step cfg c (addTodo [Observe n src] c)"
| sweeps: "crawl_step cfg c (addTodo (sweep (reg c) k t (probe cfg) (newTries cfg)) c)"
| sampled: "crawl_step cfg c (addTodo (logReply i dists res) (c\<lparr>reg := findnode (reg c) res\<rparr>))"

definition newCrawl :: "'id crawl" where
  "newCrawl = \<lparr>reg = newRegistry, dueLive = [], dueDead = [], liveCh = [], deadCh = [], inflight = [], todo = [], hist = [], late = {}\<rparr>"

inductive crawl_run :: "probeConfig \<Rightarrow> 'id crawl \<Rightarrow> bool" for cfg where
  start: "crawl_run cfg newCrawl"
| step: "crawl_run cfg c \<Longrightarrow> crawl_step cfg c c' \<Longrightarrow> crawl_run cfg c'"

section \<open>What the event log says of a node\<close>

text \<open>
  The reader of the log: it knows of a node whether it is online, with the answers of the session and
  the misses since the last one, or offline.
\<close>

datatype sessionState = NeverUp | Online int int | Offline int | Returning

fun sessionStep :: "probeConfig \<Rightarrow> sessionState \<Rightarrow> transition \<Rightarrow> sessionState option" where
  "sessionStep cfg NeverUp TUp = Some (Online 1 0)"
| "sessionStep cfg (Online p m) (TPong _) = Some (Online (p + 1) 0)"
| "sessionStep cfg (Online p m) (TMiss _) = Some (Online p (m + 1))"
| "sessionStep cfg (Online p m) (TDown m' _ p' _) =
     (if m' = m \<and> p' = p \<and> maxMisses cfg \<le> m then Some (Offline m) else None)"
| "sessionStep cfg (Offline m) (TMiss _) = Some (Offline (m + 1))"
| "sessionStep cfg (Offline m) (TPong _) = Some Returning"
| "sessionStep cfg Returning TUp = Some (Online 1 0)"
| "sessionStep cfg _ _ = None"

fun sessionRun :: "probeConfig \<Rightarrow> sessionState \<Rightarrow> transition list \<Rightarrow> sessionState option" where
  "sessionRun cfg s [] = Some s"
| "sessionRun cfg s (tr # trs) =
     (case sessionStep cfg s tr of None \<Rightarrow> None | Some s' \<Rightarrow> sessionRun cfg s' trs)"

definition sessionOf :: "'id nodeState option \<Rightarrow> sessionState" where
  "sessionOf so = (case so of None \<Rightarrow> NeverUp
     | Some st \<Rightarrow> if \<not> everUp st then NeverUp
                 else if up st then Online (pongs st) (misses st) else Offline (misses st))"

lemma transOf_append [simp]: "transOf i (es @ fs) = transOf i es @ transOf i fs"
  by (induction i es rule: transOf.induct) simp_all

lemma transOf_map_Trans [simp]: "transOf i (map (Trans j) trs) = (if j = i then trs else [])"
  by (induction trs) auto

lemma writesOf_append [simp]: "writesOf (as @ bs) = writesOf as @ writesOf bs"
  by (induction as rule: writesOf.induct) simp_all

lemma writesOf_WriteEv [simp]: "writesOf (map (\<lambda>x. WriteEv (g x)) xs) = map g xs"
  by (induction xs) auto

lemma writesOf_Observe [simp]: "writesOf (map (\<lambda>n. Observe n src) ns) = []"
  by (induction ns) auto

lemma sessionRun_append:
  "sessionRun cfg s (xs @ ys) = (case sessionRun cfg s xs of None \<Rightarrow> None | Some s' \<Rightarrow> sessionRun cfg s' ys)"
  by (induction xs arbitrary: s) (auto split: option.splits)

text \<open>An answer and a miss write exactly what the reader needs to follow the node's state.\<close>

lemma answered_session:
  assumes "answered st sent t = (st', trs)" and "up st \<Longrightarrow> everUp st"
  shows "sessionRun cfg (sessionOf (Some st)) trs = Some (sessionOf (Some st')) \<and> up st' \<and> everUp st' \<and> queued st' = queued st \<and> node st' = node st"
  using assms by (auto simp: answered_def Let_def sessionOf_def split: if_splits)

lemma unanswered_session:
  assumes "unanswered cfg st t err = (st', trs)" and "up st \<Longrightarrow> everUp st"
  shows "sessionRun cfg (sessionOf (Some st)) trs = Some (sessionOf (Some st')) \<and> (up st' \<longrightarrow> everUp st') \<and> queued st' = queued st \<and> node st' = node st"
  using assms by (auto simp: unanswered_def Let_def sessionOf_def split: if_splits)

section \<open>Operations that leave the prober's state alone\<close>

definition coreEq :: "'id nodeState \<Rightarrow> 'id nodeState \<Rightarrow> bool" where
  "coreEq st st' \<longleftrightarrow> st'\<lparr>node := node st, queued := queued st\<rparr> = st \<and> nID (node st') = nID (node st)"

definition regOk :: "'id registry \<Rightarrow> bool" where
  "regOk r \<longleftrightarrow> mapOk (nodes r) \<and>
     (\<forall>i st. map_of (nodes r) i = Some st \<longrightarrow> nID (node st) = i \<and> (up st \<longrightarrow> everUp st))"

definition queuedIds :: "'id registry \<Rightarrow> 'id set" where
  "queuedIds r = {i. \<exists>st. map_of (nodes r) i = Some st \<and> queued st}"

text \<open>The state of one node, before and after: unchanged up to its record and flag, or new.\<close>

definition kept :: "'id \<Rightarrow> 'id nodeState option \<Rightarrow> 'id nodeState option \<Rightarrow> bool" where
  "kept i so so' \<longleftrightarrow> (case so of
      Some st \<Rightarrow> \<exists>st'. so' = Some st' \<and> coreEq st st'
    | None \<Rightarrow> so' = None \<or> (\<exists>n st'. nID n = i \<and> so' = Some st' \<and> coreEq (newNodeState n) st'))"

definition quiet :: "'id registry \<Rightarrow> 'id registry \<Rightarrow> bool" where
  "quiet r r' \<longleftrightarrow> (\<forall>i. kept i (map_of (nodes r) i) (map_of (nodes r') i))
     \<and> rPings r' = rPings r \<and> rPongs r' = rPongs r \<and> rDeadPings r' = rDeadPings r \<and> rDeadPongs r' = rDeadPongs r
     \<and> errs r' = errs r \<and> (mapOk (nodes r) \<longrightarrow> mapOk (nodes r'))"

lemma coreEq_refl [simp]: "coreEq st st"
  by (simp add: coreEq_def)

lemma coreEq_trans: "coreEq a b \<Longrightarrow> coreEq b c \<Longrightarrow> coreEq a c"
  by (cases a; cases b; cases c) (simp add: coreEq_def)

lemma coreEq_fields:
  "coreEq st st' \<Longrightarrow> up st' = up st \<and> everUp st' = everUp st \<and> attempts st' = attempts st
     \<and> misses st' = misses st \<and> pongs st' = pongs st \<and> nID (node st') = nID (node st)"
  by (cases st; cases st') (simp add: coreEq_def)

lemma kept_refl [simp]: "kept i so so"
  by (auto simp: kept_def split: option.split)

lemma kept_simps [simp]:
  "kept i (Some st) so' \<longleftrightarrow> (\<exists>st'. so' = Some st' \<and> coreEq st st')"
  "kept i None None"
  "kept i None (Some st') \<longleftrightarrow> (\<exists>n. nID n = i \<and> coreEq (newNodeState n) st')"
  by (auto simp: kept_def)

lemma kept_trans: "kept i a b \<Longrightarrow> kept i b c \<Longrightarrow> kept i a c"
  by (cases a; cases b; cases c) (auto intro: coreEq_trans)

lemma kept_session: "kept i so so' \<Longrightarrow> sessionOf so' = sessionOf so"
  by (auto simp: kept_def sessionOf_def newNodeState_def dest!: coreEq_fields split: option.splits)

lemma quiet_refl [simp]: "quiet r r"
  by (simp add: quiet_def)

lemma quiet_trans: "quiet a b \<Longrightarrow> quiet b c \<Longrightarrow> quiet a c"
  unfolding quiet_def by (metis kept_trans)

lemma quiet_regOk: "quiet r r' \<Longrightarrow> regOk r \<Longrightarrow> regOk r'"
  unfolding regOk_def
proof (intro conjI allI impI)
  fix i st assume q: "quiet r r'" and ok: "mapOk (nodes r) \<and> (\<forall>i st. map_of (nodes r) i = Some st \<longrightarrow> nID (node st) = i \<and> (up st \<longrightarrow> everUp st))"
    and st: "map_of (nodes r') i = Some st"
  from q have k: "kept i (map_of (nodes r) i) (Some st)" by (metis quiet_def st)
  show "nID (node st) = i" "up st \<Longrightarrow> everUp st"
    using k ok by (auto simp: kept_def newNodeState_def dest!: coreEq_fields split: option.splits)
qed (simp add: quiet_def)

lemma quiet_write [simp]: "quiet r (write_ev r e)"
  by (simp add: quiet_def write_ev_def)

lemma quiet_put: "kept i (map_of (nodes r) i) (Some st') \<Longrightarrow> quiet r (r\<lparr>nodes := mput i st' (nodes r)\<rparr>)"
  by (simp add: quiet_def update_conv')

lemma coreEq_update [simp]:
  "coreEq st (st\<lparr>queued := q\<rparr>)" "nID n = nID (node st) \<Longrightarrow> coreEq st (st\<lparr>node := n\<rparr>)"
  by (simp_all add: coreEq_def)

lemma quiet_observe:
  assumes "regOk r" "observe r n src = (r', es)"
  shows "quiet r r'"
proof (cases "map_of (nodes r) (nID n)")
  case None
  then have "kept (nID n) (map_of (nodes r) (nID n)) (Some (newNodeState n))" by auto
  from quiet_put [OF this] None assms(2) show ?thesis by (auto simp: observe_def)
next
  case (Some st)
  with assms have "kept (nID n) (map_of (nodes r) (nID n)) (Some (st\<lparr>node := n\<rparr>))" by (simp add: regOk_def)
  from quiet_put [OF this] Some assms(2) show ?thesis by (auto simp: observe_def split: if_splits)
qed

lemma quiet_doAct: "regOk r \<Longrightarrow> doAct r a = (r', bs) \<Longrightarrow> quiet r r'"
  by (cases a) (auto dest: quiet_observe split: prod.splits)

lemma quiet_findnode: "quiet r (findnode r res)"
  by (simp add: quiet_def findnode_def)

lemma quiet_unqueue: "quiet r (unqueue r i)"
  by (auto simp: unqueue_def split: option.split intro!: quiet_put)

lemma quiet_dueNodes: "dueNodes cfg t ids r = (r', live, dead) \<Longrightarrow> quiet r r'"
proof (induction ids arbitrary: r live dead)
  case (Cons i ids)
  show ?case
  proof (cases "map_of (nodes r) i")
    case None
    with Cons show ?thesis by simp
  next
    case (Some st)
    then have "quiet r (r\<lparr>nodes := mput i (st\<lparr>queued := True\<rparr>) (nodes r)\<rparr>)" by (intro quiet_put) simp
    with Cons Some show ?thesis by (auto split: if_splits prod.splits intro: quiet_trans)
  qed
qed simp

section \<open>The registry against its log\<close>

text \<open>The transitions made so far lead to the prober's state.\<close>

definition histOk :: "probeConfig \<Rightarrow> 'id crawlEvent list \<Rightarrow> 'id registry \<Rightarrow> bool" where
  "histOk cfg h r \<longleftrightarrow> (\<forall>i. sessionRun cfg NeverUp (transOf i h) = Some (sessionOf (map_of (nodes r) i)))"

lemma quiet_histOk: "quiet r r' \<Longrightarrow> histOk cfg h r \<Longrightarrow> histOk cfg h r'"
  by (simp add: histOk_def quiet_def) (metis kept_session)

text \<open>The log against the transitions made: \<open>busyFor\<close> counts the goroutines that have some of a node to write.\<close>

definition busyFor :: "'id \<Rightarrow> 'id act list list \<Rightarrow> nat" where
  "busyFor i tds = length (filter (\<lambda>as. transOf i (writesOf as) \<noteq> []) tds)"

definition logOf :: "'id \<Rightarrow> 'id crawlEvent list \<Rightarrow> 'id act list list \<Rightarrow> 'id crawlEvent list \<Rightarrow> 'id set \<Rightarrow> bool" where
  "logOf i es tds h lt \<longleftrightarrow> mset (transOf i es) + mset (unwritten i tds) = mset (transOf i h)
     \<and> (i \<notin> lt \<longrightarrow> busyFor i tds \<le> 1 \<and> transOf i es @ unwritten i tds = transOf i h)"

definition logOk :: "'id crawl \<Rightarrow> bool" where
  "logOk c \<longleftrightarrow> (\<forall>i. logOf i (events (reg c)) (todo c) (hist c) (late c))"

lemma unwritten_append [simp]: "unwritten i (xs @ ys) = unwritten i xs @ unwritten i ys"
  by (simp add: unwritten_def)

lemma unwritten_Cons [simp]: "unwritten i (as # tds) = transOf i (writesOf as) @ unwritten i tds"
  by (simp add: unwritten_def)

lemma unwritten_Nil [simp]: "unwritten i [] = []"
  by (simp add: unwritten_def)

lemma busyFor_simps [simp]:
  "busyFor i [] = 0" "busyFor i (xs @ ys) = busyFor i xs + busyFor i ys"
  "busyFor i (as # tds) = (if transOf i (writesOf as) = [] then 0 else 1) + busyFor i tds"
  by (simp_all add: busyFor_def)

lemma busyFor_none: "busyFor i tds = 0 \<longleftrightarrow> unwritten i tds = []"
  by (induction tds) auto

lemma logOf_write:
  assumes "logOf i es (xs @ (WriteEv e # as) # ys) h lt"
  shows "logOf i (es @ [e]) (xs @ as # ys) h lt"
proof -
  let ?w = "transOf i [e]"
  have w: "transOf i (e # writesOf as) = ?w @ transOf i (writesOf as)"
    using transOf_append [of i "[e]" "writesOf as"] by simp
  show ?thesis
  proof (cases "?w = []")
    case True
    with assms w show ?thesis by (simp add: logOf_def)
  next
    case False
    then have "busyFor i xs = 0 \<and> busyFor i ys = 0" if "i \<notin> lt" using assms that w by (simp add: logOf_def)
    then have "unwritten i xs = [] \<and> unwritten i ys = []" if "i \<notin> lt" using that by (simp add: busyFor_none)
    then show ?thesis using assms w by (auto simp: logOf_def busyFor_none ac_simps)
  qed
qed

lemma logOf_silent:
  "logOf i es (xs @ as # ys) h lt \<Longrightarrow> transOf i (writesOf bs) = transOf i (writesOf as) \<Longrightarrow> logOf i es (xs @ bs # ys) h lt"
  by (simp add: logOf_def)

lemma logOf_add: "transOf i (writesOf as) = [] \<Longrightarrow> logOf i es tds h lt \<Longrightarrow> logOf i es (tds @ [as]) h lt"
  by (simp add: logOf_def)

lemma logOf_end:
  assumes "logOf i es tds h lt"
  shows "logOf i es (tds @ [pingActs j trs refresh enr]) (h @ map (Trans j) trs) (if unwritten j tds = [] then lt else insert j lt)"
proof -
  have w: "transOf i (writesOf (pingActs j trs refresh enr)) = (if j = i then trs else [])"
    by (simp add: pingActs_def split: option.split)
  show ?thesis
  proof (cases "j = i")
    case False
    with assms w show ?thesis by (simp add: logOf_def)
  next
    case same: True
    show ?thesis
    proof (cases "unwritten i tds = []")
      case True
      with busyFor_none [of i tds] have "busyFor i tds = 0" by simp
      with True same assms w show ?thesis by (simp add: logOf_def)
    next
      case False
      with same assms w show ?thesis by (simp add: logOf_def)
    qed
  qed
qed

text \<open>What a finished ping does: its transitions lead from the node's old state to the new one, everything else stays.\<close>

lemma pingDone_effect:
  assumes "pingDone cfg r i f sent t res = Some (r', trs, refresh)" and ok: "regOk r"
  shows "\<exists>st st'. map_of (nodes r) i = Some st \<and> nodes r' = mput i st' (nodes r)
    \<and> events r' = events r
    \<and> sessionRun cfg (sessionOf (Some st)) trs = Some (sessionOf (Some st'))
    \<and> (up st' \<longrightarrow> everUp st') \<and> \<not> queued st' \<and> node st' = node st
    \<and> rPings r' = rPings r \<and> rDeadPings r' = rDeadPings r
    \<and> (case res of
         Inr _ \<Rightarrow> errs r' = errs r \<and> rPongs r' = rPongs r + (if f then 1 else 0) \<and> rDeadPongs r' = rDeadPongs r + (if f then 0 else 1)
       | Inl e \<Rightarrow> errs r' = (if everUp st then madd (errKind e) 1 (errs r) else errs r)
                 \<and> rPongs r' = rPongs r \<and> rDeadPongs r' = rDeadPongs r)"
proof -
  obtain st where st: "map_of (nodes r) i = Some st" using assms(1) by (auto simp: pingDone_def split: option.splits)
  let ?st = "st\<lparr>queued := False\<rparr>"
  have up: "up ?st \<Longrightarrow> everUp ?st" using st ok by (auto simp: regOk_def)
  have s0: "sessionOf (Some ?st) = sessionOf (Some st)" by (simp add: sessionOf_def)
  have re: "sessionOf (Some (reschedule cfg st' t)) = sessionOf (Some st')" for st' by (simp add: sessionOf_def reschedule_def)
  show ?thesis
  proof (cases res)
    case (Inr n)
    obtain st' trs0 where a: "answered ?st sent t = (st', trs0)" by force
    from answered_session [OF a up, of cfg] s0 re [of st'] show ?thesis
      using assms(1) st a Inr
      by (intro exI [of _ st] exI [of _ "reschedule cfg st' t"])
        (auto simp: pingDone_def Let_def reschedule_def split: if_splits)
  next
    case (Inl e)
    obtain st' trs0 where a: "unanswered cfg ?st t e = (st', trs0)" by force
    from unanswered_session [OF a up] s0 re [of st'] show ?thesis
      using assms(1) st a Inl
      by (intro exI [of _ st] exI [of _ "reschedule cfg st' t"])
        (auto simp: pingDone_def Let_def reschedule_def split: if_splits)
  qed
qed

lemma pingDone_ok:
  assumes "pingDone cfg r i f sent t res = Some (r', trs, refresh)" "regOk r" "histOk cfg h r"
  shows "regOk r' \<and> histOk cfg (h @ map (Trans i) trs) r' \<and> events r' = events r \<and> queuedIds r' = queuedIds r - {i}"
proof -
  obtain st st' where e: "map_of (nodes r) i = Some st" "nodes r' = mput i st' (nodes r)"
      "events r' = events r"
      "sessionRun cfg (sessionOf (Some st)) trs = Some (sessionOf (Some st'))"
      "up st' \<longrightarrow> everUp st'" "\<not> queued st'" "node st' = node st"
    using pingDone_effect [OF assms(1,2)] by blast
  have "regOk r'" using assms(2) e by (auto simp: regOk_def update_conv')
  moreover have "histOk cfg (h @ map (Trans i) trs) r'" using assms(3) e
    by (auto simp: histOk_def sessionRun_append update_conv')
  moreover have "queuedIds r' = queuedIds r - {i}" using e by (auto simp: queuedIds_def update_conv')
  ultimately show ?thesis using e by blast
qed

lemma pingStart_quiet: "pingStart cfg r i = (f, r') \<Longrightarrow> nodes r' = nodes r \<and> events r' = events r \<and> errs r' = errs r
    \<and> rPongs r' = rPongs r \<and> rDeadPongs r' = rDeadPongs r
    \<and> rPings r' = rPings r + (if f then 1 else 0) \<and> rDeadPings r' = rDeadPings r + (if f then 0 else 1)
    \<and> f = (case map_of (nodes r) i of None \<Rightarrow> False | Some st \<Rightarrow> fast (newTries cfg) st)"
  by (auto simp: pingStart_def Let_def split: if_splits)

section \<open>Queued nodes\<close>

lemma queuedIds_observe: "observe r n src = (r', es) \<Longrightarrow> queuedIds r' = queuedIds r"
  by (auto simp: queuedIds_def observe_def update_conv' newNodeState_def split: option.splits if_splits)

lemma queuedIds_write [simp]: "queuedIds (write_ev r e) = queuedIds r"
  by (simp add: queuedIds_def write_ev_def)

lemma queuedIds_doAct: "doAct r a = (r', bs) \<Longrightarrow> queuedIds r' = queuedIds r"
  by (cases a) (auto dest: queuedIds_observe split: prod.splits)

lemma queuedIds_findnode [simp]: "queuedIds (findnode r res) = queuedIds r"
  by (simp add: findnode_def queuedIds_def)

lemma queuedIds_unqueue: "queuedIds (unqueue r i) = queuedIds r - {i}"
  by (auto simp: queuedIds_def unqueue_def update_conv' split: option.splits if_splits)

lemma dueNodes_queued:
  assumes "dueNodes cfg t ids r = (r', live, dead)" "regOk r" "distinct ids"
  shows "distinct (live @ dead) \<and> set (live @ dead) \<subseteq> set ids \<and> queuedIds r' = queuedIds r \<union> set (live @ dead)
    \<and> set (live @ dead) \<inter> queuedIds r = {}"
  using assms
proof (induction ids arbitrary: r live dead)
  case (Cons i ids)
  show ?case
  proof (cases "\<exists>st. map_of (nodes r) i = Some st \<and> isDue t st")
    case False
    with Cons show ?thesis by (fastforce split: option.splits)
  next
    case True
    then obtain st where st: "map_of (nodes r) i = Some st" "isDue t st" by blast
    let ?r = "r\<lparr>nodes := mput i (st\<lparr>queued := True\<rparr>) (nodes r)\<rparr>"
    obtain l d where d: "dueNodes cfg t ids ?r = (r', l, d)" using Cons.prems(1) st by (auto split: if_splits prod.splits)
    have r: "regOk ?r" by (rule quiet_regOk [OF quiet_put Cons.prems(2)]) (simp add: st)
    have q: "queuedIds ?r = insert i (queuedIds r)" "i \<notin> queuedIds r"
      using st by (auto simp: queuedIds_def update_conv' isDue_def)
    have "nID (node st) = i" using st Cons.prems(2) by (simp add: regOk_def)
    then show ?thesis using Cons.IH [OF d r] Cons.prems st d q by (auto split: if_splits)
  qed
qed simp

section \<open>Invariant of a run\<close>

definition pendingIds :: "'id crawl \<Rightarrow> 'id list" where
  "pendingIds c = dueLive c @ dueDead c @ liveCh c @ deadCh c @ map fst (inflight c)"

definition flagsOk :: "probeConfig \<Rightarrow> 'id crawl \<Rightarrow> bool" where
  "flagsOk cfg c \<longleftrightarrow> (\<forall>(i, f, s) \<in> set (inflight c).
     \<exists>st. map_of (nodes (reg c)) i = Some st \<and> f = fast (newTries cfg) st)"

text \<open>Pings sent on each schedule: answered, failed on a node that has been up, or under way.\<close>

definition countsOk :: "'id crawl \<Rightarrow> bool" where
  "countsOk c \<longleftrightarrow> (let r = reg c; fs = int (length (filter (\<lambda>(i, f, s). f) (inflight c)))
     in mapOk (errs r) \<and> rPongs r + msum (errs r) + fs \<le> rPings r
        \<and> rDeadPongs r + int (length (inflight c)) - fs \<le> rDeadPings r)"

definition crawlOk :: "probeConfig \<Rightarrow> 'id crawl \<Rightarrow> bool" where
  "crawlOk cfg c \<longleftrightarrow> regOk (reg c) \<and> histOk cfg (hist c) (reg c) \<and> logOk c \<and> distinct (pendingIds c)
     \<and> set (pendingIds c) = queuedIds (reg c) \<and> flagsOk cfg c \<and> countsOk c"

lemma kept_fast: "kept i (Some st) so \<Longrightarrow> \<exists>st'. so = Some st' \<and> fast n st' = fast n st"
  by (auto simp: fast_def dest: coreEq_fields)

lemma quiet_flagsOk: "quiet (reg c) r' \<Longrightarrow> flagsOk cfg c \<Longrightarrow> flagsOk cfg (c\<lparr>reg := r'\<rparr>)"
  unfolding flagsOk_def
proof (clarify, simp)
  fix i f s
  assume q: "quiet (reg c) r'" and "(i, f, s) \<in> set (inflight c)"
    and all: "\<forall>(i, f, s) \<in> set (inflight c). \<exists>st. map_of (nodes (reg c)) i = Some st \<and> f = fast (newTries cfg) st"
  then obtain st where "map_of (nodes (reg c)) i = Some st" "f = fast (newTries cfg) st" by fast
  with q show "\<exists>st. map_of (nodes r') i = Some st \<and> f = fast (newTries cfg) st"
    unfolding quiet_def by (metis kept_fast)
qed

lemma quiet_countsOk: "quiet (reg c) r' \<Longrightarrow> countsOk c \<Longrightarrow> countsOk (c\<lparr>reg := r'\<rparr>)"
  by (simp add: countsOk_def quiet_def Let_def)

text \<open>Every step that only moves identities, and every quiet change of the registry, keeps the invariant.\<close>

lemma crawlOk_quiet:
  assumes ok: "crawlOk cfg c" and q: "quiet (reg c) (reg c')" and same: "inflight c' = inflight c" "hist c' = hist c"
    and p: "distinct (pendingIds c') \<and> set (pendingIds c') = queuedIds (reg c')" and l: "logOk c'"
  shows "crawlOk cfg c'"
proof -
  have "flagsOk cfg c' = flagsOk cfg (c\<lparr>reg := reg c'\<rparr>)" "countsOk c' = countsOk (c\<lparr>reg := reg c'\<rparr>)"
    by (simp_all add: flagsOk_def countsOk_def same)
  with ok q p l show ?thesis
    by (auto simp: crawlOk_def same intro: quiet_regOk quiet_histOk quiet_flagsOk quiet_countsOk)
qed

lemma events_dueNodes: "dueNodes cfg t ids r = (r', live, dead) \<Longrightarrow> events r' = events r"
  by (induction cfg t ids r arbitrary: live dead rule: dueNodes.induct) (fastforce split: option.splits if_splits prod.splits)+

lemma events_keep [simp]: "events (unqueue r i) = events r" "events (findnode r res) = events r"
  by (simp_all add: unqueue_def findnode_def split: option.split)

lemma events_observe: "observe r n src = (r', es) \<Longrightarrow> events r' = events r \<and> (\<forall>i. transOf i es = [])"
  by (auto simp: observe_def split: option.splits if_splits)

lemma logOk_act:
  assumes "logOk c" "todo c = xs @ (a # as) # ys" "doAct (reg c) a = (r, bs)"
  shows "logOk (c\<lparr>reg := r, todo := xs @ (bs @ as) # ys\<rparr>)"
proof (cases a)
  case (WriteEv e)
  with assms(3) have "bs = []" "events r = events (reg c) @ [e]" by (auto simp: write_ev_def)
  with assms(1,2) WriteEv show ?thesis by (simp add: logOk_def logOf_write)
next
  case (Observe n src)
  obtain r' es where o': "observe (reg c) n src = (r', es)" by force
  with Observe assms(3) have bs: "r = r'" "writesOf bs = es"
    using writesOf_WriteEv [of "\<lambda>e. e" es] by auto
  have "logOf i (events (reg c)) (xs @ (bs @ as) # ys) (hist c) (late c)" for i
  proof (rule logOf_silent [where as = "a # as"])
    show "logOf i (events (reg c)) (xs @ (a # as) # ys) (hist c) (late c)" using assms(1,2) by (metis logOk_def)
    show "transOf i (writesOf (bs @ as)) = transOf i (writesOf (a # as))"
      using events_observe [OF o'] bs by (simp add: Observe)
  qed
  moreover have "events r = events (reg c)" using events_observe [OF o'] bs by simp
  ultimately show ?thesis by (simp add: logOk_def)
qed

lemma logOk_addTodo:
  "logOk c \<Longrightarrow> events (reg c') = events (reg c) \<Longrightarrow> todo c' = todo c \<Longrightarrow> hist c' = hist c \<Longrightarrow> late c' = late c
    \<Longrightarrow> (\<And>i. transOf i (writesOf as) = []) \<Longrightarrow> logOk (addTodo as c')"
  by (simp add: logOk_def addTodo_def logOf_add)

lemma addTodo_keeps [simp]:
  "reg (addTodo as c) = reg c" "pendingIds (addTodo as c) = pendingIds c" "inflight (addTodo as c) = inflight c" "hist (addTodo as c) = hist c"
  by (simp_all add: addTodo_def pendingIds_def)

lemma endPing_keeps [simp]:
  "reg (endPing i trs refresh enr c) = reg c" "pendingIds (endPing i trs refresh enr c) = pendingIds c"
  "inflight (endPing i trs refresh enr c) = inflight c" "hist (endPing i trs refresh enr c) = hist c @ map (Trans i) trs"
  by (simp_all add: endPing_def) (simp add: pendingIds_def)

lemma crawlOk_startPing:
  assumes ok: "crawlOk cfg c" and p: "distinct (i # pendingIds c') \<and> set (i # pendingIds c') = queuedIds (reg c)"
    and same: "reg c' = reg c" "inflight c' = inflight c" "todo c' = todo c" "hist c' = hist c" "late c' = late c"
  shows "crawlOk cfg (startPing cfg c' i t)"
proof -
  obtain f r where fr: "pingStart cfg (reg c) i = (f, r)" by force
  note e = pingStart_quiet [OF fr]
  obtain st where st: "map_of (nodes (reg c)) i = Some st" using p by (auto simp: queuedIds_def)
  have n: "startPing cfg c' i t = c'\<lparr>reg := r, inflight := inflight c @ [(i, f, t)]\<rparr>" by (simp add: startPing_def fr same)
  have "flagsOk cfg (startPing cfg c' i t)" using ok e st by (auto simp: n crawlOk_def flagsOk_def)
  moreover have "countsOk (startPing cfg c' i t)" using ok e by (auto simp: n crawlOk_def countsOk_def Let_def)
  moreover have "queuedIds r = queuedIds (reg c)" using e by (simp add: queuedIds_def)
  moreover have "inflight c' = inflight c" "todo c' = todo c" "hist c' = hist c" "late c' = late c" by (simp_all add: same)
  ultimately show ?thesis using ok e p same
    by (auto simp: crawlOk_def n regOk_def histOk_def logOk_def pendingIds_def)
qed

lemma crawlOk_finish:
  assumes ok: "crawlOk cfg c" and i: "inflight c = xs @ (i, f, sent) # ys"
    and d: "pingDone cfg (reg c) i f sent t res = Some (r, trs, refresh)"
  shows "crawlOk cfg (endPing i trs refresh enr (c\<lparr>reg := r, inflight := xs @ ys\<rparr>))"
proof -
  have r: "regOk (reg c)" "histOk cfg (hist c) (reg c)" using ok by (simp_all add: crawlOk_def)
  note q = pingDone_ok [OF d r]
  obtain st st' where e: "map_of (nodes (reg c)) i = Some st" "nodes r = mput i st' (nodes (reg c))"
      "rPings r = rPings (reg c)" "rDeadPings r = rDeadPings (reg c)"
      "case res of
         Inr _ \<Rightarrow> errs r = errs (reg c) \<and> rPongs r = rPongs (reg c) + (if f then 1 else 0)
                \<and> rDeadPongs r = rDeadPongs (reg c) + (if f then 0 else 1)
       | Inl e \<Rightarrow> errs r = (if everUp st then madd (errKind e) 1 (errs (reg c)) else errs (reg c))
                 \<and> rPongs r = rPongs (reg c) \<and> rDeadPongs r = rDeadPongs (reg c)"
    using pingDone_effect [OF d r(1)] by blast
  have dist: "distinct (pendingIds c)" "set (pendingIds c) = queuedIds (reg c)" using ok by (simp_all add: crawlOk_def)
  have p: "distinct (pendingIds (c\<lparr>reg := r, inflight := xs @ ys\<rparr>))
      \<and> set (pendingIds (c\<lparr>reg := r, inflight := xs @ ys\<rparr>)) = queuedIds (reg c) - {i}"
    using dist by (auto simp: pendingIds_def i)
  have fl: "f = fast (newTries cfg) st" using ok e(1) by (auto simp: crawlOk_def flagsOk_def i)
  have "flagsOk cfg (c\<lparr>reg := r, inflight := xs @ ys\<rparr>)"
  proof -
    have "i \<notin> fst ` set (xs @ ys)" using dist by (auto simp: pendingIds_def i)
    then have "\<And>j g s. (j, g, s) \<in> set (xs @ ys) \<Longrightarrow> j \<noteq> i" by force
    moreover have "flagsOk cfg (c\<lparr>inflight := xs @ ys\<rparr>)" using ok by (auto simp: crawlOk_def flagsOk_def i)
    ultimately show ?thesis unfolding flagsOk_def by (clarsimp simp: e(2) update_conv') blast
  qed
  moreover have "countsOk (c\<lparr>reg := r, inflight := xs @ ys\<rparr>)"
    using ok e(3-5) fl by (auto simp: crawlOk_def countsOk_def Let_def i fast_def split: sum.splits if_splits)
  moreover have "logOk (endPing i trs refresh enr (c\<lparr>reg := r, inflight := xs @ ys\<rparr>))"
  proof -
    have "logOf j (events (reg c)) (todo c) (hist c) (late c)" for j using ok by (simp add: crawlOk_def logOk_def)
    from logOf_end [OF this] q show ?thesis by (simp add: logOk_def endPing_def addTodo_def cong: if_cong split del: if_split)
  qed
  ultimately show ?thesis using q p
    by (simp add: crawlOk_def flagsOk_def countsOk_def)
qed

lemma crawlOk_step: "crawl_step cfg c c' \<Longrightarrow> crawlOk cfg c \<Longrightarrow> crawlOk cfg c'"
proof (induction rule: crawl_step.induct)
  case (tick c ids t r live dead)
  have ok: "regOk (reg c)" "distinct (pendingIds c)" "set (pendingIds c) = queuedIds (reg c)" using tick.prems by (simp_all add: crawlOk_def)
  have "distinct ids" using tick.hyps(3) ok(1) by (metis mset_eq_imp_distinct_iff regOk_def mapOk_def)
  note d = dueNodes_queued [OF tick.hyps(4) ok(1) this]
  have "logOk (c\<lparr>reg := r, dueLive := live, dueDead := dead\<rparr>)"
    using tick.prems events_dueNodes [OF tick.hyps(4)] by (simp add: crawlOk_def logOk_def)
  then show ?case using d ok tick.hyps
    by (intro crawlOk_quiet [OF tick.prems]) (auto simp: quiet_dueNodes [OF tick.hyps(4)] pendingIds_def)
next
  case (sendLive c i js)
  then show ?case by (intro crawlOk_quiet [OF sendLive.prems]) (auto simp: crawlOk_def pendingIds_def logOk_def)
next
  case (sendDead c i js)
  then show ?case by (intro crawlOk_quiet [OF sendDead.prems]) (auto simp: crawlOk_def pendingIds_def logOk_def)
next
  case (skipDead c i js)
  then show ?case
    by (intro crawlOk_quiet [OF skipDead.prems]) (auto simp: quiet_unqueue crawlOk_def pendingIds_def queuedIds_unqueue logOk_def)
next
  case (takeLive c i js t)
  then show ?case by (intro crawlOk_startPing [OF takeLive.prems]) (auto simp: crawlOk_def pendingIds_def)
next
  case (takeDead c i js t)
  then show ?case by (intro crawlOk_startPing [OF takeDead.prems]) (auto simp: crawlOk_def pendingIds_def)
next
  case (finish c xs i f sent ys t res r trs refresh enr)
  show ?case by (rule crawlOk_finish [OF finish.prems finish.hyps])
next
  case (act c xs a as ys r bs)
  have ok: "regOk (reg c)" "logOk c" using act.prems by (simp_all add: crawlOk_def)
  show ?case using act.prems quiet_doAct [OF ok(1) act.hyps(2)] queuedIds_doAct [OF act.hyps(2)] logOk_act [OF ok(2) act.hyps]
    by (intro crawlOk_quiet [OF act.prems]) (auto simp: crawlOk_def pendingIds_def)
next
  case (learn c n src)
  then show ?case
    by (intro crawlOk_quiet [OF learn.prems] logOk_addTodo [of c]) (auto simp: crawlOk_def)
next
  case (sweeps c k t)
  then show ?case
    by (intro crawlOk_quiet [OF sweeps.prems] logOk_addTodo [of c]) (auto simp: sweep_def crawlOk_def)
next
  case (sampled c i dists res)
  have "pendingIds (c\<lparr>reg := findnode (reg c) res\<rparr>) = pendingIds c" by (simp add: pendingIds_def)
  then show ?case using sampled
    by (intro crawlOk_quiet [OF sampled.prems] logOk_addTodo [of c])
      (simp_all add: crawlOk_def logReply_def quiet_findnode Let_def)
qed

lemma crawl_run_ok: "crawl_run cfg c \<Longrightarrow> crawlOk cfg c"
proof (induction rule: crawl_run.induct)
  case start
  show ?case
    by (simp add: crawlOk_def newCrawl_def newRegistry_def regOk_def histOk_def logOk_def logOf_def sessionOf_def pendingIds_def
        queuedIds_def flagsOk_def countsOk_def)
qed (rule crawlOk_step)

section \<open>Properties\<close>

text \<open>
  C10: The event log is enough to reconstruct the sessions, as far as it is written, in every interleaving
  of dispatcher, workers, crawlers, sampler and sweeps. The transitions made for a node, in the order
  of the critical sections that made them, form a well-formed run of sessions (it comes up, goes down only
  after the configured misses in a row, reporting exactly the answers and misses of the session, and
  comes up again with an answer first) that ends in the prober's state. Each of them is in the log
  or still to be written by the goroutine that made it, once. And the log has them in this order
  unless a ping of the node ended before the transitions of an earlier one were written, so that a log with
  nothing left to write ends in the prober's state.
\<close>

theorem log_reconstructs_sessions:
  assumes "crawl_run cfg c"
  shows "sessionRun cfg NeverUp (transOf i (hist c)) = Some (sessionOf (map_of (nodes (reg c)) i))
    \<and> mset (transOf i (events (reg c))) + mset (unwritten i (todo c)) = mset (transOf i (hist c))
    \<and> (i \<notin> late c \<longrightarrow> transOf i (events (reg c)) @ unwritten i (todo c) = transOf i (hist c))
    \<and> (i \<notin> late c \<and> unwritten i (todo c) = [] \<longrightarrow>
         sessionRun cfg NeverUp (transOf i (events (reg c))) = Some (sessionOf (map_of (nodes (reg c)) i)))"
proof -
  from crawl_run_ok [OF assms] have h: "histOk cfg (hist c) (reg c)" and l: "logOf i (events (reg c)) (todo c) (hist c) (late c)"
    by (simp_all add: crawlOk_def logOk_def)
  from l have o': "i \<notin> late c \<Longrightarrow> transOf i (events (reg c)) @ unwritten i (todo c) = transOf i (hist c)"
    and m: "mset (transOf i (events (reg c))) + mset (unwritten i (todo c)) = mset (transOf i (hist c))" by (simp_all add: logOf_def)
  from h have "sessionRun cfg NeverUp (transOf i (hist c)) = Some (sessionOf (map_of (nodes (reg c)) i))" by (simp add: histOk_def)
  with o' m show ?thesis by auto
qed

text \<open>
  How a node becomes late: its next ping is due a probe period after the last one ended, so a goroutine has
  to be held up for that long between its critical section and its write.
\<close>

lemma next_ping_waits:
  assumes "pingDone cfg r i f sent t res = Some (r', trs, refresh)" "probe cfg \<le> probeDead cfg" "map_of (nodes r') i = Some st"
  shows "t + probe cfg \<le> nextAt st \<and> (now < t + probe cfg \<longrightarrow> \<not> isDue now st)"
  using assms by (auto simp: pingDone_def reschedule_def isDue_def Let_def update_conv' split: option.splits sum.splits prod.splits if_splits)

text \<open>
  At most one ping of a node is queued or under way at any time: the identities in the dispatcher's
  lists, the channels and the workers are pairwise different and are exactly those marked as queued,
  and finishing a ping always finds its node in the registry.
\<close>

theorem one_ping_per_node:
  assumes "crawl_run cfg c"
  shows "distinct (pendingIds c) \<and> set (pendingIds c) = {i. \<exists>st. map_of (nodes (reg c)) i = Some st \<and> queued st}
    \<and> (\<forall>(i, f, s) \<in> set (inflight c). \<forall>t res. pingDone cfg (reg c) i f s t res \<noteq> None)"
proof -
  have ok: "crawlOk cfg c" by (rule crawl_run_ok [OF assms])
  have "pingDone cfg (reg c) i f s t res \<noteq> None" if "(i, f, s) \<in> set (inflight c)" for i f s t res
    using ok that by (fastforce simp: crawlOk_def flagsOk_def pingDone_def Let_def split: option.split sum.split prod.split)
  with ok show ?thesis by (auto simp: crawlOk_def queuedIds_def)
qed

lemma sweepNodes_account:
  fixes late nt and sts :: "'id nodeState list"
  assumes "\<forall>st \<in> set sts. up st \<longrightarrow> everUp st"
  defines "ev' ev \<equiv> fold (sweepNode late nt) sts ev"
  shows "swEverUp (ev' ev) + swNew (ev' ev) + swDead (ev' ev) = swEverUp ev + swNew ev + swDead ev + int (length sts)
    \<and> swUp (ev' ev) - swUp ev \<le> swEverUp (ev' ev) - swEverUp ev \<and> swLate (ev' ev) - swLate ev \<le> swEverUp (ev' ev) - swEverUp ev
    \<and> swKnown (ev' ev) = swKnown ev \<and> swPings (ev' ev) = swPings ev \<and> swPongs (ev' ev) = swPongs ev
    \<and> swDeadPings (ev' ev) = swDeadPings ev \<and> swDeadPongs (ev' ev) = swDeadPongs ev \<and> swErrs (ev' ev) = swErrs ev"
  using assms(1) unfolding ev'_def
proof (induction sts arbitrary: ev)
  case (Cons st sts)
  have "swEverUp (sweepNode late nt st ev) + swNew (sweepNode late nt st ev) + swDead (sweepNode late nt st ev)
        = swEverUp ev + swNew ev + swDead ev + 1
      \<and> swUp (sweepNode late nt st ev) - swUp ev \<le> swEverUp (sweepNode late nt st ev) - swEverUp ev
      \<and> swLate (sweepNode late nt st ev) - swLate ev \<le> swEverUp (sweepNode late nt st ev) - swEverUp ev
      \<and> swKnown (sweepNode late nt st ev) = swKnown ev \<and> swPings (sweepNode late nt st ev) = swPings ev
      \<and> swPongs (sweepNode late nt st ev) = swPongs ev \<and> swDeadPings (sweepNode late nt st ev) = swDeadPings ev
      \<and> swDeadPongs (sweepNode late nt st ev) = swDeadPongs ev \<and> swErrs (sweepNode late nt st ev) = swErrs ev"
    using Cons.prems by (auto simp: sweepNode_def Let_def)
  with Cons.IH [of "sweepNode late nt st ev"] Cons.prems show ?case by auto
qed simp

text \<open>
  C24: A sweep's counts are consistent in every reachable state: the known nodes split into those that
  ever answered, new ones and dead ones; no more are up or late than ever answered; the answers and the
  counted errors never exceed the pings sent, on either schedule.
\<close>

theorem sweep_accounts:
  fixes now :: gotime
  assumes "crawl_run cfg c"
  defines "ev \<equiv> sweepCount (reg c) now (probe cfg) (newTries cfg)"
  shows "swKnown ev = swEverUp ev + swNew ev + swDead ev \<and> swUp ev \<le> swEverUp ev \<and> swLate ev \<le> swEverUp ev
    \<and> swPongs ev + msum (swErrs ev) \<le> swPings ev \<and> swDeadPongs ev \<le> swDeadPings ev"
proof -
  have ok: "crawlOk cfg c" by (rule crawl_run_ok [OF assms(1)])
  then have "\<forall>st \<in> set (map snd (nodes (reg c))). up st \<longrightarrow> everUp st"
    by (force simp: crawlOk_def regOk_def mapOk_def map_of_eq_Some_iff)
  note sw = sweepNodes_account [OF this, of "now - probe cfg" "newTries cfg"
      "\<lparr>swKnown = int (length (nodes (reg c))), swEverUp = 0, swUp = 0, swPings = rPings (reg c), swPongs = rPongs (reg c),
        swDeadPings = rDeadPings (reg c), swDeadPongs = rDeadPongs (reg c), swLate = 0, swNew = 0, swDead = 0,
        swErrs = errs (reg c), swSamples = rSamples (reg c), swSampleErr = rSampleErr (reg c)\<rparr>", folded sweepCount_def]
  have "countsOk c" using ok by (simp add: crawlOk_def)
  moreover have "int (length (filter (\<lambda>(i, f, s). f) (inflight c))) \<le> int (length (inflight c))"
    by (simp only: of_nat_le_iff length_filter_le)
  ultimately have "rDeadPongs (reg c) \<le> rDeadPings (reg c)" unfolding countsOk_def Let_def by linarith
  then show ?thesis using sw \<open>countsOk c\<close> by (simp add: ev_def countsOk_def Let_def)
qed

text \<open>A node that stops answering: the pings that fail one after the other, with their times.\<close>

fun missRun :: "probeConfig \<Rightarrow> 'id nodeState \<Rightarrow> (gotime \<times> string) list \<Rightarrow> 'id nodeState \<times> transition list" where
  "missRun cfg st [] = (st, [])"
| "missRun cfg st ((t, e) # xs) =
     (let (st, trs) = unanswered cfg st t e; (st', trs') = missRun cfg st xs in (st', trs @ trs'))"

definition isDown :: "transition \<Rightarrow> bool" where
  "isDown tr = (case tr of TDown _ _ _ _ \<Rightarrow> True | _ \<Rightarrow> False)"

lemma missRun_snoc:
  "missRun cfg st (xs @ [(t, e)]) =
     (let (st, trs) = missRun cfg st xs; (st', trs') = unanswered cfg st t e in (st', trs @ trs'))"
  by (induction xs arbitrary: st) (auto simp: Let_def split: prod.split)

lemma missRun_state:
  assumes "up st" "missRun cfg st xs = (st', trs)"
  shows "if up st' then misses st' = misses st + int (length xs) \<and> lastPong st' = lastPong st \<and> filter isDown trs = []
    else length (filter isDown trs) = 1"
  using assms(2)
proof (induction xs arbitrary: st' trs rule: rev_induct)
  case Nil
  with assms(1) show ?case by simp
next
  case (snoc x xs)
  obtain t e where x: "x = (t, e)" by force
  obtain st1 trs1 where m: "missRun cfg st xs = (st1, trs1)" by force
  from snoc.IH [OF m] snoc.prems show ?case
    by (auto simp: x missRun_snoc m unanswered_def Let_def isDown_def split: if_splits)
qed

text \<open>
  C25: An outage is noticed: when every ping to a node that is up fails, the node is down by the time the
  misses have reached the limit and two probe periods have passed since its last answer, and exactly
  one transition to down has been logged.
\<close>

theorem outage_detected:
  assumes "up st" "xs \<noteq> []" "misses st + int (length xs) \<ge> maxMisses cfg"
    and "fst (last xs) - lastPong st \<ge> 2 * probe cfg"
  shows "let (st', trs) = missRun cfg st xs in \<not> up st' \<and> length (filter isDown trs) = 1"
proof -
  obtain ys t e where xs: "xs = ys @ [(t, e)]" using assms(2) by (metis rev_exhaust surj_pair)
  obtain st1 trs1 where m: "missRun cfg st ys = (st1, trs1)" by force
  from missRun_state [OF assms(1) m] assms(3,4) show ?thesis
    by (auto simp: xs missRun_snoc m unanswered_def Let_def isDown_def split: if_splits)
qed

lemma sampleDists_ok:
  assumes "mset perm = mset [0..8]"
  shows "distinct (sampleDists perm k) \<and> set (sampleDists perm k) \<subseteq> {248..256}
    \<and> length (sampleDists perm k) = nat (min (max k 1) 9)"
proof -
  have "distinct perm" "set perm = {0..8}" "length perm = 9"
    using assms mset_eq_setD [OF assms] mset_eq_length [OF assms] mset_eq_imp_distinct_iff [OF assms] by auto
  then show ?thesis using set_take_subset [of "nat (min (max k 1) 9)" perm]
    by (auto simp: sampleDists_def distinct_map inj_on_def min_def)
qed

lemma sampleTimes_spread:
  assumes "0 \<le> period" "i < n"
  shows "sampleTimes start period n ! i = start + int i * (period div int n)
    \<and> start \<le> sampleTimes start period n ! i \<and> sampleTimes start period n ! i \<le> start + period"
proof -
  have "int i * (period div int n) \<le> int n * (period div int n)" using assms by (intro mult_right_mono) (auto simp: pos_imp_zdiv_nonneg_iff)
  also have "\<dots> \<le> period" using assms minus_mod_eq_mult_div [of period "int n"] pos_mod_sign [of "int n" period] by linarith
  finally have "int i * (period div int n) \<le> period" .
  moreover have "max n 1 = n" using assms(2) by simp
  ultimately show ?thesis using assms by (simp add: sampleTimes_def Let_def go_simps pos_imp_zdiv_nonneg_iff)
qed

section \<open>Witnesses\<close>

definition demoNode :: "nat enrNode" where
  "demoNode = \<lparr>nID = 1, Seq = 1, IP = Some ''1.2.3.4'', UDP = 30303\<rparr>"

definition demoProbe :: probeConfig where
  "demoProbe = \<lparr>probe = 120, probeDead = 1800, maxMisses = 3, newTries = 3, workers = 1, deadWorkers = 1\<rparr>"

text \<open>A node is learned, becomes due, is queued, pinged and answers; then the transition is written.\<close>

definition demoReg :: "nat registry" where
  "demoReg = fst (observe newRegistry demoNode ''crawl'')"

definition demoQueued :: "nat registry" where
  "demoQueued = demoReg\<lparr>nodes := [(1, newNodeState demoNode\<lparr>queued := True\<rparr>)]\<rparr>"

definition demoPinged :: "nat crawl" where
  "demoPinged = startPing demoProbe (newCrawl\<lparr>reg := demoQueued, todo := [[WriteEv (Seen demoNode ''crawl'')]]\<rparr>) 1 1000"

definition demoUp :: "nat crawl" where
  "demoUp = endPing 1 [TUp] False None
     (demoPinged\<lparr>reg := (case pingDone demoProbe (reg demoPinged) 1 True 1000 1010 (Inr 1) of Some (r, _) \<Rightarrow> r), inflight := []\<rparr>)"

definition demoLogged :: "nat crawl" where
  "demoLogged = demoUp\<lparr>reg := write_ev (reg demoUp) (Trans 1 TUp), todo := [[WriteEv (Seen demoNode ''crawl'')], []]\<rparr>"

lemmas demo_simps = demoNode_def demoProbe_def newCrawl_def newRegistry_def observe_def write_ev_def newNodeState_def
  zeroTime_def nsSecond_def startPing_def pingStart_def fast_def Let_def demoReg_def demoQueued_def

lemma demo_pinged: "crawl_run demoProbe demoPinged"
proof -
  let ?td = "[[WriteEv (Seen demoNode ''crawl'')]]"
  let ?c = "newCrawl\<lparr>reg := demoReg, todo := ?td\<rparr>"
  let ?q = "?c\<lparr>reg := demoQueued\<rparr>"
  have "crawl_run demoProbe (addTodo [Observe demoNode ''crawl''] newCrawl)"
    by (rule crawl_run.step [OF crawl_run.start crawl_step.learn])
  moreover have "crawl_step demoProbe (addTodo [Observe demoNode ''crawl''] newCrawl) ?c"
    using crawl_step.act [of "addTodo [Observe demoNode ''crawl''] newCrawl" "[]" "Observe demoNode ''crawl''" "[]" "[]"]
    by (simp add: demo_simps addTodo_def)
  ultimately have "crawl_run demoProbe ?c" by (rule crawl_run.step)
  moreover have "crawl_step demoProbe ?c (?q\<lparr>dueLive := [1], dueDead := []\<rparr>)"
    using crawl_step.tick [of ?c "[1]" demoProbe 900 demoQueued "[1]" "[]"] by (simp add: demo_simps isDue_def)
  ultimately have "crawl_run demoProbe (?q\<lparr>dueLive := [1], dueDead := []\<rparr>)" by (rule crawl_run.step)
  moreover have "crawl_step demoProbe (?q\<lparr>dueLive := [1], dueDead := []\<rparr>) (?q\<lparr>liveCh := [1]\<rparr>)"
    using crawl_step.sendLive [of "?q\<lparr>dueLive := [1], dueDead := []\<rparr>" 1 "[]" demoProbe] by (simp add: demo_simps)
  ultimately have "crawl_run demoProbe (?q\<lparr>liveCh := [1]\<rparr>)" by (rule crawl_run.step)
  from crawl_run.step [OF this crawl_step.takeLive [of _ 1 "[]" demoProbe 1000]] show ?thesis
    by (simp add: demoPinged_def newCrawl_def)
qed

lemma demo_up: "crawl_run demoProbe demoUp"
proof -
  have "inflight demoPinged = [] @ (1, True, 1000) # []" by (simp add: demoPinged_def demo_simps)
  moreover obtain r where "pingDone demoProbe (reg demoPinged) 1 True 1000 1010 (Inr 1) = Some (r, [TUp], False)"
    by (simp add: pingDone_def answered_def demoPinged_def demo_simps)
  ultimately show ?thesis
    using crawl_run.step [OF demo_pinged crawl_step.finish, of "[]" 1 True 1000 "[]" 1010 "Inr 1" r "[TUp]" False None]
    by (simp add: demoUp_def)
qed

lemma demo_logged: "crawl_run demoProbe demoLogged"
proof -
  have "todo demoUp = [[WriteEv (Seen demoNode ''crawl'')]] @ [WriteEv (Trans 1 TUp)] # []"
    by (simp add: demoUp_def endPing_def addTodo_def pingActs_def demoPinged_def startPing_def newCrawl_def split: prod.split)
  from crawl_run.step [OF demo_up crawl_step.act [OF this]] show ?thesis by (simp add: demoLogged_def)
qed

lemma demo_logged_node:
  "transOf 1 (events (reg demoLogged)) = [TUp] \<and> unwritten 1 (todo demoLogged) = [] \<and> late demoLogged = {}
    \<and> (\<exists>st. map_of (nodes (reg demoLogged)) 1 = Some st \<and> up st \<and> everUp st \<and> pongs st = 1 \<and> misses st = 0)"
  by (simp add: demoLogged_def demoUp_def endPing_def addTodo_def pingDone_def answered_def reschedule_def demoPinged_def demo_simps)

theorem log_reconstructs_sessions_witness:
  "crawl_run demoProbe demoLogged \<and> sessionRun demoProbe NeverUp (transOf 1 (events (reg demoLogged))) = Some (Online 1 0)"
proof -
  obtain st where "map_of (nodes (reg demoLogged)) 1 = Some st" "up st" "everUp st" "pongs st = 1" "misses st = 0"
    using demo_logged_node by blast
  then have "sessionOf (map_of (nodes (reg demoLogged)) 1) = Online 1 0" by (simp add: sessionOf_def)
  moreover have "1 \<notin> late demoLogged \<and> unwritten 1 (todo demoLogged) = []" using demo_logged_node by simp
  ultimately have "sessionRun demoProbe NeverUp (transOf 1 (events (reg demoLogged))) = Some (Online 1 0)"
    using log_reconstructs_sessions [OF demo_logged, of 1] by metis
  with demo_logged show ?thesis by (rule conjI)
qed

theorem one_ping_per_node_witness:
  "crawl_run demoProbe demoPinged \<and> pendingIds demoPinged = [1] \<and> distinct (pendingIds demoPinged)"
  using one_ping_per_node [OF demo_pinged] demo_pinged by (simp add: pendingIds_def demoPinged_def demo_simps)

theorem sweep_accounts_witness:
  "crawl_run demoProbe demoUp \<and> swUp (sweepCount (reg demoUp) 2000 120 3) \<le> swEverUp (sweepCount (reg demoUp) 2000 120 3)"
  using sweep_accounts [OF demo_up, of 2000] demo_up by (simp add: demoProbe_def)

theorem outage_detected_witness:
  "let st = newNodeState demoNode\<lparr>up := True, everUp := True, lastPong := 0\<rparr>
   in \<not> up (fst (missRun demoProbe st [(120, ''timeout''), (240, ''timeout''), (360, ''timeout'')]))"
  using outage_detected [of "newNodeState demoNode\<lparr>up := True, everUp := True, lastPong := 0\<rparr>"
      "[(120, ''timeout''), (240, ''timeout''), (360, ''timeout'')]" demoProbe]
  by (auto simp: demoProbe_def newNodeState_def Let_def split: prod.splits)

end
