(* ===== verification/NodeSession.thy ===== *)
theory NodeSession
  imports Assign Lookup
begin

text \<open>
  The node process (\<open>src/cmd/node/session.go\<close>): a node that churn takes down and brings up in place, and
  what it records over its sessions. Each critical section under the node's mutex is one function, and
  the goroutines of a session (dialer, ad watcher, peer watcher, sampler, lookups) interleave with the
  control calls as steps of a relation. What the p2p server and the discovery service answer are
  arguments of the steps.
\<close>

section \<open>Counters\<close>

record wireCounter =
  TxMsgs :: int
  TxBytes :: int
  RxMsgs :: int
  RxBytes :: int
  Timeouts :: int
  GhostTimeouts :: int
  OwnGhostTimeouts :: int

definition zeroCounter :: wireCounter where
  "zeroCounter = \<lparr>TxMsgs = 0, TxBytes = 0, RxMsgs = 0, RxBytes = 0, Timeouts = 0, GhostTimeouts = 0, OwnGhostTimeouts = 0\<rparr>"

definition addCounter :: "wireCounter \<Rightarrow> wireCounter \<Rightarrow> wireCounter" where
  "addCounter a b = \<lparr>TxMsgs = TxMsgs a + TxMsgs b, TxBytes = TxBytes a + TxBytes b, RxMsgs = RxMsgs a + RxMsgs b,
     RxBytes = RxBytes a + RxBytes b, Timeouts = Timeouts a + Timeouts b,
     GhostTimeouts = GhostTimeouts a + GhostTimeouts b, OwnGhostTimeouts = OwnGhostTimeouts a + OwnGhostTimeouts b\<rparr>"

type_synonym wireMap = "(string, wireCounter) gomap"

definition addWire :: "wireMap \<Rightarrow> wireMap \<Rightarrow> wireMap" where
  "addWire a b = fold (\<lambda>(k, v) out. mput k (addCounter (mget zeroCounter out k) v) out) b a"

record topicLoad =
  Regtopic :: wireCounter
  TopicQuery :: wireCounter

definition zeroLoad :: topicLoad where
  "zeroLoad = \<lparr>Regtopic = zeroCounter, TopicQuery = zeroCounter\<rparr>"

definition addLoad :: "(string, topicLoad) gomap \<Rightarrow> (string, topicLoad) gomap \<Rightarrow> (string, topicLoad) gomap" where
  "addLoad a b = fold (\<lambda>(k, v) out. let ld = mget zeroLoad out k in
     mput k \<lparr>Regtopic = addCounter (Regtopic ld) (Regtopic v), TopicQuery = addCounter (TopicQuery ld) (TopicQuery v)\<rparr> out) b a"

definition minCapable :: "int \<Rightarrow> int \<Rightarrow> int" where
  "minCapable a b = (if a < 0 \<or> (b \<ge> 0 \<and> b < a) then b else a)"

section \<open>The dialer's iterator\<close>

text \<open>
  \<open>lazyIter\<close>: \<open>Next\<close> runs a \<open>sync.Once\<close> that waits for the server or for \<open>Close\<close>, takes the mutex, looks once
  more whether the channel is closed and, still under the mutex, opens the inner iterator if it was not.
  \<open>Close\<close> runs once: it closes the channel without the mutex, reads the inner iterator under it and closes
  that after releasing it. The two program counters say how far each has come: \<open>Checked\<close> is a \<open>Next\<close> that
  holds the mutex and has found the channel open, and \<open>ItRead\<close> a \<open>Close\<close> that has read the inner iterator
  (\<open>toClose\<close>). \<open>opens\<close> and \<open>closes\<close> count the calls on the inner iterator.
\<close>

datatype oncePc = NotRun | Passed | Checked | OnceDone
datatype closePc = NotClosed | ChanClosed | ItRead | CloseDone

record lazyIter =
  ready :: bool
  oncePc :: oncePc
  closePc :: closePc
  inner :: bool
  toClose :: bool
  opens :: nat
  closes :: nat

definition newLazyIter :: lazyIter where
  "newLazyIter = \<lparr>ready = False, oncePc = NotRun, closePc = NotClosed, inner = False, toClose = False, opens = 0, closes = 0\<rparr>"

definition chanClosed :: "lazyIter \<Rightarrow> bool" where
  "chanClosed l \<longleftrightarrow> closePc l \<noteq> NotClosed"

text \<open>The first \<open>select\<close>: blocked until the server is ready or the channel is closed; a closed channel may win.\<close>

definition onceSelect :: "lazyIter \<Rightarrow> bool \<Rightarrow> lazyIter option" where
  "onceSelect l viaReady =
     (if viaReady then (if ready l then Some (l\<lparr>oncePc := Passed\<rparr>) else None)
      else if chanClosed l then Some (l\<lparr>oncePc := OnceDone\<rparr>) else None)"

text \<open>The second \<open>select\<close>, after taking the mutex, and the call that follows it.\<close>

definition onceCheck :: "lazyIter \<Rightarrow> lazyIter" where
  "onceCheck l = l\<lparr>oncePc := (if chanClosed l then OnceDone else Checked)\<rparr>"

definition onceOpen :: "lazyIter \<Rightarrow> lazyIter" where
  "onceOpen l = l\<lparr>oncePc := OnceDone, inner := True, opens := opens l + 1\<rparr>"

definition muHeld :: "lazyIter \<Rightarrow> bool" where
  "muHeld l \<longleftrightarrow> oncePc l = Checked"

definition closeRead :: "lazyIter \<Rightarrow> lazyIter" where
  "closeRead l = l\<lparr>closePc := ItRead, toClose := inner l\<rparr>"

definition closeInner :: "lazyIter \<Rightarrow> lazyIter" where
  "closeInner l = (if toClose l then l\<lparr>closePc := CloseDone, closes := closes l + 1\<rparr> else l\<lparr>closePc := CloseDone\<rparr>)"

inductive lazy_step :: "lazyIter \<Rightarrow> lazyIter \<Rightarrow> bool" where
  becomeReady: "lazy_step l (l\<lparr>ready := True\<rparr>)"
| nextSelect: "oncePc l = NotRun \<Longrightarrow> onceSelect l viaReady = Some l' \<Longrightarrow> lazy_step l l'"
| nextCheck: "oncePc l = Passed \<Longrightarrow> lazy_step l (onceCheck l)"
| nextOpen: "oncePc l = Checked \<Longrightarrow> lazy_step l (onceOpen l)"
| closeChan: "closePc l = NotClosed \<Longrightarrow> lazy_step l (l\<lparr>closePc := ChanClosed\<rparr>)"
| closeLock: "closePc l = ChanClosed \<Longrightarrow> \<not> muHeld l \<Longrightarrow> lazy_step l (closeRead l)"
| closeIt: "closePc l = ItRead \<Longrightarrow> lazy_step l (closeInner l)"

inductive lazy_run :: "lazyIter \<Rightarrow> bool" where
  lazyStart: "lazy_run newLazyIter"
| lazyStep: "lazy_run l \<Longrightarrow> lazy_step l l' \<Longrightarrow> lazy_run l'"

text \<open>\<open>Next\<close> after the once: the inner iterator's answer, \<open>False\<close> without one.\<close>

definition lazyNext :: "lazyIter \<Rightarrow> bool \<Rightarrow> bool" where
  "lazyNext l innerNext = (if inner l then innerNext else False)"

section \<open>Sessions and the node\<close>

record bucketStats =
  Registered :: int
  Target :: int
  Waiting :: int
  Standby :: int

record sample =
  smAtMs :: int
  smWire :: wireMap
  smCacheHeld :: int
  smCacheCap :: int
  smByTopic :: "(string, int) gomap"
  smRegBuckets :: "(int \<times> int \<times> int) list"

record ('id, 'op, 'st) session =
  startedAt :: gotime
  lostAt :: "gotime list"
  sFirstCapableMs :: int
  connStart :: "gotime option"
  connSeen :: "'id list"
  connFound :: "'id Found list"
  connFullMs :: int
  connSearch :: "'st option"
  adsFirst :: "(string, ('id, int) gomap) gomap"
  adsLast :: "(string, 'id list) gomap"
  adsExpiry :: "(string, ('id, int) gomap) gomap"
  staleMaxMs :: int
  adsSnapshotMs :: int
  bucketFullMs :: "int list option"
  regCompleteMs :: int
  bucketsLast :: "bucketStats list"
  lookups :: "'id Lookup list"
  outPeers :: int
  inPeers :: int
  adsHeld :: int
  wire :: wireMap
  ops :: "'op list"
  load :: "(string, topicLoad) gomap"
  ghostsInTable :: int
  tableSize :: int

definition newSession :: "gotime \<Rightarrow> ('id, 'op, 'st) session" where
  "newSession now = \<lparr>startedAt = now, lostAt = [], sFirstCapableMs = -1, connStart = None, connSeen = [], connFound = [],
     connFullMs = -1, connSearch = None, adsFirst = [], adsLast = [], adsExpiry = [], staleMaxMs = 0, adsSnapshotMs = 0,
     bucketFullMs = None, regCompleteMs = -1, bucketsLast = [], lookups = [], outPeers = 0, inPeers = 0, adsHeld = 0,
     wire = [], ops = [], load = [], ghostsInTable = 0, tableSize = 0\<rparr>"

datatype nodeErr = ErrUp | ErrDown | ErrStopped | StartFailed

record ('id, 'op, 'st) nodeProc =
  self :: 'id
  bootIDs :: "'id list"
  ghostIDs :: "'id list"
  searchModel :: string
  lookupOnly :: bool
  doneFlag :: bool
  drops :: int
  refills :: "int list"
  lookupsDone :: "'id Lookup list"
  opsDone :: "'op list"
  wireDone :: wireMap
  topicLoadDone :: "(string, topicLoad) gomap"
  samples :: "sample list"
  firstCapableMs :: int
  rcvbuf :: "int \<times> int"
  sessions :: "(int \<times> int) list"
  connDone :: "'id Found list"
  connLast :: "('id, 'op, 'st) session option"
  cur :: "('id, 'op, 'st) session option"
  lastSession :: "('id, 'op, 'st) session option"

definition newNode :: "'id \<Rightarrow> 'id list \<Rightarrow> 'id list \<Rightarrow> string \<Rightarrow> ('id, 'op, 'st) nodeProc" where
  "newNode i boots ghosts model =
     \<lparr>self = i, bootIDs = boots, ghostIDs = ghosts, searchModel = model,
      lookupOnly = (model = ''continuous'' \<or> model = ''scheduled''), doneFlag = False, drops = 0, refills = [],
      lookupsDone = [], opsDone = [], wireDone = [], topicLoadDone = [], samples = [], firstCapableMs = -1,
      rcvbuf = (0, 0), sessions = [], connDone = [], connLast = None, cur = None, lastSession = None\<rparr>"

definition UnixMilli :: "gotime \<Rightarrow> int" where
  "UnixMilli t = t div nsMilli"

section \<open>Control: up, down, finish\<close>

text \<open>\<open>up\<close>: the server's start fails or gives the measured socket buffers, read in the first session only.\<close>

definition up :: "('id, 'op, 'st) nodeProc \<Rightarrow> gotime \<Rightarrow> (int \<times> int) option \<Rightarrow> nodeErr option \<times> ('id, 'op, 'st) nodeProc" where
  "up n now startRes =
     (if doneFlag n then (Some ErrStopped, n)
      else if cur n \<noteq> None then (Some ErrUp, n)
      else case startRes of
             None \<Rightarrow> (Some StartFailed, n)
           | Some bufs \<Rightarrow> (None, n\<lparr>cur := Some (newSession now), rcvbuf := (if snd (rcvbuf n) = 0 then bufs else rcvbuf n)\<rparr>))"

text \<open>What only a running server can tell: its peers (whether each is inbound), the ads and the table.\<close>

definition snapshotLive :: "'id list \<Rightarrow> bool list \<Rightarrow> int \<Rightarrow> 'id list \<Rightarrow> ('id, 'op, 'st) session \<Rightarrow> ('id, 'op, 'st) session" where
  "snapshotLive ghosts peerInbound held table s =
     s\<lparr>outPeers := int (length (filter (\<lambda>b. \<not> b) peerInbound)), inPeers := int (length (filter (\<lambda>b. b) peerInbound)),
       adsHeld := held, ghostsInTable := int (length (filter (\<lambda>i. i \<in> set ghosts) table)), tableSize := int (length table)\<rparr>"

definition snapshotCounters :: "wireMap \<Rightarrow> 'op list \<Rightarrow> (string, topicLoad) gomap \<Rightarrow> 'st option
    \<Rightarrow> ('id, 'op, 'st) session \<Rightarrow> ('id, 'op, 'st) session" where
  "snapshotCounters w os ld search s =
     s\<lparr>wire := w, ops := os, load := ld, connSearch := (if connStart s = None then None else search)\<rparr>"

text \<open>The dialer's finds with absolute times.\<close>

definition absFound :: "('id, 'op, 'st) session \<Rightarrow> 'id Found list" where
  "absFound s = (let start = UnixMilli (the (connStart s)) in map (\<lambda>f. f\<lparr>fAtMs := start + fAtMs f\<rparr>) (connFound s))"

definition fold_session :: "('id, 'op, 'st) session \<Rightarrow> gotime \<Rightarrow> ('id, 'op, 'st) nodeProc \<Rightarrow> ('id, 'op, 'st) nodeProc" where
  "fold_session s end n =
     (let n = n\<lparr>lookupsDone := lookupsDone n @ lookups s, opsDone := opsDone n @ ops s, wireDone := addWire (wireDone n) (wire s),
                topicLoadDone := addLoad (topicLoadDone n) (load s), firstCapableMs := minCapable (firstCapableMs n) (sFirstCapableMs s)\<rparr>;
          n = (if connStart s \<noteq> None then n\<lparr>connDone := connDone n @ absFound s, connLast := Some s\<rparr> else n)
      in n\<lparr>sessions := sessions n @ [(UnixMilli (startedAt s), UnixMilli end)], lastSession := Some s, cur := None\<rparr>)"

section \<open>What a session records\<close>

text \<open>The dialer opens the search, and is handed a node.\<close>

definition connOpened :: "gotime \<Rightarrow> ('id, 'op, 'st) session \<Rightarrow> ('id, 'op, 'st) session" where
  "connOpened now s = s\<lparr>connStart := Some now\<rparr>"

definition connHanded :: "'id \<Rightarrow> gotime \<Rightarrow> ('id, 'op, 'st) session \<Rightarrow> ('id, 'op, 'st) session" where
  "connHanded i now s =
     (if i \<in> set (connSeen s) then s
      else s\<lparr>connSeen := connSeen s @ [i],
             connFound := connFound s @ [\<lparr>fID = i, fAtMs = Milliseconds (now - the (connStart s))\<rparr>]\<rparr>)"

text \<open>Lookups: the scheduled model lists them, the continuous one reports the same lookup again.\<close>

definition lookupReport :: "string \<Rightarrow> 'id Lookup \<Rightarrow> ('id, 'op, 'st) session \<Rightarrow> ('id, 'op, 'st) session" where
  "lookupReport model l s = (if model = ''scheduled'' then s\<lparr>lookups := lookups s @ [l]\<rparr> else s\<lparr>lookups := [l]\<rparr>)"

text \<open>
  The peer watcher. \<open>outbound\<close> is the number of outbound peers when the event is handled.
\<close>

datatype peerEvent = PeerDrop | PeerAdd nat

definition peerEvent_step :: "int \<Rightarrow> peerEvent \<Rightarrow> gotime \<Rightarrow> ('id, 'op, 'st) nodeProc \<Rightarrow> ('id, 'op, 'st) session
    \<Rightarrow> ('id, 'op, 'st) nodeProc \<times> ('id, 'op, 'st) session" where
  "peerEvent_step maxDialed ev now n s =
     (case ev of
        PeerDrop \<Rightarrow> (n\<lparr>drops := drops n + 1\<rparr>, s\<lparr>lostAt := lostAt s @ [now]\<rparr>)
      | PeerAdd outbound \<Rightarrow>
          let (n, s) = (case lostAt s of [] \<Rightarrow> (n, s)
                | t # ts \<Rightarrow> (n\<lparr>refills := refills n @ [Milliseconds (now - t)]\<rparr>, s\<lparr>lostAt := ts\<rparr>))
          in (n, if \<not> lookupOnly n \<and> connFullMs s < 0 \<and> connStart s \<noteq> None \<and> int outbound \<ge> maxDialed
                 then s\<lparr>connFullMs := Milliseconds (now - the (connStart s))\<rparr> else s))"

text \<open>A record of the table: its identity, whether it is a ghost and whether it supports topic discovery.\<close>

definition hasCapable :: "'id list \<Rightarrow> ('id \<times> bool \<times> bool) list \<Rightarrow> bool" where
  "hasCapable boots = list_ex (\<lambda>(i, ghost, capable). i \<notin> set boots \<and> \<not> ghost \<and> capable)"

definition capableTick :: "bool \<Rightarrow> gotime \<Rightarrow> ('id, 'op, 'st) session \<Rightarrow> ('id, 'op, 'st) session" where
  "capableTick capable now s =
     (if sFirstCapableMs s < 0 \<and> capable then s\<lparr>sFirstCapableMs := Milliseconds (now - startedAt s)\<rparr> else s)"

text \<open>
  The registration buckets: \<open>None\<close> is an index out of range, when a later table has more buckets than
  the first one.
\<close>

fun markFull :: "int \<Rightarrow> nat \<Rightarrow> bucketStats list \<Rightarrow> int list \<Rightarrow> int list option" where
  "markFull now i [] full = Some full"
| "markFull now i (b # bs) full =
     (if Registered b \<ge> Target b
      then if i < length full
           then markFull now (i + 1) bs (if full ! i < 0 then full[i := now] else full)
           else None
      else markFull now (i + 1) bs full)"

definition regComplete :: "bucketStats list \<Rightarrow> bool" where
  "regComplete = list_all (\<lambda>b. \<not> (Registered b < Target b \<and> (Waiting b > 0 \<or> Standby b > 0)))"

definition bucketTick :: "int \<Rightarrow> bucketStats list \<Rightarrow> ('id, 'op, 'st) session \<Rightarrow> ('id, 'op, 'st) session option" where
  "bucketTick now bs s =
     (case markFull now 0 bs (case bucketFullMs s of None \<Rightarrow> replicate (length bs) (-1) | Some full \<Rightarrow> full) of
        None \<Rightarrow> None
      | Some full \<Rightarrow>
          Some (s\<lparr>bucketFullMs := Some full,
                  regCompleteMs := (if regComplete bs \<and> regCompleteMs s < 0 then now else regCompleteMs s),
                  bucketsLast := bs\<rparr>))"

text \<open>
  The ads the node holds: per topic its count in the cache and, when it is not zero, the local ads with
  the time until they expire. The result is the last ads, their expiry, the longest time an expired ad
  was still held and every topic and advertiser seen.
\<close>

fun adsOfTopic :: "int \<Rightarrow> string \<Rightarrow> ('id \<times> duration) list
    \<Rightarrow> 'id list \<times> ('id, int) gomap \<times> int \<times> (string \<times> 'id) list
    \<Rightarrow> 'id list \<times> ('id, int) gomap \<times> int \<times> (string \<times> 'id) list" where
  "adsOfTopic now tp [] acc = acc"
| "adsOfTopic now tp ((i, expires) # ads) (lst, expiry, stale, sn) =
     (if expires < 0 then adsOfTopic now tp ads (lst, expiry, max stale (Milliseconds (- expires)), sn)
      else adsOfTopic now tp ads (lst @ [i], mput i (now + Milliseconds expires) expiry, stale, sn @ [(tp, i)]))"

fun adsScan :: "int \<Rightarrow> (string \<times> int \<times> ('id \<times> duration) list) list
    \<Rightarrow> (string, 'id list) gomap \<times> (string, ('id, int) gomap) gomap \<times> int \<times> (string \<times> 'id) list
    \<Rightarrow> (string, 'id list) gomap \<times> (string, ('id, int) gomap) gomap \<times> int \<times> (string \<times> 'id) list" where
  "adsScan now [] acc = acc"
| "adsScan now ((tp, c, ads) # tps) (lst, expiry, stale, sn) =
     (if c = 0 then adsScan now tps (lst, expiry, stale, sn)
      else case adsOfTopic now tp ads ([], [], stale, sn) of
             (l, e, stale', sn') \<Rightarrow>
               adsScan now tps (if l = [] then lst else mput tp l lst, mput tp e expiry, stale', sn'))"

definition seeAd :: "int \<Rightarrow> string \<times> 'id \<Rightarrow> (string, ('id, int) gomap) gomap \<Rightarrow> (string, ('id, int) gomap) gomap" where
  "seeAd now = (\<lambda>(tp, i) first.
     let m = mget [] first tp in mput tp (if mhas m i then m else mput i now m) first)"

definition adsTick :: "int \<Rightarrow> (string \<times> int \<times> ('id \<times> duration) list) list \<Rightarrow> ('id, 'op, 'st) session \<Rightarrow> ('id, 'op, 'st) session" where
  "adsTick now byTopic s =
     (case adsScan now byTopic ([], [], 0, []) of
        (lst, expiry, stale, sn) \<Rightarrow>
          s\<lparr>adsFirst := fold (seeAd now) sn (adsFirst s), adsLast := lst, adsExpiry := expiry, adsSnapshotMs := now,
            staleMaxMs := max (staleMaxMs s) stale\<rparr>)"

text \<open>The sampler: the counters of the live server on top of the earlier sessions' totals.\<close>

definition addSample :: "sample \<Rightarrow> ('id, 'op, 'st) nodeProc \<Rightarrow> ('id, 'op, 'st) nodeProc" where
  "addSample smp n = n\<lparr>samples := samples n @ [smp\<lparr>smWire := addWire (wireDone n) (smWire smp)\<rparr>]\<rparr>"

definition takeSample :: "int \<Rightarrow> wireMap \<Rightarrow> int \<Rightarrow> int \<Rightarrow> (string, int) gomap \<Rightarrow> ('id, 'op, 'st) session
    \<Rightarrow> ('id, 'op, 'st) nodeProc \<Rightarrow> ('id, 'op, 'st) nodeProc" where
  "takeSample now w held cap byTopic s n =
     addSample \<lparr>smAtMs = now, smWire = w, smCacheHeld = held, smCacheCap = cap, smByTopic = byTopic,
                smRegBuckets = map (\<lambda>b. (Registered b, Waiting b, Standby b)) (bucketsLast s)\<rparr> n"

section \<open>Trace and status\<close>

record ('id, 'op, 'st) trace =
  trId :: 'id
  trPeerDrops :: int
  trRefillMs :: "int list"
  trLookups :: "'id Lookup list"
  trFirstCapableMs :: int
  trWire :: "wireMap option"
  trSamples :: "sample list"
  trOps :: "'op list"
  trTopicLoad :: "(string, topicLoad) gomap"
  trConn :: "(int \<times> 'id Found list \<times> int \<times> 'st option) option"
  trSessions :: "(int \<times> int) list"
  trOutbound :: int
  trInbound :: int
  trAdsHeld :: int
  trGhostsAssigned :: int
  trRcvbuf :: "int \<times> int"
  trGhostsInTable :: int
  trTableSize :: int
  trAdsFirstSeen :: "(string, ('id, int) gomap) gomap"
  trAdsFinal :: "(string, 'id list) gomap"
  trAdsExpiry :: "(string, ('id, int) gomap) gomap"
  trAdsSnapshotMs :: int
  trStaleAdMaxMs :: int
  trRegBucketFull :: "int list"
  trRegCompleteMs :: int
  trRegBuckets :: "bucketStats list"

definition connRecord :: "'id Found list \<Rightarrow> ('id, 'op, 'st) session \<Rightarrow> int \<times> 'id Found list \<times> int \<times> 'st option" where
  "connRecord fs src = (let start = UnixMilli (the (connStart src))
     in (start, map (\<lambda>f. f\<lparr>fAtMs := fAtMs f - start\<rparr>) fs, connFullMs src, connSearch src))"

definition trace_of :: "('id, 'op, 'st) nodeProc \<Rightarrow> gotime \<Rightarrow> ('id, 'op, 'st) trace" where
  "trace_of n now =
     (let w0 = addWire (wireDone n) []; l0 = addLoad (topicLoadDone n) [];
          (w, ld, lks, os, capable, fs, src, spans, s) =
            (case cur n of
               None \<Rightarrow> (w0, l0, lookupsDone n, opsDone n, firstCapableMs n, connDone n, connLast n, sessions n, lastSession n)
             | Some c \<Rightarrow>
                 (addWire w0 (wire c), addLoad l0 (load c), lookupsDone n @ lookups c, opsDone n @ ops c,
                  minCapable (firstCapableMs n) (sFirstCapableMs c),
                  if connStart c \<noteq> None then connDone n @ absFound c else connDone n,
                  if connStart c \<noteq> None then Some c else connLast n,
                  sessions n @ [(UnixMilli (startedAt c), UnixMilli now)], Some c))
      in \<lparr>trId = self n, trPeerDrops = drops n, trRefillMs = refills n, trLookups = lks, trFirstCapableMs = capable,
          trWire = (if w = [] then None else Some w), trSamples = samples n, trOps = os, trTopicLoad = ld,
          trConn = (case src of None \<Rightarrow> None | Some c \<Rightarrow> if lookupOnly n then None else Some (connRecord fs c)),
          trSessions = spans,
          trOutbound = (case s of None \<Rightarrow> 0 | Some s \<Rightarrow> outPeers s), trInbound = (case s of None \<Rightarrow> 0 | Some s \<Rightarrow> inPeers s),
          trAdsHeld = (case s of None \<Rightarrow> 0 | Some s \<Rightarrow> adsHeld s), trGhostsAssigned = int (length (ghostIDs n)),
          trRcvbuf = rcvbuf n, trGhostsInTable = (case s of None \<Rightarrow> 0 | Some s \<Rightarrow> ghostsInTable s),
          trTableSize = (case s of None \<Rightarrow> 0 | Some s \<Rightarrow> tableSize s),
          trAdsFirstSeen = (case s of None \<Rightarrow> [] | Some s \<Rightarrow> adsFirst s),
          trAdsFinal = (case s of None \<Rightarrow> [] | Some s \<Rightarrow> adsLast s),
          trAdsExpiry = (case s of None \<Rightarrow> [] | Some s \<Rightarrow> adsExpiry s),
          trAdsSnapshotMs = (case s of None \<Rightarrow> 0 | Some s \<Rightarrow> adsSnapshotMs s),
          trStaleAdMaxMs = (case s of None \<Rightarrow> 0 | Some s \<Rightarrow> staleMaxMs s),
          trRegBucketFull = (case s of None \<Rightarrow> [] | Some s \<Rightarrow> case bucketFullMs s of None \<Rightarrow> [] | Some b \<Rightarrow> b),
          trRegCompleteMs = (case s of None \<Rightarrow> -1 | Some s \<Rightarrow> regCompleteMs s),
          trRegBuckets = (case s of None \<Rightarrow> [] | Some s \<Rightarrow> bucketsLast s)\<rparr>)"

record status =
  stUp :: bool
  stSessions :: nat
  stPeers :: nat
  stOutbound :: nat
  stInbound :: nat
  stTable :: nat
  stAdsHeld :: nat
  stLookups :: nat
  stRefills :: nat

definition status_of :: "('id, 'op, 'st) nodeProc \<Rightarrow> bool list \<Rightarrow> nat \<Rightarrow> nat \<Rightarrow> status" where
  "status_of n peerInbound table held =
     (let lks = length (lookupsDone n) + (case cur n of None \<Rightarrow> 0 | Some s \<Rightarrow> length (lookups s));
          outb = length (filter (\<lambda>b. \<not> b) peerInbound); inb = length (filter (\<lambda>b. b) peerInbound)
      in if cur n = None
         then \<lparr>stUp = False, stSessions = length (sessions n), stPeers = 0, stOutbound = 0, stInbound = 0, stTable = 0,
               stAdsHeld = 0, stLookups = lks, stRefills = length (refills n)\<rparr>
         else \<lparr>stUp = True, stSessions = length (sessions n) + 1, stPeers = outb + inb, stOutbound = outb, stInbound = inb,
               stTable = table, stAdsHeld = held, stLookups = lks, stRefills = length (refills n)\<rparr>)"

section \<open>The process as a step relation\<close>

text \<open>
  \<open>ctl\<close> is how far the call that holds the control mutex has come. \<open>reading\<close> is the last value of the
  live server's counters, which only grow and start from zero with every server. \<open>closed\<close> is the history
  of sessions with their ends, and \<open>written\<close> the trace written at the end.
\<close>

datatype ctlState = Free | Stopping | Finishing | Snapped

record ('id, 'op, 'st) proc =
  nd :: "('id, 'op, 'st) nodeProc"
  ctl :: ctlState
  clock :: gotime
  reading :: wireMap
  closed :: "(('id, 'op, 'st) session \<times> gotime) list"
  written :: "('id, 'op, 'st) trace option"

definition counterLe :: "wireCounter \<Rightarrow> wireCounter \<Rightarrow> bool" where
  "counterLe a b \<longleftrightarrow> TxMsgs a \<le> TxMsgs b \<and> TxBytes a \<le> TxBytes b \<and> RxMsgs a \<le> RxMsgs b \<and> RxBytes a \<le> RxBytes b
     \<and> Timeouts a \<le> Timeouts b \<and> GhostTimeouts a \<le> GhostTimeouts b \<and> OwnGhostTimeouts a \<le> OwnGhostTimeouts b"

definition wireLe :: "wireMap \<Rightarrow> wireMap \<Rightarrow> bool" where
  "wireLe a b \<longleftrightarrow> (\<forall>k. counterLe (mget zeroCounter a k) (mget zeroCounter b k))"

text \<open>A reading of the live server's counters.\<close>

definition reads :: "('id, 'op, 'st) proc \<Rightarrow> wireMap \<Rightarrow> bool" where
  "reads p w \<longleftrightarrow> mapOk w \<and> wireLe (reading p) w"

definition setCur :: "('id, 'op, 'st) session \<Rightarrow> ('id, 'op, 'st) proc \<Rightarrow> ('id, 'op, 'st) proc" where
  "setCur s p = p\<lparr>nd := nd p\<lparr>cur := Some s\<rparr>\<rparr>"

text \<open>The events of a running session, at time \<open>now\<close>: the session after it and the process with its other changes.\<close>

inductive session_event :: "gotime \<Rightarrow> ('id, 'op, 'st) proc \<Rightarrow> ('id, 'op, 'st) session \<Rightarrow> ('id, 'op, 'st) proc \<Rightarrow> ('id, 'op, 'st) session \<Rightarrow> bool" for now where
  openSearch: "connStart s = None \<Longrightarrow> \<not> lookupOnly (nd p) \<Longrightarrow> session_event now p s p (connOpened now s)"
| handOver: "connStart s \<noteq> None \<Longrightarrow> session_event now p s p (connHanded i now s)"
| lookup: "lookupOnly (nd p) \<Longrightarrow> session_event now p s p (lookupReport (searchModel (nd p)) l s)"
| peer: "peerEvent_step maxDialed ev now (nd p) s = (n, s') \<Longrightarrow> session_event now p s (p\<lparr>nd := n\<rparr>) s'"
| capable: "session_event now p s p (capableTick (hasCapable (bootIDs (nd p)) table) now s)"
| buckets: "bucketTick (UnixMilli now) bs s = Some s' \<Longrightarrow> session_event now p s p s'"
| ads: "session_event now p s p (adsTick (UnixMilli now) byTopic s)"
| samplers: "reads p w \<Longrightarrow> session_event now p s (p\<lparr>nd := takeSample (UnixMilli now) w held cap byTopic s (nd p), reading := w\<rparr>) s"

inductive node_step :: "('id, 'op, 'st) proc \<Rightarrow> ('id, 'op, 'st) proc \<Rightarrow> bool" where
  comeUp: "ctl p = Free \<Longrightarrow> clock p \<le> now \<Longrightarrow> up (nd p) now res = (None, n) \<Longrightarrow>
    node_step p (p\<lparr>nd := n, clock := now, reading := []\<rparr>)"
| goDown: "ctl p = Free \<Longrightarrow> cur (nd p) = Some s \<Longrightarrow>
    node_step p (setCur (snapshotLive (ghostIDs (nd p)) prs held table s) p\<lparr>ctl := Stopping\<rparr>)"
| stopped: "ctl p = Stopping \<Longrightarrow> cur (nd p) = Some s \<Longrightarrow> clock p \<le> now \<Longrightarrow> reads p w \<Longrightarrow>
    s' = snapshotCounters w os ld search s \<Longrightarrow>
    node_step p (p\<lparr>nd := fold_session s' now (nd p), ctl := Free, clock := now, closed := closed p @ [(s', now)]\<rparr>)"
| finishing: "ctl p = Free \<Longrightarrow> \<not> doneFlag (nd p) \<Longrightarrow> node_step p (p\<lparr>nd := nd p\<lparr>doneFlag := True\<rparr>, ctl := Finishing\<rparr>)"
| snapDown: "ctl p = Finishing \<Longrightarrow> cur (nd p) = None \<Longrightarrow> node_step p (p\<lparr>ctl := Snapped\<rparr>)"
| snapUp: "ctl p = Finishing \<Longrightarrow> cur (nd p) = Some s \<Longrightarrow> reads p w \<Longrightarrow>
    node_step p (setCur (snapshotCounters w os ld search (snapshotLive (ghostIDs (nd p)) prs held table s)) p
      \<lparr>ctl := Snapped, reading := w\<rparr>)"
| writeDown: "ctl p = Snapped \<Longrightarrow> cur (nd p) = None \<Longrightarrow> clock p \<le> now \<Longrightarrow>
    node_step p (p\<lparr>written := Some (trace_of (nd p) now), clock := now, ctl := Free\<rparr>)"
| writeUp: "ctl p = Snapped \<Longrightarrow> cur (nd p) = Some s \<Longrightarrow> clock p \<le> now \<Longrightarrow>
    node_step p (setCur (snapshotLive (ghostIDs (nd p)) prs held table s) p
      \<lparr>written := Some (trace_of (nd p) now), clock := now, ctl := Stopping\<rparr>)"
| event: "cur (nd p) = Some s \<Longrightarrow> clock p \<le> now \<Longrightarrow> session_event now p s p' s' \<Longrightarrow>
    node_step p (setCur s' p'\<lparr>clock := now\<rparr>)"

definition newProc :: "('id, 'op, 'st) nodeProc \<Rightarrow> gotime \<Rightarrow> ('id, 'op, 'st) proc" where
  "newProc n t = \<lparr>nd = n, ctl = Free, clock = t, reading = [], closed = [], written = None\<rparr>"

inductive node_run :: "('id, 'op, 'st) proc \<Rightarrow> bool" where
  boot: "node_run (newProc (newNode i boots ghosts model) t)"
| step: "node_run p \<Longrightarrow> node_step p p' \<Longrightarrow> node_run p'"

section \<open>Counters add up\<close>

lemma addCounter_zero [simp]: "addCounter zeroCounter c = c" "addCounter c zeroCounter = c"
  by (cases c; simp add: addCounter_def zeroCounter_def)+

lemma addCounter_assoc: "addCounter (addCounter a b) c = addCounter a (addCounter b c)"
  by (simp add: addCounter_def)

lemma mget_addWire: "mapOk b \<Longrightarrow> mget zeroCounter (addWire a b) k = addCounter (mget zeroCounter a k) (mget zeroCounter b k)"
proof (induction b arbitrary: a)
  case (Cons x b)
  obtain k' v where x: "x = (k', v)" by force
  with Cons.prems have fresh: "mget zeroCounter b k' = zeroCounter" and ok: "mapOk b"
    by (auto simp: mapOk_def mhas_def intro!: mget_missing)
  have "mget zeroCounter (addWire a (x # b)) k
      = mget zeroCounter (addWire (mput k' (addCounter (mget zeroCounter a k') v) a) b) k"
    by (simp add: addWire_def x)
  also have "\<dots> = addCounter (if k = k' then addCounter (mget zeroCounter a k') v else mget zeroCounter a k) (mget zeroCounter b k)"
    by (simp add: Cons.IH [OF ok])
  finally show ?case using fresh by (auto simp: x mget_def)
qed (simp add: addWire_def)

lemma addWire_Nil [simp]: "addWire a [] = a"
  by (simp add: addWire_def)

lemma addLoad_Nil [simp]: "addLoad a [] = a"
  by (simp add: addLoad_def)

definition sumCounters :: "wireCounter list \<Rightarrow> wireCounter" where
  "sumCounters = foldl addCounter zeroCounter"

lemma foldl_addCounter: "foldl addCounter c cs = addCounter c (foldl addCounter zeroCounter cs)"
proof (induction cs arbitrary: c)
  case (Cons d cs)
  have "foldl addCounter (addCounter c d) cs = addCounter (addCounter c d) (foldl addCounter zeroCounter cs)" by (rule Cons.IH)
  also have "\<dots> = addCounter c (addCounter d (foldl addCounter zeroCounter cs))" by (rule addCounter_assoc)
  also have "addCounter d (foldl addCounter zeroCounter cs) = foldl addCounter d cs" by (rule Cons.IH [symmetric])
  finally show ?case by simp
qed simp

lemma sumCounters_simps [simp]: "sumCounters [] = zeroCounter" "sumCounters (c # cs) = addCounter c (sumCounters cs)"
  by (simp_all add: sumCounters_def) (rule foldl_addCounter)

lemma mget_wires:
  "\<forall>s \<in> set ss. mapOk (wire s) \<Longrightarrow>
    mget zeroCounter (foldl (\<lambda>w s. addWire w (wire s)) w0 ss) k
      = addCounter (mget zeroCounter w0 k) (sumCounters (map (\<lambda>s. mget zeroCounter (wire s) k) ss))"
  by (induction ss arbitrary: w0) (simp_all add: mget_addWire addCounter_assoc)

text \<open>The smallest time that is not negative, \<open>-1\<close> when there is none.\<close>

definition leastNonneg :: "int \<Rightarrow> int list \<Rightarrow> bool" where
  "leastNonneg r cs \<longleftrightarrow> (if \<exists>c \<in> set cs. 0 \<le> c then 0 \<le> r \<and> r \<in> set cs \<and> (\<forall>c \<in> set cs. 0 \<le> c \<longrightarrow> r \<le> c) else r = -1)"

lemma minCapable_least:
  "\<forall>c \<in> set (a # cs). -1 \<le> c \<Longrightarrow> leastNonneg (foldl minCapable a cs) (a # cs)"
proof (induction cs arbitrary: a)
  case Nil
  then show ?case by (auto simp: leastNonneg_def)
next
  case (Cons c cs)
  have "leastNonneg (foldl minCapable (minCapable a c) cs) (minCapable a c # cs)"
    using Cons.prems by (intro Cons.IH) (auto simp: minCapable_def)
  then have ih: "if \<exists>x \<in> set (minCapable a c # cs). 0 \<le> x
      then 0 \<le> foldl minCapable a (c # cs) \<and> foldl minCapable a (c # cs) \<in> set (minCapable a c # cs)
           \<and> (\<forall>x \<in> set (minCapable a c # cs). 0 \<le> x \<longrightarrow> foldl minCapable a (c # cs) \<le> x)
      else foldl minCapable a (c # cs) = -1"
    by (simp only: leastNonneg_def foldl.simps)
  define r where "r = foldl minCapable a (c # cs)"
  note ih = ih [folded r_def]
  consider "minCapable a c = a" "c < 0 \<or> a \<le> c" "0 \<le> a" | "minCapable a c = c" "a < 0 \<or> c \<le> a" "0 \<le> c" | "minCapable a c = c" "a < 0" "c < 0"
    by (cases "a < 0"; cases "0 \<le> c"; cases "c < a"; force simp: minCapable_def)
  then have "leastNonneg r (a # c # cs)"
  proof cases
    case 1
    with ih have r: "0 \<le> r" "r \<in> set (a # cs)" "\<forall>x \<in> set (a # cs). 0 \<le> x \<longrightarrow> r \<le> x" by auto
    then have "0 \<le> c \<Longrightarrow> r \<le> c" using 1 by force
    with r 1 show ?thesis by (auto simp: leastNonneg_def)
  next
    case 2
    with ih have r: "0 \<le> r" "r \<in> set (c # cs)" "\<forall>x \<in> set (c # cs). 0 \<le> x \<longrightarrow> r \<le> x" by auto
    then have "0 \<le> a \<Longrightarrow> r \<le> a" using 2 by force
    with r 2 show ?thesis by (auto simp: leastNonneg_def)
  next
    case 3
    then have "(\<exists>x \<in> set (minCapable a c # cs). 0 \<le> x) \<longleftrightarrow> (\<exists>x \<in> set cs. 0 \<le> x)"
      and "(\<exists>x \<in> set (a # c # cs). 0 \<le> x) \<longleftrightarrow> (\<exists>x \<in> set cs. 0 \<le> x)" by auto
    with ih 3(2,3) show ?thesis unfolding leastNonneg_def by (cases "\<exists>x \<in> set cs. 0 \<le> x") (simp_all add: 3(1), force)
  qed
  then show ?case by (simp only: r_def)
qed

section \<open>The record against the history of sessions\<close>

definition lastOpt :: "'a list \<Rightarrow> 'a option" where
  "lastOpt xs = (if xs = [] then None else Some (last xs))"

definition hasConn :: "('id, 'op, 'st) session \<Rightarrow> bool" where
  "hasConn s \<longleftrightarrow> connStart s \<noteq> None"

definition spanOf :: "('id, 'op, 'st) session \<times> gotime \<Rightarrow> int \<times> int" where
  "spanOf = (\<lambda>(s, end). (UnixMilli (startedAt s), UnixMilli end))"

text \<open>What the node keeps of its closed sessions is what the sessions recorded, put together.\<close>

definition histOk :: "('id, 'op, 'st) nodeProc \<Rightarrow> (('id, 'op, 'st) session \<times> gotime) list \<Rightarrow> bool" where
  "histOk n cl \<longleftrightarrow> (let ss = map fst cl
     in lookupsDone n = concat (map lookups ss) \<and> opsDone n = concat (map ops ss)
      \<and> wireDone n = foldl (\<lambda>w s. addWire w (wire s)) [] ss
      \<and> topicLoadDone n = foldl (\<lambda>l s. addLoad l (load s)) [] ss
      \<and> firstCapableMs n = foldl minCapable (-1) (map sFirstCapableMs ss)
      \<and> connDone n = concat (map absFound (filter hasConn ss)) \<and> connLast n = lastOpt (filter hasConn ss)
      \<and> lastSession n = lastOpt ss \<and> sessions n = map spanOf cl)"

lemma histOk_cur [simp]: "histOk (n\<lparr>cur := x\<rparr>) cl = histOk n cl"
  by (simp add: histOk_def)

lemma histOk_fold: "histOk n cl \<Longrightarrow> histOk (fold_session s end n) (cl @ [(s, end)])"
  by (auto simp: histOk_def fold_session_def Let_def lastOpt_def hasConn_def spanOf_def)

text \<open>A session, from its start to the time given.\<close>

definition sessionOk :: "gotime \<Rightarrow> ('id, 'op, 'st) session \<Rightarrow> bool" where
  "sessionOk now s \<longleftrightarrow> startedAt s \<le> now \<and> mapOk (wire s) \<and> -1 \<le> sFirstCapableMs s
     \<and> connSeen s = map fID (connFound s) \<and> distinct (connSeen s)"

lemma Milliseconds_ge: "0 \<le> d \<Longrightarrow> 0 \<le> Milliseconds d"
  by (auto simp: Milliseconds_def nsMilli_def)

lemma session_event_frame:
  "session_event now p s p' s' \<Longrightarrow> ctl p' = ctl p \<and> clock p' = clock p \<and> closed p' = closed p \<and> written p' = written p
     \<and> histOk (nd p') cl = histOk (nd p) cl \<and> startedAt s' = startedAt s \<and> wire s' = wire s
     \<and> lookupOnly (nd p') = lookupOnly (nd p) \<and> doneFlag (nd p') = doneFlag (nd p) \<and> wireDone (nd p') = wireDone (nd p)
     \<and> cur (nd p') = cur (nd p)"
  by (induction rule: session_event.induct)
    (auto simp: connOpened_def connHanded_def lookupReport_def peerEvent_step_def capableTick_def bucketTick_def adsTick_def
      takeSample_def addSample_def Let_def histOk_def split: peerEvent.splits list.splits option.splits prod.splits if_splits)

lemma sessionOk_event:
  "session_event now p s p' s' \<Longrightarrow> sessionOk c s \<Longrightarrow> c \<le> now \<Longrightarrow> sessionOk now s'"
proof (induction rule: session_event.induct)
  case (peer maxDialed ev p s n s')
  then show ?case
    by (auto simp: sessionOk_def peerEvent_step_def Let_def split: peerEvent.splits list.splits if_splits)
qed (auto simp: sessionOk_def connOpened_def connHanded_def lookupReport_def capableTick_def bucketTick_def adsTick_def
      intro: order.trans [OF _ Milliseconds_ge] split: option.splits prod.splits)

lemma counterLe_refl [simp]: "counterLe a a"
  by (simp add: counterLe_def)

lemma counterLe_trans: "counterLe a b \<Longrightarrow> counterLe b c \<Longrightarrow> counterLe a c"
  unfolding counterLe_def by linarith

lemma counterLe_add: "counterLe b c \<Longrightarrow> counterLe (addCounter a b) (addCounter a c)"
  by (simp add: counterLe_def addCounter_def)

lemma wireLe_refl [simp]: "wireLe a a"
  by (simp add: wireLe_def)

lemma wireLe_trans: "wireLe a b \<Longrightarrow> wireLe b c \<Longrightarrow> wireLe a c"
  unfolding wireLe_def using counterLe_trans by blast

lemma wireLe_addWire: "mapOk b \<Longrightarrow> mapOk c \<Longrightarrow> wireLe b c \<Longrightarrow> wireLe (addWire a b) (addWire a c)"
  by (simp add: wireLe_def mget_addWire counterLe_add)

section \<open>Invariant of a run\<close>

text \<open>The last totals a sample can have seen: the closed sessions' and the reading of the live server.\<close>

definition totals :: "('id, 'op, 'st) proc \<Rightarrow> wireMap" where
  "totals p = (if cur (nd p) = None then wireDone (nd p) else addWire (wireDone (nd p)) (reading p))"

definition samplesOk :: "('id, 'op, 'st) proc \<Rightarrow> bool" where
  "samplesOk p \<longleftrightarrow> mapOk (reading p) \<and> sorted_wrt wireLe (map smWire (samples (nd p)))
     \<and> (\<forall>smp \<in> set (samples (nd p)). wireLe (smWire smp) (totals p))"

definition closedOk :: "('id, 'op, 'st) proc \<Rightarrow> bool" where
  "closedOk p \<longleftrightarrow> sorted_wrt (\<lambda>(s, e) (s', e'). e \<le> startedAt s') (closed p)
     \<and> (\<forall>(s, e) \<in> set (closed p). sessionOk e s \<and> e \<le> clock p
         \<and> (case cur (nd p) of None \<Rightarrow> True | Some c \<Rightarrow> e \<le> startedAt c))
     \<and> (case cur (nd p) of None \<Rightarrow> True | Some c \<Rightarrow> sessionOk (clock p) c)"

definition ctlOk :: "('id, 'op, 'st) proc \<Rightarrow> bool" where
  "ctlOk p \<longleftrightarrow> (ctl p = Stopping \<longrightarrow> cur (nd p) \<noteq> None) \<and> (ctl p \<in> {Finishing, Snapped} \<longrightarrow> doneFlag (nd p))
     \<and> (doneFlag (nd p) \<longrightarrow> (ctl p = Free \<longrightarrow> cur (nd p) = None) \<and> (ctl p \<in> {Free, Stopping} \<longrightarrow> written p \<noteq> None))"

definition procOk :: "('id, 'op, 'st) proc \<Rightarrow> bool" where
  "procOk p \<longleftrightarrow> histOk (nd p) (closed p) \<and> closedOk p \<and> ctlOk p \<and> samplesOk p"

lemma sessionOk_mono: "sessionOk t s \<Longrightarrow> t \<le> t' \<Longrightarrow> sessionOk t' s"
  by (auto simp: sessionOk_def)

lemma sessionOk_snapshots [simp]:
  "sessionOk t (snapshotLive ghosts prs held table s) = sessionOk t s"
  "mapOk w \<Longrightarrow> sessionOk t s \<Longrightarrow> sessionOk t (snapshotCounters w os ld search s)"
  by (auto simp: sessionOk_def snapshotLive_def snapshotCounters_def)

lemma startedAt_snapshots [simp]:
  "startedAt (snapshotLive ghosts prs held table s) = startedAt s" "startedAt (snapshotCounters w os ld search s) = startedAt s"
  by (simp_all add: snapshotLive_def snapshotCounters_def)

lemma sessionOk_new [simp]: "sessionOk t (newSession t)" "startedAt (newSession t) = t"
  by (simp_all add: sessionOk_def newSession_def)

lemma closedOk_same:
  assumes "closedOk p" "closed p' = closed p" "clock p \<le> clock p'"
    and "case cur (nd p') of None \<Rightarrow> True | Some c \<Rightarrow> sessionOk (clock p') c \<and> (\<forall>(s, e) \<in> set (closed p). e \<le> startedAt c)"
  shows "closedOk p'"
  unfolding closedOk_def
proof (intro conjI ballI)
  fix x assume "x \<in> set (closed p')"
  then have x: "x \<in> set (closed p)" by (simp add: assms(2))
  then have "case x of (s, e) \<Rightarrow> sessionOk e s \<and> e \<le> clock p" using assms(1) by (auto simp: closedOk_def)
  with x assms(3,4) show "case x of (s, e) \<Rightarrow> sessionOk e s \<and> e \<le> clock p'
      \<and> (case cur (nd p') of None \<Rightarrow> True | Some c \<Rightarrow> e \<le> startedAt c)"
    by (auto split: option.splits prod.splits)
qed (use assms in \<open>auto simp: closedOk_def split: option.splits\<close>)

lemma closedOk_cur:
  assumes "closedOk p" "cur (nd p) = Some s"
  shows "sessionOk (clock p) s" and "\<forall>(a, e) \<in> set (closed p). e \<le> startedAt s"
proof -
  show "sessionOk (clock p) s" using assms by (simp add: closedOk_def)
  have "\<forall>x \<in> set (closed p). case x of (a, e) \<Rightarrow> sessionOk e a \<and> e \<le> clock p \<and> e \<le> startedAt s"
    using assms by (simp add: closedOk_def)
  then show "\<forall>(a, e) \<in> set (closed p). e \<le> startedAt s" by fast
qed

lemma closedOk_fold:
  assumes "closedOk p" "cur (nd p) = Some s" "sessionOk now s'" "startedAt s' = startedAt s"
    and p': "closed p' = closed p @ [(s', now)]" "cur (nd p') = None" "clock p \<le> now" "clock p' = now"
  shows "closedOk p'"
proof -
  have x: "sessionOk e a \<and> e \<le> now \<and> e \<le> startedAt s'" if "(a, e) \<in> set (closed p)" for a e
  proof -
    have "sessionOk e a \<and> e \<le> clock p \<and> e \<le> startedAt s" using assms(1,2) that by (auto simp: closedOk_def)
    with p'(3) assms(4) show ?thesis by simp
  qed
  have "sorted_wrt (\<lambda>(s, e) (s', e'). e \<le> startedAt s') (closed p')"
    using assms(1) x by (auto simp: p'(1) sorted_wrt_append closedOk_def)
  moreover have "sessionOk e a \<and> e \<le> clock p'" if "(a, e) \<in> set (closed p')" for a e
    using that x assms(3) p'(1,4) by auto
  ultimately show ?thesis using p'(2) by (auto simp: closedOk_def)
qed

text \<open>What the current session is replaced by does not touch the node's totals.\<close>

lemma procOk_setCur:
  assumes "procOk p" "cur (nd p) = Some s" "sessionOk t s'" "startedAt s' = startedAt s" "clock p \<le> t"
    and "ctl p' = ctl p \<or> ctl p' \<in> {Stopping, Snapped} \<and> (ctl p' = Stopping \<and> doneFlag (nd p) \<longrightarrow> written p' \<noteq> None) \<and> (ctl p' = Snapped \<longrightarrow> doneFlag (nd p))"
    and p': "nd p' = nd p\<lparr>cur := Some s'\<rparr>" "clock p' = t" "closed p' = closed p" "reading p' = w" "reads p w"
    and "written p' = written p \<or> written p' \<noteq> None"
  shows "procOk p'"
proof -
  have "histOk (nd p') (closed p')" using assms(1) p' by (simp add: procOk_def histOk_def)
  moreover have "closedOk p'"
  proof (rule closedOk_same [of p])
    show c: "closedOk p" using assms(1) by (simp add: procOk_def)
    show "case cur (nd p') of None \<Rightarrow> True | Some c \<Rightarrow> sessionOk (clock p') c \<and> (\<forall>(s, e) \<in> set (closed p). e \<le> startedAt c)"
      using closedOk_cur(2) [OF c assms(2)] assms(3,4) by (simp add: p'(1,2))
  qed (simp_all add: p' assms(5))
  moreover have "ctlOk p'" using assms(1,2,6,12) p' by (auto simp: procOk_def ctlOk_def)
  moreover have "samplesOk p'"
  proof -
    have s: "samplesOk p" using assms(1) by (simp add: procOk_def)
    have "wireLe (totals p) (totals p')"
      using s p' assms(2) by (auto simp: totals_def samplesOk_def reads_def intro: wireLe_addWire)
    with s p' show ?thesis by (auto simp: samplesOk_def reads_def intro: wireLe_trans)
  qed
  ultimately show ?thesis by (simp add: procOk_def)
qed

lemma reads_refl: "samplesOk p \<Longrightarrow> reads p (reading p)"
  by (simp add: samplesOk_def reads_def)

lemma samplesOk_event:
  "session_event now p s p' s' \<Longrightarrow> samplesOk p \<Longrightarrow> cur (nd p) = Some s \<Longrightarrow> samplesOk (setCur s' p'\<lparr>clock := now\<rparr>)"
proof (induction rule: session_event.induct)
  case (samplers p w s held cap byTopic)
  have t: "totals p = addWire (wireDone (nd p)) (reading p)" using samplers.prems(2) by (simp add: totals_def)
  have le: "wireLe (totals p) (addWire (wireDone (nd p)) w)"
    using samplers.hyps samplers.prems(1) unfolding t by (intro wireLe_addWire) (auto simp: reads_def samplesOk_def)
  show ?case
    using samplers.hyps samplers.prems le
    by (auto simp: samplesOk_def setCur_def takeSample_def addSample_def totals_def sorted_wrt_append reads_def t
        intro: wireLe_trans)
next
  case (peer maxDialed ev p s n s')
  then show ?case
    by (auto simp: samplesOk_def setCur_def totals_def peerEvent_step_def Let_def split: peerEvent.splits list.splits if_splits)
qed (auto simp: samplesOk_def setCur_def totals_def)

lemma procOk_step: "node_step p p' \<Longrightarrow> procOk p \<Longrightarrow> procOk p'"
proof (induction rule: node_step.induct)
  case (comeUp p now res n)
  then have c: "cur (nd p) = None" "\<not> doneFlag (nd p)" and "n = nd p\<lparr>cur := Some (newSession now), rcvbuf := rcvbuf n\<rparr>"
    by (auto simp: up_def split: if_splits option.splits)
  then obtain b where n: "n = nd p\<lparr>cur := Some (newSession now), rcvbuf := b\<rparr>" by blast
  let ?p = "p\<lparr>nd := n, clock := now, reading := []\<rparr>"
  have "histOk (nd ?p) (closed ?p)" using comeUp.prems by (simp add: n procOk_def histOk_def)
  moreover have "closedOk ?p"
  proof (rule closedOk_same [of p])
    show ok: "closedOk p" using comeUp.prems by (simp add: procOk_def)
    have "e \<le> now" if "(s, e) \<in> set (closed p)" for s e
      using ok that comeUp.hyps(2) by (force simp: closedOk_def)
    then show "case cur (nd ?p) of None \<Rightarrow> True
        | Some c \<Rightarrow> sessionOk (clock ?p) c \<and> (\<forall>(s, e) \<in> set (closed p). e \<le> startedAt c)"
      by (auto simp: n)
  qed (use comeUp.hyps in simp_all)
  moreover have "samplesOk ?p"
    using comeUp.prems c(1) by (simp add: n procOk_def samplesOk_def totals_def)
  moreover have "ctlOk ?p" using comeUp.hyps(1) c(2) by (simp add: n ctlOk_def)
  ultimately show ?case by (simp add: procOk_def)
next
  case (goDown p s prs held table)
  then have "\<not> doneFlag (nd p)" by (auto simp: procOk_def ctlOk_def)
  with goDown show ?case
    by (intro procOk_setCur [OF goDown.prems goDown.hyps(2), of "clock p" "snapshotLive (ghostIDs (nd p)) prs held table s" _ "reading p"])
      (auto simp: setCur_def procOk_def closedOk_def reads_refl)
next
  case (stopped p s now w s' os ld search)
  let ?p = "p\<lparr>nd := fold_session s' now (nd p), ctl := Free, clock := now, closed := closed p @ [(s', now)]\<rparr>"
  have s: "sessionOk (clock p) s" using stopped.prems stopped.hyps(2) by (auto simp: procOk_def closedOk_def)
  have f: "cur (fold_session s' now (nd p)) = None" "wireDone (fold_session s' now (nd p)) = addWire (wireDone (nd p)) w"
      "samples (fold_session s' now (nd p)) = samples (nd p)" "doneFlag (fold_session s' now (nd p)) = doneFlag (nd p)"
    by (simp_all add: fold_session_def Let_def stopped.hyps(5) snapshotCounters_def)
  have "histOk (nd ?p) (closed ?p)" using stopped.prems by (simp add: procOk_def histOk_fold)
  moreover have "closedOk ?p"
  proof (rule closedOk_fold [of p s now s'])
    show "sessionOk now s'" "startedAt s' = startedAt s"
      using stopped.hyps(3-5) s by (simp_all add: reads_def sessionOk_mono)
  qed (use stopped f(1) in \<open>simp_all add: procOk_def\<close>)
  moreover have "samplesOk ?p"
  proof -
    have sp: "samplesOk p" using stopped.prems by (simp add: procOk_def)
    have "wireLe (totals p) (totals ?p)"
      using sp stopped.hyps(2,4) f by (auto simp: totals_def samplesOk_def reads_def intro: wireLe_addWire)
    with sp f show ?thesis by (auto simp: samplesOk_def intro: wireLe_trans)
  qed
  moreover have "ctlOk ?p" using stopped.prems stopped.hyps(1) f by (simp add: procOk_def ctlOk_def)
  ultimately show ?case by (simp add: procOk_def)
next
  case (finishing p)
  let ?p = "p\<lparr>nd := nd p\<lparr>doneFlag := True\<rparr>, ctl := Finishing\<rparr>"
  have c: "closedOk p" using finishing.prems by (simp add: procOk_def)
  have "closedOk ?p"
  proof (rule closedOk_same [OF c])
    show "case cur (nd ?p) of None \<Rightarrow> True | Some c \<Rightarrow> sessionOk (clock ?p) c \<and> (\<forall>(s, e) \<in> set (closed p). e \<le> startedAt c)"
    proof (cases "cur (nd p)")
      case (Some s)
      from closedOk_cur [OF c Some] show ?thesis by (simp add: Some)
    qed simp
  qed simp_all
  moreover have "samplesOk ?p" using finishing.prems by (simp add: procOk_def samplesOk_def totals_def cong: if_cong)
  ultimately show ?case using finishing.prems by (simp add: procOk_def histOk_def ctlOk_def)
next
  case (snapDown p)
  have "closedOk (p\<lparr>ctl := Snapped\<rparr>)"
    by (rule closedOk_same [of p]) (use snapDown in \<open>simp_all add: procOk_def\<close>)
  with snapDown show ?case by (simp add: procOk_def ctlOk_def samplesOk_def totals_def)
next
  case (snapUp p s w os ld search prs held table)
  then show ?case
    by (intro procOk_setCur [OF snapUp.prems snapUp.hyps(2), of "clock p"
        "snapshotCounters w os ld search (snapshotLive (ghostIDs (nd p)) prs held table s)" _ w])
      (auto simp: setCur_def procOk_def closedOk_def ctlOk_def reads_def)
next
  case (writeDown p now)
  have "closedOk (p\<lparr>written := Some (trace_of (nd p) now), clock := now, ctl := Free\<rparr>)"
    by (rule closedOk_same [of p]) (use writeDown in \<open>simp_all add: procOk_def\<close>)
  with writeDown show ?case by (simp add: procOk_def ctlOk_def samplesOk_def totals_def)
next
  case (writeUp p s now prs held table)
  have s: "sessionOk now s" using writeUp by (auto simp: procOk_def closedOk_def intro: sessionOk_mono)
  with writeUp show ?case
    by (intro procOk_setCur [OF writeUp.prems writeUp.hyps(2), of now "snapshotLive (ghostIDs (nd p)) prs held table s" _ "reading p"])
      (auto simp: setCur_def procOk_def ctlOk_def reads_refl)
next
  case (event p s now p' s')
  note f = session_event_frame [OF event.hyps(3), of "closed p"]
  have s: "sessionOk now s'" using event sessionOk_event [OF event.hyps(3)] by (auto simp: procOk_def closedOk_def)
  have "histOk (nd (setCur s' p')) (closed p')" using event.prems f by (simp add: procOk_def setCur_def)
  moreover have "closedOk (setCur s' p'\<lparr>clock := now\<rparr>)"
  proof (rule closedOk_same [of p])
    show c: "closedOk p" using event.prems by (simp add: procOk_def)
    show "case cur (nd (setCur s' p'\<lparr>clock := now\<rparr>)) of None \<Rightarrow> True
        | Some c \<Rightarrow> sessionOk (clock (setCur s' p'\<lparr>clock := now\<rparr>)) c \<and> (\<forall>(s, e) \<in> set (closed p). e \<le> startedAt c)"
      using closedOk_cur(2) [OF c event.hyps(1)] s f by (simp add: setCur_def)
  qed (use f event.hyps(2) in \<open>simp_all add: setCur_def\<close>)
  moreover have "ctlOk (setCur s' p'\<lparr>clock := now\<rparr>)"
    using event.prems event.hyps(1) f by (auto simp: procOk_def ctlOk_def setCur_def)
  moreover have "samplesOk (setCur s' p'\<lparr>clock := now\<rparr>)"
    using event.prems event.hyps(1) by (intro samplesOk_event [OF event.hyps(3)]) (simp_all add: procOk_def)
  ultimately show ?case by (simp add: procOk_def setCur_def)
qed

lemma node_run_ok: "node_run p \<Longrightarrow> procOk p"
proof (induction rule: node_run.induct)
  case (boot i boots ghosts model t)
  show ?case by (simp add: procOk_def newProc_def newNode_def histOk_def lastOpt_def closedOk_def ctlOk_def samplesOk_def)
qed (rule procOk_step)

section \<open>Properties\<close>

definition traceWire :: "('id, 'op, 'st) trace \<Rightarrow> string \<Rightarrow> wireCounter" where
  "traceWire tr k = mget zeroCounter (case trWire tr of None \<Rightarrow> [] | Some w \<Rightarrow> w) k"

text \<open>The finds of a connection record with absolute times.\<close>

definition connAbs :: "int \<times> 'id Found list \<times> int \<times> 'st option \<Rightarrow> 'id Found list" where
  "connAbs = (\<lambda>(start, fs, _). map (\<lambda>f. f\<lparr>fAtMs := start + fAtMs f\<rparr>) fs)"

lemma connAbs_record: "connAbs (connRecord fs src) = fs"
  by (simp add: connAbs_def connRecord_def Let_def comp_def)

text \<open>The online periods at time \<open>now\<close>, as they are and in the trace.\<close>

definition periods :: "('id, 'op, 'st) proc \<Rightarrow> gotime \<Rightarrow> (('id, 'op, 'st) session \<times> gotime) list" where
  "periods p now = closed p @ (case cur (nd p) of None \<Rightarrow> [] | Some c \<Rightarrow> [(c, now)])"

lemma periods_ordered:
  assumes "closedOk p" "clock p \<le> now"
  shows "sorted_wrt (\<lambda>(s, e) (s', e'). e \<le> startedAt s') (periods p now) \<and> (\<forall>(s, e) \<in> set (periods p now). startedAt s \<le> e)"
proof -
  have cl: "sorted_wrt (\<lambda>(s, e) (s', e'). e \<le> startedAt s') (closed p)" "\<forall>(s, e) \<in> set (closed p). startedAt s \<le> e"
    using assms(1) by (auto simp: closedOk_def sessionOk_def)
  show ?thesis
  proof (cases "cur (nd p)")
    case (Some c)
    have "startedAt c \<le> now" using closedOk_cur(1) [OF assms(1) Some] assms(2) by (simp add: sessionOk_def)
    with cl closedOk_cur(2) [OF assms(1) Some] show ?thesis by (auto simp: periods_def Some sorted_wrt_append)
  qed (use cl in \<open>simp add: periods_def\<close>)
qed

lemma spans_ordered:
  assumes "sorted_wrt (\<lambda>(s, e) (s', e'). e \<le> startedAt s') xs \<and> (\<forall>(s, e) \<in> set xs. startedAt s \<le> e)"
  shows "sorted_wrt (\<lambda>(a, b) (a', b'). b \<le> a') (map spanOf xs) \<and> (\<forall>(a, b) \<in> set (map spanOf xs). a \<le> b)"
proof -
  have mono: "a \<le> b \<Longrightarrow> UnixMilli a \<le> UnixMilli b" for a b by (simp add: UnixMilli_def nsMilli_def zdiv_mono1)
  from assms show ?thesis by (induction xs) (fastforce simp: spanOf_def intro: mono)+
qed

text \<open>
  C1: The trace is the record of the whole run, however often churn took the node down: its lookups and
  operations are those of all sessions in order, every counter is the sum over the sessions, the first
  capable record the earliest, the online periods are listed in order and do not overlap, and the
  dialer's finds keep their absolute times.
\<close>

theorem trace_of_sessions:
  fixes p :: "('id, 'op, 'st) proc"
  assumes "node_run p" "clock p \<le> now"
  defines "ss \<equiv> map fst (closed p) @ (case cur (nd p) of None \<Rightarrow> [] | Some c \<Rightarrow> [c])"
    and "tr \<equiv> trace_of (nd p) now"
  shows "trLookups tr = concat (map lookups ss) \<and> trOps tr = concat (map ops ss)
    \<and> (\<forall>k. traceWire tr k = sumCounters (map (\<lambda>s. mget zeroCounter (wire s) k) ss))
    \<and> leastNonneg (trFirstCapableMs tr) (map sFirstCapableMs ss)
    \<and> map fst (trSessions tr) = map (UnixMilli \<circ> startedAt) ss
    \<and> sorted_wrt (\<lambda>(a, b) (a', b'). b \<le> a') (trSessions tr) \<and> (\<forall>(a, b) \<in> set (trSessions tr). a \<le> b)
    \<and> (case trConn tr of None \<Rightarrow> lookupOnly (nd p) \<or> filter hasConn ss = []
       | Some c \<Rightarrow> connAbs c = concat (map absFound (filter hasConn ss)))"
proof -
  have ok: "procOk p" by (rule node_run_ok [OF assms(1)])
  then have h: "histOk (nd p) (closed p)" and c: "closedOk p" by (simp_all add: procOk_def)
  have wf: "\<forall>s \<in> set ss. mapOk (wire s) \<and> -1 \<le> sFirstCapableMs s"
    using c by (fastforce simp: ss_def closedOk_def sessionOk_def split: option.splits)
  have w: "traceWire tr k = mget zeroCounter (foldl (\<lambda>w s. addWire w (wire s)) [] ss) k" for k
    using h by (simp add: traceWire_def tr_def trace_of_def histOk_def Let_def ss_def split: option.split)
  have cap: "trFirstCapableMs tr = foldl minCapable (-1) (map sFirstCapableMs ss)"
    using h by (simp add: tr_def trace_of_def histOk_def Let_def ss_def split: option.split)
  have least: "leastNonneg (trFirstCapableMs tr) (map sFirstCapableMs ss)"
    using minCapable_least [of "-1" "map sFirstCapableMs ss"] wf by (auto simp: cap leastNonneg_def split: if_splits)
  have spans: "trSessions tr = map spanOf (periods p now)"
    using h by (simp add: tr_def trace_of_def histOk_def Let_def spanOf_def periods_def split: option.split)
  note sorted = spans_ordered [OF periods_ordered [OF c assms(2)], folded spans]
  have "trLookups tr = concat (map lookups ss)" "trOps tr = concat (map ops ss)"
    using h by (simp_all add: ss_def tr_def trace_of_def histOk_def Let_def split: option.split)
  moreover have "map fst (trSessions tr) = map (UnixMilli \<circ> startedAt) ss"
    by (simp add: spans periods_def ss_def spanOf_def case_prod_beta split: option.split)
  moreover have "\<forall>k. traceWire tr k = sumCounters (map (\<lambda>s. mget zeroCounter (wire s) k) ss)"
    using mget_wires [of ss "[]"] wf by (simp add: w)
  moreover have "trConn tr = (if lookupOnly (nd p) then None
      else map_option (connRecord (concat (map absFound (filter hasConn ss)))) (lastOpt (filter hasConn ss)))"
    using h by (simp add: ss_def tr_def trace_of_def histOk_def Let_def hasConn_def lastOpt_def split: option.split)
  then have "case trConn tr of None \<Rightarrow> lookupOnly (nd p) \<or> filter hasConn ss = []
      | Some c \<Rightarrow> connAbs c = concat (map absFound (filter hasConn ss))"
    by (cases "lookupOnly (nd p)") (simp_all add: lastOpt_def connAbs_record)
  ultimately show ?thesis using least sorted by blast
qed

text \<open>
  The sample series is cumulative over the whole run: every counter of every message type is at
  least what it was in any earlier sample, although each server starts its counters from zero.
\<close>

theorem samples_cumulative:
  assumes "node_run p" "i < j" "j < length (samples (nd p))"
  shows "wireLe (smWire (samples (nd p) ! i)) (smWire (samples (nd p) ! j))"
  using node_run_ok [OF assms(1)] assms(2,3)
  by (simp add: procOk_def samplesOk_def sorted_wrt_iff_nth_less)

text \<open>
  C37: Once the final trace is written the node is down for good: no session is open, and neither a
  further churn call nor a second \<open>finish\<close> changes the node.
\<close>

theorem finished_for_good:
  assumes "node_run p" "doneFlag (nd p)" "ctl p = Free"
  shows "cur (nd p) = None \<and> written p \<noteq> None \<and> up (nd p) now res = (Some ErrStopped, nd p) \<and> \<not> node_step p p'"
proof -
  have "ctlOk p" using node_run_ok [OF assms(1)] by (simp add: procOk_def)
  then have "cur (nd p) = None" "written p \<noteq> None" using assms(2,3) by (simp_all add: ctlOk_def)
  then show ?thesis using assms(2,3) by (auto simp: up_def elim!: node_step.cases)
qed

definition lazyOk :: "lazyIter \<Rightarrow> bool" where
  "lazyOk l \<longleftrightarrow> opens l = (if inner l then 1 else 0) \<and> (inner l \<longrightarrow> oncePc l = OnceDone)
     \<and> closes l = (if closePc l = CloseDone \<and> toClose l then 1 else 0)
     \<and> (closePc l \<in> {ItRead, CloseDone} \<longrightarrow> toClose l = inner l \<and> \<not> muHeld l)"

lemmas lazy_defs = lazyOk_def onceSelect_def onceCheck_def onceOpen_def muHeld_def closeRead_def closeInner_def chanClosed_def

lemma lazyOk_step: "lazy_step l l' \<Longrightarrow> lazyOk l \<Longrightarrow> lazyOk l'"
  by (induction rule: lazy_step.induct) (auto simp: lazy_defs split: if_splits)

lemma lazy_run_ok: "lazy_run l \<Longrightarrow> lazyOk l"
proof (induction rule: lazy_run.induct)
  case lazyStart
  show ?case by (simp add: lazyOk_def newLazyIter_def)
qed (rule lazyOk_step)

text \<open>Once the channel is closed and no \<open>Next\<close> is between its check and its call, nothing is opened any more.\<close>

lemma sealed_step:
  assumes "lazy_step l l'" "chanClosed l" "\<not> muHeld l"
  shows "chanClosed l' \<and> \<not> muHeld l' \<and> opens l' = opens l"
  using assms by (induction rule: lazy_step.induct) (auto simp: lazy_defs split: if_splits)

lemma sealed:
  assumes "lazy_step\<^sup>*\<^sup>* l l'" "chanClosed l" "\<not> muHeld l"
  shows "chanClosed l' \<and> \<not> muHeld l' \<and> opens l' = opens l"
  using assms by (induction rule: rtranclp_induct) (auto dest: sealed_step)

text \<open>From every state in which \<open>Close\<close> has begun, both sides can finish without the server.\<close>

lemma lazy_finish_once:
  assumes "chanClosed l"
  shows "\<exists>l'. lazy_step\<^sup>*\<^sup>* l l' \<and> oncePc l' = OnceDone \<and> closePc l' = closePc l \<and> ready l' = ready l"
proof (cases "oncePc l")
  case NotRun
  then have "lazy_step l (l\<lparr>oncePc := OnceDone\<rparr>)" using assms by (auto intro: nextSelect [where viaReady = False] simp: onceSelect_def)
  then show ?thesis by (intro exI [of _ "l\<lparr>oncePc := OnceDone\<rparr>"]) (simp add: r_into_rtranclp)
next
  case Passed
  from nextCheck [OF this] show ?thesis using assms
    by (intro exI [of _ "onceCheck l"]) (simp add: onceCheck_def r_into_rtranclp)
next
  case Checked
  from nextOpen [OF this] show ?thesis by (intro exI [of _ "onceOpen l"]) (simp add: onceOpen_def r_into_rtranclp)
qed auto

lemma lazy_finish_close:
  assumes "chanClosed l" "oncePc l = OnceDone"
  shows "\<exists>l'. lazy_step\<^sup>*\<^sup>* l l' \<and> oncePc l' = OnceDone \<and> closePc l' = CloseDone \<and> ready l' = ready l"
proof -
  have last: "\<exists>l'. lazy_step\<^sup>*\<^sup>* k l' \<and> oncePc l' = OnceDone \<and> closePc l' = CloseDone \<and> ready l' = ready k"
    if "closePc k = ItRead" "oncePc k = OnceDone" for k
    using closeIt [OF that(1)] that(2) by (intro exI [of _ "closeInner k"]) (simp add: closeInner_def r_into_rtranclp)
  show ?thesis
  proof (cases "closePc l")
    case ChanClosed
    then have "lazy_step l (closeRead l)" using assms by (auto intro: closeLock simp: muHeld_def)
    with last [of "closeRead l"] show ?thesis using assms by (auto simp: closeRead_def intro: converse_rtranclp_into_rtranclp)
  qed (use assms last in \<open>auto simp: chanClosed_def\<close>)
qed

lemma lazy_finish:
  assumes "chanClosed l"
  shows "\<exists>l'. lazy_step\<^sup>*\<^sup>* l l' \<and> oncePc l' = OnceDone \<and> closePc l' = CloseDone \<and> ready l' = ready l"
proof -
  from lazy_finish_once [OF assms] obtain k where k: "lazy_step\<^sup>*\<^sup>* l k" "oncePc k = OnceDone" "closePc k = closePc l" "ready k = ready l" by auto
  with assms have "chanClosed k" by (simp add: chanClosed_def)
  from lazy_finish_close [OF this k(2)] k show ?thesis by (metis rtranclp_trans)
qed

text \<open>
  C26: The dialer's lazy iterator leaks no search and deadlocks no shutdown, in any interleaving of
  \<open>Next\<close>, \<open>Close\<close> and the server's start: the inner iterator is opened at most once; after the channel is
  closed it is opened only by a \<open>Next\<close> that had passed its check before and still holds the mutex, which
  \<open>Close\<close> waits for; a completed \<open>Close\<close> has closed exactly what was opened and nothing is opened later;
  and once \<open>Close\<close> has begun, it and a waiting \<open>Next\<close> can both finish, even if the server never starts.
\<close>

theorem lazy_iterator_closed:
  assumes "lazy_run l"
  shows "opens l \<le> 1 \<and> closes l \<le> opens l
    \<and> (chanClosed l \<and> \<not> muHeld l \<longrightarrow> (\<forall>l'. lazy_step\<^sup>*\<^sup>* l l' \<longrightarrow> opens l' = opens l))
    \<and> (closePc l = CloseDone \<longrightarrow> closes l = opens l \<and> \<not> muHeld l)
    \<and> (chanClosed l \<longrightarrow> (\<exists>l'. lazy_step\<^sup>*\<^sup>* l l' \<and> oncePc l' = OnceDone \<and> closePc l' = CloseDone \<and> closes l' = opens l' \<and> ready l' = ready l))"
proof -
  have ok: "lazyOk k" if "lazy_step\<^sup>*\<^sup>* l k" for k
    using that by (induction rule: rtranclp_induct) (auto intro: lazyOk_step lazy_run_ok [OF assms])
  from ok [of l] have "opens l \<le> 1 \<and> closes l \<le> opens l \<and> (closePc l = CloseDone \<longrightarrow> closes l = opens l \<and> \<not> muHeld l)"
    by (auto simp: lazyOk_def split: if_splits)
  moreover have "\<exists>l'. lazy_step\<^sup>*\<^sup>* l l' \<and> oncePc l' = OnceDone \<and> closePc l' = CloseDone \<and> closes l' = opens l' \<and> ready l' = ready l"
    if "chanClosed l"
  proof -
    from lazy_finish [OF that] obtain l' where l': "lazy_step\<^sup>*\<^sup>* l l'" "oncePc l' = OnceDone" "closePc l' = CloseDone" "ready l' = ready l" by auto
    from ok [OF l'(1)] l'(3) have "closes l' = opens l'" by (auto simp: lazyOk_def split: if_splits)
    with l' show ?thesis by auto
  qed
  ultimately show ?thesis using sealed by blast
qed

section \<open>Witnesses\<close>

text \<open>A node is up, is sampled, goes down, comes up again with fresh counters and is sampled again.\<close>

definition demoCounters :: wireMap where
  "demoCounters = [(''PING/v5'', zeroCounter\<lparr>TxMsgs := 5\<rparr>)]"

type_synonym demoProc = "(nat, unit, unit) proc"

definition demoNew :: demoProc where
  "demoNew = newProc (newNode 7 [] [] ''continuous'') 0"

definition demoUp1 :: demoProc where
  "demoUp1 = demoNew\<lparr>nd := snd (up (nd demoNew) 1000000 (Some (4, 2))), clock := 1000000, reading := []\<rparr>"

definition demoSample :: "gotime \<Rightarrow> wireMap \<Rightarrow> demoProc \<Rightarrow> demoProc" where
  "demoSample now w p = setCur (the (cur (nd p)))
     (p\<lparr>nd := takeSample (UnixMilli now) w 0 0 [] (the (cur (nd p))) (nd p), reading := w\<rparr>)\<lparr>clock := now\<rparr>"

definition demoStopping :: demoProc where
  "demoStopping = (let p = demoSample 2000000 demoCounters demoUp1
     in setCur (snapshotLive [] [] 0 [] (the (cur (nd p)))) p\<lparr>ctl := Stopping\<rparr>)"

definition demoDown :: demoProc where
  "demoDown = (let s = snapshotCounters demoCounters [] [] None (the (cur (nd demoStopping)))
     in demoStopping\<lparr>nd := fold_session s 3000000 (nd demoStopping), ctl := Free, clock := 3000000,
          closed := closed demoStopping @ [(s, 3000000)]\<rparr>)"

definition demoUp2 :: demoProc where
  "demoUp2 = demoDown\<lparr>nd := snd (up (nd demoDown) 4000000 (Some (4, 2))), clock := 4000000, reading := []\<rparr>"

lemmas demo_defs = demoNew_def demoUp1_def demoStopping_def demoDown_def demoUp2_def demoSample_def newProc_def newNode_def
  newSession_def up_def setCur_def takeSample_def addSample_def snapshotLive_def snapshotCounters_def fold_session_def Let_def

lemma demo_reads: "wireLe [] demoCounters" "mapOk demoCounters"
  by (auto simp: wireLe_def demoCounters_def mget_def counterLe_def zeroCounter_def mapOk_def)

lemma demo_sampled:
  "node_run p \<Longrightarrow> cur (nd p) \<noteq> None \<Longrightarrow> clock p \<le> now \<Longrightarrow> reads p w \<Longrightarrow> node_run (demoSample now w p)"
  unfolding demoSample_def
  by (erule node_run.step, rule node_step.event [where s = "the (cur (nd p))"]) (auto intro: session_event.samplers)

lemma demo_up1: "node_run demoUp1"
proof -
  have "node_run demoNew" unfolding demoNew_def by (rule node_run.boot)
  moreover have "node_step demoNew demoUp1"
    unfolding demoUp1_def by (rule node_step.comeUp [where res = "Some (4, 2)"]) (simp_all add: demo_defs)
  ultimately show ?thesis by (rule node_run.step)
qed

lemma demo_down: "node_run demoDown"
proof -
  have s: "node_run (demoSample 2000000 demoCounters demoUp1)"
    by (rule demo_sampled [OF demo_up1]) (simp_all add: demo_defs reads_def demo_reads)
  have "node_step (demoSample 2000000 demoCounters demoUp1) demoStopping"
    using node_step.goDown [of "demoSample 2000000 demoCounters demoUp1" "the (cur (nd (demoSample 2000000 demoCounters demoUp1)))" "[]" 0 "[]"]
    by (simp add: demo_defs)
  with s have "node_run demoStopping" by (rule node_run.step)
  moreover have "node_step demoStopping demoDown"
    using node_step.stopped [of demoStopping "the (cur (nd demoStopping))" 3000000 demoCounters _ "[]" "[]" None]
    by (simp add: demo_defs reads_def demo_reads)
  ultimately show ?thesis by (rule node_run.step)
qed

lemma demo_up2: "node_run demoUp2"
  by (rule node_run.step [OF demo_down], unfold demoUp2_def, rule node_step.comeUp [where res = "Some (4, 2)"])
    (simp_all add: demo_defs)

theorem trace_of_sessions_witness:
  "node_run demoUp2 \<and> traceWire (trace_of (nd demoUp2) 5000000) ''PING/v5'' = zeroCounter\<lparr>TxMsgs := 5\<rparr>
    \<and> map fst (trSessions (trace_of (nd demoUp2) 5000000)) = [1, 4]"
proof -
  have "clock demoUp2 \<le> 5000000" by (simp add: demo_defs)
  note t = trace_of_sessions [OF demo_up2 this]
  from t show ?thesis using demo_up2 by (simp add: demo_defs UnixMilli_def nsMilli_def demoCounters_def mget_def)
qed

theorem samples_cumulative_witness:
  "node_run (demoSample 5000000 [] demoUp2) \<and>
   wireLe (smWire (samples (nd (demoSample 5000000 [] demoUp2)) ! 0)) (smWire (samples (nd (demoSample 5000000 [] demoUp2)) ! 1))"
proof -
  have r: "node_run (demoSample 5000000 [] demoUp2)"
    by (rule demo_sampled [OF demo_up2]) (simp_all add: demo_defs reads_def)
  moreover have "length (samples (nd (demoSample 5000000 [] demoUp2))) = 2" by (simp add: demo_defs)
  ultimately show ?thesis using samples_cumulative [OF r, of 0 1] by simp
qed

definition demoFinished :: demoProc where
  "demoFinished = demoDown\<lparr>nd := nd demoDown\<lparr>doneFlag := True\<rparr>, ctl := Snapped\<rparr>
     \<lparr>written := Some (trace_of (nd demoDown\<lparr>doneFlag := True\<rparr>) 4000000), clock := 4000000, ctl := Free\<rparr>"

lemma demo_finished: "node_run demoFinished"
proof -
  have c: "ctl demoDown = Free" "cur (nd demoDown) = None" "\<not> doneFlag (nd demoDown)" "clock demoDown = 3000000"
    by (simp_all add: demo_defs)
  note f = node_run.step [OF demo_down node_step.finishing [OF c(1,3)]]
  note s = node_run.step [OF f node_step.snapDown]
  from node_run.step [OF s node_step.writeDown [of _ 4000000]] c show ?thesis by (simp add: demoFinished_def)
qed

theorem finished_for_good_witness:
  "node_run demoFinished \<and> fst (up (nd demoFinished) 5000000 (Some (4, 2))) = Some ErrStopped"
  using finished_for_good [OF demo_finished, of 5000000 "Some (4, 2)"] demo_finished by (simp add: demoFinished_def)

text \<open>\<open>Close\<close> begins between the check and the call of \<open>open\<close>: it waits for the mutex and closes what was opened.\<close>

theorem lazy_iterator_closed_witness:
  "lazy_run \<lparr>ready = True, oncePc = OnceDone, closePc = CloseDone, inner = True, toClose = True, opens = 1, closes = 1\<rparr>
    \<and> closes \<lparr>ready = True, oncePc = OnceDone, closePc = CloseDone, inner = True, toClose = True, opens = 1, closes = 1\<rparr> = 1"
proof -
  let ?l = "\<lambda>r pc cl i t m n. \<lparr>ready = r, oncePc = pc, closePc = cl, inner = i, toClose = t, opens = m, closes = n\<rparr>"
  have "lazy_run (?l True NotRun NotClosed False False 0 0)"
    using lazyStep [OF lazyStart lazy_step.becomeReady] by (simp add: newLazyIter_def)
  from lazyStep [OF this lazy_step.nextSelect [where viaReady = True]]
  have "lazy_run (?l True Passed NotClosed False False 0 0)" by (simp add: onceSelect_def)
  from lazyStep [OF this lazy_step.nextCheck] have "lazy_run (?l True Checked NotClosed False False 0 0)"
    by (simp add: onceCheck_def chanClosed_def)
  from lazyStep [OF this lazy_step.closeChan] have "lazy_run (?l True Checked ChanClosed False False 0 0)" by simp
  from lazyStep [OF this lazy_step.nextOpen] have "lazy_run (?l True OnceDone ChanClosed True False 1 0)" by (simp add: onceOpen_def)
  from lazyStep [OF this lazy_step.closeLock] have "lazy_run (?l True OnceDone ItRead True True 1 0)"
    by (simp add: closeRead_def muHeld_def)
  from lazyStep [OF this lazy_step.closeIt] have "lazy_run (?l True OnceDone CloseDone True True 1 1)" by (simp add: closeInner_def)
  with lazy_iterator_closed [OF this] show ?thesis by simp
qed

end
