(* ===== verification/TraceMerge.thy ===== *)
theory TraceMerge
  imports GoFloat GoString
begin

text \<open>
  Reading the trace of a node (\<open>src/pkg/host/trace.go\<close>): the merge of the files a node left when every
  restart was a process of its own. A decoded JSON value is a datatype, an object an association list;
  reading a file and decoding it are arguments.
\<close>

section \<open>JSON values\<close>

datatype json = JNull | JBool bool | JNum float64 | JStr string | JArr "json list" | JObj "(string \<times> json) list"

text \<open>Type assertions with their zero values, and with \<open>ok\<close> as an option.\<close>

definition asObj :: "json \<Rightarrow> (string \<times> json) list option" where
  "asObj v = (case v of JObj m \<Rightarrow> Some m | _ \<Rightarrow> None)"

definition asArr :: "json \<Rightarrow> json list option" where
  "asArr v = (case v of JArr l \<Rightarrow> Some l | _ \<Rightarrow> None)"

definition asNum :: "json \<Rightarrow> float64 option" where
  "asNum v = (case v of JNum f \<Rightarrow> Some f | _ \<Rightarrow> None)"

definition orZero :: "'a \<Rightarrow> 'a option \<Rightarrow> 'a" where
  "orZero z v = (case v of None \<Rightarrow> z | Some x \<Rightarrow> x)"

definition field :: "(string \<times> json) list \<Rightarrow> string \<Rightarrow> json" where
  "field m k = mget JNull m k"

text \<open>A slice that was only appended to: nil, which is encoded as null, when nothing was.\<close>

definition arr :: "json list \<Rightarrow> json" where
  "arr l = (if l = [] then JNull else JArr l)"

section \<open>Counters\<close>

type_synonym counters = "(string, (string, float64) gomap) gomap"

definition addName :: "string \<Rightarrow> string \<times> json \<Rightarrow> counters \<Rightarrow> counters" where
  "addName typ = (\<lambda>(name, n) c. case asNum n of None \<Rightarrow> c
     | Some f \<Rightarrow> mput typ (mput name (fadd (mget 0 (mget [] c typ) name) f) (mget [] c typ)) c)"

definition addType :: "string \<times> json \<Rightarrow> counters \<Rightarrow> counters" where
  "addType = (\<lambda>(typ, m) c. fold (addName typ) (orZero [] (asObj m)) (if mhas c typ then c else mput typ [] c))"

definition counters_add :: "counters \<Rightarrow> json \<Rightarrow> counters" where
  "counters_add c v = fold addType (orZero [] (asObj v)) c"

definition counters_plus :: "counters \<Rightarrow> json \<Rightarrow> json" where
  "counters_plus c v = JObj (map (\<lambda>(typ, m). (typ, JObj (map (\<lambda>(name, n).
     (name, JNum (fadd (orZero 0 (asNum n)) (mget 0 (mget [] c typ) name)))) (orZero [] (asObj m))))) (orZero [] (asObj v)))"

section \<open>Merging sessions\<close>

record merge =
  mgSessions :: "json list"
  mgLists :: "(string, json list) gomap"
  mgDrops :: float64
  mgCapable :: float64
  mgWire :: counters
  mgConn :: "(string \<times> json) list option"
  mgFound :: "(json \<times> float64) list"

definition newMerge :: merge where
  "newMerge = \<lparr>mgSessions = [], mgLists = [], mgDrops = 0, mgCapable = -1, mgWire = [], mgConn = None, mgFound = []\<rparr>"

definition appendList :: "string \<Rightarrow> json list \<Rightarrow> merge \<Rightarrow> merge" where
  "appendList k l g = g\<lparr>mgLists := mput k (mget [] (mgLists g) k @ l) (mgLists g)\<rparr>"

definition mergeList :: "(string \<times> json) list \<Rightarrow> string \<Rightarrow> merge \<Rightarrow> merge" where
  "mergeList s k g = (case asArr (field s k) of None \<Rightarrow> g | Some l \<Rightarrow> appendList k l g)"

definition carrySample :: "counters \<Rightarrow> json \<Rightarrow> json" where
  "carrySample c smp = (case asObj smp of None \<Rightarrow> smp
     | Some m \<Rightarrow> if c = [] then smp else JObj (mput ''wire'' (counters_plus c (field m ''wire'')) m))"

definition mergeSamples :: "(string \<times> json) list \<Rightarrow> merge \<Rightarrow> merge" where
  "mergeSamples s g = (case asArr (field s ''samples'') of None \<Rightarrow> g
     | Some l \<Rightarrow> if l = [] then g else appendList ''samples'' (map (carrySample (mgWire g)) l) g)"

definition mergeConn :: "(string \<times> json) list \<Rightarrow> merge \<Rightarrow> merge" where
  "mergeConn s g = (case asObj (field s ''conn'') of None \<Rightarrow> g
     | Some c \<Rightarrow>
         let start = orZero 0 (asNum (field c ''start_ms''))
         in g\<lparr>mgFound := mgFound g @ (case asArr (field c ''found'') of None \<Rightarrow> []
                | Some l \<Rightarrow> map (\<lambda>f. let fm = orZero [] (asObj f)
                                     in (field fm ''id'', fadd start (orZero 0 (asNum (field fm ''at_ms''))))) l),
              mgConn := Some c\<rparr>)"

definition mergeSession :: "(string \<times> json) list \<Rightarrow> merge \<Rightarrow> merge" where
  "mergeSession s g =
     (let g = (if mhas s ''session'' then g\<lparr>mgSessions := mgSessions g @ [field s ''session'']\<rparr> else g);
          g = fold (mergeList s) [''lookups'', ''ops'', ''refill_ms'', ''admissions''] g;
          g = mergeSamples s g;
          g = g\<lparr>mgWire := counters_add (mgWire g) (field s ''wire''),
                mgDrops := (case asNum (field s ''peer_drops'') of None \<Rightarrow> mgDrops g | Some d \<Rightarrow> fadd (mgDrops g) d),
                mgCapable := (case asNum (field s ''first_capable_ms'') of None \<Rightarrow> mgCapable g
                  | Some f \<Rightarrow> if f \<ge> 0 \<and> (mgCapable g < 0 \<or> f < mgCapable g) then f else mgCapable g)\<rparr>
      in mergeConn s g)"

definition wireObj :: "counters \<Rightarrow> json" where
  "wireObj c = JObj (map (\<lambda>(typ, m). (typ, JObj (map (\<lambda>(name, f). (name, JNum f)) m))) c)"

definition connObj :: "(string \<times> json) list \<Rightarrow> (json \<times> float64) list \<Rightarrow> json" where
  "connObj c fs = (let start = orZero 0 (asNum (field c ''start_ms''))
     in JObj (mput ''found'' (arr (map (\<lambda>(i, t). JObj [(''id'', i), (''at_ms'', JNum (fsub t start))]) fs)) c))"

text \<open>\<open>None\<close> is the index out of range of an empty list of sessions.\<close>

definition mergeTraces :: "(string \<times> json) list list \<Rightarrow> (string \<times> json) list option" where
  "mergeTraces ss =
     (if ss = [] then None
      else let g = fold mergeSession ss newMerge;
               out = last ss;
               out = fold (\<lambda>(k, l). mput k (arr l)) (mgLists g) out;
               out = (if mhas out ''peer_drops'' then mput ''peer_drops'' (JNum (mgDrops g)) out else out);
               out = (if mgWire g \<noteq> [] then mput ''wire'' (wireObj (mgWire g)) out else out);
               out = (if mgCapable g \<ge> 0 then mput ''first_capable_ms'' (JNum (mgCapable g)) out else out);
               out = (case mgConn g of None \<Rightarrow> out | Some c \<Rightarrow> mput ''conn'' (connObj c (mgFound g)) out)
           in Some (mput ''sessions'' (arr (mgSessions g)) (mdel ''session'' out)))"

section \<open>Loading\<close>

definition sessionPath :: "string \<Rightarrow> nat \<Rightarrow> string" where
  "sessionPath trace k = TrimSuffix trace ''.json'' @ ''.s'' @ Itoa (int k) @ ''.json''"

text \<open>
  \<open>file\<close> gives the contents of a file that can be read. The loop over the parked sessions ends at the
  first one missing.
\<close>

partial_function (option) sessionParts :: "(string \<Rightarrow> 'b option) \<Rightarrow> string \<Rightarrow> nat \<Rightarrow> 'b list option" where
  "sessionParts file trace k =
     (case file (sessionPath trace k) of
        None \<Rightarrow> Some []
      | Some b \<Rightarrow> Option.bind (sessionParts file trace (k + 1)) (\<lambda>bs. Some (b # bs)))"

datatype loadError = NoTrace | BadJSON

definition LoadTrace :: "(string \<Rightarrow> 'b option) \<Rightarrow> ('b \<Rightarrow> (string \<times> json) list option) \<Rightarrow> ((string \<times> json) list \<Rightarrow> 'b)
    \<Rightarrow> string \<Rightarrow> (loadError + 'b) option" where
  "LoadTrace file decode encode trace =
     (case sessionParts file trace 1 of
        None \<Rightarrow> None
      | Some parked \<Rightarrow>
          let parts = (case file trace of None \<Rightarrow> parked | Some b \<Rightarrow> parked @ [b])
          in if parts = [] then Some (Inl NoTrace)
             else if length parts = 1 then Some (Inr (hd parts))
             else case those (map decode parts) of
                    None \<Rightarrow> Some (Inl BadJSON)
                  | Some ss \<Rightarrow> map_option (\<lambda>m. Inr (encode m)) (mergeTraces ss))"

section \<open>Totals of a merge\<close>

text \<open>The numbers a JSON object of counters holds under a type and a name.\<close>

definition numsOf :: "string \<Rightarrow> string \<Rightarrow> json \<Rightarrow> float64 list" where
  "numsOf typ name v = concat (map (\<lambda>(t, m). if t = typ
     then concat (map (\<lambda>(n, x). if n = name then (case asNum x of None \<Rightarrow> [] | Some f \<Rightarrow> [f]) else []) (orZero [] (asObj m)))
     else []) (orZero [] (asObj v)))"

definition countOf :: "counters \<Rightarrow> string \<Rightarrow> string \<Rightarrow> float64" where
  "countOf c typ name = mget 0 (mget [] c typ) name"

lemma countOf_addName:
  "countOf (fold (addName t) xs c) typ name = foldl fadd (countOf c typ name)
     (if t = typ then concat (map (\<lambda>(n, x). if n = name then (case asNum x of None \<Rightarrow> [] | Some f \<Rightarrow> [f]) else []) xs) else [])"
  by (induction xs arbitrary: c) (auto simp: addName_def countOf_def split: option.split)

lemma countOf_add: "countOf (counters_add c v) typ name = foldl fadd (countOf c typ name) (numsOf typ name v)"
proof -
  have "countOf (fold addType xs c) typ name = foldl fadd (countOf c typ name)
      (concat (map (\<lambda>(t, m). if t = typ
        then concat (map (\<lambda>(n, x). if n = name then (case asNum x of None \<Rightarrow> [] | Some f \<Rightarrow> [f]) else []) (orZero [] (asObj m)))
        else []) xs))" for xs
  proof (induction xs arbitrary: c)
    case (Cons x xs)
    obtain t m where x: "x = (t, m)" by force
    have "countOf (if mhas c t then c else mput t [] c) typ name = countOf c typ name"
      by (auto simp: countOf_def mget_missing)
    then have "countOf (addType (t, m) c) typ name = foldl fadd (countOf c typ name) (if t = typ
        then concat (map (\<lambda>(n, x). if n = name then (case asNum x of None \<Rightarrow> [] | Some f \<Rightarrow> [f]) else []) (orZero [] (asObj m)))
        else [])"
      by (simp only: addType_def case_prod_conv countOf_addName)
    then show ?case by (simp add: x Cons.IH)
  qed simp
  then show ?thesis by (simp add: counters_add_def numsOf_def)
qed

text \<open>What one session adds to each part of the merge.\<close>

definition listKeys :: "string list" where
  "listKeys = [''lookups'', ''ops'', ''refill_ms'', ''admissions'']"

lemma listKeys_distinct [simp]: "distinct listKeys" "''samples'' \<notin> set listKeys"
  by (simp_all add: listKeys_def)

lemma mergeList_frame [simp]:
  "mgSessions (mergeList s k g) = mgSessions g" "mgWire (mergeList s k g) = mgWire g" "mgDrops (mergeList s k g) = mgDrops g"
  "mgCapable (mergeList s k g) = mgCapable g" "mgConn (mergeList s k g) = mgConn g" "mgFound (mergeList s k g) = mgFound g"
  by (simp_all add: mergeList_def appendList_def split: option.split)

lemma mergeList_get:
  "mget [] (mgLists (mergeList s k g)) k' = mget [] (mgLists g) k' @ (if k' = k then orZero [] (asArr (field s k)) else [])"
  by (simp add: mergeList_def appendList_def orZero_def split: option.split)

lemma fold_mergeList_frame [simp]:
  "mgSessions (fold (mergeList s) ks g) = mgSessions g" "mgWire (fold (mergeList s) ks g) = mgWire g"
  "mgDrops (fold (mergeList s) ks g) = mgDrops g" "mgCapable (fold (mergeList s) ks g) = mgCapable g"
  "mgConn (fold (mergeList s) ks g) = mgConn g" "mgFound (fold (mergeList s) ks g) = mgFound g"
  by (induction ks arbitrary: g) simp_all

lemma fold_mergeList_get:
  "distinct ks \<Longrightarrow> mget [] (mgLists (fold (mergeList s) ks g)) k = mget [] (mgLists g) k @ (if k \<in> set ks then orZero [] (asArr (field s k)) else [])"
  by (induction ks arbitrary: g) (auto simp: mergeList_get)

lemma mergeSamples_frame [simp]:
  "mgSessions (mergeSamples s g) = mgSessions g" "mgWire (mergeSamples s g) = mgWire g" "mgDrops (mergeSamples s g) = mgDrops g"
  "mgCapable (mergeSamples s g) = mgCapable g" "mgConn (mergeSamples s g) = mgConn g" "mgFound (mergeSamples s g) = mgFound g"
  by (simp_all add: mergeSamples_def appendList_def split: option.split)

lemma mergeSamples_get: "k \<noteq> ''samples'' \<Longrightarrow> mget [] (mgLists (mergeSamples s g)) k = mget [] (mgLists g) k"
  by (simp add: mergeSamples_def appendList_def split: option.split)

lemma mergeConn_frame [simp]:
  "mgSessions (mergeConn s g) = mgSessions g" "mgWire (mergeConn s g) = mgWire g" "mgDrops (mergeConn s g) = mgDrops g"
  "mgCapable (mergeConn s g) = mgCapable g" "mgLists (mergeConn s g) = mgLists g"
  by (simp_all add: mergeConn_def Let_def split: option.split)

lemma mergeSession_parts:
  "mgSessions (mergeSession s g) = mgSessions g @ (if mhas s ''session'' then [field s ''session''] else [])"
  "mgWire (mergeSession s g) = counters_add (mgWire g) (field s ''wire'')"
  by (simp_all add: mergeSession_def Let_def del: fold.simps)

lemma mergeSession_lists:
  assumes "k \<in> set listKeys"
  shows "mget [] (mgLists (mergeSession s g)) k = mget [] (mgLists g) k @ orZero [] (asArr (field s k))"
proof -
  have "k \<noteq> ''samples''" using assms by (auto simp: listKeys_def)
  then show ?thesis using fold_mergeList_get [of listKeys s _ k] assms
    by (simp add: mergeSession_def Let_def mergeSamples_get flip: listKeys_def)
qed

lemma fold_mergeSession:
  "mgSessions (fold mergeSession ss g) = mgSessions g @ concat (map (\<lambda>s. if mhas s ''session'' then [field s ''session''] else []) ss)"
  "countOf (mgWire (fold mergeSession ss g)) typ name
     = foldl fadd (countOf (mgWire g) typ name) (concat (map (\<lambda>s. numsOf typ name (field s ''wire'')) ss))"
  "k \<in> set listKeys \<Longrightarrow> mget [] (mgLists (fold mergeSession ss g)) k
     = mget [] (mgLists g) k @ concat (map (\<lambda>s. orZero [] (asArr (field s k))) ss)"
  by (induction ss arbitrary: g) (simp_all add: mergeSession_parts mergeSession_lists countOf_add)

lemma mapOk_mergeSession: "mapOk (mgLists g) \<Longrightarrow> mapOk (mgLists (mergeSession s g))"
proof -
  have a: "mapOk (mgLists g) \<Longrightarrow> mapOk (mgLists (fold (mergeList s) ks g))" for ks and g :: merge
    by (induction ks arbitrary: g) (simp_all add: mergeList_def appendList_def split: option.split)
  have b: "mapOk (mgLists g) \<Longrightarrow> mapOk (mgLists (mergeSamples s g))" for g
    by (simp add: mergeSamples_def appendList_def split: option.split)
  assume "mapOk (mgLists g)"
  then show ?thesis by (simp add: mergeSession_def Let_def a b del: fold.simps)
qed

lemma mapOk_mergeSessions: "mapOk (mgLists g) \<Longrightarrow> mapOk (mgLists (fold mergeSession ss g))"
  by (induction ss arbitrary: g) (simp_all add: mapOk_mergeSession)

lemma mhas_mergeSessions:
  assumes "k \<in> set listKeys"
  shows "mhas (mgLists (fold mergeSession ss g)) k \<longleftrightarrow> mhas (mgLists g) k \<or> (\<exists>s \<in> set ss. asArr (field s k) \<noteq> None)"
proof -
  have a: "mhas (mgLists (fold (mergeList s) ks g)) k \<longleftrightarrow> mhas (mgLists g) k \<or> (k \<in> set ks \<and> asArr (field s k) \<noteq> None)" for s ks and g :: merge
  proof (induction ks arbitrary: g)
    case (Cons k' ks)
    have "mhas (mgLists (mergeList s k' g)) k \<longleftrightarrow> mhas (mgLists g) k \<or> (k = k' \<and> asArr (field s k) \<noteq> None)"
      by (cases "asArr (field s k')") (auto simp: mergeList_def appendList_def)
    with Cons.IH show ?case by (simp, blast)
  qed simp
  have "k \<noteq> ''samples''" using assms by (auto simp: listKeys_def)
  then have b: "mhas (mgLists (mergeSamples s g)) k \<longleftrightarrow> mhas (mgLists g) k" for s g
    by (simp add: mergeSamples_def appendList_def split: option.split)
  have step: "mhas (mgLists (mergeSession s g)) k \<longleftrightarrow> mhas (mgLists g) k \<or> asArr (field s k) \<noteq> None" for s g
    using a [of s listKeys] b assms by (simp add: mergeSession_def Let_def flip: listKeys_def)
  show ?thesis by (induction ss arbitrary: g) (simp_all add: step disj_assoc)
qed

lemma update_not_Nil [simp]: "AList.update k v m \<noteq> []"
  by (cases m) auto

lemma addName_not_Nil: "c \<noteq> [] \<Longrightarrow> addName t x c \<noteq> []"
  by (cases x) (simp add: addName_def split: option.split)

lemma addType_not_Nil: "addType x c \<noteq> []"
proof -
  have f: "c \<noteq> [] \<Longrightarrow> fold (addName t) xs c \<noteq> []" for t xs and c :: counters
    by (induction xs arbitrary: c) (simp_all add: addName_not_Nil)
  obtain t m where x: "x = (t, m)" by force
  have "(if mhas c t then c else mput t [] c) \<noteq> []" by (auto simp: mhas_def)
  then show ?thesis unfolding x addType_def case_prod_conv by (rule f)
qed

lemma counters_add_Nil: "counters_add c v = [] \<longleftrightarrow> c = [] \<and> orZero [] (asObj v) = []"
proof -
  have "fold addType xs c \<noteq> []" if "c \<noteq> []" for xs c
    using that by (induction xs arbitrary: c) (simp_all add: addType_not_Nil)
  then have "fold addType xs c = [] \<longleftrightarrow> c = [] \<and> xs = []" for xs
    by (cases xs) (auto simp: addType_not_Nil)
  then show ?thesis by (simp add: counters_add_def)
qed

lemma fold_wire_Nil:
  "mgWire (fold mergeSession ss g) = [] \<longleftrightarrow> mgWire g = [] \<and> (\<forall>s \<in> set ss. orZero [] (asObj (field s ''wire'')) = [])"
  by (induction ss arbitrary: g) (auto simp: mergeSession_parts counters_add_Nil)

lemma fold_put_arr:
  "mapOk ls \<Longrightarrow> mget JNull (fold (\<lambda>(k, l). mput k (arr l)) ls out) k = (if mhas ls k then arr (mget [] ls k) else mget JNull out k)"
proof (induction ls arbitrary: out)
  case (Cons x ls)
  obtain k' l where x: "x = (k', l)" by force
  with Cons.prems have fresh: "\<not> mhas ls k'" and ok: "mapOk ls" by (auto simp: mapOk_def mhas_def)
  have "mget [] ((k', l) # ls) k = (if k = k' then l else mget [] ls k)" "mhas ((k', l) # ls) k \<longleftrightarrow> k = k' \<or> mhas ls k"
    by (auto simp: mget_def mhas_def)
  with fresh show ?case by (simp add: x Cons.IH [OF ok])
qed (simp add: mhas_def)

lemma mget_map_value: "f z = z' \<Longrightarrow> mget z' (map (\<lambda>(k, v). (k, f v)) m) k = f (mget z m k)"
  by (auto simp: mget_def map_of_map split: option.split)

text \<open>The number an object of counters has under a type and a name, zero without one.\<close>

definition numAt :: "json \<Rightarrow> string \<Rightarrow> string \<Rightarrow> float64" where
  "numAt v typ name = orZero 0 (asNum (field (orZero [] (asObj (field (orZero [] (asObj v)) typ))) name))"

lemma numAt_wireObj: "numAt (wireObj c) typ name = countOf c typ name"
proof -
  let ?o = "\<lambda>m. JObj (map (\<lambda>(name, f). (name, JNum f)) m)"
  have t: "orZero [] (asObj (mget JNull (map (\<lambda>(t, m). (t, ?o m)) c) typ)) = map (\<lambda>(name, f). (name, JNum f)) (mget [] c typ)"
    by (auto simp: mget_def map_of_map asObj_def orZero_def split: option.split)
  have "orZero 0 (asNum (mget JNull (map (\<lambda>(name, f). (name, JNum f)) m) name)) = mget 0 m name" for m
    by (auto simp: mget_def map_of_map asNum_def orZero_def split: option.split)
  with t show ?thesis by (simp add: numAt_def wireObj_def countOf_def field_def) (simp add: asObj_def orZero_def)
qed

lemma mergeSession_samples:
  "mget [] (mgLists (mergeSession s g)) ''samples'' = mget [] (mgLists g) ''samples''
     @ map (carrySample (mgWire g)) (orZero [] (asArr (field s ''samples'')))"
  using fold_mergeList_get [of listKeys s _ "''samples''"]
  by (simp add: mergeSession_def Let_def mergeSamples_def appendList_def orZero_def split: option.split flip: listKeys_def)

text \<open>A sample without the counters that a merge may raise.\<close>

definition sansWire :: "json \<Rightarrow> json" where
  "sansWire smp = (case asObj smp of None \<Rightarrow> smp | Some m \<Rightarrow> JObj (mdel ''wire'' m))"

lemma sansWire_carry [simp]: "sansWire (carrySample c smp) = sansWire smp"
  by (cases smp) (simp_all add: sansWire_def carrySample_def asObj_def delete_update_same)

definition samplesIn :: "(string \<times> json) list \<Rightarrow> json list" where
  "samplesIn s = orZero [] (asArr (field s ''samples''))"

lemma fold_samples:
  "map sansWire (mget [] (mgLists (fold mergeSession ss g)) ''samples'')
     = map sansWire (mget [] (mgLists g) ''samples'') @ map sansWire (concat (map samplesIn ss))"
  by (induction ss arbitrary: g) (simp_all add: mergeSession_samples samplesIn_def comp_def)

text \<open>Drops, the first capable record and the finds of the dialer, session by session.\<close>

definition dropsIn :: "(string \<times> json) list \<Rightarrow> float64 list" where
  "dropsIn s = (case asNum (field s ''peer_drops'') of None \<Rightarrow> [] | Some d \<Rightarrow> [d])"

definition capableIn :: "(string \<times> json) list \<Rightarrow> float64 list" where
  "capableIn s = (case asNum (field s ''first_capable_ms'') of None \<Rightarrow> [] | Some f \<Rightarrow> if f \<ge> 0 then [f] else [])"

definition connIn :: "(string \<times> json) list \<Rightarrow> (string \<times> json) list list" where
  "connIn s = (case asObj (field s ''conn'') of None \<Rightarrow> [] | Some c \<Rightarrow> [c])"

definition startOf :: "(string \<times> json) list \<Rightarrow> float64" where
  "startOf c = orZero 0 (asNum (field c ''start_ms''))"

text \<open>The finds of a session, with their times on the clock the start is given on.\<close>

definition findsIn :: "(string \<times> json) list \<Rightarrow> (json \<times> float64) list" where
  "findsIn s = concat (map (\<lambda>c. map (\<lambda>f. let fm = orZero [] (asObj f)
     in (field fm ''id'', fadd (startOf c) (orZero 0 (asNum (field fm ''at_ms''))))) (orZero [] (asArr (field c ''found'')))) (connIn s))"

definition lastConn :: "(string \<times> json) list option \<Rightarrow> (string \<times> json) list list \<Rightarrow> (string \<times> json) list option" where
  "lastConn o' cs = (if cs = [] then o' else Some (last cs))"

definition minOr :: "float64 \<Rightarrow> float64 list \<Rightarrow> float64" where
  "minOr c fs = foldl (\<lambda>c f. if c < 0 \<or> f < c then f else c) c fs"

lemma mergeSession_rest:
  "mgDrops (mergeSession s g) = foldl fadd (mgDrops g) (dropsIn s)"
  "mgCapable (mergeSession s g) = minOr (mgCapable g) (capableIn s)"
  "mgConn (mergeSession s g) = lastConn (mgConn g) (connIn s)"
  "mgFound (mergeSession s g) = mgFound g @ findsIn s"
  by (simp_all add: mergeSession_def Let_def dropsIn_def capableIn_def minOr_def connIn_def lastConn_def findsIn_def startOf_def
      mergeConn_def orZero_def split: option.split del: fold.simps)

lemma lastConn_append: "lastConn (lastConn o' xs) ys = lastConn o' (xs @ ys)"
  by (simp add: lastConn_def)

lemma fold_rest:
  "mgDrops (fold mergeSession ss g) = foldl fadd (mgDrops g) (concat (map dropsIn ss))"
  "mgCapable (fold mergeSession ss g) = minOr (mgCapable g) (concat (map capableIn ss))"
  "mgConn (fold mergeSession ss g) = lastConn (mgConn g) (concat (map connIn ss))"
  "mgFound (fold mergeSession ss g) = mgFound g @ concat (map findsIn ss)"
  by (induction ss arbitrary: g, simp_all add: mergeSession_rest minOr_def lastConn_append) (simp add: lastConn_def)

lemma capableIn_nonneg: "\<forall>f \<in> set (concat (map capableIn ss)). 0 \<le> f"
  by (auto simp: capableIn_def split: option.splits if_splits)

lemma minOr_start: "0 \<le> c \<Longrightarrow> \<forall>f \<in> set fs. 0 \<le> f \<Longrightarrow> minOr c fs = Min (set (c # fs))"
proof (induction fs arbitrary: c)
  case (Cons f fs)
  have "minOr c (f # fs) = minOr (min c f) fs" using Cons.prems by (simp add: minOr_def min_def)
  also have "\<dots> = Min (set (min c f # fs))" using Cons.prems by (intro Cons.IH) auto
  also have "\<dots> = Min (set (c # f # fs))" by (cases "fs = []") (simp_all add: min.assoc)
  finally show ?case .
qed (simp add: minOr_def)

lemma minOr_first: "fs \<noteq> [] \<Longrightarrow> \<forall>f \<in> set fs. 0 \<le> f \<Longrightarrow> minOr (-1) fs = Min (set fs) \<and> 0 \<le> Min (set fs)"
  using minOr_start [of "hd fs" "tl fs"] by (cases fs) (auto simp: minOr_def)

section \<open>Properties\<close>

text \<open>
  C27: Merging the traces of the sessions loses nothing of what is in them. The lookups, operations, refills and
  admissions are those of every session in order, and so are the samples, up to their counters; the message
  counters and, where the last session has any, the dropped peers are summed over the sessions in the order of
  their files; the first capable record is the earliest; the finds of the dialer are those of every
  session in order, timed from the start of the last session that dialed, whose other fields are kept; and
  \<open>sessions\<close> lists the period of each.
\<close>

theorem mergeTraces_totals:
  assumes "mergeTraces ss = Some out"
  shows "field out ''sessions'' = arr (concat (map (\<lambda>s. if mhas s ''session'' then [field s ''session''] else []) ss))
    \<and> (\<forall>k \<in> {''lookups'', ''ops'', ''refill_ms'', ''admissions''}. (\<exists>s \<in> set ss. asArr (field s k) \<noteq> None) \<longrightarrow>
         field out k = arr (concat (map (\<lambda>s. orZero [] (asArr (field s k))) ss)))
    \<and> ((\<exists>s \<in> set ss. orZero [] (asObj (field s ''wire'')) \<noteq> []) \<longrightarrow>
         (\<forall>typ name. numAt (field out ''wire'') typ name
            = foldl fadd 0 (concat (map (\<lambda>s. numsOf typ name (field s ''wire'')) ss))))
    \<and> (concat (map samplesIn ss) \<noteq> [] \<longrightarrow>
         (\<exists>l. field out ''samples'' = JArr l \<and> map sansWire l = map sansWire (concat (map samplesIn ss))))
    \<and> (mhas (last ss) ''peer_drops'' \<longrightarrow> field out ''peer_drops'' = JNum (foldl fadd 0 (concat (map dropsIn ss))))
    \<and> (concat (map capableIn ss) \<noteq> [] \<longrightarrow> field out ''first_capable_ms'' = JNum (Min (set (concat (map capableIn ss)))))
    \<and> (concat (map connIn ss) \<noteq> [] \<longrightarrow> (let c = last (concat (map connIn ss)) in \<exists>c'. field out ''conn'' = JObj c'
         \<and> field c' ''found'' = arr (map (\<lambda>(i, t). JObj [(''id'', i), (''at_ms'', JNum (fsub t (startOf c)))]) (concat (map findsIn ss)))
         \<and> (\<forall>k. k \<noteq> ''found'' \<longrightarrow> field c' k = field c k)))"
proof -
  define g where "g = fold mergeSession ss newMerge"
  have ok: "mapOk (mgLists g)" unfolding g_def by (rule mapOk_mergeSessions) (simp add: newMerge_def)
  let ?o1 = "fold (\<lambda>(k, l). mput k (arr l)) (mgLists g) (last ss)"
  define o2 where "o2 = (if mhas ?o1 ''peer_drops'' then mput ''peer_drops'' (JNum (mgDrops g)) ?o1 else ?o1)"
  define o3 where "o3 = (if mgWire g \<noteq> [] then mput ''wire'' (wireObj (mgWire g)) o2 else o2)"
  define o4 where "o4 = (if mgCapable g \<ge> 0 then mput ''first_capable_ms'' (JNum (mgCapable g)) o3 else o3)"
  define o5 where "o5 = (case mgConn g of None \<Rightarrow> o4 | Some c \<Rightarrow> mput ''conn'' (connObj c (mgFound g)) o4)"
  have out: "out = mput ''sessions'' (arr (mgSessions g)) (mdel ''session'' o5)"
    using assms unfolding mergeTraces_def Let_def g_def [symmetric] o2_def [symmetric] o3_def [symmetric]
      o4_def [symmetric] o5_def [symmetric]
    by (simp split: if_splits)
  have o5: "mget JNull o5 k = mget JNull o4 k" if "k \<noteq> ''conn''" for k
    using that by (simp add: o5_def split: option.split)
  have list: "mget JNull o5 k = mget JNull ?o1 k" if "k \<in> set listKeys \<or> k = ''samples''" for k
    using that by (subst o5) (auto simp: listKeys_def o4_def o3_def o2_def)
  have wire: "mget JNull o5 ''wire'' = wireObj (mgWire g)" if "mgWire g \<noteq> []"
    using that by (subst o5) (simp_all add: o4_def o3_def)
  have "field out ''sessions'' = arr (mgSessions g)" by (simp add: out field_def)
  then have "field out ''sessions'' = arr (concat (map (\<lambda>s. if mhas s ''session'' then [field s ''session''] else []) ss))"
    using fold_mergeSession(1) [of ss newMerge] by (simp add: g_def) (simp add: newMerge_def)
  moreover have "field out k = arr (concat (map (\<lambda>s. orZero [] (asArr (field s k))) ss))"
    if k: "k \<in> set listKeys" and ex: "\<exists>s \<in> set ss. asArr (field s k) \<noteq> None" for k
  proof -
    have "k \<noteq> ''sessions''" "k \<noteq> ''session''" using k by (auto simp: listKeys_def)
    then have "field out k = mget JNull ?o1 k" using k by (simp add: out field_def list)
    also have "\<dots> = arr (mget [] (mgLists g) k)"
    proof -
      have "mhas (mgLists g) k" using ex mhas_mergeSessions [OF k, of ss newMerge] by (simp add: g_def)
      then show ?thesis by (simp add: fold_put_arr [OF ok])
    qed
    finally show ?thesis using fold_mergeSession(3) [OF k, of ss newMerge] by (simp add: g_def newMerge_def)
  qed
  moreover have "numAt (field out ''wire'') ty name = foldl fadd 0 (concat (map (\<lambda>s. numsOf ty name (field s ''wire'')) ss))"
    if "\<exists>s \<in> set ss. orZero [] (asObj (field s ''wire'')) \<noteq> []" for ty name
  proof -
    have "mgWire g \<noteq> []" using that by (simp add: g_def fold_wire_Nil)
    then have "field out ''wire'' = wireObj (mgWire g)" by (simp add: out field_def wire)
    then show ?thesis using fold_mergeSession(2) [of ss newMerge ty name]
      by (simp add: numAt_wireObj g_def) (simp add: newMerge_def countOf_def)
  qed
  moreover have "\<exists>l. field out ''samples'' = JArr l \<and> map sansWire l = map sansWire (concat (map samplesIn ss))"
    if "concat (map samplesIn ss) \<noteq> []"
  proof -
    let ?l = "mget [] (mgLists g) ''samples''"
    have l: "map sansWire ?l = map sansWire (concat (map samplesIn ss))"
      using fold_samples [of ss newMerge] by (simp add: g_def newMerge_def)
    then have "?l \<noteq> []" using that by (metis Nil_is_map_conv)
    then have "mhas (mgLists g) ''samples''" using mget_missing [of "mgLists g" "''samples''" "[]"] by auto
    then have "field out ''samples'' = JArr ?l"
      using \<open>?l \<noteq> []\<close> by (simp add: out field_def list fold_put_arr [OF ok]) (simp add: arr_def)
    with l show ?thesis by blast
  qed
  moreover have "field out ''peer_drops'' = JNum (foldl fadd 0 (concat (map dropsIn ss)))" if "mhas (last ss) ''peer_drops''"
  proof -
    have "mhas (fold (\<lambda>(k, l). mput k (arr l)) ls o') ''peer_drops''" if "mhas o' ''peer_drops''" for ls :: "(string, json list) gomap" and o'
      using that by (induction ls arbitrary: o') auto
    then have "mhas ?o1 ''peer_drops''" using that by blast
    then have "field out ''peer_drops'' = JNum (mgDrops g)" by (simp add: out field_def o5) (simp add: o4_def o3_def o2_def)
    then show ?thesis using fold_rest(1) [of ss newMerge] by (simp add: g_def) (simp add: newMerge_def)
  qed
  moreover have "field out ''first_capable_ms'' = JNum (Min (set (concat (map capableIn ss))))" if "concat (map capableIn ss) \<noteq> []"
  proof -
    have "mgCapable g = minOr (-1) (concat (map capableIn ss))" using fold_rest(2) [of ss newMerge] by (simp add: g_def newMerge_def)
    with minOr_first [OF that capableIn_nonneg] have "mgCapable g = Min (set (concat (map capableIn ss)))" "0 \<le> mgCapable g" by simp_all
    then show ?thesis by (simp add: out field_def o5) (simp add: o4_def)
  qed
  moreover have "\<exists>c'. field out ''conn'' = JObj c'
      \<and> field c' ''found'' = arr (map (\<lambda>(i, t). JObj [(''id'', i), (''at_ms'', JNum (fsub t (startOf c)))]) (concat (map findsIn ss)))
      \<and> (\<forall>k. k \<noteq> ''found'' \<longrightarrow> field c' k = field c k)"
    if "concat (map connIn ss) \<noteq> []" "c = last (concat (map connIn ss))" for c
  proof -
    have "mgConn g = Some c" "mgFound g = concat (map findsIn ss)"
      using that fold_rest(3,4) [of ss newMerge] by (simp_all add: g_def lastConn_def newMerge_def)
    then have "field out ''conn'' = connObj c (concat (map findsIn ss))" by (simp add: out field_def o5_def)
    then show ?thesis by (simp add: connObj_def Let_def startOf_def field_def)
  qed
  ultimately show ?thesis unfolding listKeys_def Let_def by simp
qed

lemma mergeTraces_totals_witness:
  "\<exists>out l. mergeTraces [[(''session'', JBool True), (''ops'', JArr [JNull]), (''samples'', JArr [JNum 1]), (''wire'', JObj [(''PING'', JObj [(''tx_msgs'', JNum 2)])])],
                 [(''ops'', JArr [JBool True]), (''peer_drops'', JNum 3)]] = Some out
     \<and> field out ''ops'' = JArr [JNull, JBool True] \<and> field out ''peer_drops'' = JNum (fadd 0 3) \<and> field out ''samples'' = JArr l \<and> length l = 1"
proof -
  let ?s = "[(''session'', JBool True), (''ops'', JArr [JNull]), (''samples'', JArr [JNum 1]), (''wire'', JObj [(''PING'', JObj [(''tx_msgs'', JNum 2)])])]"
  let ?t = "[(''ops'', JArr [JBool True]), (''peer_drops'', JNum 3)]"
  obtain out where o': "mergeTraces [?s, ?t] = Some out" by (simp add: mergeTraces_def Let_def)
  have sm: "concat (map samplesIn [?s, ?t]) = [JNum 1]" by (simp add: samplesIn_def field_def mget_def asArr_def orZero_def)
  have dr: "concat (map dropsIn [?s, ?t]) = [3]" "mhas (last [?s, ?t]) ''peer_drops''"
    by (simp_all add: dropsIn_def field_def mget_def asNum_def mhas_def)
  have op: "\<exists>s \<in> set [?s, ?t]. asArr (field s ''ops'') \<noteq> None" by (simp add: field_def mget_def asArr_def)
  note T = mergeTraces_totals [OF o']
  have "field out ''ops'' = arr (concat (map (\<lambda>s. orZero [] (asArr (field s ''ops''))) [?s, ?t]))" using T op by blast
  then have "field out ''ops'' = JArr [JNull, JBool True]" by (simp add: field_def mget_def asArr_def arr_def orZero_def)
  moreover have "field out ''peer_drops'' = JNum (foldl fadd 0 [3])" using T dr by metis
  moreover obtain l where "field out ''samples'' = JArr l" "map sansWire l = map sansWire [JNum 1]" using T sm by (metis list.distinct(1))
  moreover from this(2) have "length l = 1" by (metis One_nat_def length_map list.size(3) list.size(4) add.commute plus_1_eq_Suc)
  ultimately show ?thesis using o' by auto
qed

section \<open>Samples\<close>

text \<open>A sample that has counted a name of a type itself.\<close>

definition counted :: "json \<Rightarrow> string \<Rightarrow> string \<Rightarrow> bool" where
  "counted v typ name \<longleftrightarrow> mhas (orZero [] (asObj v)) typ
     \<and> mhas (orZero [] (asObj (field (orZero [] (asObj v)) typ))) name"

lemma mget_map_pair: "mget z (map (\<lambda>(k, v). (k, f k v)) m) k = (if mhas m k then f k (mget z' m k) else z)"
  by (induction m) (auto simp: mget_def mhas_def)

lemma numAt_plus:
  "numAt (counters_plus c v) ty name = (if counted v ty name then fadd (numAt v ty name) (countOf c ty name) else 0)"
proof -
  have z: "orZero [] (asObj JNull) = []" "orZero 0 (asNum JNull) = 0" by (simp_all add: orZero_def asObj_def asNum_def)
  have o: "orZero [] (asObj (JObj m)) = m" "orZero 0 (asNum (JNum f)) = f" for m f
    by (simp_all add: orZero_def asObj_def asNum_def)
  show ?thesis unfolding numAt_def counters_plus_def counted_def field_def countOf_def o
    by (simp add: mget_map_pair [where z' = JNull] o z mget_missing)
qed

lemma fold_samples_mono: "set (mget [] (mgLists g) ''samples'') \<subseteq> set (mget [] (mgLists (fold mergeSession ss g)) ''samples'')"
proof (induction ss arbitrary: g)
  case (Cons s ss)
  have "set (mget [] (mgLists g) ''samples'') \<subseteq> set (mget [] (mgLists (mergeSession s g)) ''samples'')"
    by (simp add: mergeSession_samples)
  then show ?case using Cons.IH [of "mergeSession s g"] by (simp add: subset_trans)
qed simp

lemma samples_of_merge:
  assumes "mergeTraces ss = Some out" "l \<noteq> []" "mget [] (mgLists (fold mergeSession ss newMerge)) ''samples'' = l"
  shows "field out ''samples'' = JArr l"
proof -
  define g where "g = fold mergeSession ss newMerge"
  have ok: "mapOk (mgLists g)" unfolding g_def by (rule mapOk_mergeSessions) (simp add: newMerge_def)
  have "mhas (mgLists g) ''samples''" using assms(2,3) mget_missing [of "mgLists g" "''samples''" "[]"] by (auto simp: g_def)
  then have "mget JNull (fold (\<lambda>(k, l). mput k (arr l)) (mgLists g) (last ss)) ''samples'' = JArr l"
    using assms(2,3) by (simp only: fold_put_arr [OF ok] if_True) (simp add: g_def arr_def)
  then show ?thesis using assms(1) by (auto simp: mergeTraces_def Let_def g_def field_def split: if_splits option.splits)
qed

text \<open>
  C28: After a session that counted messages, a sample of a later session is carried on: a counter the
  sample has is raised by what all earlier sessions counted. A counter the sample does not have yet
  stays out of it, so there it reads zero however much the earlier sessions counted; every other
  field of the sample is kept.
\<close>

theorem merged_samples_carry:
  assumes "mergeTraces ss = Some out" "i < length ss" "field (ss ! i) ''samples'' = JArr l" "JObj m \<in> set l"
    and "\<exists>s \<in> set (take i ss). orZero [] (asObj (field s ''wire'')) \<noteq> []"
  shows "\<exists>l' m'. field out ''samples'' = JArr l' \<and> JObj m' \<in> set l' \<and> (\<forall>k. k \<noteq> ''wire'' \<longrightarrow> field m' k = field m k)
    \<and> (\<forall>ty name. numAt (field m' ''wire'') ty name
         = (if counted (field m ''wire'') ty name
            then fadd (numAt (field m ''wire'') ty name)
                   (foldl fadd 0 (concat (map (\<lambda>s. numsOf ty name (field s ''wire'')) (take i ss))))
            else 0))"
proof -
  define g where "g = fold mergeSession (take i ss) newMerge"
  define w where "w = mgWire g"
  define m' where "m' = mput ''wire'' (counters_plus w (field m ''wire'')) m"
  define r where "r = mget [] (mgLists (fold mergeSession ss newMerge)) ''samples''"
  have "w \<noteq> []" using assms(5) by (simp add: w_def g_def fold_wire_Nil)
  then have "carrySample w (JObj m) = JObj m'" by (simp add: carrySample_def asObj_def m'_def)
  then have "JObj m' \<in> set (mget [] (mgLists (mergeSession (ss ! i) g)) ''samples'')"
    using assms(3,4) by (force simp: mergeSession_samples asArr_def orZero_def w_def)
  moreover have "fold mergeSession ss newMerge = fold mergeSession (drop (Suc i) ss) (mergeSession (ss ! i) g)"
    using id_take_nth_drop [OF assms(2)] by (metis fold_append fold_simps(2) g_def o_apply)
  ultimately have "JObj m' \<in> set r" using fold_samples_mono unfolding r_def by fastforce
  moreover from this have "field out ''samples'' = JArr r" by (intro samples_of_merge [OF assms(1)]) (auto simp: r_def)
  moreover have "numAt (field m' ''wire'') ty name = (if counted (field m ''wire'') ty name
      then fadd (numAt (field m ''wire'') ty name)
             (foldl fadd 0 (concat (map (\<lambda>s. numsOf ty name (field s ''wire'')) (take i ss)))) else 0)" for ty name
    using fold_mergeSession(2) [of "take i ss" newMerge ty name]
    by (simp add: m'_def field_def numAt_plus w_def g_def newMerge_def countOf_def)
  moreover have "\<forall>k. k \<noteq> ''wire'' \<longrightarrow> field m' k = field m k" by (simp add: m'_def field_def)
  ultimately show ?thesis by blast
qed

lemma merged_samples_carry_witness:
  "\<exists>out l' m'. mergeTraces [[(''wire'', JObj [(''PING'', JObj [(''tx_msgs'', JNum 2)])])],
                        [(''samples'', JArr [JObj [(''at_ms'', JNum 7)]])]] = Some out
     \<and> field out ''samples'' = JArr l' \<and> JObj m' \<in> set l' \<and> field m' ''at_ms'' = JNum 7
     \<and> numAt (field m' ''wire'') ''PING'' ''tx_msgs'' = 0"
proof -
  let ?s = "[(''wire'', JObj [(''PING'', JObj [(''tx_msgs'', JNum 2)])])]"
  let ?t = "[(''samples'', JArr [JObj [(''at_ms'', JNum 7)]])]"
  obtain out where o: "mergeTraces [?s, ?t] = Some out" by (simp add: mergeTraces_def Let_def)
  have "\<not> counted (field [(''at_ms'', JNum 7)] ''wire'') ''PING'' ''tx_msgs''"
    by (simp add: counted_def field_def mget_def asObj_def orZero_def)
  moreover have "\<exists>s \<in> set (take 1 [?s, ?t]). orZero [] (asObj (field s ''wire'')) \<noteq> []"
    by (simp add: field_def mget_def asObj_def orZero_def)
  ultimately obtain l' m' where r: "field out ''samples'' = JArr l'" "JObj m' \<in> set l'"
    "field m' ''at_ms'' = field [(''at_ms'', JNum 7)] ''at_ms''" "numAt (field m' ''wire'') ''PING'' ''tx_msgs'' = 0"
    using merged_samples_carry [OF o, of 1 "[JObj [(''at_ms'', JNum 7)]]" "[(''at_ms'', JNum 7)]"]
    by (simp add: field_def [of ?t] mget_def del: split_paired_Ex) fastforce
  then have "field m' ''at_ms'' = JNum 7" by (simp add: field_def mget_def)
  with o r show ?thesis by blast
qed

section \<open>The parked sessions\<close>

text \<open>
  Reading the parked sessions ends as soon as the file of one number is missing, with the
  contents of the files before it in order.
\<close>

theorem sessionParts_ends:
  assumes "file (sessionPath trace n) = None" "\<And>k. 1 \<le> k \<Longrightarrow> k < n \<Longrightarrow> file (sessionPath trace k) \<noteq> None" "1 \<le> n"
  shows "sessionParts file trace 1 = Some (map (\<lambda>k. the (file (sessionPath trace k))) [1..<n])"
proof -
  have "1 \<le> k \<Longrightarrow> k \<le> n \<Longrightarrow> sessionParts file trace k = Some (map (\<lambda>k. the (file (sessionPath trace k))) [k..<n])" for k
  proof (induction "n - k" arbitrary: k)
    case 0
    then show ?case using assms(1) by (simp add: sessionParts.simps)
  next
    case (Suc d)
    then have "k < n" "sessionParts file trace (k + 1) = Some (map (\<lambda>k. the (file (sessionPath trace k))) [k + 1..<n])" by simp_all
    moreover obtain b where "file (sessionPath trace k) = Some b" using assms(2) [of k] Suc.prems \<open>k < n\<close> by blast
    ultimately show ?case by (subst sessionParts.simps) (simp add: upt_conv_Cons)
  qed
  then show ?thesis using assms(3) by simp
qed

lemma sessionParts_ends_witness:
  "sessionParts (\<lambda>p. if p = sessionPath ''n.json'' 1 then Some True else None) ''n.json'' 1 = Some [True]"
proof -
  have "natToStr 2 \<noteq> natToStr 1" by (metis digitsVal_natToStr option.inject numeral_eq_one_iff semiring_norm(85))
  then have "sessionPath ''n.json'' 2 \<noteq> sessionPath ''n.json'' 1" by (simp add: sessionPath_def Itoa_def)
  then show ?thesis
    using sessionParts_ends [of "\<lambda>p. if p = sessionPath ''n.json'' 1 then Some True else None" "''n.json''" 2]
    by (simp add: less_2_cases_iff upt_rec)
qed

end
