(* ===== verification/RunMetrics.thy ===== *)
theory RunMetrics
  imports Assign GoFloat GoString
begin

text \<open>
  The metrics of a real run (\<open>src/pkg/coordinator/metrics.go\<close>): the traces of the nodes are folded, one at
  a time, into the result of every search, the coverage and timing of the registrations, the network
  time series on a common clock, and the summaries by topic. Decoding a trace is an argument, in its
  lean and its full form, and so is the hash of a topic name; a trace that cannot be read or decoded is \<open>None\<close>.
\<close>

section \<open>Traces\<close>

record searchStats =
  Passes :: int
  stQueries :: int
  stContacted :: int
  Received :: int
  Duplicate :: int
  Filtered :: int
  Yielded :: int
  MaxTopicPerReply :: int
  MaxAuxPerReply :: int
  QueriesByBucket :: "int list"
  ActiveTrace :: "(int \<times> int) list"

definition zeroStats :: searchStats where
  "zeroStats = \<lparr>Passes = 0, stQueries = 0, stContacted = 0, Received = 0, Duplicate = 0, Filtered = 0, Yielded = 0,
     MaxTopicPerReply = 0, MaxAuxPerReply = 0, QueriesByBucket = [], ActiveTrace = []\<rparr>"

definition addBucketCount :: "nat \<times> int \<Rightarrow> int list \<Rightarrow> int list" where
  "addBucketCount = (\<lambda>(i, q) d. let d = (if i = length d then d @ [0] else d) in d[i := d ! i + q])"

definition addStats :: "searchStats option \<Rightarrow> searchStats option \<Rightarrow> searchStats option" where
  "addStats dst st = (case st of None \<Rightarrow> dst
     | Some s \<Rightarrow> let d = (case dst of None \<Rightarrow> zeroStats | Some d \<Rightarrow> d)
         in Some (d\<lparr>Passes := Passes d + Passes s, stQueries := stQueries d + stQueries s,
              stContacted := stContacted d + stContacted s, Received := Received d + Received s,
              Duplicate := Duplicate d + Duplicate s, Filtered := Filtered d + Filtered s, Yielded := Yielded d + Yielded s,
              MaxTopicPerReply := max (MaxTopicPerReply d) (MaxTopicPerReply s),
              MaxAuxPerReply := max (MaxAuxPerReply d) (MaxAuxPerReply s),
              QueriesByBucket := fold addBucketCount (enumerate 0 (QueriesByBucket s)) (QueriesByBucket d),
              ActiveTrace := (if ActiveTrace d = [] then ActiveTrace s else ActiveTrace d)\<rparr>))"

type_synonym rawFind = "string \<times> int"

record rawLookup =
  StartMs :: int
  LatencyMs :: int
  FirstMs :: int
  Results :: int
  HitTarget :: bool
  lQueries :: int
  lContacted :: int
  lSearch :: "searchStats option"
  lFound :: "rawFind list"

record rawConn =
  cStartMs :: int
  cFound :: "rawFind list"
  SlotsFilledMs :: int
  cSearch :: "searchStats option"

record waitStats =
  Admitted :: int
  Quoted :: int
  QuotedMs :: "int list"
  AdmittedMs :: "int list"

type_synonym wireCounts = "(string, (string, int) gomap) gomap"

record rawSample =
  sAtMs :: int
  sWire :: wireCounts
  sCacheHeld :: int
  sCacheCap :: int
  ByTopic :: "(string, int) gomap"

record rawTrace =
  tID :: string
  tLegacy :: bool
  tSearchAtMs :: int
  tLookups :: "rawLookup list"
  AdsFirstSeenMs :: "(string, (string, int) gomap) gomap"
  AdsFinal :: "(string, string list) gomap"
  tWait :: "(string, waitStats) gomap"
  tSamples :: "rawSample list"
  RegBucketFull :: "int list"
  RegCompleteMs :: int
  Outbound :: int
  tConn :: "rawConn option"

record leanTrace =
  ltID :: string
  ltSamples :: "int list"
  ltSession :: "(int \<times> int) option"
  ltSessions :: "(int \<times> int) list option"

definition spans :: "leanTrace \<Rightarrow> (int \<times> int) list option" where
  "spans lt = (case ltSessions lt of Some ss \<Rightarrow> Some ss
     | None \<Rightarrow> (case ltSession lt of Some s \<Rightarrow> Some [s] | None \<Rightarrow> None))"

definition onlineAt :: "(string, (int \<times> int) list) gomap \<Rightarrow> int \<Rightarrow> string \<Rightarrow> int \<Rightarrow> bool" where
  "onlineAt sess stopMs i atMs \<longleftrightarrow>
     \<not> mhas sess i \<or> stopMs = 0 \<or> (\<exists>s \<in> set (mget [] sess i). fst s \<le> atMs \<and> atMs \<le> snd s)"

section \<open>Names and buckets\<close>

definition seriesBuckets :: nat where "seriesBuckets = 50"

definition short :: "string \<Rightarrow> string" where
  "short i = (if length i > 16 then take 16 i else i)"

definition topicIndex :: "string \<Rightarrow> int" where
  "topicIndex name = fst (Atoi (if take 6 name = ''topic-'' then drop 6 name else name))"

text \<open>\<open>hex.DecodeString\<close>: pairs of digits below sixteen.\<close>

fun hexDecode :: "string \<Rightarrow> nat list option" where
  "hexDecode [] = Some []"
| "hexDecode [c] = None"
| "hexDecode (c # d # s) = (case (digitVal c, digitVal d, hexDecode s) of
     (Some x, Some y, Some bs) \<Rightarrow> if x < 16 \<and> y < 16 then Some ((16 * x + y) # bs) else None
   | _ \<Rightarrow> None)"

definition bigEndian :: "nat list \<Rightarrow> nat" where
  "bigEndian bs = foldl (\<lambda>n b. 256 * n + b) 0 bs"

definition bucketOfPrefix :: "nat \<Rightarrow> nat" where
  "bucketOfPrefix n = (let k = truncInt (fmul (fdiv (ofInt (int n)) (ofInt (2 ^ 64))) (ofInt (int seriesBuckets)))
     in if k \<ge> int seriesBuckets then seriesBuckets - 1 else nat k)"

definition idBucket :: "string \<Rightarrow> nat" where
  "idBucket i = (case hexDecode i of None \<Rightarrow> 0
     | Some b \<Rightarrow> if length b < 8 then 0 else bucketOfPrefix (bigEndian (take 8 b)))"

section \<open>Pass 1\<close>

record pass1State =
  topicOf :: "(nat, string) gomap"
  registrants :: "(string, (string, bool) gomap) gomap"
  providers :: "(string, (string, bool) gomap) gomap"
  sessionsOf :: "(string, (int \<times> int) list) gomap"
  topicIds :: "(string, int) gomap"
  present :: "(nat, bool) gomap"
  t0 :: int

definition newPass1 :: pass1State where
  "newPass1 = \<lparr>topicOf = [], registrants = [], providers = [], sessionsOf = [], topicIds = [], present = [], t0 = -1\<rparr>"

definition setMember :: "string \<Rightarrow> string \<Rightarrow> (string, (string, bool) gomap) gomap \<Rightarrow> (string, (string, bool) gomap) gomap" where
  "setMember th i m = mput th (mput i True (mget [] m th)) m"

definition pass1Step :: "(string \<Rightarrow> string) \<Rightarrow> (nat \<Rightarrow> leanTrace option) \<Rightarrow> Assignment \<Rightarrow> pass1State \<Rightarrow> pass1State" where
  "pass1Step topicHex lean a p =
     (let name = hd (aTopics a);
          th = topicHex name;
          p = p\<lparr>topicOf := mput (aIdx a) name (topicOf p), topicIds := mput th (topicIndex name) (topicIds p)\<rparr>
      in case lean (aIdx a) of None \<Rightarrow> p
       | Some lt \<Rightarrow> p\<lparr>present := mput (aIdx a) True (present p),
             providers := setMember th (ltID lt) (providers p),
             sessionsOf := (case spans lt of None \<Rightarrow> sessionsOf p | Some ss \<Rightarrow> mput (ltID lt) ss (sessionsOf p)),
             registrants := (if \<not> aLegacy a then setMember th (ltID lt) (registrants p) else registrants p),
             t0 := (if ltSamples lt \<noteq> [] \<and> (t0 p < 0 \<or> hd (ltSamples lt) < t0 p) then hd (ltSamples lt) else t0 p)\<rparr>)"

definition pass1 :: "(string \<Rightarrow> string) \<Rightarrow> (nat \<Rightarrow> leanTrace option) \<Rightarrow> Assignment list \<Rightarrow> pass1State" where
  "pass1 topicHex lean as = fold (pass1Step topicHex lean) as newPass1"

section \<open>The result of a search\<close>

record searchResult =
  NodeIdx :: nat
  rNodeID :: string
  rLegacy :: bool
  rTopic :: int
  Target :: int
  TargetOnline :: int
  UniqueFoundOnline :: "bool list"
  rFound :: int
  FoundRegistrant :: int
  UniqueRegistrant :: int
  NewRegistrant :: int
  NewFoundAtMs :: "int list"
  TimeToFirstNs :: int
  TimeToCompletionNs :: int
  HitTimeout :: bool
  FoundRegistrantIDs :: "string list"
  UniqueFoundAtMs :: "int list"
  UniqueFoundIDs :: "string list"
  OutboundConns :: int
  SlotsFilledAtMs :: int
  rLookups :: int
  LookupsHitTarget :: int
  LookupLatencyMs :: "int list"
  LookupResults :: "int list"
  SearchStartMs :: int
  LookupQueries :: "int list"
  LookupContacted :: "int list"
  SearchStats :: "searchStats option"

text \<open>The result under construction with the ids seen and the first and last times.\<close>

record searchAcc =
  accR :: searchResult
  accSeen :: "string list"
  accFirst :: int
  accLast :: int

definition newFind :: "bool \<Rightarrow> (string \<Rightarrow> bool) \<Rightarrow> string \<Rightarrow> int \<Rightarrow> searchAcc \<Rightarrow> searchAcc" where
  "newFind churned online i at' A =
     (if i \<in> set (accSeen A) then A
      else A\<lparr>accSeen := accSeen A @ [i],
             accR := (accR A)\<lparr>UniqueFoundOnline := (if churned then UniqueFoundOnline (accR A) @ [online i] else UniqueFoundOnline (accR A)),
                NewFoundAtMs := NewFoundAtMs (accR A) @ [at'], UniqueFoundAtMs := UniqueFoundAtMs (accR A) @ [at'],
                UniqueFoundIDs := UniqueFoundIDs (accR A) @ [short i]\<rparr>\<rparr>)"

definition lookupFind :: "bool \<Rightarrow> (string \<Rightarrow> bool) \<Rightarrow> int \<Rightarrow> rawLookup \<Rightarrow> rawFind \<Rightarrow> searchAcc \<Rightarrow> searchAcc" where
  "lookupFind churned online searchAt l f A =
     (let at' = StartMs l + snd f - searchAt
      in newFind churned online (fst f) at'
           (A\<lparr>accR := (accR A)\<lparr>FoundRegistrant := FoundRegistrant (accR A) + 1\<rparr>,
              accFirst := (if accFirst A < 0 \<or> at' < accFirst A then at' else accFirst A)\<rparr>))"

definition lookupDone :: "bool \<Rightarrow> (string \<Rightarrow> bool) \<Rightarrow> int \<Rightarrow> rawLookup \<Rightarrow> searchAcc \<Rightarrow> searchAcc" where
  "lookupDone churned online searchAt l A =
     (let r = accR A;
          end' = StartMs l + LatencyMs l - searchAt;
          r = r\<lparr>rFound := rFound r + Results l, HitTimeout := HitTimeout r \<or> \<not> HitTarget l,
                rLookups := rLookups r + 1, LookupsHitTarget := LookupsHitTarget r + (if HitTarget l then 1 else 0),
                LookupLatencyMs := LookupLatencyMs r @ [LatencyMs l], LookupResults := LookupResults r @ [Results l],
                LookupQueries := LookupQueries r @ (if lQueries l \<ge> 0 then [lQueries l] else []),
                LookupContacted := LookupContacted r @ (if lContacted l \<ge> 0 then [lContacted l] else []),
                SearchStats := addStats (SearchStats r) (lSearch l)\<rparr>
      in fold (lookupFind churned online searchAt l) (lFound l)
           (A\<lparr>accR := r, accLast := (if end' > accLast A then end' else accLast A)\<rparr>))"

definition connFind :: "bool \<Rightarrow> (string \<Rightarrow> bool) \<Rightarrow> (string, bool) gomap \<Rightarrow> int \<Rightarrow> rawConn \<Rightarrow> rawFind \<Rightarrow> searchAcc \<Rightarrow> searchAcc" where
  "connFind churned online prov searchAt c f A =
     (if \<not> mget False prov (fst f) then A
      else let at' = cStartMs c + snd f - searchAt
        in newFind churned online (fst f) at'
             (A\<lparr>accR := (accR A)\<lparr>rFound := rFound (accR A) + 1, FoundRegistrant := FoundRegistrant (accR A) + 1\<rparr>,
                accFirst := (if accFirst A < 0 \<or> at' < accFirst A then at' else accFirst A),
                accLast := (if at' > accLast A then at' else accLast A)\<rparr>))"

definition connDoneM :: "bool \<Rightarrow> (string \<Rightarrow> bool) \<Rightarrow> (string, bool) gomap \<Rightarrow> rawTrace \<Rightarrow> rawConn \<Rightarrow> searchAcc \<Rightarrow> searchAcc" where
  "connDoneM churned online prov t c A =
     (let A = fold (connFind churned online prov (tSearchAtMs t) c) (cFound c) A;
          r = accR A
      in A\<lparr>accR := r\<lparr>OutboundConns := Outbound t,
            SlotsFilledAtMs := (if SlotsFilledMs c \<ge> 0 then cStartMs c + SlotsFilledMs c - tSearchAtMs t else SlotsFilledAtMs r),
            SearchStats := addStats (SearchStats r) (cSearch c)\<rparr>\<rparr>)"

definition newResult :: "nat \<Rightarrow> rawTrace \<Rightarrow> int \<Rightarrow> int \<Rightarrow> int \<Rightarrow> int \<Rightarrow> searchResult" where
  "newResult idx t topicK target tonline epochMs =
     \<lparr>NodeIdx = idx, rNodeID = short (tID t), rLegacy = tLegacy t, rTopic = topicK, Target = target, TargetOnline = tonline,
      UniqueFoundOnline = [], rFound = 0, FoundRegistrant = 0, UniqueRegistrant = 0, NewRegistrant = 0, NewFoundAtMs = [],
      TimeToFirstNs = -1, TimeToCompletionNs = 0, HitTimeout = False, FoundRegistrantIDs = [], UniqueFoundAtMs = [],
      UniqueFoundIDs = [], OutboundConns = 0, SlotsFilledAtMs = 0, rLookups = 0, LookupsHitTarget = 0, LookupLatencyMs = [],
      LookupResults = [], SearchStartMs = tSearchAtMs t - epochMs, LookupQueries = [], LookupContacted = [], SearchStats = None\<rparr>"

text \<open>What a run fixes for the second pass: the first pass, the stop and the common clock of the timings.\<close>

record runEnv =
  eP :: pass1State
  topicHex :: "string \<Rightarrow> string"
  churned :: bool
  stopMs :: int
  epochMs :: int
  period :: int
  doSeries :: bool

definition online :: "runEnv \<Rightarrow> string \<Rightarrow> bool" where
  "online E i = onlineAt (sessionsOf (eP E)) (stopMs E) i (stopMs E)"

definition provOf :: "runEnv \<Rightarrow> nat \<Rightarrow> rawTrace \<Rightarrow> (string, bool) gomap" where
  "provOf E idx t = mget [] (if tLegacy t then providers (eP E) else registrants (eP E)) (topicHex E (mget [] (topicOf (eP E)) idx))"

definition searchStart :: "runEnv \<Rightarrow> nat \<Rightarrow> rawTrace \<Rightarrow> searchAcc" where
  "searchStart E idx t =
     (let th = topicHex E (mget [] (topicOf (eP E)) idx);
          prov = provOf E idx t;
          target = int (length prov) - (if mget False prov (tID t) then 1 else 0);
          tonline = int (length (filter (\<lambda>i. i \<noteq> tID t \<and> online E i) (map fst prov)))
      in \<lparr>accR = newResult idx t (mget 0 (topicIds (eP E)) th) target tonline (epochMs E), accSeen = [], accFirst = -1, accLast = 0\<rparr>)"

definition searchDone :: "searchAcc \<Rightarrow> searchResult" where
  "searchDone A = (let r = accR A
     in r\<lparr>UniqueRegistrant := int (length (accSeen A)), NewRegistrant := int (length (accSeen A)),
          TimeToFirstNs := (if accFirst A \<ge> 0 then accFirst A * 1000000 else TimeToFirstNs r),
          TimeToCompletionNs := accLast A * 1000000,
          FoundRegistrantIDs := FoundRegistrantIDs r @ UniqueFoundIDs r\<rparr>)"

definition searchOf :: "runEnv \<Rightarrow> nat \<Rightarrow> rawTrace \<Rightarrow> searchResult option" where
  "searchOf E idx t =
     (if \<not> tLegacy t \<or> tConn t \<noteq> None \<or> length (tLookups t) > 0
      then let A = fold (lookupDone (churned E) (online E) (tSearchAtMs t)) (tLookups t) (searchStart E idx t);
               A = (case tConn t of None \<Rightarrow> A | Some c \<Rightarrow> connDoneM (churned E) (online E) (provOf E idx t) t c A)
           in Some (searchDone A)
      else None)"

section \<open>Registrations\<close>

record coverage =
  ByRegistrant :: "(string, int) gomap"
  ByHost :: "(string, int) gomap"

record placeAgg =
  paSumNs :: int
  paCount :: int

definition nsOf :: "runEnv \<Rightarrow> int \<Rightarrow> int" where
  "nsOf E ms = (ms - epochMs E) * 1000000"

definition bucketTimes :: "runEnv \<Rightarrow> int list \<Rightarrow> int list" where
  "bucketTimes E = map (\<lambda>ms. if ms \<ge> 0 then nsOf E ms else -1)"

text \<open>The snapshot of a registrar: the ads of others it held at the end, and when it first saw each.\<close>

definition isAd :: "runEnv \<Rightarrow> string \<Rightarrow> rawTrace \<Rightarrow> string \<Rightarrow> bool" where
  "isAd E th t i \<longleftrightarrow> i \<noteq> tID t \<and> mget False (mget [] (registrants (eP E)) th) i"

definition heldAd :: "runEnv \<Rightarrow> string \<Rightarrow> rawTrace \<Rightarrow> string \<Rightarrow> int \<times> (string, int) gomap \<Rightarrow> int \<times> (string, int) gomap" where
  "heldAd E th t i = (\<lambda>(held, br). if isAd E th t i then (held + 1, madd i 1 br) else (held, br))"

definition coverTopic :: "runEnv \<Rightarrow> string \<Rightarrow> rawTrace \<Rightarrow> coverage \<Rightarrow> coverage" where
  "coverTopic E th t c =
     (let (held, br) = fold (heldAd E th t) (mget [] (AdsFinal t) th) (0, ByRegistrant c)
      in \<lparr>ByRegistrant = br, ByHost = mput (tID t) held (ByHost c)\<rparr>)"

definition seenAd :: "runEnv \<Rightarrow> string \<Rightarrow> rawTrace \<Rightarrow> string \<times> int \<Rightarrow> (string, int) gomap \<times> (string, placeAgg) gomap
    \<Rightarrow> (string, int) gomap \<times> (string, placeAgg) gomap" where
  "seenAd E th t = (\<lambda>(i, ms) (tm, pl).
     if \<not> isAd E th t i then (tm, pl)
     else let v = nsOf E ms;
              pa = mget \<lparr>paSumNs = 0, paCount = 0\<rparr> pl i
          in (if \<not> mhas tm i \<or> v < mget 0 tm i then mput i v tm else tm,
              mput i (pa\<lparr>paSumNs := paSumNs pa + v, paCount := paCount pa + 1\<rparr>) pl))"

section \<open>The time series\<close>

record bucketed =
  bTxBytes :: "int list"
  bRxBytes :: "int list"
  bTxMsgs :: "int list"
  bRxMsgs :: "int list"

record overheadSample =
  TSec :: float64
  TxBytes :: "int list"
  RxBytes :: "int list"
  TxMsgs :: "int list"
  RxMsgs :: "int list"
  ByType :: "(string, bucketed) gomap"
  SNodes :: "int list"
  CacheHeld :: int
  CacheCap :: int
  CacheByTopic :: "(string, int) gomap"

definition zeros :: "int list" where
  "zeros = replicate seriesBuckets 0"

definition newBucketed :: bucketed where
  "newBucketed = \<lparr>bTxBytes = zeros, bRxBytes = zeros, bTxMsgs = zeros, bRxMsgs = zeros\<rparr>"

definition newSample :: "runEnv \<Rightarrow> int \<Rightarrow> overheadSample" where
  "newSample E slot = \<lparr>TSec = fdiv (ofInt (slot * period E)) 1000, TxBytes = zeros, RxBytes = zeros, TxMsgs = zeros, RxMsgs = zeros,
     ByType = [], SNodes = zeros, CacheHeld = 0, CacheCap = 0, CacheByTopic = []\<rparr>"

definition addTo :: "nat \<Rightarrow> int \<Rightarrow> int list \<Rightarrow> int list" where
  "addTo b v xs = xs[b := xs ! b + v]"

definition foldType :: "nat \<Rightarrow> string \<times> (string, int) gomap \<Rightarrow> overheadSample \<Rightarrow> overheadSample" where
  "foldType bkt = (\<lambda>(ty, c) s.
     let bt = mget newBucketed (ByType s) ty
     in s\<lparr>TxBytes := addTo bkt (mget 0 c ''txBytes'') (TxBytes s), RxBytes := addTo bkt (mget 0 c ''rxBytes'') (RxBytes s),
          TxMsgs := addTo bkt (mget 0 c ''txMsgs'') (TxMsgs s), RxMsgs := addTo bkt (mget 0 c ''rxMsgs'') (RxMsgs s),
          ByType := mput ty \<lparr>bTxBytes = addTo bkt (mget 0 c ''txBytes'') (bTxBytes bt), bRxBytes = addTo bkt (mget 0 c ''rxBytes'') (bRxBytes bt),
             bTxMsgs = addTo bkt (mget 0 c ''txMsgs'') (bTxMsgs bt), bRxMsgs = addTo bkt (mget 0 c ''rxMsgs'') (bRxMsgs bt)\<rparr> (ByType s)\<rparr>)"

definition foldInto :: "nat \<Rightarrow> rawSample \<Rightarrow> overheadSample \<Rightarrow> overheadSample" where
  "foldInto bkt smp s =
     fold (foldType bkt) (sWire smp)
       (s\<lparr>SNodes := addTo bkt 1 (SNodes s), CacheHeld := CacheHeld s + sCacheHeld smp, CacheCap := CacheCap s + sCacheCap smp,
          CacheByTopic := fold (\<lambda>(th, n). madd th n) (ByTopic smp) (CacheByTopic s)\<rparr>)"

definition foldSlot :: "runEnv \<Rightarrow> nat \<Rightarrow> rawSample \<Rightarrow> int \<Rightarrow> (int, overheadSample) gomap \<Rightarrow> (int, overheadSample) gomap" where
  "foldSlot E bkt smp slot m = mput slot (foldInto bkt smp (mget (newSample E slot) m slot)) m"

definition slotOf :: "runEnv \<Rightarrow> int \<Rightarrow> int" where
  "slotOf E atMs = (atMs - t0 (eP E) + period E sdiv 2) sdiv period E"

text \<open>The last slot a sample is carried to: before the next sample, or to the end of the run.\<close>

definition untilSlot :: "runEnv \<Rightarrow> rawSample list \<Rightarrow> nat \<Rightarrow> int" where
  "untilSlot E ss i =
     (let slot = slotOf E (sAtMs (ss ! i))
      in if i + 1 < length ss then slotOf E (sAtMs (ss ! (i + 1))) - 1
         else if stopMs E > 0 \<and> slotOf E (stopMs E) > slot then slotOf E (stopMs E) else slot)"

definition foldCarried :: "runEnv \<Rightarrow> nat \<Rightarrow> rawSample list \<Rightarrow> nat \<Rightarrow> (int, overheadSample) gomap \<Rightarrow> (int, overheadSample) gomap" where
  "foldCarried E bkt ss i m = fold (foldSlot E bkt (ss ! i)) [slotOf E (sAtMs (ss ! i))..untilSlot E ss i] m"

definition foldSamples :: "runEnv \<Rightarrow> rawTrace \<Rightarrow> (int, overheadSample) gomap \<Rightarrow> (int, overheadSample) gomap" where
  "foldSamples E t m = fold (foldCarried E (idBucket (tID t)) (tSamples t)) [0..<length (tSamples t)] m"

section \<open>Pass 2\<close>

record waitOut =
  woTopic :: string
  woAdmitted :: int
  woQuoted :: int
  woQuotedMs :: "int list"
  woAdmittedMs :: "int list"

definition addWait :: "string \<times> waitStats \<Rightarrow> (string, waitOut) gomap \<Rightarrow> (string, waitOut) gomap" where
  "addWait = (\<lambda>(th, w) m.
     let o' = mget \<lparr>woTopic = th, woAdmitted = 0, woQuoted = 0, woQuotedMs = [], woAdmittedMs = []\<rparr> m th
     in mput th (o'\<lparr>woAdmitted := woAdmitted o' + Admitted w, woQuoted := woQuoted o' + Quoted w,
          woQuotedMs := woQuotedMs o' @ QuotedMs w, woAdmittedMs := woAdmittedMs o' @ AdmittedMs w\<rparr>) m)"

record accs =
  results :: "searchResult list"
  bucketFull :: "(string, (string, int list) gomap) gomap"
  completeNs :: "(string, (string, int) gomap) gomap"
  cov :: "(int, coverage) gomap"
  timing :: "(string, (string, int) gomap) gomap"
  placements :: "(string, (string, placeAgg) gomap) gomap"
  startNs :: "(string, int) gomap"
  slots :: "(int, overheadSample) gomap"
  waits :: "(string, waitOut) gomap"

definition newAccs :: "(string, int) gomap \<Rightarrow> accs" where
  "newAccs tids = \<lparr>results = [], bucketFull = [], completeNs = [],
     cov = fold (\<lambda>(th, k). mput k \<lparr>ByRegistrant = [], ByHost = []\<rparr>) tids [],
     timing = fold (\<lambda>(th, k). mput th []) tids [], placements = fold (\<lambda>(th, k). mput th []) tids [],
     startNs = [], slots = [], waits = []\<rparr>"

text \<open>The registration times a node reports itself.\<close>

definition foldOwn :: "runEnv \<Rightarrow> Assignment \<Rightarrow> rawTrace \<Rightarrow> accs \<Rightarrow> accs" where
  "foldOwn E a t F =
     (if aLegacy a then F
      else let th = topicHex E (mget [] (topicOf (eP E)) (aIdx a));
               bf = mget [] (bucketFull F) th;
               co = mget [] (completeNs F) th
           in F\<lparr>bucketFull := mput th (if length (RegBucketFull t) > 0 then mput (tID t) (bucketTimes E (RegBucketFull t)) bf else bf) (bucketFull F),
                completeNs := mput th (if RegCompleteMs t > 0 then mput (tID t) (nsOf E (RegCompleteMs t)) co else co) (completeNs F),
                startNs := mput (tID t) (nsOf E (RegisterAt (aPhases a))) (startNs F)\<rparr>)"

definition foldTopic :: "runEnv \<Rightarrow> rawTrace \<Rightarrow> string \<times> int \<Rightarrow> accs \<Rightarrow> accs" where
  "foldTopic E t = (\<lambda>(th, k) F.
     let (tm, pl) = fold (seenAd E th t) (mget [] (AdsFirstSeenMs t) th) (mget [] (timing F) th, mget [] (placements F) th)
     in F\<lparr>cov := mput k (coverTopic E th t (mget \<lparr>ByRegistrant = [], ByHost = []\<rparr> (cov F) k)) (cov F),
          timing := mput th tm (timing F), placements := mput th pl (placements F)\<rparr>)"

definition pass2Step :: "runEnv \<Rightarrow> (nat \<Rightarrow> rawTrace option) \<Rightarrow> Assignment \<Rightarrow> accs \<Rightarrow> accs" where
  "pass2Step E raw a F =
     (if \<not> mget False (present (eP E)) (aIdx a) then F
      else case raw (aIdx a) of None \<Rightarrow> F
       | Some t \<Rightarrow>
          let F = (case searchOf E (aIdx a) t of None \<Rightarrow> F | Some r \<Rightarrow> F\<lparr>results := results F @ [r]\<rparr>);
              F = foldOwn E a t F;
              F = fold (foldTopic E t) (topicIds (eP E)) F
          in F\<lparr>slots := (if doSeries E then foldSamples E t (slots F) else slots F),
               waits := fold addWait (tWait t) (waits F)\<rparr>)"

section \<open>The reports\<close>

record topicReport =
  pTopic :: int
  NumSearchers :: int
  pTarget :: int
  pRegistrants :: int
  FullRecall :: int
  MeanRecall :: float64
  MeanFoundDup :: float64
  MeanUniqueCount :: float64
  pHitTimeout :: int

definition countFull :: "searchResult list \<Rightarrow> int" where
  "countFull rs = int (length (filter (\<lambda>r. Target r > 0 \<and> UniqueRegistrant r \<ge> Target r) rs))"

definition addRecall :: "searchResult \<Rightarrow> float64 \<Rightarrow> float64" where
  "addRecall r x = (if Target r > 0 then fadd x (fdiv (ofInt (UniqueRegistrant r)) (ofInt (Target r))) else x)"

definition addUnique :: "searchResult \<Rightarrow> float64 \<Rightarrow> float64" where
  "addUnique r x = (if Target r > 0 then fadd x (ofInt (UniqueRegistrant r)) else x)"

definition reportTopic :: "pass1State \<Rightarrow> string \<Rightarrow> int \<Rightarrow> searchResult list \<Rightarrow> topicReport" where
  "reportTopic p th k rs =
     (let n = length (filter (\<lambda>r. Target r > 0) rs);
          sumRecall = fold addRecall rs 0;
          sumUnique = fold addUnique rs 0
      in \<lparr>pTopic = k, NumSearchers = int (length rs), pTarget = int (length (mget [] (providers p) th)) - 1,
          pRegistrants = int (length (mget [] (registrants p) th)), FullRecall = countFull rs,
          MeanRecall = (if n > 0 then fdiv sumRecall (ofInt (int n)) else 0),
          MeanFoundDup = (if n > 0 then fdiv sumRecall (ofInt (int n)) else 0),
          MeanUniqueCount = (if n > 0 then fdiv sumUnique (ofInt (int n)) else 0),
          pHitTimeout = int (length (filter HitTimeout rs))\<rparr>)"

record findCountStats =
  fcTopic :: int
  fcRegistrants :: int
  NeverFound :: int
  fcPercentiles :: "int list"
  fcMean :: float64
  Counts :: "int list"

definition countFinds :: "string list \<Rightarrow> (string, int) gomap \<Rightarrow> (string, int) gomap" where
  "countFinds is' m = fold (\<lambda>i m. if mhas m i then madd i 1 m else m) is' m"

definition findStats :: "int \<Rightarrow> (string, int) gomap \<Rightarrow> findCountStats" where
  "findStats k counts =
     (let vals = sort (map snd counts)
      in \<lparr>fcTopic = k, fcRegistrants = int (length vals), NeverFound = int (length (filter (\<lambda>c. c = 0) vals)),
          fcPercentiles = (if length vals > 0 then map (\<lambda>q. vals ! pctIdx q (length vals)) [0, 5, 25, 50, 75, 95, 100] else replicate 7 0),
          fcMean = (if length vals > 0 then fdiv (ofInt (sum_list (map snd counts))) (ofInt (int (length vals))) else 0),
          Counts = vals\<rparr>)"

definition findCountOf :: "pass1State \<Rightarrow> string \<Rightarrow> int \<Rightarrow> searchResult list \<Rightarrow> findCountStats" where
  "findCountOf p th k rs =
     findStats k (fold (\<lambda>r. countFinds (UniqueFoundIDs r)) rs (fold (\<lambda>i. mput (short i) 0) (map fst (mget [] (registrants p) th)) []))"

record metricsOut =
  perTopic :: "topicReport list"
  mResults :: "searchResult list"
  mCoverage :: "(int, coverage) gomap"
  mTiming :: "(string, (string, int) gomap) gomap"
  findCountByTopic :: "findCountStats list"
  mTopicIds :: "(string, int) gomap"
  mStartNs :: "(string, int) gomap"
  mPlacements :: "(string, (string, placeAgg) gomap) gomap"
  mBucketFull :: "(string, (string, int list) gomap) gomap"
  mComplete :: "(string, (string, int) gomap) gomap"

record seriesOut =
  soBuckets :: nat
  soStartMs :: int
  soSamples :: "overheadSample list"
  soWaitTime :: "waitOut list"

definition metricsOf :: "runEnv \<Rightarrow> accs \<Rightarrow> metricsOut" where
  "metricsOf E F =
     (let rs = sort_key NodeIdx (results F);
          topics = sort (remdups (map rTopic rs));
          hexOf = fold (\<lambda>(th, k). mput k th) (topicIds (eP E)) [];
          byTopic = (\<lambda>k. filter (\<lambda>r. rTopic r = k) rs)
      in \<lparr>perTopic = map (\<lambda>k. reportTopic (eP E) (mget [] hexOf k) k (byTopic k)) topics, mResults = rs, mCoverage = cov F,
          mTiming = timing F, findCountByTopic = map (\<lambda>k. findCountOf (eP E) (mget [] hexOf k) k (byTopic k)) topics,
          mTopicIds = topicIds (eP E), mStartNs = startNs F, mPlacements = placements F, mBucketFull = bucketFull F,
          mComplete = completeNs F\<rparr>)"

definition seriesOf :: "runEnv \<Rightarrow> accs \<Rightarrow> seriesOut" where
  "seriesOf E F = \<lparr>soBuckets = seriesBuckets, soStartMs = t0 (eP E),
     soSamples = map (\<lambda>k. the (map_of (slots F) k)) (sort (map fst (slots F))),
     soWaitTime = map (\<lambda>th. the (map_of (waits F) th)) (sort (map fst (waits F)))\<rparr>"

datatype metricsError = NoTraces | NoTopic

definition runEnvOf :: "(string \<Rightarrow> string) \<Rightarrow> Assignment list \<Rightarrow> pass1State \<Rightarrow> runEnv" where
  "runEnvOf hex as p =
     (let a0 = hd as
      in \<lparr>eP = p, topicHex = hex, churned = (\<exists>a \<in> set as. length (aChurn a) > 0), stopMs = StopAt (aPhases a0),
          epochMs = (if RegisterBase (aPhases a0) = 0 then RegisterAt (aPhases a0) else RegisterBase (aPhases a0)),
          period = aSampleMs a0, doSeries = (aSampleMs a0 > 0 \<and> t0 p \<ge> 0)\<rparr>)"

text \<open>\<open>NoTopic\<close> is the index out of range of an assignment without a topic.\<close>

definition writeMetrics :: "(string \<Rightarrow> string) \<Rightarrow> (nat \<Rightarrow> leanTrace option) \<Rightarrow> (nat \<Rightarrow> rawTrace option) \<Rightarrow> Assignment list
    \<Rightarrow> metricsError + metricsOut \<times> seriesOut option" where
  "writeMetrics hex lean raw as =
     (if \<exists>a \<in> set as. aTopics a = [] then Inl NoTopic
      else let p = pass1 hex lean as
           in if present p = [] then Inl NoTraces
              else let E = runEnvOf hex as p;
                       F = fold (pass2Step E raw) as (newAccs (topicIds p))
                   in Inr (metricsOf E F, if doSeries E then Some (seriesOf E F) else None))"

section \<open>What a search found\<close>

text \<open>The finds of a trace in order, each at its time since the start of the search phase.\<close>

definition findsOf :: "runEnv \<Rightarrow> nat \<Rightarrow> rawTrace \<Rightarrow> (string \<times> int) list" where
  "findsOf E idx t =
     concat (map (\<lambda>l. map (\<lambda>(i, ms). (i, StartMs l + ms - tSearchAtMs t)) (lFound l)) (tLookups t))
     @ (case tConn t of None \<Rightarrow> []
        | Some c \<Rightarrow> map (\<lambda>(i, ms). (i, cStartMs c + ms - tSearchAtMs t)) (filter (\<lambda>f. mget False (provOf E idx t) (fst f)) (cFound c)))"

definition accOk :: "bool \<Rightarrow> (string \<Rightarrow> bool) \<Rightarrow> (string \<times> int) list \<Rightarrow> searchAcc \<Rightarrow> bool" where
  "accOk ch onl fs A \<longleftrightarrow> distinct (accSeen A) \<and> set (accSeen A) = fst ` set fs
     \<and> FoundRegistrant (accR A) = int (length fs)
     \<and> UniqueFoundIDs (accR A) = map short (accSeen A)
     \<and> UniqueFoundAtMs (accR A) = map (\<lambda>i. the (map_of fs i)) (accSeen A)
     \<and> NewFoundAtMs (accR A) = UniqueFoundAtMs (accR A)
     \<and> UniqueFoundOnline (accR A) = (if ch then map onl (accSeen A) else [])
     \<and> ((\<forall>f \<in> set fs. 0 \<le> snd f) \<longrightarrow> accFirst A = (if fs = [] then -1 else Min (snd ` set fs)))"

lemma map_of_snoc_old: "j \<in> fst ` set fs \<Longrightarrow> map_of (fs @ [x]) j = map_of fs j"
  by (auto simp: map_of_append map_add_def split: option.split dest: map_of_eq_None_iff [THEN iffD1] weak_map_of_SomeI)

lemma accOk_find:
  assumes "accOk ch onl fs A"
    and "accSeen B = accSeen A" "FoundRegistrant (accR B) = FoundRegistrant (accR A) + 1"
    "UniqueFoundIDs (accR B) = UniqueFoundIDs (accR A)" "UniqueFoundAtMs (accR B) = UniqueFoundAtMs (accR A)"
    "NewFoundAtMs (accR B) = NewFoundAtMs (accR A)" "UniqueFoundOnline (accR B) = UniqueFoundOnline (accR A)"
    "accFirst B = (if accFirst A < 0 \<or> at' < accFirst A then at' else accFirst A)"
  shows "accOk ch onl (fs @ [(i, at')]) (newFind ch onl i at' B)"
proof -
  have seen: "set (accSeen A) = fst ` set fs" using assms(1) by (simp add: accOk_def)
  have old: "map (\<lambda>j. the (map_of (fs @ [(i, at')]) j)) (accSeen A) = map (\<lambda>j. the (map_of fs j)) (accSeen A)"
    by (rule map_cong) (simp_all add: seen map_of_snoc_old del: map_of_append)
  have new: "the (map_of (fs @ [(i, at')]) i) = at'" if "i \<notin> fst ` set fs"
    using that by (simp add: map_of_eq_None_iff [THEN iffD2] map_add_def)
  have first: "accFirst B = Min (snd ` set (fs @ [(i, at')]))" if "\<forall>f \<in> set (fs @ [(i, at')]). 0 \<le> snd f"
  proof (cases "fs = []")
    case True
    then show ?thesis using assms(1,8) that by (simp add: accOk_def)
  next
    case False
    define M where "M = Min (snd ` set fs)"
    have "accFirst A = M" using False assms(1) that by (simp add: accOk_def M_def)
    moreover have "0 \<le> M" using False that by (simp add: M_def)
    moreover have "Min (snd ` set (fs @ [(i, at')])) = min at' M" using False by (simp add: M_def)
    ultimately show ?thesis using assms(8) by simp
  qed
  show ?thesis
  proof (cases "i \<in> set (accSeen A)")
    case True
    then have "fst ` set (fs @ [(i, at')]) = fst ` set fs" by (auto simp: seen)
    with True show ?thesis using assms first old unfolding accOk_def newFind_def
      by (simp del: map_of_append set_append)
  next
    case False
    then have "the (map_of (fs @ [(i, at')]) i) = at'" using new by (simp add: seen del: map_of_append)
    moreover have "fst ` set (fs @ [(i, at')]) = insert i (fst ` set fs)" "set (accSeen A @ [i]) = insert i (fst ` set fs)"
      by (simp_all add: seen)
    ultimately show ?thesis using False assms first old unfolding accOk_def newFind_def
      by (simp del: map_of_append set_append)
  qed
qed

lemma lookupFinds_ok:
  "accOk ch onl fs A \<Longrightarrow> accOk ch onl (fs @ map (\<lambda>(i, ms). (i, StartMs l + ms - sa)) gs) (fold (lookupFind ch onl sa l) gs A)"
proof (induction gs arbitrary: A fs)
  case (Cons g gs)
  obtain i ms where g: "g = (i, ms)" by force
  have "accOk ch onl (fs @ [(i, StartMs l + ms - sa)]) (lookupFind ch onl sa l g A)"
    unfolding lookupFind_def Let_def g fst_conv snd_conv by (rule accOk_find [OF Cons.prems]) simp_all
  from Cons.IH [OF this] show ?case by (simp add: g)
qed simp

lemma connFinds_ok:
  "accOk ch onl fs A \<Longrightarrow> accOk ch onl (fs @ map (\<lambda>(i, ms). (i, cStartMs c + ms - sa)) (filter (\<lambda>f. mget False prov (fst f)) gs))
     (fold (connFind ch onl prov sa c) gs A)"
proof (induction gs arbitrary: A fs)
  case (Cons g gs)
  obtain i ms where g: "g = (i, ms)" by force
  show ?case
  proof (cases "mget False prov i")
    case True
    have "accOk ch onl (fs @ [(i, cStartMs c + ms - sa)]) (connFind ch onl prov sa c g A)"
      by (simp only: connFind_def Let_def g fst_conv snd_conv True not_True_eq_False if_False)
         (rule accOk_find [OF Cons.prems], simp_all)
    from Cons.IH [OF this] True show ?thesis by (simp add: g)
  next
    case False
    with Cons show ?thesis by (simp add: g connFind_def)
  qed
qed simp

lemma accOk_cong:
  assumes "accOk ch onl fs A" "accSeen B = accSeen A" "accFirst B = accFirst A" "FoundRegistrant (accR B) = FoundRegistrant (accR A)"
    "UniqueFoundIDs (accR B) = UniqueFoundIDs (accR A)" "UniqueFoundAtMs (accR B) = UniqueFoundAtMs (accR A)"
    "NewFoundAtMs (accR B) = NewFoundAtMs (accR A)" "UniqueFoundOnline (accR B) = UniqueFoundOnline (accR A)"
  shows "accOk ch onl fs B"
  using assms by (simp add: accOk_def)

lemma lookups_ok:
  "accOk ch onl fs A \<Longrightarrow> accOk ch onl
     (fs @ concat (map (\<lambda>l. map (\<lambda>(i, ms). (i, StartMs l + ms - sa)) (lFound l)) ls)) (fold (lookupDone ch onl sa) ls A)"
proof (induction ls arbitrary: A fs)
  case (Cons l ls)
  have "accOk ch onl (fs @ map (\<lambda>(i, ms). (i, StartMs l + ms - sa)) (lFound l)) (lookupDone ch onl sa l A)"
    unfolding lookupDone_def Let_def by (rule lookupFinds_ok, rule accOk_cong [OF Cons.prems]) simp_all
  from Cons.IH [OF this] show ?case by simp
qed simp

text \<open>The counts of the lookups are not touched by what follows a lookup.\<close>

lemma newFind_counts [simp]:
  "rLookups (accR (newFind ch onl i at' A)) = rLookups (accR A)"
  "LookupsHitTarget (accR (newFind ch onl i at' A)) = LookupsHitTarget (accR A)"
  "HitTimeout (accR (newFind ch onl i at' A)) = HitTimeout (accR A)"
  "LookupLatencyMs (accR (newFind ch onl i at' A)) = LookupLatencyMs (accR A)"
  "LookupResults (accR (newFind ch onl i at' A)) = LookupResults (accR A)"
  "Target (accR (newFind ch onl i at' A)) = Target (accR A)"
  "TargetOnline (accR (newFind ch onl i at' A)) = TargetOnline (accR A)"
  "SearchStats (accR (newFind ch onl i at' A)) = SearchStats (accR A)"
  "TimeToFirstNs (accR (newFind ch onl i at' A)) = TimeToFirstNs (accR A)"
  "FoundRegistrantIDs (accR (newFind ch onl i at' A)) = FoundRegistrantIDs (accR A)"
  by (simp_all add: newFind_def)

lemma lookupFinds_counts [simp]:
  "rLookups (accR (fold (lookupFind ch onl sa l) gs A)) = rLookups (accR A)"
  "LookupsHitTarget (accR (fold (lookupFind ch onl sa l) gs A)) = LookupsHitTarget (accR A)"
  "HitTimeout (accR (fold (lookupFind ch onl sa l) gs A)) = HitTimeout (accR A)"
  "LookupLatencyMs (accR (fold (lookupFind ch onl sa l) gs A)) = LookupLatencyMs (accR A)"
  "LookupResults (accR (fold (lookupFind ch onl sa l) gs A)) = LookupResults (accR A)"
  "Target (accR (fold (lookupFind ch onl sa l) gs A)) = Target (accR A)"
  "TargetOnline (accR (fold (lookupFind ch onl sa l) gs A)) = TargetOnline (accR A)"
  "SearchStats (accR (fold (lookupFind ch onl sa l) gs A)) = SearchStats (accR A)"
  "TimeToFirstNs (accR (fold (lookupFind ch onl sa l) gs A)) = TimeToFirstNs (accR A)"
  "FoundRegistrantIDs (accR (fold (lookupFind ch onl sa l) gs A)) = FoundRegistrantIDs (accR A)"
  by (induction gs arbitrary: A) (simp_all add: lookupFind_def Let_def)

lemma connFinds_counts [simp]:
  "rLookups (accR (fold (connFind ch onl prov sa c) gs A)) = rLookups (accR A)"
  "LookupsHitTarget (accR (fold (connFind ch onl prov sa c) gs A)) = LookupsHitTarget (accR A)"
  "HitTimeout (accR (fold (connFind ch onl prov sa c) gs A)) = HitTimeout (accR A)"
  "LookupLatencyMs (accR (fold (connFind ch onl prov sa c) gs A)) = LookupLatencyMs (accR A)"
  "LookupResults (accR (fold (connFind ch onl prov sa c) gs A)) = LookupResults (accR A)"
  "Target (accR (fold (connFind ch onl prov sa c) gs A)) = Target (accR A)"
  "TargetOnline (accR (fold (connFind ch onl prov sa c) gs A)) = TargetOnline (accR A)"
  "SearchStats (accR (fold (connFind ch onl prov sa c) gs A)) = SearchStats (accR A)"
  "TimeToFirstNs (accR (fold (connFind ch onl prov sa c) gs A)) = TimeToFirstNs (accR A)"
  "FoundRegistrantIDs (accR (fold (connFind ch onl prov sa c) gs A)) = FoundRegistrantIDs (accR A)"
  by (induction gs arbitrary: A) (simp_all add: connFind_def Let_def)

lemma lookups_counts:
  "rLookups (accR (fold (lookupDone ch onl sa) ls A)) = rLookups (accR A) + int (length ls)"
  "LookupsHitTarget (accR (fold (lookupDone ch onl sa) ls A)) = LookupsHitTarget (accR A) + int (length (filter HitTarget ls))"
  "HitTimeout (accR (fold (lookupDone ch onl sa) ls A)) \<longleftrightarrow> HitTimeout (accR A) \<or> (\<exists>l \<in> set ls. \<not> HitTarget l)"
  "LookupLatencyMs (accR (fold (lookupDone ch onl sa) ls A)) = LookupLatencyMs (accR A) @ map LatencyMs ls"
  "LookupResults (accR (fold (lookupDone ch onl sa) ls A)) = LookupResults (accR A) @ map Results ls"
  "Target (accR (fold (lookupDone ch onl sa) ls A)) = Target (accR A)"
  "TargetOnline (accR (fold (lookupDone ch onl sa) ls A)) = TargetOnline (accR A)"
  "TimeToFirstNs (accR (fold (lookupDone ch onl sa) ls A)) = TimeToFirstNs (accR A)"
  "FoundRegistrantIDs (accR (fold (lookupDone ch onl sa) ls A)) = FoundRegistrantIDs (accR A)"
  "SearchStats (accR (fold (lookupDone ch onl sa) ls A)) = fold (\<lambda>l st. addStats st (lSearch l)) ls (SearchStats (accR A))"
  by (induction ls arbitrary: A) (auto simp: lookupDone_def Let_def)

lemma searchStart_ok: "accOk ch onl [] (searchStart E idx t)"
  by (simp add: accOk_def searchStart_def newResult_def Let_def)

lemma searchStart_counts [simp]:
  "rLookups (accR (searchStart E idx t)) = 0" "LookupsHitTarget (accR (searchStart E idx t)) = 0"
  "\<not> HitTimeout (accR (searchStart E idx t))" "LookupLatencyMs (accR (searchStart E idx t)) = []"
  "LookupResults (accR (searchStart E idx t)) = []" "TimeToFirstNs (accR (searchStart E idx t)) = -1"
  "FoundRegistrantIDs (accR (searchStart E idx t)) = []" "SearchStats (accR (searchStart E idx t)) = None"
  by (simp_all add: searchStart_def newResult_def Let_def)

lemma searchStart_target:
  "TargetOnline (accR (searchStart E idx t)) \<le> Target (accR (searchStart E idx t))"
proof -
  let ?prov = "provOf E idx t"
  let ?f = "filter (\<lambda>i. i \<noteq> tID t \<and> online E i) (map fst ?prov)"
  have "length ?f < length (map fst ?prov)" if "mget False ?prov (tID t)"
  proof -
    have "tID t \<in> set (map fst ?prov)"
      using that mget_missing [of ?prov "tID t" False] by (auto simp: mhas_def)
    then show ?thesis by (intro length_filter_less) auto
  qed
  moreover have "length ?f \<le> length (map fst ?prov)" by (rule length_filter_le)
  ultimately show ?thesis by (auto simp: searchStart_def newResult_def Let_def)
qed

text \<open>The accumulator at the end of a search.\<close>

definition searchEnd :: "runEnv \<Rightarrow> nat \<Rightarrow> rawTrace \<Rightarrow> searchAcc" where
  "searchEnd E idx t =
     (let A = fold (lookupDone (churned E) (online E) (tSearchAtMs t)) (tLookups t) (searchStart E idx t)
      in case tConn t of None \<Rightarrow> A | Some c \<Rightarrow> connDoneM (churned E) (online E) (provOf E idx t) t c A)"

lemma searchOf_end: "searchOf E idx t = Some r \<Longrightarrow> r = searchDone (searchEnd E idx t)"
  by (auto simp: searchOf_def searchEnd_def Let_def split: if_splits)

lemma searchEnd_ok: "accOk (churned E) (online E) (findsOf E idx t) (searchEnd E idx t)"
proof -
  let ?A = "fold (lookupDone (churned E) (online E) (tSearchAtMs t)) (tLookups t) (searchStart E idx t)"
  let ?fs = "concat (map (\<lambda>l. map (\<lambda>(i, ms). (i, StartMs l + ms - tSearchAtMs t)) (lFound l)) (tLookups t))"
  have A: "accOk (churned E) (online E) ?fs ?A" using lookups_ok [OF searchStart_ok] by simp
  show ?thesis
  proof (cases "tConn t")
    case None
    with A show ?thesis by (simp add: searchEnd_def findsOf_def)
  next
    case (Some c)
    from connFinds_ok [OF A, of c "tSearchAtMs t" "provOf E idx t" "cFound c"]
    have "accOk (churned E) (online E) (findsOf E idx t)
        (fold (connFind (churned E) (online E) (provOf E idx t) (tSearchAtMs t) c) (cFound c) ?A)"
      by (simp add: findsOf_def Some)
    from accOk_cong [OF this, of "searchEnd E idx t"] show ?thesis
      by (simp add: searchEnd_def Some connDoneM_def Let_def)
  qed
qed

lemma searchEnd_counts:
  "rLookups (accR (searchEnd E idx t)) = int (length (tLookups t))"
  "LookupsHitTarget (accR (searchEnd E idx t)) = int (length (filter HitTarget (tLookups t)))"
  "HitTimeout (accR (searchEnd E idx t)) \<longleftrightarrow> (\<exists>l \<in> set (tLookups t). \<not> HitTarget l)"
  "LookupLatencyMs (accR (searchEnd E idx t)) = map LatencyMs (tLookups t)"
  "LookupResults (accR (searchEnd E idx t)) = map Results (tLookups t)"
  "TargetOnline (accR (searchEnd E idx t)) \<le> Target (accR (searchEnd E idx t))"
  "TimeToFirstNs (accR (searchEnd E idx t)) = -1" "FoundRegistrantIDs (accR (searchEnd E idx t)) = []"
  "SearchStats (accR (searchEnd E idx t))
     = fold (\<lambda>s st. addStats st s) (map lSearch (tLookups t) @ (case tConn t of None \<Rightarrow> [] | Some c \<Rightarrow> [cSearch c])) None"
  using searchStart_target [of E idx t]
  by (auto simp: searchEnd_def connDoneM_def Let_def lookups_counts fold_map comp_def split: option.split)

text \<open>
  C29: The result of a search counts what the trace recorded: every find, every distinct node once and
  with the time of its first find, the online flags aligned with the nodes, the lookups and those that
  hit their target. The time to the first find is that of the earliest one unless a find is before the
  start of the search phase; it is -1 without finds. At most the target is online.
\<close>

theorem search_result_counts:
  assumes "searchOf E idx t = Some r" "fs = findsOf E idx t"
  shows "FoundRegistrant r = int (length fs)
    \<and> (\<exists>nodes. distinct nodes \<and> set nodes = fst ` set fs \<and> UniqueRegistrant r = int (length nodes) \<and> NewRegistrant r = int (length nodes)
         \<and> UniqueFoundIDs r = map short nodes \<and> FoundRegistrantIDs r = map short nodes
         \<and> UniqueFoundAtMs r = map (\<lambda>i. the (map_of fs i)) nodes \<and> NewFoundAtMs r = UniqueFoundAtMs r
         \<and> UniqueFoundOnline r = (if churned E then map (online E) nodes else []))
    \<and> ((\<forall>f \<in> set fs. 0 \<le> snd f) \<longrightarrow> TimeToFirstNs r = (if fs = [] then -1 else Min (snd ` set fs) * 1000000))
    \<and> rLookups r = int (length (tLookups t)) \<and> LookupsHitTarget r = int (length (filter HitTarget (tLookups t)))
    \<and> (HitTimeout r \<longleftrightarrow> LookupsHitTarget r < rLookups r)
    \<and> LookupLatencyMs r = map LatencyMs (tLookups t) \<and> LookupResults r = map Results (tLookups t)
    \<and> TargetOnline r \<le> Target r"
proof -
  define A where "A = searchEnd E idx t"
  have r: "r = searchDone A" using searchOf_end [OF assms(1)] by (simp add: A_def)
  have ok: "accOk (churned E) (online E) fs A" using searchEnd_ok [of E idx t] by (simp add: A_def assms(2))
  note c = searchEnd_counts [of E idx t, folded A_def]
  have first: "TimeToFirstNs r = (if fs = [] then -1 else Min (snd ` set fs) * 1000000)" if "\<forall>f \<in> set fs. 0 \<le> snd f"
  proof -
    have "accFirst A = (if fs = [] then -1 else Min (snd ` set fs))" using ok that by (simp add: accOk_def)
    moreover have "fs \<noteq> [] \<Longrightarrow> 0 \<le> Min (snd ` set fs)" using that by simp
    ultimately show ?thesis using c(7) by (auto simp: r searchDone_def Let_def)
  qed
  have "(\<exists>l \<in> set (tLookups t). \<not> HitTarget l) \<longleftrightarrow> length (filter HitTarget (tLookups t)) < length (tLookups t)"
    by (metis filter_True length_filter_less less_irrefl)
  with c(1,2,3) have hit: "HitTimeout r \<longleftrightarrow> LookupsHitTarget r < rLookups r" by (simp add: r searchDone_def Let_def)
  show ?thesis
  proof (intro conjI)
    show "\<exists>nodes. distinct nodes \<and> set nodes = fst ` set fs \<and> UniqueRegistrant r = int (length nodes) \<and> NewRegistrant r = int (length nodes)
         \<and> UniqueFoundIDs r = map short nodes \<and> FoundRegistrantIDs r = map short nodes
         \<and> UniqueFoundAtMs r = map (\<lambda>i. the (map_of fs i)) nodes \<and> NewFoundAtMs r = UniqueFoundAtMs r
         \<and> UniqueFoundOnline r = (if churned E then map (online E) nodes else [])"
      using ok c(8) by (intro exI [of _ "accSeen A"]) (simp add: accOk_def r searchDone_def Let_def)
  qed (use ok c first hit in \<open>simp_all add: accOk_def r searchDone_def Let_def\<close>)
qed

lemma search_result_counts_witness:
  "\<exists>E t r nodes. searchOf E 0 t = Some r \<and> FoundRegistrant r = 2 \<and> distinct nodes \<and> set nodes = {''a''} \<and> TimeToFirstNs r = 3000000 \<and> HitTimeout r"
proof -
  define E :: runEnv where "E = undefined"
  define l :: rawLookup where "l = \<lparr>StartMs = 10, LatencyMs = 9, FirstMs = 3, Results = 2, HitTarget = False, lQueries = 1, lContacted = 1,
      lSearch = None, lFound = [(''a'', 3), (''a'', 5)]\<rparr>"
  define t :: rawTrace where "t = \<lparr>tID = ''b'', tLegacy = True, tSearchAtMs = 10, tLookups = [l], AdsFirstSeenMs = [], AdsFinal = [],
      tWait = [], tSamples = [], RegBucketFull = [], RegCompleteMs = 0, Outbound = 0, tConn = None\<rparr>"
  obtain r where r: "searchOf E 0 t = Some r" by (simp add: searchOf_def t_def Let_def)
  have fs: "findsOf E 0 t = [(''a'', 3), (''a'', 5)]" by (simp add: findsOf_def t_def l_def)
  have "filter HitTarget (tLookups t) = []" "length (tLookups t) = 1" by (simp_all add: t_def l_def)
  with search_result_counts [OF r refl] r show ?thesis unfolding fs by fastforce
qed

section \<open>Coverage and placements\<close>

lemma foldTopic_parts [simp]:
  "cov (foldTopic E t (th, k) F) = mput k (coverTopic E th t (mget \<lparr>ByRegistrant = [], ByHost = []\<rparr> (cov F) k)) (cov F)"
  "timing (foldTopic E t (th, k) F)
     = mput th (fst (fold (seenAd E th t) (mget [] (AdsFirstSeenMs t) th) (mget [] (timing F) th, mget [] (placements F) th))) (timing F)"
  "placements (foldTopic E t (th, k) F)
     = mput th (snd (fold (seenAd E th t) (mget [] (AdsFirstSeenMs t) th) (mget [] (timing F) th, mget [] (placements F) th))) (placements F)"
  "slots (foldTopic E t (th, k) F) = slots F" "results (foldTopic E t (th, k) F) = results F"
  by (simp_all add: foldTopic_def Let_def split: prod.split)

lemma distinct_snd_fold:
  assumes "distinct (map snd xs)" "(th, k) \<in> set xs"
  shows "mget z (cov (fold (foldTopic E t) xs F)) k = coverTopic E th t (mget \<lparr>ByRegistrant = [], ByHost = []\<rparr> (cov F) k)"
proof -
  have out: "mget z (cov (fold (foldTopic E t) xs F)) k = mget z (cov F) k" if "k \<notin> set (map snd xs)" for xs F
    using that by (induction xs arbitrary: F) auto
  show ?thesis using assms
  proof (induction xs arbitrary: F)
    case (Cons x xs)
    obtain th' k' where x: "x = (th', k')" by force
    show ?case
    proof (cases "k' = k")
      case True
      with Cons.prems x have "th' = th" "k \<notin> set (map snd xs)" by (auto simp: image_iff)
      with True x show ?thesis by (simp add: out)
    next
      case False
      with Cons.prems x have *: "distinct (map snd xs)" "(th, k) \<in> set xs" by auto
      have "mget z' (cov (foldTopic E t x F)) k = mget z' (cov F) k" for z'
        using False by (simp add: x)
      with Cons.IH [OF *] show ?thesis by simp
    qed
  qed simp
qed

lemma distinct_fst_fold:
  assumes "distinct (map fst xs)" "(th, k) \<in> set xs"
  shows "(mget [] (timing (fold (foldTopic E t) xs F)) th, mget [] (placements (fold (foldTopic E t) xs F)) th)
    = fold (seenAd E th t) (mget [] (AdsFirstSeenMs t) th) (mget [] (timing F) th, mget [] (placements F) th)"
proof -
  have out: "mget [] (timing (fold (foldTopic E t) xs F)) th = mget [] (timing F) th
      \<and> mget [] (placements (fold (foldTopic E t) xs F)) th = mget [] (placements F) th" if "th \<notin> set (map fst xs)" for xs F
    using that by (induction xs arbitrary: F) auto
  show ?thesis using assms
  proof (induction xs arbitrary: F)
    case (Cons x xs)
    obtain th' k' where x: "x = (th', k')" by force
    show ?case
    proof (cases "th' = th")
      case True
      with Cons.prems x have "th \<notin> set (map fst xs)" by auto
      with True x show ?thesis by (simp add: out)
    next
      case False
      with Cons.prems x have *: "distinct (map fst xs)" "(th, k) \<in> set xs" by auto
      have "mget [] (timing (foldTopic E t x F)) th = mget [] (timing F) th"
        "mget [] (placements (foldTopic E t x F)) th = mget [] (placements F) th"
        using False by (simp_all add: x)
      with Cons.IH [OF *] show ?thesis by simp
    qed
  qed simp
qed

lemma foldOwn_keep [simp]:
  "cov (foldOwn E a t F) = cov F" "timing (foldOwn E a t F) = timing F" "placements (foldOwn E a t F) = placements F"
  "slots (foldOwn E a t F) = slots F"
  by (simp_all add: foldOwn_def Let_def)

text \<open>The traces the second pass folds, in the order of the assignments.\<close>

definition runTraces :: "runEnv \<Rightarrow> (nat \<Rightarrow> rawTrace option) \<Rightarrow> Assignment list \<Rightarrow> rawTrace list" where
  "runTraces E raw as = List.map_filter (\<lambda>a. if mget False (present (eP E)) (aIdx a) then raw (aIdx a) else None) as"

lemma runTraces_simps [simp]:
  "runTraces E raw [] = []"
  "runTraces E raw (a # as) = (if mget False (present (eP E)) (aIdx a)
     then (case raw (aIdx a) of None \<Rightarrow> [] | Some t \<Rightarrow> [t]) else []) @ runTraces E raw as"
  by (simp_all add: runTraces_def map_filter_def split: option.split)

lemma pass2Step_skip: "\<not> mget False (present (eP E)) (aIdx a) \<or> raw (aIdx a) = None \<Longrightarrow> pass2Step E raw a F = F"
  by (auto simp: pass2Step_def)

lemma pass2Step_run:
  assumes "mget False (present (eP E)) (aIdx a)" "raw (aIdx a) = Some t"
  obtains G where "cov G = cov F" "timing G = timing F" "placements G = placements F" "slots G = slots F"
    "cov (pass2Step E raw a F) = cov (fold (foldTopic E t) (topicIds (eP E)) G)"
    "timing (pass2Step E raw a F) = timing (fold (foldTopic E t) (topicIds (eP E)) G)"
    "placements (pass2Step E raw a F) = placements (fold (foldTopic E t) (topicIds (eP E)) G)"
proof -
  define G where "G = foldOwn E a t (case searchOf E (aIdx a) t of None \<Rightarrow> F | Some r \<Rightarrow> F\<lparr>results := results F @ [r]\<rparr>)"
  show thesis
  proof (rule that [of G])
    show "cov G = cov F" "timing G = timing F" "placements G = placements F" "slots G = slots F"
      by (simp_all add: G_def split: option.split)
    show "cov (pass2Step E raw a F) = cov (fold (foldTopic E t) (topicIds (eP E)) G)"
      "timing (pass2Step E raw a F) = timing (fold (foldTopic E t) (topicIds (eP E)) G)"
      "placements (pass2Step E raw a F) = placements (fold (foldTopic E t) (topicIds (eP E)) G)"
      by (simp_all add: pass2Step_def assms Let_def G_def)
  qed
qed

lemma pass2_cov:
  assumes "distinct (map snd (topicIds (eP E)))" "(th, k) \<in> set (topicIds (eP E))"
  shows "mget \<lparr>ByRegistrant = [], ByHost = []\<rparr> (cov (fold (pass2Step E raw) as F)) k
    = fold (coverTopic E th) (runTraces E raw as) (mget \<lparr>ByRegistrant = [], ByHost = []\<rparr> (cov F) k)"
proof (induction as arbitrary: F)
  case (Cons a as)
  show ?case
  proof (cases "mget False (present (eP E)) (aIdx a) \<and> raw (aIdx a) \<noteq> None")
    case True
    then obtain t G where t: "raw (aIdx a) = Some t" and G: "cov G = cov F"
      "cov (pass2Step E raw a F) = cov (fold (foldTopic E t) (topicIds (eP E)) G)"
      using pass2Step_run [of E a raw _ F] by blast
    with True Cons.IH distinct_snd_fold [OF assms] show ?thesis by simp
  next
    case False
    with Cons.IH show ?thesis by (auto simp: pass2Step_skip)
  qed
qed simp

lemma pass2_timing:
  assumes "distinct (map fst (topicIds (eP E)))" "(th, k) \<in> set (topicIds (eP E))"
  shows "(mget [] (timing (fold (pass2Step E raw) as F)) th, mget [] (placements (fold (pass2Step E raw) as F)) th)
    = fold (\<lambda>t. fold (seenAd E th t) (mget [] (AdsFirstSeenMs t) th)) (runTraces E raw as) (mget [] (timing F) th, mget [] (placements F) th)"
proof (induction as arbitrary: F)
  case (Cons a as)
  show ?case
  proof (cases "mget False (present (eP E)) (aIdx a) \<and> raw (aIdx a) \<noteq> None")
    case True
    then obtain t G where t: "raw (aIdx a) = Some t" and G: "timing G = timing F" "placements G = placements F"
      "timing (pass2Step E raw a F) = timing (fold (foldTopic E t) (topicIds (eP E)) G)"
      "placements (pass2Step E raw a F) = placements (fold (foldTopic E t) (topicIds (eP E)) G)"
      using pass2Step_run [of E a raw _ F] by blast
    have "fold (pass2Step E raw) (a # as) F = fold (pass2Step E raw) as (pass2Step E raw a F)" by simp
    moreover have "runTraces E raw (a # as) = t # runTraces E raw as" using True t by simp
    ultimately show ?thesis using distinct_fst_fold [OF assms, of E t G] G by (simp only: Cons.IH fold_simps)
  next
    case False
    with Cons.IH show ?thesis by (auto simp: pass2Step_skip)
  qed
qed simp

text \<open>The ads of a registrant a trace held for a topic at the end, and all sightings of it, in nanoseconds.\<close>

definition heldCount :: "runEnv \<Rightarrow> string \<Rightarrow> string \<Rightarrow> rawTrace \<Rightarrow> int" where
  "heldCount E th i t = int (length (filter (\<lambda>j. j = i \<and> isAd E th t j) (mget [] (AdsFinal t) th)))"

definition heldTotal :: "runEnv \<Rightarrow> string \<Rightarrow> rawTrace \<Rightarrow> int" where
  "heldTotal E th t = int (length (filter (isAd E th t) (mget [] (AdsFinal t) th)))"

definition sightings :: "runEnv \<Rightarrow> string \<Rightarrow> string \<Rightarrow> rawTrace \<Rightarrow> int list" where
  "sightings E th i t = map (\<lambda>s. nsOf E (snd s)) (filter (\<lambda>s. fst s = i \<and> isAd E th t i) (mget [] (AdsFirstSeenMs t) th))"

lemma heldAd_step [simp]:
  "heldAd E th t j (h, br) = (if isAd E th t j then (h + 1, madd j 1 br) else (h, br))"
  by (simp add: heldAd_def)

lemma heldAds:
  "fst (fold (heldAd E th t) js (h, br)) = h + int (length (filter (isAd E th t) js))
   \<and> mget 0 (snd (fold (heldAd E th t) js (h, br))) i = mget 0 br i + int (length (filter (\<lambda>j. j = i \<and> isAd E th t j) js))
   \<and> (mapOk br \<longrightarrow> mapOk (snd (fold (heldAd E th t) js (h, br)))
        \<and> msum (snd (fold (heldAd E th t) js (h, br))) = msum br + int (length (filter (isAd E th t) js)))"
proof (induction js arbitrary: h br)
  case (Cons j js)
  then show ?case by (cases "isAd E th t j") auto
qed simp

lemma coverTopic_parts:
  "ByHost (coverTopic E th t c) = mput (tID t) (heldTotal E th t) (ByHost c)"
  "mget 0 (ByRegistrant (coverTopic E th t c)) i = mget 0 (ByRegistrant c) i + heldCount E th i t"
  "mapOk (ByRegistrant c) \<Longrightarrow> mapOk (ByRegistrant (coverTopic E th t c))
     \<and> msum (ByRegistrant (coverTopic E th t c)) = msum (ByRegistrant c) + heldTotal E th t"
  using heldAds [of E th t "mget [] (AdsFinal t) th" 0 "ByRegistrant c" i]
  by (auto simp: coverTopic_def heldTotal_def heldCount_def split: prod.split)

lemma coverTopics:
  "mget 0 (ByRegistrant (fold (coverTopic E th) ts c)) i = mget 0 (ByRegistrant c) i + sum_list (map (heldCount E th i) ts)"
  "mapOk (ByRegistrant c) \<Longrightarrow> msum (ByRegistrant (fold (coverTopic E th) ts c)) = msum (ByRegistrant c) + sum_list (map (heldTotal E th) ts)"
  by (induction ts arbitrary: c) (simp_all add: coverTopic_parts)

lemma coverTopics_host:
  "distinct (map tID ts) \<Longrightarrow> mapOk (ByHost c) \<Longrightarrow> \<forall>t \<in> set ts. \<not> mhas (ByHost c) (tID t) \<Longrightarrow>
     msum (ByHost (fold (coverTopic E th) ts c)) = msum (ByHost c) + sum_list (map (heldTotal E th) ts)
     \<and> (\<forall>t \<in> set ts. mget 0 (ByHost (fold (coverTopic E th) ts c)) (tID t) = heldTotal E th t)
     \<and> (\<forall>i. i \<notin> tID ` set ts \<longrightarrow> mget 0 (ByHost (fold (coverTopic E th) ts c)) i = mget 0 (ByHost c) i)"
proof (induction ts arbitrary: c)
  case (Cons t ts)
  have "\<forall>t' \<in> set ts. \<not> mhas (ByHost (coverTopic E th t c)) (tID t')" using Cons.prems by (auto simp: coverTopic_parts image_iff)
  moreover have "mapOk (ByHost (coverTopic E th t c))" using Cons.prems(2) by (simp add: coverTopic_parts)
  moreover have "msum (ByHost (coverTopic E th t c)) = msum (ByHost c) + heldTotal E th t"
    using Cons.prems by (simp add: coverTopic_parts msum_mput mget_missing)
  ultimately show ?case using Cons.IH [of "coverTopic E th t c"] Cons.prems(1) by (simp add: coverTopic_parts)
qed simp

text \<open>
  C30: Registration coverage of a run with distinct nodes and topic numbers: a registrar's count is the
  number of ads of other registrants it held for the topic at the end, a registrant's count is the
  number of copies of its ads on all registrars, and both views add up to the same number of ads.
\<close>

theorem coverage_totals:
  assumes "writeMetrics hex lean raw as = Inr (M, S)" "E = runEnvOf hex as (pass1 hex lean as)" "ts = runTraces E raw as"
    and "distinct (map tID ts)" "distinct (map snd (topicIds (eP E)))" "(th, k) \<in> set (topicIds (eP E))"
  shows "let c = mget \<lparr>ByRegistrant = [], ByHost = []\<rparr> (mCoverage M) k
    in (\<forall>t \<in> set ts. mget 0 (ByHost c) (tID t) = heldTotal E th t)
     \<and> (\<forall>i. mget 0 (ByRegistrant c) i = sum_list (map (heldCount E th i) ts))
     \<and> msum (ByRegistrant c) = msum (ByHost c)"
proof -
  let ?z = "\<lparr>ByRegistrant = [], ByHost = []\<rparr>"
  define F where "F = fold (pass2Step E raw) as (newAccs (topicIds (eP E)))"
  have p: "eP E = pass1 hex lean as" by (simp add: assms(2) runEnvOf_def Let_def)
  have M: "mCoverage M = cov F" using assms(1)
    by (auto simp: writeMetrics_def Let_def metricsOf_def F_def p simp flip: assms(2) split: if_splits)
  have "mget ?z (cov (newAccs xs)) k = ?z" for xs
  proof -
    have "mget ?z m k = ?z \<Longrightarrow> mget ?z (fold (\<lambda>(th, k). mput k ?z) xs m) k = ?z" for m
      by (induction xs arbitrary: m) auto
    then show ?thesis by (simp add: newAccs_def)
  qed
  then have c: "mget ?z (mCoverage M) k = fold (coverTopic E th) ts ?z"
    using pass2_cov [OF assms(5,6), of raw as] by (simp add: M F_def assms(3))
  have "mapOk (ByHost ?z)" "\<forall>t \<in> set ts. \<not> mhas (ByHost ?z) (tID t)" "mapOk (ByRegistrant ?z)" by simp_all
  from coverTopics_host [OF assms(4) this(1,2), of E th] coverTopics(1) [of E th ts ?z]
    coverTopics(2) [OF this(3), of E th ts]
  show ?thesis unfolding c Let_def by simp
qed

lemma seenAd_step [simp]:
  "seenAd E th t (j, ms) (tm, pl) = (if \<not> isAd E th t j then (tm, pl)
     else (if \<not> mhas tm j \<or> nsOf E ms < mget 0 tm j then mput j (nsOf E ms) tm else tm,
           mput j ((mget \<lparr>paSumNs = 0, paCount = 0\<rparr> pl j)\<lparr>paSumNs := paSumNs (mget \<lparr>paSumNs = 0, paCount = 0\<rparr> pl j) + nsOf E ms,
             paCount := paCount (mget \<lparr>paSumNs = 0, paCount = 0\<rparr> pl j) + 1\<rparr>) pl))"
  by (simp add: seenAd_def Let_def)

text \<open>The timing and the placements of one id hold a list of sightings: its minimum, its sum and its length.\<close>

definition sightOk :: "(string, int) gomap \<times> (string, placeAgg) gomap \<Rightarrow> string \<Rightarrow> int list \<Rightarrow> bool" where
  "sightOk m i vs \<longleftrightarrow> (mhas (fst m) i \<longleftrightarrow> vs \<noteq> []) \<and> (mhas (snd m) i \<longleftrightarrow> vs \<noteq> [])
     \<and> (vs \<noteq> [] \<longrightarrow> mget 0 (fst m) i = Min (set vs))
     \<and> mget \<lparr>paSumNs = 0, paCount = 0\<rparr> (snd m) i = \<lparr>paSumNs = sum_list vs, paCount = int (length vs)\<rparr>"

lemma Min_snoc: "vs \<noteq> [] \<Longrightarrow> Min (set (vs @ [v])) = min v (Min (set vs))" for v :: int
  by simp

lemma sightOk_step:
  assumes "sightOk (tm, pl) i vs"
  shows "sightOk (seenAd E th t (j, ms) (tm, pl)) i (vs @ (if j = i \<and> isAd E th t i then [nsOf E ms] else []))"
proof (cases "j = i \<and> isAd E th t i")
  case True
  define m where "m = Min (set vs)"
  have "vs \<noteq> [] \<Longrightarrow> Min (set (vs @ [nsOf E ms])) = min (nsOf E ms) m" by (simp add: m_def)
  with True assms show ?thesis unfolding sightOk_def by (cases "vs = []") (auto simp: m_def [symmetric] simp del: set_append)
next
  case False
  with assms show ?thesis by (auto simp: sightOk_def)
qed

lemma sightOk_trace:
  "sightOk m i vs \<Longrightarrow> sightOk (fold (seenAd E th t) ss m) i (vs @ map (\<lambda>s. nsOf E (snd s)) (filter (\<lambda>s. fst s = i \<and> isAd E th t i) ss))"
proof (induction ss arbitrary: m vs)
  case (Cons s ss)
  obtain j ms tm pl where [simp]: "s = (j, ms)" "m = (tm, pl)" by (meson surj_pair)
  from Cons.prems have "sightOk (tm, pl) i vs" by simp
  from Cons.IH [OF sightOk_step [OF this, of E th t j ms]] show ?case
    by (cases "j = i \<and> isAd E th t i") (auto simp del: seenAd_step)
qed simp

lemma sightOk_traces:
  "sightOk m i vs \<Longrightarrow> sightOk (fold (\<lambda>t. fold (seenAd E th t) (mget [] (AdsFirstSeenMs t) th)) ts m) i (vs @ concat (map (sightings E th i) ts))"
  by (induction ts arbitrary: m vs) (simp_all add: sightOk_trace sightings_def flip: append_assoc)

text \<open>
  The first-seen times of a topic's registrants: a registrant has a registration time exactly when
  some other node saw its ad; that time is the earliest sighting in nanoseconds since the start of the
  registrations, and its placement has the number and the sum of all sightings.
\<close>

theorem registration_times:
  assumes "writeMetrics hex lean raw as = Inr (M, S)" "E = runEnvOf hex as (pass1 hex lean as)" "ts = runTraces E raw as"
    and "(th, k) \<in> set (topicIds (eP E))" "vs = concat (map (sightings E th i) ts)"
  shows "let tm = mget [] (mTiming M) th; pl = mget [] (mPlacements M) th
    in (mhas tm i \<longleftrightarrow> vs \<noteq> []) \<and> (mhas pl i \<longleftrightarrow> vs \<noteq> []) \<and> (vs \<noteq> [] \<longrightarrow> mget 0 tm i = Min (set vs))
     \<and> mget \<lparr>paSumNs = 0, paCount = 0\<rparr> pl i = \<lparr>paSumNs = sum_list vs, paCount = int (length vs)\<rparr>"
proof -
  define F where "F = fold (pass2Step E raw) as (newAccs (topicIds (eP E)))"
  have p: "eP E = pass1 hex lean as" by (simp add: assms(2) runEnvOf_def Let_def)
  have M: "mTiming M = timing F" "mPlacements M = placements F" using assms(1)
    by (auto simp: writeMetrics_def Let_def metricsOf_def F_def p simp flip: assms(2) split: if_splits)
  have "mget [] m th = [] \<Longrightarrow> mget [] (fold (\<lambda>(th, k). mput th []) xs m) th = []"
    for m :: "(string, (string, int) gomap) gomap" and xs :: "(string, int) gomap"
    by (induction xs arbitrary: m) auto
  moreover have "mget [] m th = [] \<Longrightarrow> mget [] (fold (\<lambda>(th, k). mput th []) xs m) th = []"
    for m :: "(string, (string, placeAgg) gomap) gomap" and xs :: "(string, int) gomap"
    by (induction xs arbitrary: m) auto
  ultimately have new: "mget [] (timing (newAccs xs)) th = []" "mget [] (placements (newAccs xs)) th = []" for xs
    by (simp_all add: newAccs_def)
  have "distinct (map fst (topicIds (fold (pass1Step hex lean) bs q)))" if "distinct (map fst (topicIds q))" for bs q
    using that by (induction bs arbitrary: q) (simp_all add: pass1Step_def Let_def distinct_update split: option.split)
  then have "distinct (map fst (topicIds (eP E)))" by (simp add: p pass1_def newPass1_def)
  from pass2_timing [OF this assms(4), of raw as "newAccs (topicIds (eP E))"]
  have tp: "(mget [] (mTiming M) th, mget [] (mPlacements M) th)
      = fold (\<lambda>t. fold (seenAd E th t) (mget [] (AdsFirstSeenMs t) th)) ts ([], [])"
    by (simp add: M F_def assms(3) new)
  have "sightOk ([], []) i []" by (simp add: sightOk_def)
  from sightOk_traces [OF this, of E th ts] show ?thesis unfolding tp [symmetric] assms(5) Let_def sightOk_def by simp
qed

text \<open>A run of two nodes, the second of which holds the ad of the first and saw it after 5 ms.\<close>

definition exTrace :: "nat \<Rightarrow> rawTrace" where
  "exTrace n = \<lparr>tID = (if n = 0 then ''a'' else ''b''), tLegacy = False, tSearchAtMs = 0, tLookups = [],
     AdsFirstSeenMs = (if n = 0 then [] else [(''topic-0'', [(''a'', 5)])]), AdsFinal = (if n = 0 then [] else [(''topic-0'', [''a''])]),
     tWait = [], tSamples = [], RegBucketFull = [], RegCompleteMs = 0, Outbound = 0, tConn = None\<rparr>"

definition exLean :: "nat \<Rightarrow> leanTrace option" where
  "exLean n = Some \<lparr>ltID = tID (exTrace n), ltSamples = [], ltSession = None, ltSessions = None\<rparr>"

definition exAssign :: "nat \<Rightarrow> Assignment" where
  "exAssign n = undefined\<lparr>aIdx := n, aTopics := [''topic-0''], aLegacy := False, aSampleMs := 0, aChurn := [],
     aPhases := \<lparr>StartAt = 0, RegisterBase = 0, RegisterAt = 0, SearchAt = 0, StopAt = 300\<rparr>\<rparr>"

lemma exRun:
  defines "as \<equiv> [exAssign 0, exAssign 1]"
  defines "E \<equiv> runEnvOf (\<lambda>x. x) as (pass1 (\<lambda>x. x) exLean as)"
  shows "topicIds (eP E) = [(''topic-0'', topicIndex ''topic-0'')]" "runTraces E (Some \<circ> exTrace) as = [exTrace 0, exTrace 1]"
    "registrants (eP E) = [(''topic-0'', [(''a'', True), (''b'', True)])]" "epochMs E = 0"
    "\<exists>M. writeMetrics (\<lambda>x. x) exLean (Some \<circ> exTrace) as = Inr (M, None)"
proof -
  have p: "eP E = pass1 (\<lambda>x. x) exLean as" by (simp add: E_def runEnvOf_def Let_def)
  have q: "pass1 (\<lambda>x. x) exLean as = \<lparr>topicOf = [(0, ''topic-0''), (1, ''topic-0'')],
      registrants = [(''topic-0'', [(''a'', True), (''b'', True)])], providers = [(''topic-0'', [(''a'', True), (''b'', True)])],
      sessionsOf = [], topicIds = [(''topic-0'', topicIndex ''topic-0'')], present = [(0, True), (1, True)], t0 = -1\<rparr>"
    by (simp add: as_def pass1_def pass1Step_def newPass1_def exAssign_def exLean_def exTrace_def spans_def setMember_def mget_def Let_def)
  show "topicIds (eP E) = [(''topic-0'', topicIndex ''topic-0'')]" "registrants (eP E) = [(''topic-0'', [(''a'', True), (''b'', True)])]"
    by (simp_all add: p q)
  have "present (eP E) = [(0, True), (1, True)]" by (simp add: p q)
  then show "runTraces E (Some \<circ> exTrace) as = [exTrace 0, exTrace 1]" by (simp add: as_def exAssign_def mget_def)
  show "epochMs E = 0" by (simp add: E_def runEnvOf_def as_def exAssign_def Let_def)
  show "\<exists>M. writeMetrics (\<lambda>x. x) exLean (Some \<circ> exTrace) as = Inr (M, None)"
    by (simp add: writeMetrics_def q Let_def) (simp add: as_def exAssign_def runEnvOf_def Let_def)
qed

lemma coverage_totals_witness:
  "\<exists>M. writeMetrics (\<lambda>x. x) exLean (Some \<circ> exTrace) [exAssign 0, exAssign 1] = Inr (M, None)
     \<and> mget 0 (ByHost (mget \<lparr>ByRegistrant = [], ByHost = []\<rparr> (mCoverage M) (topicIndex ''topic-0''))) ''b'' = 1"
proof -
  define E where "E = runEnvOf (\<lambda>x. x) [exAssign 0, exAssign 1] (pass1 (\<lambda>x. x) exLean [exAssign 0, exAssign 1])"
  note run = exRun [folded E_def]
  obtain M where M: "writeMetrics (\<lambda>x. x) exLean (Some \<circ> exTrace) [exAssign 0, exAssign 1] = Inr (M, None)" using run(5) by blast
  have b: "tID (exTrace 1) = ''b''" "distinct (map tID (runTraces E (Some \<circ> exTrace) [exAssign 0, exAssign 1]))"
    unfolding run(2) by (simp_all add: exTrace_def)
  have h: "heldTotal E ''topic-0'' (exTrace 1) = 1" by (simp add: heldTotal_def isAd_def run(3) exTrace_def mget_def)
  from coverage_totals [OF M E_def refl b(2), of "''topic-0''" "topicIndex ''topic-0''"] M b(1) h
  show ?thesis unfolding run(1,2) Let_def by (intro exI [of _ M]) fastforce
qed

lemma registration_times_witness:
  "\<exists>M. writeMetrics (\<lambda>x. x) exLean (Some \<circ> exTrace) [exAssign 0, exAssign 1] = Inr (M, None)
     \<and> mget 0 (mget [] (mTiming M) ''topic-0'') ''a'' = 5000000"
proof -
  define E where "E = runEnvOf (\<lambda>x. x) [exAssign 0, exAssign 1] (pass1 (\<lambda>x. x) exLean [exAssign 0, exAssign 1])"
  note run = exRun [folded E_def]
  obtain M where M: "writeMetrics (\<lambda>x. x) exLean (Some \<circ> exTrace) [exAssign 0, exAssign 1] = Inr (M, None)" using run(5) by blast
  have v: "[5000000] = concat (map (sightings E ''topic-0'' ''a'') (runTraces E (Some \<circ> exTrace) [exAssign 0, exAssign 1]))"
    unfolding run(2) by (simp add: sightings_def isAd_def run(3,4) exTrace_def mget_def nsOf_def)
  have k: "(''topic-0'', topicIndex ''topic-0'') \<in> set (topicIds (eP E))" by (simp add: run(1))
  from registration_times [OF M E_def refl k v] M show ?thesis by (intro exI [of _ M]) (simp add: Let_def)
qed

section \<open>Search statistics\<close>

definition bucketAt :: "int list \<Rightarrow> nat \<Rightarrow> int" where
  "bucketAt xs i = (if i < length xs then xs ! i else 0)"

lemma zeroStats_sel:
  "Passes zeroStats = 0" "stQueries zeroStats = 0" "stContacted zeroStats = 0" "Received zeroStats = 0" "Duplicate zeroStats = 0"
  "Filtered zeroStats = 0" "Yielded zeroStats = 0" "MaxTopicPerReply zeroStats = 0" "MaxAuxPerReply zeroStats = 0"
  "bucketAt (QueriesByBucket zeroStats) i = 0"
  by (simp_all add: zeroStats_def bucketAt_def)

lemma addBuckets:
  "n \<le> length d \<Longrightarrow> length (fold addBucketCount (enumerate n q) d) = max (length d) (n + length q)
   \<and> bucketAt (fold addBucketCount (enumerate n q) d) i = bucketAt d i + (if n \<le> i then bucketAt q (i - n) else 0)"
proof (induction q arbitrary: n d)
  case (Cons x q)
  have "Suc n \<le> length (addBucketCount (n, x) d)" using Cons.prems by (auto simp: addBucketCount_def Let_def)
  note IH = Cons.IH [OF this]
  have b: "bucketAt (addBucketCount (n, x) d) i = bucketAt d i + (if i = n then x else 0)"
    using Cons.prems by (auto simp: addBucketCount_def Let_def bucketAt_def nth_append)
  have "bucketAt (x # q) (i - n) = (if i = n then x else bucketAt q (i - Suc n))" if "n \<le> i"
    using that by (auto simp: bucketAt_def nth_Cons' Suc_diff_le)
  with IH b Cons.prems show ?case by (auto simp: addBucketCount_def Let_def)
qed (simp add: bucketAt_def)

text \<open>
  The statistics of a search are those of its lookups and of the dialer's search added up: none when
  none reported any; else the counters are summed, the maxima are over all of them, and the queries of
  every bucket are summed however many buckets each of them has.
\<close>

theorem search_stats_total:
  assumes "searchOf E idx t = Some r"
    and "ss = List.map_filter (\<lambda>s. s) (map lSearch (tLookups t) @ (case tConn t of None \<Rightarrow> [] | Some c \<Rightarrow> [cSearch c]))"
  shows "(SearchStats r = None \<longleftrightarrow> ss = [])
    \<and> (\<forall>s. SearchStats r = Some s \<longrightarrow>
         Passes s = sum_list (map Passes ss) \<and> stQueries s = sum_list (map stQueries ss) \<and> stContacted s = sum_list (map stContacted ss)
       \<and> Received s = sum_list (map Received ss) \<and> Duplicate s = sum_list (map Duplicate ss)
       \<and> Filtered s = sum_list (map Filtered ss) \<and> Yielded s = sum_list (map Yielded ss)
       \<and> MaxTopicPerReply s = Max (set (0 # map MaxTopicPerReply ss)) \<and> MaxAuxPerReply s = Max (set (0 # map MaxAuxPerReply ss))
       \<and> (\<forall>i. bucketAt (QueriesByBucket s) i = sum_list (map (\<lambda>q. bucketAt (QueriesByBucket q) i) ss)))"
proof -
  define tot where "tot = (\<lambda>d. fold (\<lambda>s st. addStats st (Some s)) ss d)"
  have drop: "fold (\<lambda>s st. addStats st s) xs d = fold (\<lambda>s st. addStats st (Some s)) (List.map_filter (\<lambda>s. s) xs) d" for xs d
    by (induction xs arbitrary: d) (auto simp: addStats_def map_filter_def split: option.split)
  have r: "SearchStats r = tot None"
    using searchOf_end [OF assms(1)] searchEnd_counts(9) [of E idx t]
    by (simp only: tot_def drop assms(2)) (simp add: searchDone_def Let_def drop)
  have some: "\<exists>s. fold (\<lambda>s st. addStats st (Some s)) xs (Some d) = Some s
       \<and> Passes s = Passes d + sum_list (map Passes xs) \<and> stQueries s = stQueries d + sum_list (map stQueries xs)
       \<and> stContacted s = stContacted d + sum_list (map stContacted xs)
       \<and> Received s = Received d + sum_list (map Received xs) \<and> Duplicate s = Duplicate d + sum_list (map Duplicate xs)
       \<and> Filtered s = Filtered d + sum_list (map Filtered xs) \<and> Yielded s = Yielded d + sum_list (map Yielded xs)
       \<and> MaxTopicPerReply s = Max (set (MaxTopicPerReply d # map MaxTopicPerReply xs))
       \<and> MaxAuxPerReply s = Max (set (MaxAuxPerReply d # map MaxAuxPerReply xs))
       \<and> (\<forall>i. bucketAt (QueriesByBucket s) i = bucketAt (QueriesByBucket d) i + sum_list (map (\<lambda>q. bucketAt (QueriesByBucket q) i) xs))" for xs d
  proof (induction xs arbitrary: d)
    case (Cons x xs)
    define d' where "d' = the (addStats (Some d) (Some x))"
    have d': "addStats (Some d) (Some x) = Some d'" by (simp add: addStats_def d'_def)
    have mx: "Max (set (max a b # ys)) = Max (set (a # b # ys))" for a b :: int and ys
      by (cases "ys = []") (simp_all add: max.assoc)
    have "Passes d' = Passes d + Passes x" "stQueries d' = stQueries d + stQueries x" "stContacted d' = stContacted d + stContacted x"
      "Received d' = Received d + Received x" "Duplicate d' = Duplicate d + Duplicate x" "Filtered d' = Filtered d + Filtered x"
      "Yielded d' = Yielded d + Yielded x" "MaxTopicPerReply d' = max (MaxTopicPerReply d) (MaxTopicPerReply x)"
      "MaxAuxPerReply d' = max (MaxAuxPerReply d) (MaxAuxPerReply x)"
      "\<And>i. bucketAt (QueriesByBucket d') i = bucketAt (QueriesByBucket d) i + bucketAt (QueriesByBucket x) i"
      using addBuckets [of 0 "QueriesByBucket d" "QueriesByBucket x"] by (simp_all add: d'_def addStats_def)
    with Cons.IH [of d'] show ?case by (simp only: fold_simps d' list.map sum_list.Cons mx add.assoc)
  qed (simp add: bucketAt_def)
  show ?thesis
  proof (cases ss)
    case Nil
    with r show ?thesis by (simp add: tot_def)
  next
    case (Cons x xs)
    have "addStats None (Some x) = addStats (Some zeroStats) (Some x)" by (simp add: addStats_def)
    then have eq: "tot None = fold (\<lambda>s st. addStats st (Some s)) ss (Some zeroStats)" by (simp add: tot_def Cons)
    then obtain s where s: "tot None = Some s" using some [of ss zeroStats] by auto
    with eq have "fold (\<lambda>s st. addStats st (Some s)) ss (Some zeroStats) = Some s" by simp
    with s some [of ss zeroStats] r Cons zeroStats_sel show ?thesis by simp
  qed
qed

lemma search_stats_total_witness:
  "\<exists>E t r s. searchOf E 0 t = Some r \<and> length (tLookups t) = 2 \<and> SearchStats r = Some s \<and> MaxAuxPerReply s = 7 \<and> bucketAt (QueriesByBucket s) 1 = 4"
proof -
  define E :: runEnv where "E = undefined"
  define st :: searchStats where "st = \<lparr>Passes = 1, stQueries = 1, stContacted = 1, Received = 1, Duplicate = 0, Filtered = 0, Yielded = 1,
     MaxTopicPerReply = 2, MaxAuxPerReply = 7, QueriesByBucket = [0, 4], ActiveTrace = []\<rparr>"
  define l :: rawLookup where "l = \<lparr>StartMs = 10, LatencyMs = 9, FirstMs = 3, Results = 2, HitTarget = False, lQueries = 1, lContacted = 1,
      lSearch = Some st, lFound = []\<rparr>"
  define t :: rawTrace where "t = \<lparr>tID = ''b'', tLegacy = True, tSearchAtMs = 10, tLookups = [l, l\<lparr>lSearch := None\<rparr>], AdsFirstSeenMs = [],
      AdsFinal = [], tWait = [], tSamples = [], RegBucketFull = [], RegCompleteMs = 0, Outbound = 0, tConn = None\<rparr>"
  obtain r where r: "searchOf E 0 t = Some r" by (simp add: searchOf_def t_def Let_def)
  have ss: "[st] = List.map_filter (\<lambda>s. s) (map lSearch (tLookups t) @ (case tConn t of None \<Rightarrow> [] | Some c \<Rightarrow> [cSearch c]))"
    by (simp add: t_def l_def map_filter_def)
  have len: "length (tLookups t) = 2" by (simp add: t_def)
  from search_stats_total [OF r ss] obtain s where "SearchStats r = Some s" "MaxAuxPerReply s = 7" "bucketAt (QueriesByBucket s) 1 = 4"
    by (auto simp: st_def bucketAt_def)
  with r len show ?thesis by blast
qed

section \<open>How often a registrant was found\<close>

lemma fold_fresh:
  "distinct (map f xs) \<Longrightarrow> \<forall>x \<in> set xs. \<not> mhas m (f x) \<Longrightarrow> fold (\<lambda>x. mput (f x) v) xs m = m @ map (\<lambda>x. (f x, v)) xs"
proof (induction xs arbitrary: m)
  case (Cons x xs)
  have "\<not> mhas m k \<Longrightarrow> mput k v m = m @ [(k, v)]" for k by (induction m) (auto simp: mhas_def)
  then have "mput (f x) v m = m @ [(f x, v)]" using Cons.prems(2) by simp
  moreover have "\<forall>y \<in> set xs. \<not> mhas (m @ [(f x, v)]) (f y)" using Cons.prems by (auto simp: mhas_def) (metis imageI)
  ultimately show ?case using Cons.IH [of "m @ [(f x, v)]"] Cons.prems(1) by simp
qed simp

lemma countFinds_keys: "map fst (countFinds xs m) = map fst m"
  by (induction xs arbitrary: m) (auto simp: countFinds_def madd_def update_keys mhas_def)

lemma countFinds_at: "mhas m j \<Longrightarrow> mget 0 (countFinds xs m) j = mget 0 m j + int (count_list xs j)"
proof (induction xs arbitrary: m)
  case (Cons x xs)
  have "mhas (if mhas m x then madd x 1 m else m) j" using Cons.prems by (simp add: madd_def)
  from Cons.IH [OF this] Cons.prems show ?case by (auto simp: countFinds_def)
qed (simp add: countFinds_def)

lemma countAll:
  "map fst (fold (\<lambda>r. countFinds (UniqueFoundIDs r)) rs m) = map fst m
   \<and> (\<forall>j. mhas m j \<longrightarrow> mget 0 (fold (\<lambda>r. countFinds (UniqueFoundIDs r)) rs m) j
        = mget 0 m j + sum_list (map (\<lambda>r. int (count_list (UniqueFoundIDs r) j)) rs))"
proof (induction rs arbitrary: m)
  case (Cons r rs)
  have "mhas (countFinds (UniqueFoundIDs r) m) j \<longleftrightarrow> mhas m j" for j by (simp only: mhas_def countFinds_keys)
  with Cons.IH [of "countFinds (UniqueFoundIDs r) m"] show ?case by (simp add: countFinds_keys countFinds_at)
qed simp

lemma map_snd_mget: "mapOk m \<Longrightarrow> map snd m = map (mget 0 m) (map fst m)"
  by (auto simp: mapOk_def mget_def)

text \<open>
  How often the registrants of a topic were found, when their shortened ids differ: a registrant's
  count is the number of times the searches list it, the counts are sorted, the registrants never found
  are those with count zero, and the percentiles are counts of registrants in increasing order from the
  least to the greatest.
\<close>

theorem find_counts:
  assumes "regs = map fst (mget [] (registrants p) th)" "distinct (map short regs)" "fc = findCountOf p th k rs"
    and "n = (\<lambda>i. sum_list (map (\<lambda>r. int (count_list (UniqueFoundIDs r) (short i))) rs))"
  shows "Counts fc = sort (map n regs) \<and> fcRegistrants fc = int (length regs)
    \<and> NeverFound fc = int (length (filter (\<lambda>i. n i = 0) regs))
    \<and> (regs \<noteq> [] \<longrightarrow> set (fcPercentiles fc) \<subseteq> n ` set regs \<and> sorted (fcPercentiles fc)
         \<and> fcPercentiles fc ! 0 = Min (n ` set regs) \<and> fcPercentiles fc ! 6 = Max (n ` set regs))"
proof -
  define m0 where "m0 = fold (\<lambda>i. mput (short i) (0 :: int)) regs []"
  define m where "m = fold (\<lambda>r. countFinds (UniqueFoundIDs r)) rs m0"
  have m0: "m0 = map (\<lambda>i. (short i, 0)) regs" using fold_fresh [OF assms(2), of "[]" "0 :: int"] by (simp add: m0_def)
  have keys: "map fst m = map short regs" using countAll [of rs m0] by (simp add: m_def m0 comp_def)
  have at': "mget 0 m (short i) = n i" if "i \<in> set regs" for i
  proof -
    have "mhas m0 (short i)" "mget 0 m0 (short i) = 0" using that by (auto simp: m0 mhas_def mget_def map_of_map_restrict split: option.split dest: map_of_SomeD)
    then show ?thesis using countAll [of rs m0] by (simp add: m_def assms(4))
  qed
  have "mapOk m" using assms(2) by (simp add: mapOk_def keys)
  then have vals: "map snd m = map n regs" by (simp only: map_snd_mget keys map_map comp_def) (simp add: at' cong: map_cong)
  define vs where "vs = sort (map n regs)"
  have fc: "fc = findStats k m" by (simp add: assms(1,3) findCountOf_def m_def m0_def)
  have set: "set vs = n ` set regs" and len: "length vs = length regs" and srt: "sorted vs" by (simp_all add: vs_def)
  have ps: "fcPercentiles fc = map (\<lambda>q. vs ! pctIdx q (length vs)) [0, 5, 25, 50, 75, 95, 100]" if "regs \<noteq> []"
    using that using len by (auto simp: fc findStats_def vals Let_def simp flip: vs_def)
  have "length (filter (\<lambda>c. c = 0) vs) = length (filter (\<lambda>i. n i = 0) regs)"
    by (simp add: vs_def filter_sort filter_map comp_def)
  moreover have "set (fcPercentiles fc) \<subseteq> n ` set regs \<and> sorted (fcPercentiles fc)
      \<and> fcPercentiles fc ! 0 = Min (n ` set regs) \<and> fcPercentiles fc ! 6 = Max (n ` set regs)" if "regs \<noteq> []"
  proof (intro conjI)
    have lt: "q \<le> 100 \<Longrightarrow> pctIdx q (length vs) < length vs" for q using that by (intro pctIdx_less) (simp_all add: len)
    show "set (fcPercentiles fc) \<subseteq> n ` set regs" unfolding ps [OF that] set [symmetric]
      by (auto intro!: nth_mem lt simp del: pctIdx_100 pctIdx_0)
    have mono: "vs ! pctIdx q (length vs) \<le> vs ! pctIdx q' (length vs)" if "q \<le> q'" "q' \<le> 100" for q q'
      using srt pctIdx_mono [OF that(1)] lt [OF that(2)] by (rule sorted_nth_mono)
    show "sorted (fcPercentiles fc)" unfolding ps [OF that] by (simp add: mono del: pctIdx_100 pctIdx_0)
    have "vs ! 0 = Min (set vs)" "vs ! (length vs - 1) = Max (set vs)"
    proof -
      have ne: "0 < length vs" using that len by simp
      have "vs ! 0 \<le> x" "x \<le> vs ! (length vs - 1)" if "x \<in> set vs" for x
        using that ne sorted_nth_mono [OF srt] by (auto simp: in_set_conv_nth)
      then show "vs ! 0 = Min (set vs)" "vs ! (length vs - 1) = Max (set vs)"
        using ne by (auto intro!: Min_eqI [symmetric] Max_eqI [symmetric] nth_mem)
    qed
    then show "fcPercentiles fc ! 0 = Min (n ` set regs)" "fcPercentiles fc ! 6 = Max (n ` set regs)"
      unfolding ps [OF that] set by simp_all
  qed
  ultimately show ?thesis by (simp add: fc findStats_def vals Let_def len flip: vs_def)
qed

lemma find_counts_witness:
  "Counts (findCountOf (newPass1\<lparr>registrants := [(''t'', [(''a'', True), (''b'', True)])]\<rparr>) ''t'' 0
     [(newResult 0 (exTrace 0) 0 1 1 0)\<lparr>UniqueFoundIDs := [''b'']\<rparr>]) = [0, 1]"
proof -
  define p where "p = newPass1\<lparr>registrants := [(''t'', [(''a'', True), (''b'', True)])]\<rparr>"
  have regs: "[''a'', ''b''] = map fst (mget [] (registrants p) ''t'')" by (simp add: p_def mget_def)
  have "distinct (map short [''a'', ''b''])" by (simp add: short_def)
  from find_counts [OF regs this refl refl, of 0 "[(newResult 0 (exTrace 0) 0 1 1 0)\<lparr>UniqueFoundIDs := [''b'']\<rparr>]"]
  show ?thesis unfolding p_def [symmetric] by (simp add: short_def)
qed

section \<open>Buckets\<close>

text \<open>
  A node's bucket is one of the fifty, and buckets follow the order of the ids: a larger leading
  eight bytes never gives a smaller bucket, whatever the rounding of doubles.
\<close>

theorem buckets_monotone:
  assumes "m \<le> n"
  shows "bucketOfPrefix n < seriesBuckets \<and> bucketOfPrefix m \<le> bucketOfPrefix n"
proof -
  let ?k = "\<lambda>n. truncInt (fmul (fdiv (ofInt (int n)) (ofInt (2 ^ 64))) (ofInt (int seriesBuckets)))"
  have d: "0 < ofInt (2 ^ 64)"
  proof -
    have "fl (2 powi 64) = 2 powi 64" by (rule fl_exact [of _ 1 64]) simp_all
    then show ?thesis by (simp add: ofInt_def)
  qed
  have f: "0 \<le> fmul (fdiv (ofInt (int n)) (ofInt (2 ^ 64))) (ofInt (int seriesBuckets))" for n
    by (intro fl_nonneg mult_nonneg_nonneg divide_nonneg_pos ofInt_nonneg d) simp_all
  have "ofInt (int m) \<le> ofInt (int n)" using assms by (simp add: ofInt_def fl_mono)
  then have q: "fdiv (ofInt (int m)) (ofInt (2 ^ 64)) \<le> fdiv (ofInt (int n)) (ofInt (2 ^ 64))"
    using d by (intro fl_mono divide_right_mono divide_nonneg_pos ofInt_nonneg) simp_all
  have "0 \<le> fdiv (ofInt (int m)) (ofInt (2 ^ 64))" by (intro fl_nonneg divide_nonneg_pos ofInt_nonneg d) simp
  then have nn: "0 \<le> fdiv (ofInt (int m)) (ofInt (2 ^ 64)) * ofInt (int seriesBuckets)" by (simp add: ofInt_nonneg)
  have "fdiv (ofInt (int m)) (ofInt (2 ^ 64)) * ofInt (int seriesBuckets)
      \<le> fdiv (ofInt (int n)) (ofInt (2 ^ 64)) * ofInt (int seriesBuckets)"
    by (rule mult_right_mono [OF q]) (simp add: ofInt_nonneg)
  with nn have "fmul (fdiv (ofInt (int m)) (ofInt (2 ^ 64))) (ofInt (int seriesBuckets))
      \<le> fmul (fdiv (ofInt (int n)) (ofInt (2 ^ 64))) (ofInt (int seriesBuckets))"
    by (rule fl_mono)
  then have "?k m \<le> ?k n" "0 \<le> ?k m" using f by (simp_all add: truncInt_mono truncInt_nonneg)
  then show ?thesis by (auto simp: bucketOfPrefix_def Let_def seriesBuckets_def nat_mono)
qed

lemma buckets_monotone_witness: "bucketOfPrefix 0 \<le> bucketOfPrefix (2 ^ 64 - 1) \<and> bucketOfPrefix (2 ^ 64 - 1) < seriesBuckets"
  using buckets_monotone [of 0 "2 ^ 64 - 1"] by simp

end
