(* ===== verification/RunSeries.thy ===== *)
theory RunSeries
  imports RunMetrics
begin

text \<open>
  The time series of a run: what a slot of \<open>series.json\<close> contains, from what each node had measured by
  then. The definitions are those of \<open>RunMetrics\<close>; here are the abstract reading of the series and the
  proof that the folds over nodes, samples and slots implement it.
\<close>

section \<open>What a node contributes\<close>

text \<open>
  The sample of a node that counts in a slot: its latest so far, from its first one to its last slot,
  which is where the run ends when the node's last sample is before it.
\<close>

definition lastSlot :: "runEnv \<Rightarrow> rawSample list \<Rightarrow> int" where
  "lastSlot E ss = (let l = slotOf E (sAtMs (last ss)) in if stopMs E > 0 then max l (slotOf E (stopMs E)) else l)"

definition carried :: "runEnv \<Rightarrow> rawSample list \<Rightarrow> int \<Rightarrow> rawSample option" where
  "carried E ss k = (let past = filter (\<lambda>s. slotOf E (sAtMs s) \<le> k) ss
     in if past = [] \<or> lastSlot E ss < k then None else Some (last past))"

definition inSpan :: "runEnv \<Rightarrow> rawSample list \<Rightarrow> int \<Rightarrow> nat \<Rightarrow> bool" where
  "inSpan E ss k i \<longleftrightarrow> slotOf E (sAtMs (ss ! i)) \<le> k \<and> k \<le> untilSlot E ss i"

definition ordered :: "runEnv \<Rightarrow> rawSample list \<Rightarrow> bool" where
  "ordered E ss \<longleftrightarrow> sorted (map (\<lambda>s. slotOf E (sAtMs s)) ss)"

lemma sorted_prefix:
  assumes "sorted (map f xs)" "i < length xs" "f (xs ! i) \<le> k" "i + 1 < length xs \<Longrightarrow> k < f (xs ! (i + 1))"
  shows "filter (\<lambda>x. f x \<le> (k :: int)) xs = take (i + 1) xs"
proof -
  have "\<forall>x \<in> set (take (i + 1) xs). f x \<le> k"
  proof
    fix x assume "x \<in> set (take (i + 1) xs)"
    then obtain j where "j < length (take (i + 1) xs)" "take (i + 1) xs ! j = x" by (meson in_set_conv_nth)
    then have j: "j \<le> i" "x = xs ! j" by simp_all
    then have "f x \<le> f (xs ! i)" using sorted_nth_mono [OF assms(1), of j i] assms(2) by simp
    with assms(3) show "f x \<le> k" by linarith
  qed
  moreover have "\<forall>x \<in> set (drop (i + 1) xs). \<not> f x \<le> k"
  proof
    fix x assume "x \<in> set (drop (i + 1) xs)"
    then obtain j where "j < length xs - (i + 1)" "x = xs ! (i + 1 + j)" by (auto simp: in_set_conv_nth)
    moreover from this have "f (xs ! (i + 1)) \<le> f x" using sorted_nth_mono [OF assms(1), of "i + 1" "i + 1 + j"] by simp
    moreover from calculation have "i + 1 < length xs" by linarith
    ultimately show "\<not> f x \<le> k" using assms(4) by fastforce
  qed
  ultimately have "filter (\<lambda>x. f x \<le> k) (take (i + 1) xs @ drop (i + 1) xs) = take (i + 1) xs"
    unfolding filter_append by (metis (mono_tags, lifting) append_Nil2 filter_False filter_True)
  then show ?thesis by simp
qed

lemma inSpan_next:
  assumes "i < length ss" "inSpan E ss k i"
  shows "i + 1 < length ss \<Longrightarrow> k < slotOf E (sAtMs (ss ! (i + 1)))"
  using assms by (simp add: inSpan_def untilSlot_def Let_def)

lemma inSpan_carried:
  assumes "ordered E ss" "i < length ss" "inSpan E ss k i"
  shows "carried E ss k = Some (ss ! i)"
proof -
  let ?f = "\<lambda>s. slotOf E (sAtMs s)"
  have p: "filter (\<lambda>s. ?f s \<le> k) ss = take (i + 1) ss"
    by (rule sorted_prefix) (use assms inSpan_next [OF assms(2,3)] in \<open>simp_all add: ordered_def inSpan_def\<close>)
  have "k \<le> lastSlot E ss"
  proof (cases "i + 1 < length ss")
    case True
    have "?f (ss ! (i + 1)) \<le> ?f (ss ! (length ss - 1))"
      using sorted_nth_mono [of "map ?f ss" "i + 1" "length ss - 1"] assms(1) True by (simp add: ordered_def)
    moreover have "last ss = ss ! (length ss - 1)" using True by (intro last_conv_nth) auto
    ultimately have "k \<le> ?f (last ss)" using inSpan_next [OF assms(2,3) True] by simp
    then show ?thesis by (simp add: lastSlot_def Let_def le_max_iff_disj)
  next
    case False
    then have "ss ! i = last ss" using assms(2) by (metis Suc_eq_plus1 Suc_lessI diff_Suc_1 last_conv_nth list.size(3) not_less_zero)
    with False assms(3) show ?thesis by (auto simp: lastSlot_def inSpan_def untilSlot_def Let_def split: if_splits)
  qed
  moreover have "last (take (i + 1) ss) = ss ! i" using assms(2) by (simp add: take_Suc_conv_app_nth)
  moreover have "take (i + 1) ss \<noteq> []" using assms(2) by auto
  ultimately show ?thesis by (simp only: carried_def p Let_def) simp
qed

lemma carried_inSpan:
  assumes "ordered E ss" "carried E ss k = Some smp"
  obtains i where "i < length ss" "inSpan E ss k i" "smp = ss ! i"
proof -
  let ?f = "\<lambda>s. slotOf E (sAtMs s)"
  define n where "n = length (filter (\<lambda>s. ?f s \<le> k) ss)"
  from assms(2) have ne: "filter (\<lambda>s. ?f s \<le> k) ss \<noteq> []" and ls: "k \<le> lastSlot E ss" and smp: "smp = last (filter (\<lambda>s. ?f s \<le> k) ss)"
    by (auto simp: carried_def Let_def split: if_splits)
  have "\<exists>i < length ss. ?f (ss ! i) \<le> k" using ne by (force simp: filter_empty_conv in_set_conv_nth)
  define i where "i = Max {i. i < length ss \<and> ?f (ss ! i) \<le> k}"
  have fin: "finite {i. i < length ss \<and> ?f (ss ! i) \<le> k}" by simp
  have i: "i < length ss" "?f (ss ! i) \<le> k"
    using Max_in [OF fin] \<open>\<exists>i < length ss. ?f (ss ! i) \<le> k\<close> by (auto simp: i_def)
  have nxt: "k < ?f (ss ! (i + 1))" if "i + 1 < length ss"
  proof (rule ccontr)
    assume "\<not> k < ?f (ss ! (i + 1))"
    with that have "i + 1 \<le> i" unfolding i_def by (intro Max_ge fin) (simp add: i_def)
    then show False by simp
  qed
  have "filter (\<lambda>s. ?f s \<le> k) ss = take (i + 1) ss"
    by (rule sorted_prefix) (use assms(1) i nxt in \<open>simp_all add: ordered_def\<close>)
  then have s: "smp = ss ! i" using smp i(1) by (simp add: take_Suc_conv_app_nth)
  have "inSpan E ss k i"
  proof (cases "i + 1 < length ss")
    case True
    with i(2) nxt show ?thesis by (simp add: inSpan_def untilSlot_def Let_def)
  next
    case False
    then have "last ss = ss ! i" using i(1) by (metis Suc_eq_plus1 Suc_lessI diff_Suc_1 last_conv_nth list.size(3) not_less_zero)
    with False i(2) ls show ?thesis by (auto simp: inSpan_def untilSlot_def lastSlot_def Let_def split: if_splits)
  qed
  with i(1) s show thesis using that by blast
qed

section \<open>Folding the samples of one node\<close>

lemma foldSlots_at:
  "distinct ks \<Longrightarrow> map_of (fold (foldSlot E b smp) ks m) k
     = (if k \<in> set ks then Some (foldInto b smp (mget (newSample E k) m k)) else map_of m k)"
  by (induction ks arbitrary: m) (auto simp: foldSlot_def update_conv')

lemma foldCarried_at:
  "map_of (foldCarried E b ss i m) k
     = (if inSpan E ss k i then Some (foldInto b (ss ! i) (mget (newSample E k) m k)) else map_of m k)"
  by (auto simp: foldCarried_def foldSlots_at inSpan_def)

lemma foldCarrieds_out:
  "\<forall>i \<in> set is'. \<not> inSpan E ss k i \<Longrightarrow> map_of (fold (foldCarried E b ss) is' m) k = map_of m k"
  by (induction is' arbitrary: m) (simp_all add: foldCarried_at)

lemma foldCarrieds_in:
  assumes "i \<in> set is'" "distinct is'" "inSpan E ss k i" "\<forall>j \<in> set is'. j \<noteq> i \<longrightarrow> \<not> inSpan E ss k j"
  shows "map_of (fold (foldCarried E b ss) is' m) k = Some (foldInto b (ss ! i) (mget (newSample E k) m k))"
  using assms
proof (induction is' arbitrary: m)
  case (Cons j is')
  show ?case
  proof (cases "j = i")
    case True
    with Cons.prems have "\<forall>j \<in> set is'. \<not> inSpan E ss k j" by auto
    with True Cons.prems(3) show ?thesis by (simp add: foldCarrieds_out foldCarried_at)
  next
    case False
    with Cons.prems have "mget z (foldCarried E b ss j m) k = mget z m k" for z by (simp add: mget_def foldCarried_at)
    with False Cons show ?thesis by simp
  qed
qed simp

lemma foldSamples_at:
  assumes "ordered E (tSamples t)"
  shows "map_of (foldSamples E t m) k = (case carried E (tSamples t) k of None \<Rightarrow> map_of m k
     | Some smp \<Rightarrow> Some (foldInto (idBucket (tID t)) smp (mget (newSample E k) m k)))"
proof (cases "carried E (tSamples t) k")
  case None
  then have "\<forall>i \<in> set [0..<length (tSamples t)]. \<not> inSpan E (tSamples t) k i"
    using inSpan_carried [OF assms] by fastforce
  with None show ?thesis by (simp add: foldSamples_def foldCarrieds_out)
next
  case (Some smp)
  obtain i where i: "i < length (tSamples t)" "inSpan E (tSamples t) k i" "smp = tSamples t ! i"
    using carried_inSpan [OF assms Some] by blast
  have "\<not> inSpan E (tSamples t) k j" if j: "j < length (tSamples t)" "j \<noteq> i" for j
  proof
    assume jk: "inSpan E (tSamples t) k j"
    have "x < y \<Longrightarrow> y < length (tSamples t) \<Longrightarrow> inSpan E (tSamples t) k x \<Longrightarrow> \<not> inSpan E (tSamples t) k y" for x y
      using inSpan_next [of x "tSamples t" E k] sorted_nth_mono [of "map (\<lambda>s. slotOf E (sAtMs s)) (tSamples t)" "x + 1" y] assms
      by (fastforce simp: ordered_def inSpan_def)
    with i j jk show False by (metis linorder_neqE_nat)
  qed
  then have "map_of (foldSamples E t m) k = Some (foldInto (idBucket (tID t)) (tSamples t ! i) (mget (newSample E k) m k))"
    unfolding foldSamples_def by (intro foldCarrieds_in) (use i in auto)
  with Some i(3) show ?thesis by simp
qed

section \<open>The contents of a slot\<close>

text \<open>The contributions to a slot: the bucket and the sample of every node that has one there.\<close>

definition contributions :: "runEnv \<Rightarrow> rawTrace list \<Rightarrow> int \<Rightarrow> (nat \<times> rawSample) list" where
  "contributions E ts k = List.map_filter (\<lambda>t. map_option (\<lambda>smp. (idBucket (tID t), smp)) (carried E (tSamples t) k)) ts"

definition slotSample :: "runEnv \<Rightarrow> int \<Rightarrow> (nat \<times> rawSample) list \<Rightarrow> overheadSample" where
  "slotSample E k cs = fold (\<lambda>(b, smp). foldInto b smp) cs (newSample E k)"

lemma contributions_simps [simp]:
  "contributions E [] k = []"
  "contributions E (t # ts) k
     = (case carried E (tSamples t) k of None \<Rightarrow> [] | Some smp \<Rightarrow> [(idBucket (tID t), smp)]) @ contributions E ts k"
  by (simp_all add: contributions_def map_filter_def split: option.split)

lemma foldTraces_at:
  "\<forall>t \<in> set ts. ordered E (tSamples t) \<Longrightarrow> map_of (fold (foldSamples E) ts m) k
     = (if contributions E ts k = [] then map_of m k
        else Some (fold (\<lambda>(b, smp). foldInto b smp) (contributions E ts k) (mget (newSample E k) m k)))"
proof (induction ts arbitrary: m)
  case (Cons t ts)
  then have t: "map_of (foldSamples E t m) k = (case carried E (tSamples t) k of None \<Rightarrow> map_of m k
     | Some smp \<Rightarrow> Some (foldInto (idBucket (tID t)) smp (mget (newSample E k) m k)))"
    by (intro foldSamples_at) simp
  show ?case
  proof (cases "carried E (tSamples t) k")
    case None
    with t have "mget z (foldSamples E t m) k = mget z m k" for z by (simp add: mget_def)
    with None t Cons show ?thesis by simp
  next
    case (Some smp)
    with t have "mget z (foldSamples E t m) k = foldInto (idBucket (tID t)) smp (mget (newSample E k) m k)" for z
      by (simp add: mget_def)
    with Some t Cons show ?thesis by simp
  qed
qed simp

text \<open>Every column of a bucket is the total over the bucket's contributions.\<close>

definition wireSum :: "string \<Rightarrow> rawSample \<Rightarrow> int" where
  "wireSum name smp = sum_list (map (\<lambda>(ty, c). mget 0 c name) (sWire smp))"

definition inBucket :: "nat \<Rightarrow> (nat \<times> rawSample) list \<Rightarrow> rawSample list" where
  "inBucket b cs = map snd (filter (\<lambda>c. fst c = b) cs)"

lemma inBucket_simps [simp]:
  "inBucket b [] = []" "inBucket b (c # cs) = (if fst c = b then [snd c] else []) @ inBucket b cs"
  by (simp_all add: inBucket_def)

lemma addTo_simps [simp]:
  "length (addTo b v xs) = length xs"
  "b' < length xs \<Longrightarrow> addTo b v xs ! b' = xs ! b' + (if b' = b then v else 0)"
  by (auto simp: addTo_def nth_list_update)

lemma foldTypes_col:
  assumes "\<And>ty c s. f (foldType b (ty, c) s) = addTo b (mget 0 c name) (f s)" "b' < length (f s)"
  shows "length (f (fold (foldType b) w s)) = length (f s)
    \<and> f (fold (foldType b) w s) ! b' = f s ! b' + (if b' = b then sum_list (map (\<lambda>(ty, c). mget 0 c name) w) else 0)"
  using assms(2)
proof (induction w arbitrary: s)
  case (Cons x w)
  obtain ty c where x: "x = (ty, c)" by force
  from Cons.prems have "b' < length (f (foldType b (ty, c) s))" by (simp add: assms(1))
  with Cons.IH [of "foldType b (ty, c) s"] Cons.prems show ?case by (simp add: x assms(1))
qed simp

lemma foldType_keep [simp]:
  "SNodes (foldType b x s) = SNodes s" "CacheHeld (foldType b x s) = CacheHeld s" "CacheCap (foldType b x s) = CacheCap s"
  "TSec (foldType b x s) = TSec s"
  by (simp_all add: foldType_def Let_def split: prod.split)

lemma foldTypes_keep [simp]:
  "SNodes (fold (foldType b) w s) = SNodes s" "CacheHeld (fold (foldType b) w s) = CacheHeld s"
  "CacheCap (fold (foldType b) w s) = CacheCap s" "TSec (fold (foldType b) w s) = TSec s"
  by (induction w arbitrary: s) simp_all

lemma foldInto_keep [simp]:
  "SNodes (foldInto b smp s) = addTo b 1 (SNodes s)" "CacheHeld (foldInto b smp s) = CacheHeld s + sCacheHeld smp"
  "CacheCap (foldInto b smp s) = CacheCap s + sCacheCap smp" "TSec (foldInto b smp s) = TSec s"
  by (simp_all add: foldInto_def)

lemma slot_nodes:
  "b < length (SNodes s) \<Longrightarrow> SNodes (fold (\<lambda>(b, smp). foldInto b smp) cs s) ! b = SNodes s ! b + int (length (inBucket b cs))"
  by (induction cs arbitrary: s) (auto split: prod.split)

lemma slot_cache:
  "CacheHeld (fold (\<lambda>(b, smp). foldInto b smp) cs s) = CacheHeld s + sum_list (map (\<lambda>(b, smp). sCacheHeld smp) cs)"
  "CacheCap (fold (\<lambda>(b, smp). foldInto b smp) cs s) = CacheCap s + sum_list (map (\<lambda>(b, smp). sCacheCap smp) cs)"
  "TSec (fold (\<lambda>(b, smp). foldInto b smp) cs s) = TSec s"
  by (induction cs arbitrary: s) (auto split: prod.split)

lemma slot_col:
  assumes f: "\<And>b ty c s. f (foldType b (ty, c) s) = addTo b (mget 0 c name) (f s)"
    and g: "\<And>b (smp :: rawSample) s. f (s\<lparr>SNodes := addTo b 1 (SNodes s), CacheHeld := CacheHeld s + sCacheHeld smp,
        CacheCap := CacheCap s + sCacheCap smp, CacheByTopic := fold (\<lambda>(th, n). madd th n) (ByTopic smp) (CacheByTopic s)\<rparr>) = f s"
    and "b < length (f s)"
  shows "f (fold (\<lambda>(b, smp). foldInto b smp) cs s) ! b = f s ! b + sum_list (map (wireSum name) (inBucket b cs))"
  using assms(3)
proof (induction cs arbitrary: s)
  case (Cons x cs)
  obtain b' smp where x: "x = (b', smp)" by force
  let ?s = "s\<lparr>SNodes := addTo b' 1 (SNodes s), CacheHeld := CacheHeld s + sCacheHeld smp,
        CacheCap := CacheCap s + sCacheCap smp, CacheByTopic := fold (\<lambda>(th, n). madd th n) (ByTopic smp) (CacheByTopic s)\<rparr>"
  have gs: "f ?s = f s" by (rule g)
  with Cons.prems have "b < length (f ?s)" by simp
  from foldTypes_col [of f, OF f this, where b = b']
  have "length (f (foldInto b' smp s)) = length (f s)" "f (foldInto b' smp s) ! b = f s ! b + (if b = b' then wireSum name smp else 0)"
    unfolding foldInto_def gs wireSum_def by blast+
  with Cons.IH [of "foldInto b' smp s"] Cons.prems show ?case by (auto simp: x)
qed simp

lemmas col_simps = foldType_def Let_def

lemma slot_cols:
  assumes "b < seriesBuckets"
  shows "TxBytes (slotSample E k cs) ! b = sum_list (map (wireSum ''txBytes'') (inBucket b cs))"
    "RxBytes (slotSample E k cs) ! b = sum_list (map (wireSum ''rxBytes'') (inBucket b cs))"
    "TxMsgs (slotSample E k cs) ! b = sum_list (map (wireSum ''txMsgs'') (inBucket b cs))"
    "RxMsgs (slotSample E k cs) ! b = sum_list (map (wireSum ''rxMsgs'') (inBucket b cs))"
    "SNodes (slotSample E k cs) ! b = int (length (inBucket b cs))"
proof -
  have z: "length zeros = seriesBuckets" "zeros ! b = 0" using assms by (simp_all add: zeros_def)
  show "TxBytes (slotSample E k cs) ! b = sum_list (map (wireSum ''txBytes'') (inBucket b cs))"
    using slot_col [of TxBytes "''txBytes''" b "newSample E k" cs] assms z by (simp add: slotSample_def newSample_def col_simps)
  show "RxBytes (slotSample E k cs) ! b = sum_list (map (wireSum ''rxBytes'') (inBucket b cs))"
    using slot_col [of RxBytes "''rxBytes''" b "newSample E k" cs] assms z by (simp add: slotSample_def newSample_def col_simps)
  show "TxMsgs (slotSample E k cs) ! b = sum_list (map (wireSum ''txMsgs'') (inBucket b cs))"
    using slot_col [of TxMsgs "''txMsgs''" b "newSample E k" cs] assms z by (simp add: slotSample_def newSample_def col_simps)
  show "RxMsgs (slotSample E k cs) ! b = sum_list (map (wireSum ''rxMsgs'') (inBucket b cs))"
    using slot_col [of RxMsgs "''rxMsgs''" b "newSample E k" cs] assms z by (simp add: slotSample_def newSample_def col_simps)
  show "SNodes (slotSample E k cs) ! b = int (length (inBucket b cs))"
    using slot_nodes [of b "newSample E k" cs] assms z by (simp add: slotSample_def newSample_def)
qed

section \<open>The series of the run\<close>

lemma foldTopics_slots [simp]: "slots (fold (foldTopic E t) ids' F) = slots F"
  by (induction ids' arbitrary: F) (simp_all add: foldTopic_def Let_def split: prod.split)

lemma pass2_slots:
  "doSeries E \<Longrightarrow> slots (fold (pass2Step E raw) as F) = fold (foldSamples E) (runTraces E raw as) (slots F)"
  by (induction as arbitrary: F) (simp_all add: pass2Step_def Let_def split: option.split)

lemma sdiv_mono: "0 < p \<Longrightarrow> x \<le> y \<Longrightarrow> x sdiv p \<le> y sdiv (p :: int)"
proof -
  assume p: "0 < p" and xy: "x \<le> y"
  have neg: "z sdiv p = - ((- z) div p)" if "z < 0" for z using that p by (simp add: signed_divide_int_def)
  have pos: "z sdiv p = z div p" if "0 \<le> z" for z using that p by (simp add: sdiv_nonneg)
  consider "0 \<le> x" | "x < 0" "0 \<le> y" | "y < 0" using xy by linarith
  then show ?thesis
  proof cases
    case 1
    with pos [of x] pos [of y] xy p show ?thesis by (simp add: zdiv_mono1)
  next
    case 2
    then have "0 \<le> (- x) div p" "0 \<le> y div p" using p by (simp_all add: pos_imp_zdiv_nonneg_iff)
    with 2 neg [of x] pos [of y] show ?thesis by linarith
  next
    case 3
    with xy p have "(- y) div p \<le> (- x) div p" by (simp add: zdiv_mono1)
    with 3 xy neg [of x] neg [of y] show ?thesis by linarith
  qed
qed

lemma slotOf_ordered: "0 < period E \<Longrightarrow> sorted (map sAtMs ss) \<Longrightarrow> ordered E ss"
  by (auto simp: ordered_def sorted_iff_nth_mono slotOf_def intro: sdiv_mono)

lemma mapOk_foldSamples: "mapOk m \<Longrightarrow> mapOk (foldSamples E t m)"
proof -
  have a: "mapOk m \<Longrightarrow> mapOk (fold (foldSlot E b smp) ks m)" for b smp ks m
    by (induction ks arbitrary: m) (simp_all add: foldSlot_def)
  have "mapOk m \<Longrightarrow> mapOk (fold (foldCarried E b ss) is' m)" for b ss is' m
    by (induction is' arbitrary: m) (simp_all add: foldCarried_def a)
  then show "mapOk m \<Longrightarrow> ?thesis" by (simp add: foldSamples_def)
qed

lemma mapOk_foldTraces: "mapOk m \<Longrightarrow> mapOk (fold (foldSamples E) ts m)"
  by (induction ts arbitrary: m) (simp_all add: mapOk_foldSamples)

text \<open>
  C2: The series of a run, when every node sampled in the order of time: its samples are in the order
  of their slots, with the time of the slot; a slot is there when some node has a contribution. A node
  contributes once to every slot from its first sample to the end of the run, with its latest sample so
  far, so a node that is away keeps its total in the series. In every bucket of a slot the nodes are
  counted and the counters are the totals of their contributions.
\<close>

theorem series_of_run:
  assumes "writeMetrics hex lean raw as = Inr (M, Some S)" "E = runEnvOf hex as (pass1 hex lean as)" "ts = runTraces E raw as"
    and "\<forall>t \<in> set ts. sorted (map sAtMs (tSamples t))"
  shows "\<exists>ks. sorted ks \<and> distinct ks \<and> (\<forall>k. k \<in> set ks \<longleftrightarrow> contributions E ts k \<noteq> []) \<and> length (soSamples S) = length ks
    \<and> (\<forall>i < length ks. let s = soSamples S ! i; cs = contributions E ts (ks ! i)
        in TSec s = fdiv (ofInt (ks ! i * period E)) 1000
         \<and> CacheHeld s = sum_list (map (\<lambda>(b, smp). sCacheHeld smp) cs) \<and> CacheCap s = sum_list (map (\<lambda>(b, smp). sCacheCap smp) cs)
         \<and> (\<forall>b < 50. SNodes s ! b = int (length (inBucket b cs))
              \<and> TxBytes s ! b = sum_list (map (wireSum ''txBytes'') (inBucket b cs))
              \<and> RxBytes s ! b = sum_list (map (wireSum ''rxBytes'') (inBucket b cs))
              \<and> TxMsgs s ! b = sum_list (map (wireSum ''txMsgs'') (inBucket b cs))
              \<and> RxMsgs s ! b = sum_list (map (wireSum ''rxMsgs'') (inBucket b cs))))"
proof -
  define m where "m = slots (fold (pass2Step E raw) as (newAccs (topicIds (eP E))))"
  have p: "eP E = pass1 hex lean as" by (simp add: assms(2) runEnvOf_def Let_def)
  have ds: "doSeries E" and S: "soSamples S = map (\<lambda>k. the (map_of m k)) (sort (map fst m))"
    using assms(1) by (auto simp: writeMetrics_def Let_def seriesOf_def m_def p simp flip: assms(2) split: if_splits)
  have per: "0 < period E" using ds by (simp add: assms(2) runEnvOf_def Let_def)
  have m: "m = fold (foldSamples E) ts []" using pass2_slots [OF ds] by (simp add: m_def newAccs_def assms(3))
  have "\<forall>t \<in> set ts. ordered E (tSamples t)" using assms(4) slotOf_ordered [OF per] by blast
  from foldTraces_at [OF this, of "[]"]
  have at': "map_of m k = (if contributions E ts k = [] then None else Some (slotSample E k (contributions E ts k)))" for k
    by (simp add: m slotSample_def)
  define ks where "ks = sort (map fst m)"
  have ks: "k \<in> set ks \<longleftrightarrow> contributions E ts k \<noteq> []" for k
    using at' [of k] mhas_map_of [of m k] by (auto simp: ks_def mhas_def split: if_splits)
  have "distinct ks" "sorted ks" using mapOk_foldTraces [of "[]" E ts] by (simp_all add: ks_def m mapOk_def)
  moreover have "length (soSamples S) = length ks" by (simp add: S ks_def)
  moreover have "soSamples S ! i = slotSample E (ks ! i) (contributions E ts (ks ! i))" if "i < length ks" for i
    using that at' [of "ks ! i"] ks [of "ks ! i"] by (simp add: S flip: ks_def)
  moreover have "TSec (slotSample E k cs) = fdiv (ofInt (k * period E)) 1000"
    "CacheHeld (slotSample E k cs) = sum_list (map (\<lambda>(b, smp). sCacheHeld smp) cs)"
    "CacheCap (slotSample E k cs) = sum_list (map (\<lambda>(b, smp). sCacheCap smp) cs)" for k cs
    by (simp_all add: slotSample_def slot_cache) (simp_all add: newSample_def)
  ultimately show ?thesis using ks slot_cols by (intro exI [of _ ks]) (simp add: Let_def seriesBuckets_def)
qed

lemma series_of_run_witness:
  "\<exists>lean raw a M S ks. writeMetrics (\<lambda>x. x) lean raw [a] = Inr (M, Some S) \<and> length (soSamples S) = length ks \<and> (3 :: int) \<in> set ks \<and> 4 \<notin> set ks"
proof -
  define sm :: "int \<Rightarrow> rawSample" where "sm ms = \<lparr>sAtMs = ms, sWire = [], sCacheHeld = 1, sCacheCap = 2, ByTopic = []\<rparr>" for ms
  define tr :: rawTrace where "tr = \<lparr>tID = '''', tLegacy = True, tSearchAtMs = 0, tLookups = [], AdsFirstSeenMs = [], AdsFinal = [],
      tWait = [], tSamples = [sm 0, sm 100], RegBucketFull = [], RegCompleteMs = 0, Outbound = 0, tConn = None\<rparr>"
  define raw :: "nat \<Rightarrow> rawTrace option" where "raw = (\<lambda>_. Some tr)"
  define lean :: "nat \<Rightarrow> leanTrace option"
    where "lean = (\<lambda>_. Some \<lparr>ltID = '''', ltSamples = [0, 100], ltSession = None, ltSessions = None\<rparr>)"
  define a :: Assignment where "a = undefined\<lparr>aIdx := 0, aTopics := [''topic-0''], aLegacy := True, aSampleMs := 100, aChurn := [],
      aPhases := \<lparr>StartAt = 0, RegisterBase = 0, RegisterAt = 0, SearchAt = 0, StopAt = 300\<rparr>\<rparr>"
  define E where "E = runEnvOf (\<lambda>x. x) [a] (pass1 (\<lambda>x. x) lean [a])"
  have p: "present (pass1 (\<lambda>x. x) lean [a]) = [(0, True)]" "t0 (pass1 (\<lambda>x. x) lean [a]) = 0"
    by (simp_all add: pass1_def pass1Step_def newPass1_def lean_def a_def Let_def)
  have E: "doSeries E" "period E = 100" "t0 (eP E) = 0" "stopMs E = 300" "present (eP E) = [(0, True)]"
    using p by (simp_all add: E_def runEnvOf_def Let_def a_def)
  then obtain M S where w: "writeMetrics (\<lambda>x. x) lean raw [a] = Inr (M, Some S)"
    using p(1) by (simp add: writeMetrics_def Let_def E_def a_def)
  have ts: "runTraces E raw [a] = [tr]" using E(5) by (simp add: a_def raw_def mget_def)
  have "contributions E [tr] 3 \<noteq> []" "contributions E [tr] 4 = []"
    using E by (simp_all add: tr_def sm_def carried_def lastSlot_def slotOf_def Let_def go_simps)
  moreover have "\<forall>t \<in> set [tr]. sorted (map sAtMs (tSamples t))" by (simp add: tr_def sm_def)
  then have "\<forall>t \<in> set (runTraces E raw [a]). sorted (map sAtMs (tSamples t))" by (simp only: ts)
  from series_of_run [OF w E_def refl this] obtain ks
    where "\<forall>k. k \<in> set ks \<longleftrightarrow> contributions E [tr] k \<noteq> []" "length (soSamples S) = length ks"
    unfolding ts by blast
  ultimately show ?thesis using w by blast
qed

end
