(* ===== verification/SearchWorkload.thy ===== *)
theory SearchWorkload
  imports ConnModel Assign
begin

text \<open>
  The searchers of the simulator (\<open>src/cmd/simnet/search.go\<close>). A searcher is a machine whose control points
  are the selects of \<open>runOneSearcher\<close>; an event is what a select receives, with what the searcher can
  observe at that moment: the clock, the membership, the connection table it shares with the others, and
  what the iterator reports. The discovery library's iterator and its counters are arguments.
\<close>

section \<open>Counters of a search\<close>

record topicStats =
  tsPasses :: int
  tsQueries :: int
  tsContacted :: int
  tsReceived :: int
  tsDuplicate :: int
  tsFiltered :: int
  tsYielded :: int
  tsMaxTopic :: int
  tsMaxAux :: int
  tsQueriesByBucket :: "int list"
  tsActiveTrace :: "(int \<times> int) list"

definition noStats :: topicStats where
  "noStats = \<lparr>tsPasses = 0, tsQueries = 0, tsContacted = 0, tsReceived = 0, tsDuplicate = 0, tsFiltered = 0, tsYielded = 0,
     tsMaxTopic = 0, tsMaxAux = 0, tsQueriesByBucket = [], tsActiveTrace = []\<rparr>"

definition padTo :: "nat \<Rightarrow> int list \<Rightarrow> int list" where
  "padTo n xs = xs @ replicate (n - length xs) 0"

definition addSearchStats :: "topicStats \<Rightarrow> topicStats \<Rightarrow> topicStats" where
  "addSearchStats d s =
     d\<lparr>tsPasses := tsPasses d + tsPasses s, tsQueries := tsQueries d + tsQueries s, tsContacted := tsContacted d + tsContacted s,
       tsReceived := tsReceived d + tsReceived s, tsDuplicate := tsDuplicate d + tsDuplicate s,
       tsFiltered := tsFiltered d + tsFiltered s, tsYielded := tsYielded d + tsYielded s,
       tsQueriesByBucket := fold (\<lambda>(i, n) q. q[i := q ! i + n]) (enumerate 0 (tsQueriesByBucket s))
         (padTo (length (tsQueriesByBucket s)) (tsQueriesByBucket d)),
       tsActiveTrace := tsActiveTrace d @ tsActiveTrace s\<rparr>"

section \<open>A searcher\<close>

text \<open>What does not change during a search, and what is observed at an event.\<close>

record 'id searchCfg =
  scSelf :: 'id
  scIdx :: nat
  scTopic :: int
  scTarget :: int
  scModel :: string
  scTargetCount :: int
  scResumable :: bool
  scRedialWait :: duration
  scInitialResults :: int
  scResultInterval :: duration
  scMaxPause :: duration
  scPauseNovelOnly :: bool
  scRequestTimeout :: duration
  scConnected :: "'id list"

record 'id searchEnv =
  enNow :: gotime
  enHas :: "'id \<Rightarrow> bool"
  enDead :: "'id deadResultTracker option"
  enContacts :: "int \<times> int"
  enStats :: topicStats
  enUp :: bool

definition scheduled :: "'id searchCfg \<Rightarrow> bool" where
  "scheduled c \<longleftrightarrow> scModel c = ''scheduled''"

definition continuous :: "'id searchCfg \<Rightarrow> bool" where
  "continuous c \<longleftrightarrow> scModel c = ''continuous''"

definition fLookup :: "'id searchCfg \<Rightarrow> int" where
  "fLookup c = (let f = (if scTargetCount c \<le> 0 then 30 else scTargetCount c)
     in if scTarget c > 0 \<and> scTarget c < f then scTarget c else f)"

datatype searchPhase = Waiting | Consuming | Pacing gotime | Pausing | Rejoining | Parked | Finished

datatype 'id searchEvent = Deadline | TimerFired | LookupTimeout | Yielded 'id | IterDone | Wake

record 'id searcher =
  phase :: searchPhase
  startT :: gotime
  endT :: gotime
  iterOpen :: bool
  searchQueries :: int
  searchContacted :: int
  lastQueries :: int
  lastContacted :: int
  searchStats :: topicStats
  totalYields :: int
  timeFirst :: duration
  foundReg :: int
  foundExtra :: int
  seenReg :: "'id list"
  uniqueAtMs :: "int list"
  hitDeadline :: bool
  deadL :: deadLocal
  seenNewReg :: "'id list"
  newAtMs :: "int list"
  alreadyConnReg :: int
  outboundConns :: int
  dialAttempts :: int
  dialRefused :: int
  slotsFilledAtMs :: int
  lastDial :: "('id, gotime) gomap"
  schedule :: "gotime list"
  lookupStart :: gotime
  lookupSeen :: "'id list"
  lookups :: int
  lookupsHitTarget :: int
  lookupLatencyMs :: "int list"
  lookupResults :: "int list"
  lookupQueries :: "int list"
  lookupContacted :: "int list"
  targetQueries :: int
  targetContacted :: int
  paceStart :: "gotime option"

definition closeIter :: "'id searchEnv \<Rightarrow> 'id searcher \<Rightarrow> 'id searcher" where
  "closeIter e s =
     (if iterOpen s
      then s\<lparr>iterOpen := False, searchQueries := searchQueries s + fst (enContacts e),
             searchContacted := searchContacted s + snd (enContacts e), lastQueries := fst (enContacts e),
             lastContacted := snd (enContacts e), searchStats := addSearchStats (searchStats s) (enStats e)\<rparr>
      else s)"

definition finishSearch :: "'id searchEnv \<Rightarrow> 'id searcher \<Rightarrow> 'id searcher" where
  "finishSearch e s = (closeIter e s)\<lparr>phase := Finished, endT := enNow e\<rparr>"

definition hitDeadlineNow :: "'id searchEnv \<Rightarrow> 'id searcher \<Rightarrow> 'id searcher" where
  "hitDeadlineNow e s = finishSearch e (s\<lparr>hitDeadline := True\<rparr>)"

definition openSession :: "'id searchCfg \<Rightarrow> 'id searchEnv \<Rightarrow> 'id searcher \<Rightarrow> 'id searcher" where
  "openSession c e s =
     (let s = s\<lparr>phase := Consuming, iterOpen := True\<rparr>
      in if scheduled c then s\<lparr>lookupStart := enNow e, lookupSeen := []\<rparr> else s)"

text \<open>The head of the loop over sessions.\<close>

definition sessionTop :: "'id searchCfg \<Rightarrow> 'id searchEnv \<Rightarrow> 'id searcher \<Rightarrow> 'id searcher" where
  "sessionTop c e s =
     (if scheduled c then (if schedule s = [] then finishSearch e s else s\<lparr>phase := Waiting\<rparr>)
      else openSession c e s)"

definition recordLookup :: "'id searchCfg \<Rightarrow> 'id searchEnv \<Rightarrow> 'id searcher \<Rightarrow> 'id searcher" where
  "recordLookup c e s =
     s\<lparr>lookups := lookups s + 1,
       lookupsHitTarget := lookupsHitTarget s
         + (if scTargetCount c > 0 \<and> int (length (lookupSeen s)) \<ge> fLookup c then 1 else 0),
       lookupLatencyMs := lookupLatencyMs s @ [Milliseconds (enNow e - lookupStart s)],
       lookupResults := lookupResults s @ [int (length (lookupSeen s))],
       lookupQueries := lookupQueries s @ [lastQueries s], lookupContacted := lookupContacted s @ [lastContacted s]\<rparr>"

definition connsOffline :: "'id connTable option \<Rightarrow> nat \<Rightarrow> bool" where
  "connsOffline ct i = (case ct of None \<Rightarrow> False | Some t \<Rightarrow> isOffline t i)"

definition isAway :: "'id searchCfg \<Rightarrow> 'id searchEnv \<Rightarrow> 'id connTable option \<Rightarrow> bool" where
  "isAway c e ct \<longleftrightarrow> connsOffline ct (scIdx c) \<or> \<not> enUp e"

text \<open>After the loop that consumes one session.\<close>

definition afterConsume :: "'id searchCfg \<Rightarrow> 'id searchEnv \<Rightarrow> 'id connTable option \<Rightarrow> 'id searcher \<Rightarrow> 'id searcher" where
  "afterConsume c e ct s =
     (let s = closeIter e s
      in if continuous c \<and> \<not> isAway c e ct then finishSearch e s
         else let s = (if scheduled c then recordLookup c e s else s)
              in if scheduled c \<or> continuous c
                 then (if isAway c e ct then s\<lparr>phase := Rejoining\<rparr> else sessionTop c e s)
                 else case ct of None \<Rightarrow> finishSearch e s
                      | Some t \<Rightarrow> if \<not> scResumable c \<or> \<not> shouldPark t (scIdx c) then finishSearch e s
                          else s\<lparr>phase := Parked\<rparr>)"

text \<open>A node the iterator yielded: whether it is a registrant seen for the first time.\<close>

definition newRegistrant :: "'id searchCfg \<Rightarrow> 'id searchEnv \<Rightarrow> 'id \<Rightarrow> 'id searcher \<Rightarrow> 'id searcher" where
  "newRegistrant c e i s =
     (let s = s\<lparr>seenReg := seenReg s @ [i]\<rparr>;
          s = (if int (length (seenReg s)) = fLookup c \<and> targetQueries s < 0
               then s\<lparr>targetQueries := searchQueries s + fst (enContacts e), targetContacted := searchContacted s + snd (enContacts e)\<rparr>
               else s);
          ms = Milliseconds (enNow e - startT s);
          s = s\<lparr>uniqueAtMs := uniqueAtMs s @ [ms]\<rparr>
      in if i \<in> set (scConnected c) then s\<lparr>alreadyConnReg := alreadyConnReg s + 1\<rparr>
         else s\<lparr>seenNewReg := seenNewReg s @ [i], newAtMs := newAtMs s @ [ms]\<rparr>)"

definition classify :: "'id searchCfg \<Rightarrow> 'id searchEnv \<Rightarrow> 'id \<Rightarrow> 'id searcher \<Rightarrow> 'id searcher" where
  "classify c e i s =
     (if \<not> enHas e i then s\<lparr>foundExtra := foundExtra s + 1\<rparr>
      else let s = (case enDead e of None \<Rightarrow> s | Some d \<Rightarrow> s\<lparr>deadL := record_dl d i (enNow e) (deadL s)\<rparr>);
               s = (if scheduled c then s\<lparr>lookupSeen := (if i \<in> set (lookupSeen s) then lookupSeen s else lookupSeen s @ [i])\<rparr> else s);
               s = (if i \<in> set (seenReg s) then s else newRegistrant c e i s)
           in s\<lparr>foundReg := foundReg s + 1\<rparr>)"

text \<open>After the dialing: the end of a lookup or of the search, or how long to wait for the next node.\<close>

definition pauseNext :: "'id searchCfg \<Rightarrow> bool \<Rightarrow> 'id searcher \<Rightarrow> 'id searcher" where
  "pauseNext c novel s =
     (if scMaxPause c > 0 \<and> (novel \<or> \<not> scPauseNovelOnly c) then s\<lparr>phase := Pausing\<rparr> else s\<lparr>phase := Consuming\<rparr>)"

definition paceNext :: "'id searchCfg \<Rightarrow> 'id searchEnv \<Rightarrow> bool \<Rightarrow> 'id searcher \<Rightarrow> 'id searcher" where
  "paceNext c e novel s =
     (let over = int (length (seenReg s)) - scInitialResults c
      in if continuous c \<and> novel \<and> scResultInterval c > 0 \<and> over \<ge> 0
         then let t = (case paceStart s of None \<Rightarrow> enNow e | Some t \<Rightarrow> t);
                  s = s\<lparr>paceStart := Some t\<rparr>
              in if over > 0 then s\<lparr>phase := Pacing (t + over * scResultInterval c)\<rparr> else pauseNext c novel s
         else pauseNext c novel s)"

definition nextNode :: "'id searchCfg \<Rightarrow> 'id searchEnv \<Rightarrow> 'id connTable option \<Rightarrow> bool \<Rightarrow> 'id searcher \<Rightarrow> 'id searcher" where
  "nextNode c e ct novel s =
     (if scheduled c
      then (if scTargetCount c > 0 \<and> int (length (lookupSeen s)) \<ge> fLookup c then afterConsume c e ct s else paceNext c e novel s)
      else if \<not> continuous c \<and> scTargetCount c > 0 \<and> int (length (seenReg s)) \<ge> scTargetCount c then finishSearch e s
      else paceNext c e novel s)"

definition parkNow :: "'id searchCfg \<Rightarrow> 'id connTable option \<Rightarrow> bool" where
  "parkNow c ct = (case ct of None \<Rightarrow> False
     | Some t \<Rightarrow> (scheduled c \<or> continuous c) \<and> isOffline t (scIdx c)
         \<or> \<not> scheduled c \<and> \<not> continuous c \<and> shouldPark t (scIdx c))"

definition dialNode :: "'id searchCfg \<Rightarrow> 'id searchEnv \<Rightarrow> 'id \<Rightarrow> bool \<Rightarrow> 'id connTable \<Rightarrow> 'id searcher \<Rightarrow> 'id searcher \<times> 'id connTable option" where
  "dialNode c e i novel t s =
     (let s = s\<lparr>lastDial := mput i (enNow e) (lastDial s), dialAttempts := dialAttempts s + 1\<rparr>;
          ((ok, targetFull), t) = dial (enNow e) (scIdx c) i t
      in if ok
         then let s = s\<lparr>outboundConns := outboundConns s + 1\<rparr>
              in if outboundFull t (scIdx c)
                 then (afterConsume c e (Some t)
                        (if slotsFilledAtMs s = 0 then s\<lparr>slotsFilledAtMs := Milliseconds (enNow e - startT s)\<rparr> else s), Some t)
                 else (nextNode c e (Some t) novel s, Some t)
         else (nextNode c e (Some t) novel (if targetFull then s\<lparr>dialRefused := dialRefused s + 1\<rparr> else s), Some t))"

text \<open>One node; the last component is what is reported to the live statistics.\<close>

definition takeNode :: "'id searchCfg \<Rightarrow> 'id searchEnv \<Rightarrow> 'id connTable option \<Rightarrow> 'id \<Rightarrow> 'id searcher
    \<Rightarrow> 'id searcher \<times> 'id connTable option \<times> 'id list" where
  "takeNode c e ct i s =
     (let s = (if timeFirst s = 0 then s\<lparr>timeFirst := enNow e - startT s\<rparr> else s)
      in if i = scSelf c then (s, ct, [])
         else let novel = (enHas e i \<and> i \<notin> set (seenReg s));
                  s = classify c e i (s\<lparr>totalYields := totalYields s + 1\<rparr>);
                  rep = (if novel then [i] else [])
              in if parkNow c ct then (afterConsume c e ct s, ct, rep)
                 else if enHas e i \<and> \<not> scheduled c \<and> \<not> continuous c \<and> ct \<noteq> None
                         \<and> \<not> recentlyDialed (enNow e) (lastDial s) i (scRedialWait c)
                 then let (s, ct) = dialNode c e i novel (the ct) s in (s, ct, rep)
                 else (nextNode c e ct novel s, ct, rep))"

text \<open>
  What each select of the code receives; an event no select waits for changes nothing. Each of the six
  selects has its own branch for the deadline: before a lookup, while nodes are read, in the two pauses between
  nodes, while a departed node waits for its rejoin and while a node with full slots is parked.
\<close>

fun searchStep :: "'id searchCfg \<Rightarrow> 'id searchEnv \<Rightarrow> 'id connTable option \<Rightarrow> 'id searchEvent \<Rightarrow> 'id searcher
    \<Rightarrow> 'id searcher \<times> 'id connTable option \<times> 'id list" where
  "searchStep c e ct Deadline s =
     (case phase s of
        Waiting \<Rightarrow> hitDeadlineNow e s
      | Consuming \<Rightarrow> hitDeadlineNow e s
      | Pacing t \<Rightarrow> hitDeadlineNow e s
      | Pausing \<Rightarrow> hitDeadlineNow e s
      | Rejoining \<Rightarrow> hitDeadlineNow e s
      | Parked \<Rightarrow> hitDeadlineNow e s
      | Finished \<Rightarrow> s, ct, [])"
| "searchStep c e ct TimerFired s =
     (case phase s of
        Waiting \<Rightarrow> if schedule s \<noteq> [] \<and> hd (schedule s) \<le> enNow e
                    then openSession c e (s\<lparr>schedule := tl (schedule s)\<rparr>) else s
      | Pacing t \<Rightarrow> if t \<le> enNow e then pauseNext c True s else s
      | Pausing \<Rightarrow> s\<lparr>phase := Consuming\<rparr>
      | _ \<Rightarrow> s, ct, [])"
| "searchStep c e ct LookupTimeout s =
     (if phase s = Consuming \<and> scheduled c \<and> scRequestTimeout c > 0 \<and> lookupStart s + scRequestTimeout c \<le> enNow e
      then afterConsume c e ct s else s, ct, [])"
| "searchStep c e ct (Yielded i) s = (if phase s = Consuming then takeNode c e ct i s else (s, ct, []))"
| "searchStep c e ct IterDone s = (if phase s = Consuming then afterConsume c e ct s else s, ct, [])"
| "searchStep c e ct Wake s =
     (case phase s of
        Rejoining \<Rightarrow> if isAway c e ct then s else sessionTop c e s
      | Parked \<Rightarrow> openSession c e s
      | _ \<Rightarrow> s, ct, [])"

text \<open>The start: the schedule of the lookups comes from \<open>assign.LookupTimes\<close>, in milliseconds.\<close>

definition newSearcher :: "'id searchCfg \<Rightarrow> 'id searchEnv \<Rightarrow> gotime list \<Rightarrow> 'id searcher" where
  "newSearcher c e sch =
     sessionTop c e \<lparr>phase = Waiting, startT = enNow e, endT = 0, iterOpen = False, searchQueries = 0, searchContacted = 0,
       lastQueries = 0, lastContacted = 0, searchStats = noStats, totalYields = 0, timeFirst = 0, foundReg = 0, foundExtra = 0,
       seenReg = [], uniqueAtMs = [], hitDeadline = False, deadL = newDeadLocal (scTopic c), seenNewReg = [], newAtMs = [],
       alreadyConnReg = 0, outboundConns = 0, dialAttempts = 0, dialRefused = 0, slotsFilledAtMs = 0, lastDial = [],
       schedule = sch, lookupStart = 0, lookupSeen = [], lookups = 0, lookupsHitTarget = 0, lookupLatencyMs = [],
       lookupResults = [], lookupQueries = [], lookupContacted = [], targetQueries = -1, targetContacted = -1, paceStart = None\<rparr>"

definition lookupSchedule :: "'id searchCfg \<Rightarrow> rng \<Rightarrow> gotime \<Rightarrow> duration \<Rightarrow> int \<Rightarrow> gotime list" where
  "lookupSchedule c r now searchTimeout intervals =
     (if scheduled c \<and> intervals > 0
      then map (\<lambda>ms. ms * nsMilli) (LookupTimes r (Milliseconds now) (Milliseconds (now + searchTimeout)) intervals)
      else [])"

section \<open>Results\<close>

text \<open>
  The ids of a result are printed; \<open>str\<close> is \<open>TerminalString\<close>. The ids of the registrants found are listed
  twice: in the order of discovery, and in the unspecified order in which a map is iterated (\<open>order\<close>).
\<close>

record simResult =
  srNodeIdx :: nat
  srNodeID :: string
  srTopic :: int
  srTarget :: int
  srFound :: int
  srFoundRegistrant :: int
  srUniqueRegistrant :: int
  srConnectedAtStart :: int
  srAlreadyConnectedReg :: int
  srNewRegistrant :: int
  srNewFoundAtMs :: "int list"
  srFoundExtra :: int
  srTimeToFirst :: duration
  srTimeToCompletion :: duration
  srHitTimeout :: bool
  srFoundIDs :: "string list"
  srFoundRegistrantIDs :: "string list"
  srUniqueFoundAtMs :: "int list"
  srUniqueFoundIDs :: "string list"
  srOutboundConns :: int
  srDialAttempts :: int
  srDialRefused :: int
  srSlotsFilledAtMs :: int
  srLookups :: int
  srLookupsHitTarget :: int
  srLookupLatencyMs :: "int list"
  srLookupResults :: "int list"
  srLookupQueries :: "int list"
  srLookupContacted :: "int list"
  srFLookup :: int
  srTargetQueries :: int
  srTargetContacted :: int
  srSearchQueries :: int
  srSearchContacted :: int
  srSearchStats :: topicStats
  srSearchStartMs :: int
  srLegacy :: bool

definition zeroResult :: simResult where
  "zeroResult = \<lparr>srNodeIdx = 0, srNodeID = '''', srTopic = 0, srTarget = 0, srFound = 0, srFoundRegistrant = 0, srUniqueRegistrant = 0,
     srConnectedAtStart = 0, srAlreadyConnectedReg = 0, srNewRegistrant = 0, srNewFoundAtMs = [], srFoundExtra = 0, srTimeToFirst = 0,
     srTimeToCompletion = 0, srHitTimeout = False, srFoundIDs = [], srFoundRegistrantIDs = [], srUniqueFoundAtMs = [],
     srUniqueFoundIDs = [], srOutboundConns = 0, srDialAttempts = 0, srDialRefused = 0, srSlotsFilledAtMs = 0, srLookups = 0,
     srLookupsHitTarget = 0, srLookupLatencyMs = [], srLookupResults = [], srLookupQueries = [], srLookupContacted = [], srFLookup = 0,
     srTargetQueries = 0, srTargetContacted = 0, srSearchQueries = 0, srSearchContacted = 0, srSearchStats = noStats,
     srSearchStartMs = 0, srLegacy = False\<rparr>"

definition searchStartOffsetMs :: "gotime \<Rightarrow> gotime \<Rightarrow> int" where
  "searchStartOffsetMs epoch start = (if epoch = 0 then 0 else Milliseconds (start - epoch))"

definition iterates :: "'a list \<Rightarrow> 'a list \<Rightarrow> bool" where
  "iterates order keys \<longleftrightarrow> distinct order \<and> set order = set keys"

definition resultOf :: "('id \<Rightarrow> string) \<Rightarrow> gotime \<Rightarrow> 'id searchCfg \<Rightarrow> 'id searcher \<Rightarrow> 'id list \<Rightarrow> simResult" where
  "resultOf str epoch c s order = zeroResult\<lparr>srNodeIdx := scIdx c, srNodeID := str (scSelf c), srTopic := scTopic c, srTarget := scTarget c,
     srFound := totalYields s, srFoundRegistrant := foundReg s, srUniqueRegistrant := int (length (seenReg s)),
     srConnectedAtStart := int (length (remdups (scConnected c))), srAlreadyConnectedReg := alreadyConnReg s,
     srNewRegistrant := int (length (seenNewReg s)), srNewFoundAtMs := newAtMs s, srFoundExtra := foundExtra s,
     srTimeToFirst := timeFirst s, srTimeToCompletion := endT s - startT s, srHitTimeout := hitDeadline s,
     srFoundRegistrantIDs := map str order, srUniqueFoundAtMs := uniqueAtMs s, srUniqueFoundIDs := map str (seenReg s),
     srOutboundConns := outboundConns s, srDialAttempts := dialAttempts s, srDialRefused := dialRefused s,
     srSlotsFilledAtMs := slotsFilledAtMs s, srLookups := lookups s, srLookupsHitTarget := lookupsHitTarget s,
     srLookupLatencyMs := lookupLatencyMs s, srLookupResults := lookupResults s, srLookupQueries := lookupQueries s,
     srLookupContacted := lookupContacted s, srFLookup := fLookup c, srTargetQueries := targetQueries s,
     srTargetContacted := targetContacted s, srSearchQueries := searchQueries s, srSearchContacted := searchContacted s,
     srSearchStats := searchStats s, srSearchStartMs := searchStartOffsetMs epoch (startT s)\<rparr>"

section \<open>The single-topic search\<close>

text \<open>The nodes the iterator yields until it is closed, by the timeout or not, with the clock at each.\<close>

record 'id plainAcc =
  paFound :: "'id list"
  paFirst :: duration
  paRegistered :: int
  paExtra :: int
  paSeen :: "'id list"
  paAtMs :: "int list"

definition plainStep :: "('id \<Rightarrow> bool) \<Rightarrow> 'id \<Rightarrow> gotime \<Rightarrow> gotime \<times> 'id \<Rightarrow> 'id plainAcc \<Rightarrow> 'id plainAcc" where
  "plainStep isReg self start = (\<lambda>(now, i) a.
     let a = (if paFirst a = 0 then a\<lparr>paFirst := now - start\<rparr> else a)
     in if i = self then a
        else let a = a\<lparr>paFound := paFound a @ [i]\<rparr>
             in if isReg i
                then let a = (if i \<in> set (paSeen a) then a
                              else a\<lparr>paSeen := paSeen a @ [i], paAtMs := paAtMs a @ [Milliseconds (now - start)]\<rparr>)
                     in a\<lparr>paRegistered := paRegistered a + 1\<rparr>
                else a\<lparr>paExtra := paExtra a + 1\<rparr>)"

definition runSearch :: "('id \<Rightarrow> string) \<Rightarrow> gotime \<Rightarrow> ('id \<Rightarrow> bool) \<Rightarrow> nat \<Rightarrow> 'id \<Rightarrow> gotime \<Rightarrow> (gotime \<times> 'id) list \<Rightarrow> gotime \<Rightarrow> bool
    \<Rightarrow> 'id list \<Rightarrow> simResult" where
  "runSearch str epoch isReg idx self start yields endt timedOut order =
     (let a = fold (plainStep isReg self start) yields
            \<lparr>paFound = [], paFirst = 0, paRegistered = 0, paExtra = 0, paSeen = [], paAtMs = []\<rparr>
      in zeroResult\<lparr>srNodeIdx := idx, srNodeID := str self, srFound := int (length (paFound a)), srFoundRegistrant := paRegistered a,
           srUniqueRegistrant := int (length (paSeen a)), srFoundExtra := paExtra a, srTimeToFirst := paFirst a,
           srTimeToCompletion := endt - start, srHitTimeout := timedOut, srFoundIDs := map str (paFound a),
           srFoundRegistrantIDs := map str order, srUniqueFoundAtMs := paAtMs a, srUniqueFoundIDs := map str (paSeen a),
           srSearchStartMs := searchStartOffsetMs epoch start\<rparr>)"

section \<open>The walk of a node without TopDisc\<close>

record 'id walker =
  wFoundReg :: int
  wSeen :: "'id list"
  wFirst :: duration
  wAtMs :: "int list"
  wAlready :: int
  wNew :: int
  wNewAtMs :: "int list"
  wQueries :: int

datatype 'id walkEvent = WalkNode gotime 'id | WalkOver int

definition walkDone :: "int \<Rightarrow> 'id walker \<Rightarrow> bool" where
  "walkDone targetCount w \<longleftrightarrow> targetCount > 0 \<and> int (length (wSeen w)) \<ge> targetCount"

definition newWalker :: "'id walker" where
  "newWalker = \<lparr>wFoundReg = 0, wSeen = [], wFirst = 0, wAtMs = [], wAlready = 0, wNew = 0, wNewAtMs = [], wQueries = 0\<rparr>"

text \<open>One node; the second component is what is reported to the live statistics.\<close>

definition walkAdd :: "('id \<Rightarrow> bool) \<Rightarrow> 'id \<Rightarrow> 'id list \<Rightarrow> gotime \<Rightarrow> gotime \<Rightarrow> 'id \<Rightarrow> 'id walker \<Rightarrow> 'id walker \<times> 'id list" where
  "walkAdd prov self conn start now i w =
     (if i = self \<or> \<not> prov i then (w, [])
      else let w = w\<lparr>wFoundReg := wFoundReg w + 1\<rparr>
           in if i \<in> set (wSeen w) then (w, [])
              else let w = w\<lparr>wSeen := wSeen w @ [i]\<rparr>;
                       at' = now - start;
                       w = (if length (wSeen w) = 1 then w\<lparr>wFirst := at'\<rparr> else w);
                       w = w\<lparr>wAtMs := wAtMs w @ [Milliseconds at']\<rparr>
                   in (if i \<in> set conn then w\<lparr>wAlready := wAlready w + 1\<rparr>
                       else w\<lparr>wNew := wNew w + 1, wNewAtMs := wNewAtMs w @ [Milliseconds at']\<rparr>, [i]))"

fun walkStep :: "('id \<Rightarrow> bool) \<Rightarrow> 'id \<Rightarrow> 'id list \<Rightarrow> gotime \<Rightarrow> int \<Rightarrow> 'id walkEvent \<Rightarrow> 'id walker \<Rightarrow> 'id walker \<times> 'id list" where
  "walkStep prov self conn start tc (WalkNode now i) w = (if walkDone tc w then (w, []) else walkAdd prov self conn start now i w)"
| "walkStep prov self conn start tc (WalkOver sent) w = (w\<lparr>wQueries := wQueries w + sent\<rparr>, [])"

text \<open>
  The nodes already known are all added first, then the walk is read. Other than a searcher, a walker prints
  ids in full: \<open>full\<close> is \<open>String\<close>, not \<open>TerminalString\<close>.
\<close>

definition runLegacyWalker :: "('id \<Rightarrow> string) \<Rightarrow> gotime \<Rightarrow> 'id list \<Rightarrow> nat \<Rightarrow> 'id \<Rightarrow> int \<Rightarrow> int \<Rightarrow> gotime \<Rightarrow> 'id list \<Rightarrow> (gotime \<times> 'id) list
    \<Rightarrow> 'id walkEvent list \<Rightarrow> gotime \<Rightarrow> simResult" where
  "runLegacyWalker full epoch prov idx self topicK tc start conn known evs endt =
     (let w = fold (\<lambda>(now, i) w. fst (walkAdd (\<lambda>i. i \<in> set prov) self conn start now i w)) known newWalker;
          w = fold (\<lambda>ev w. fst (walkStep (\<lambda>i. i \<in> set prov) self conn start tc ev w)) evs w
      in zeroResult\<lparr>srNodeIdx := idx, srNodeID := full self, srTopic := topicK,
           srTarget := int (length prov) - (if self \<in> set prov then 1 else 0), srLegacy := True, srFLookup := -1,
           srSearchStartMs := searchStartOffsetMs epoch start, srConnectedAtStart := int (length (remdups conn)),
           srFoundRegistrant := wFoundReg w, srTimeToFirst := wFirst w, srUniqueFoundAtMs := wAtMs w,
           srUniqueFoundIDs := map full (wSeen w), srFoundRegistrantIDs := map full (wSeen w), srAlreadyConnectedReg := wAlready w,
           srNewRegistrant := wNew w, srNewFoundAtMs := wNewAtMs w, srUniqueRegistrant := int (length (wSeen w)),
           srFound := wFoundReg w, srTimeToCompletion := endt - start, srHitTimeout := \<not> walkDone tc w, srLookups := 1,
           srLookupsHitTarget := (if walkDone tc w then 1 else 0), srLookupLatencyMs := [Milliseconds (endt - start)],
           srLookupResults := [int (length (wSeen w))], srLookupQueries := [wQueries w], srSearchQueries := wQueries w\<rparr>)"

section \<open>All searchers of a run\<close>

text \<open>The searches of \<open>runMultiTopicSearches\<close>: node, topic and whether it is a walk; a job's number is its slot.\<close>

definition jobsOf :: "int list list \<Rightarrow> int list list option \<Rightarrow> (nat \<times> int \<times> bool) list" where
  "jobsOf nodeTopics legacyTopics =
     concat (map (\<lambda>i. map (\<lambda>t. (i, t, False)) (filter (\<lambda>t. t \<ge> 0) (nodeTopics ! i))
       @ (case legacyTopics of None \<Rightarrow> [] | Some lt \<Rightarrow> map (\<lambda>t. (i, t, True)) (lt ! i))) [0..<length nodeTopics])"

definition jobSeed :: "nat \<Rightarrow> int" where
  "jobSeed slot = int slot * 2654435761"

definition searchTarget :: "int \<Rightarrow> int" where
  "searchTarget members = max 0 (members - 1)"

definition medOrZero :: "int list \<Rightarrow> int" where
  "medOrZero xs = (if xs = [] then 0 else xs ! (length xs div 2))"

record lookupSummary =
  lsTotal :: int
  lsMedian :: int
  lsHit :: int
  lsHitPct :: float64
  lsLatency :: "int list"

definition printLookupSummary :: "simResult list \<Rightarrow> lookupSummary" where
  "printLookupSummary rs =
     (let lat = sort (concat (map srLookupLatencyMs rs));
          per = sort (map srLookups rs);
          total = sum_list (map srLookups rs);
          hit = sum_list (map srLookupsHitTarget rs);
          pct = (\<lambda>p. if lat = [] then 0 else lat ! pctIdx p (length lat))
      in \<lparr>lsTotal = total, lsMedian = medOrZero per, lsHit = hit,
          lsHitPct = fdiv (fmul 100 (ofInt hit)) (ofInt (max total 1)), lsLatency = [pct 50, pct 95, pct 100]\<rparr>)"

text \<open>The counts shown while searches run.\<close>

record 'id liveStats =
  counts :: "('id, int) gomap list"
  assigned :: "int list"

definition newLiveStats :: "int list \<Rightarrow> 'id liveStats" where
  "newLiveStats members = \<lparr>counts = replicate (length members) [], assigned = members\<rparr>"

definition addAssigned :: "nat \<Rightarrow> 'id liveStats \<Rightarrow> 'id liveStats" where
  "addAssigned t l = l\<lparr>assigned := (assigned l)[t := assigned l ! t + 1]\<rparr>"

definition recordUniqueFind :: "nat \<Rightarrow> 'id \<Rightarrow> 'id liveStats \<Rightarrow> 'id liveStats" where
  "recordUniqueFind t i l = l\<lparr>counts := (counts l)[t := madd i 1 (counts l ! t)]\<rparr>"

definition snapshotColumn :: "'id list \<Rightarrow> nat \<Rightarrow> 'id liveStats \<Rightarrow> int list" where
  "snapshotColumn order t l = map (mget 0 (counts l ! t)) order"

record checkpointRow =
  crAssigned :: int
  crFounders :: int
  crNeverFound :: int
  crP50 :: int
  crP95 :: int
  crMax :: int
  crCoverage :: float64

definition checkpointOf :: "'id liveStats \<Rightarrow> nat \<Rightarrow> checkpointRow" where
  "checkpointOf l t =
     (let a = assigned l ! t;
          founders = int (length (counts l ! t));
          never = a - founders;
          dist = sort (map snd (counts l ! t) @ replicate (nat never) 0);
          n = length dist;
          p95 = dist ! (n * 95 div 100)
      in \<lparr>crAssigned = a, crFounders = founders, crNeverFound = never,
          crP50 = (if n > 0 then dist ! (n * 50 div 100) else 0),
          crP95 = (if n > 0 then (if p95 \<ge> int n then dist ! (n - 1) else p95) else 0),
          crMax = (if n > 0 then dist ! (n - 1) else 0),
          crCoverage = (if a > 0 then fdiv (fmul (ofInt founders) 100) (ofInt a) else 0)\<rparr>)"

text \<open>Searchers launched while the search phase runs.\<close>

record searchManager =
  smSeq :: int
  smRunning :: "(nat \<times> int \<times> int) list"
  smResults :: "simResult list"

definition launch :: "nat \<Rightarrow> int \<Rightarrow> searchManager \<Rightarrow> searchManager" where
  "launch n topicK sm =
     (if topicK < 0 then sm
      else sm\<lparr>smSeq := smSeq sm + 1, smRunning := smRunning sm @ [(n, topicK, smSeq sm * 2654435761)]\<rparr>)"

text \<open>The \<open>k\<close>-th running searcher ends with its result; \<open>wait\<close> returns the results there are.\<close>

definition searcherDone :: "nat \<Rightarrow> simResult \<Rightarrow> searchManager \<Rightarrow> searchManager" where
  "searcherDone k r sm =
     (if k < length (smRunning sm)
      then sm\<lparr>smRunning := take k (smRunning sm) @ drop (k + 1) (smRunning sm), smResults := smResults sm @ [r]\<rparr> else sm)"

section \<open>Counts of a searcher\<close>

text \<open>The part of a searcher that the finds are counted in; the control flow does not touch it.\<close>

definition findView :: "'id searcher \<Rightarrow> ('id list \<times> int list \<times> 'id list \<times> int list \<times> int) \<times> int \<times> int \<times> int \<times> int \<times> int \<times> int" where
  "findView s = ((seenReg s, uniqueAtMs s, seenNewReg s, newAtMs s, alreadyConnReg s),
     foundReg s, foundExtra s, totalYields s, outboundConns s, dialAttempts s, dialRefused s)"

lemma findView_frame [simp]:
  "findView (closeIter e s) = findView s" "findView (finishSearch e s) = findView s" "findView (hitDeadlineNow e s) = findView s"
  "findView (openSession c e s) = findView s" "findView (sessionTop c e s) = findView s" "findView (recordLookup c e s) = findView s"
  "findView (pauseNext c b s) = findView s" "findView (s\<lparr>phase := p\<rparr>) = findView s" "findView (s\<lparr>schedule := q\<rparr>) = findView s"
  "findView (s\<lparr>slotsFilledAtMs := n\<rparr>) = findView s" "findView (s\<lparr>timeFirst := n\<rparr>) = findView s"
  by (simp_all add: findView_def closeIter_def finishSearch_def hitDeadlineNow_def openSession_def sessionTop_def recordLookup_def
      pauseNext_def Let_def)

lemma findView_afterConsume [simp]: "findView (afterConsume c e ct s) = findView s"
  by (simp add: afterConsume_def Let_def split: option.split)

lemma findView_paceNext [simp]: "findView (paceNext c e b s) = findView s"
proof -
  have "findView (s\<lparr>paceStart := t\<rparr>) = findView s" for t by (simp add: findView_def)
  then show ?thesis by (simp add: paceNext_def Let_def)
qed

lemma findView_nextNode [simp]: "findView (nextNode c e ct b s) = findView s"
  by (simp add: nextNode_def)

definition countsOk :: "'id searchCfg \<Rightarrow> 'id searcher \<Rightarrow> bool" where
  "countsOk c s \<longleftrightarrow> distinct (seenReg s) \<and> scSelf c \<notin> set (seenReg s) \<and> length (uniqueAtMs s) = length (seenReg s)
     \<and> seenNewReg s = filter (\<lambda>i. i \<notin> set (scConnected c)) (seenReg s) \<and> length (newAtMs s) = length (seenNewReg s)
     \<and> alreadyConnReg s = int (length (filter (\<lambda>i. i \<in> set (scConnected c)) (seenReg s)))
     \<and> int (length (seenReg s)) \<le> foundReg s \<and> 0 \<le> foundExtra s \<and> totalYields s = foundReg s + foundExtra s
     \<and> 0 \<le> outboundConns s \<and> 0 \<le> dialRefused s \<and> outboundConns s + dialRefused s \<le> dialAttempts s \<and> dialAttempts s \<le> foundReg s"

lemma countsOk_view: "findView s = findView s' \<Longrightarrow> countsOk c s = countsOk c s'"
  by (simp add: findView_def countsOk_def)

lemma newRegistrant_view:
  "findView (newRegistrant c e i s) =
     ((seenReg s @ [i], uniqueAtMs s @ [Milliseconds (enNow e - startT s)],
       seenNewReg s @ (if i \<in> set (scConnected c) then [] else [i]),
       newAtMs s @ (if i \<in> set (scConnected c) then [] else [Milliseconds (enNow e - startT s)]),
       alreadyConnReg s + (if i \<in> set (scConnected c) then 1 else 0)),
      foundReg s, foundExtra s, totalYields s, outboundConns s, dialAttempts s, dialRefused s)"
  by (simp add: newRegistrant_def findView_def Let_def)

lemma classify_view:
  "findView (classify c e i s) =
     (if \<not> enHas e i then (fst (findView s), foundReg s, foundExtra s + 1, totalYields s, outboundConns s, dialAttempts s, dialRefused s)
      else (if i \<in> set (seenReg s) then fst (findView s) else fst (findView (newRegistrant c e i s)),
        foundReg s + 1, foundExtra s, totalYields s, outboundConns s, dialAttempts s, dialRefused s))"
proof (cases "enHas e i")
  case True
  define s1 where "s1 = (case enDead e of None \<Rightarrow> s | Some d \<Rightarrow> s\<lparr>deadL := record_dl d i (enNow e) (deadL s)\<rparr>)"
  define s2 where "s2 = (if scheduled c then s1\<lparr>lookupSeen := (if i \<in> set (lookupSeen s1) then lookupSeen s1 else lookupSeen s1 @ [i])\<rparr> else s1)"
  define s3 where "s3 = (if i \<in> set (seenReg s2) then s2 else newRegistrant c e i s2)"
  have cl: "classify c e i s = s3\<lparr>foundReg := foundReg s3 + 1\<rparr>"
    using True by (simp only: classify_def s3_def s2_def s1_def Let_def not_True_eq_False if_False)
  have v: "findView s2 = findView s" "startT s2 = startT s"
    by (simp_all add: s2_def s1_def findView_def split: option.split)
  then have "findView (newRegistrant c e i s2) = findView (newRegistrant c e i s)"
    unfolding newRegistrant_view by (simp add: findView_def)
  with v(1) have "findView s3 = (if i \<in> set (seenReg s) then findView s else findView (newRegistrant c e i s))"
    by (simp add: s3_def) (simp add: findView_def)
  moreover have "findView (s3\<lparr>foundReg := n\<rparr>) = (fst (findView s3), n, snd (snd (findView s3)))" for n
    by (simp add: findView_def)
  moreover have "foundReg s3 = fst (snd (findView s3))" by (simp add: findView_def)
  ultimately show ?thesis using True unfolding cl
    by (simp add: newRegistrant_view) (simp add: findView_def)
qed (simp add: classify_def findView_def)

lemma countsOk_classify:
  assumes "countsOk c s" "i \<noteq> scSelf c" "s' = classify c e i (s\<lparr>totalYields := totalYields s + 1\<rparr>)"
  shows "countsOk c s'" "enHas e i \<Longrightarrow> dialAttempts s' + 1 \<le> foundReg s'"
proof -
  let ?s = "s\<lparr>totalYields := totalYields s + 1\<rparr>"
  have "\<not> enHas e i \<or> enHas e i \<and> i \<in> set (seenReg s) \<or> enHas e i \<and> i \<notin> set (seenReg s)" by blast
  then have "countsOk c s' \<and> (enHas e i \<longrightarrow> dialAttempts s' + 1 \<le> foundReg s')"
  proof (elim disjE)
    assume "\<not> enHas e i"
    then have "findView s' = (fst (findView ?s), foundReg s, foundExtra s + 1, totalYields s + 1, outboundConns s, dialAttempts s, dialRefused s)"
      using assms(3) by (simp add: classify_view)
    then show ?thesis using assms(1) \<open>\<not> enHas e i\<close> by (simp add: findView_def countsOk_def)
  next
    assume h: "enHas e i \<and> i \<in> set (seenReg s)"
    then have "findView s' = (fst (findView ?s), foundReg s + 1, foundExtra s, totalYields s + 1, outboundConns s, dialAttempts s, dialRefused s)"
      using assms(3) by (simp add: classify_view)
    then show ?thesis using assms(1) by (simp add: findView_def countsOk_def)
  next
    assume h: "enHas e i \<and> i \<notin> set (seenReg s)"
    then have "findView s' = (fst (findView (newRegistrant c e i ?s)), foundReg s + 1, foundExtra s, totalYields s + 1, outboundConns s, dialAttempts s, dialRefused s)"
      using assms(3) by (simp add: classify_view)
    then show ?thesis using assms(1,2) h unfolding newRegistrant_view by (simp add: findView_def countsOk_def)
  qed
  then show "countsOk c s'" "enHas e i \<Longrightarrow> dialAttempts s' + 1 \<le> foundReg s'" by blast+
qed

lemma countsOk_dialNode:
  assumes "countsOk c s" "dialAttempts s + 1 \<le> foundReg s"
  shows "countsOk c (fst (dialNode c e i b t s))"
proof -
  let ?s = "s\<lparr>lastDial := mput i (enNow e) (lastDial s), dialAttempts := dialAttempts s + 1\<rparr>"
  have k: "countsOk c (?s\<lparr>outboundConns := outboundConns ?s + 1\<rparr>)" "countsOk c ?s" "countsOk c (?s\<lparr>dialRefused := dialRefused ?s + 1\<rparr>)"
    using assms by (simp_all add: countsOk_def)
  obtain ok full t' where d: "dial (enNow e) (scIdx c) i t = ((ok, full), t')" by (metis prod.exhaust)
  show ?thesis
  proof (cases ok)
    case True
    have "findView (fst (dialNode c e i b t s)) = findView (?s\<lparr>outboundConns := outboundConns ?s + 1\<rparr>)"
      using True by (simp add: dialNode_def d Let_def del: searcher.simps)
    with k(1) show ?thesis using countsOk_view by blast
  next
    case False
    then have "findView (fst (dialNode c e i b t s)) = findView (if full then ?s\<lparr>dialRefused := dialRefused ?s + 1\<rparr> else ?s)"
      by (simp add: dialNode_def d Let_def del: searcher.simps)
    moreover have "countsOk c (if full then ?s\<lparr>dialRefused := dialRefused ?s + 1\<rparr> else ?s)"
      by (cases full) (use k in \<open>simp_all only: if_True if_False\<close>)
    ultimately show ?thesis using countsOk_view by blast
  qed
qed

lemma countsOk_takeNode: "countsOk c s \<Longrightarrow> countsOk c (fst (takeNode c e ct i s))"
proof -
  assume a: "countsOk c s"
  define s1 where "s1 = (if timeFirst s = 0 then s\<lparr>timeFirst := enNow e - startT s\<rparr> else s)"
  have s1: "countsOk c s1" using a countsOk_view [of s1 s] by (simp add: s1_def)
  show ?thesis
  proof (cases "i = scSelf c")
    case True
    with s1 show ?thesis by (simp add: takeNode_def s1_def [symmetric] Let_def)
  next
    case False
    define s2 where "s2 = classify c e i (s1\<lparr>totalYields := totalYields s1 + 1\<rparr>)"
    note s2 = countsOk_classify [OF s1 False s2_def]
    have "fst (takeNode c e ct i s) \<in> {afterConsume c e ct s2, nextNode c e ct (enHas e i \<and> i \<notin> set (seenReg s1)) s2}
       \<or> enHas e i \<and> fst (takeNode c e ct i s) = fst (dialNode c e i (enHas e i \<and> i \<notin> set (seenReg s1)) (the ct) s2)"
      using False by (auto simp: takeNode_def Let_def s1_def [symmetric] s2_def [symmetric] split: prod.split)
    then show ?thesis
    proof
      assume "fst (takeNode c e ct i s) \<in> {afterConsume c e ct s2, nextNode c e ct (enHas e i \<and> i \<notin> set (seenReg s1)) s2}"
      then have "findView (fst (takeNode c e ct i s)) = findView s2" by auto
      with s2(1) show ?thesis using countsOk_view by blast
    next
      assume "enHas e i \<and> fst (takeNode c e ct i s) = fst (dialNode c e i (enHas e i \<and> i \<notin> set (seenReg s1)) (the ct) s2)"
      with countsOk_dialNode [OF s2(1)] s2(2) show ?thesis by simp
    qed
  qed
qed

lemma countsOk_step: "countsOk c s \<Longrightarrow> countsOk c (fst (searchStep c e ct ev s))"
proof (cases ev)
  case (Yielded i)
  assume "countsOk c s"
  with Yielded show ?thesis by (simp add: countsOk_takeNode)
qed (auto split: searchPhase.split intro: countsOk_view [THEN iffD1, rotated])

text \<open>What a step reports to the live statistics is exactly what it adds to the registrants seen.\<close>

lemma seenReg_view: "seenReg s = fst (fst (findView s))"
  by (simp add: findView_def)

lemma classify_seen: "seenReg (classify c e i s) = seenReg s @ (if enHas e i \<and> i \<notin> set (seenReg s) then [i] else [])"
  unfolding seenReg_view classify_view newRegistrant_view by (simp add: findView_def)

lemma dialNode_seen: "seenReg (fst (dialNode c e i b t s)) = seenReg s"
proof -
  have upd: "seenReg (s\<lparr>lastDial := l, dialAttempts := n\<rparr>) = seenReg s" "seenReg (s'\<lparr>outboundConns := n\<rparr>) = seenReg s'"
    "seenReg (s'\<lparr>dialRefused := n\<rparr>) = seenReg s'" "seenReg (s'\<lparr>slotsFilledAtMs := n\<rparr>) = seenReg s'" for l n s'
    by simp_all
  have "seenReg (afterConsume c e ct s') = seenReg s'" "seenReg (nextNode c e ct b s') = seenReg s'" for ct s'
    by (simp_all add: seenReg_view)
  then show ?thesis by (simp add: dialNode_def Let_def split: prod.split)
qed

lemma takeNode_seen:
  "seenReg (fst (takeNode c e ct i s)) = seenReg s @ snd (snd (takeNode c e ct i s))"
  "snd (snd (takeNode c e ct i s)) = (if i \<noteq> scSelf c \<and> enHas e i \<and> i \<notin> set (seenReg s) then [i] else [])"
proof -
  have "seenReg (afterConsume c e ct s') = seenReg s'" "seenReg (nextNode c e ct b s') = seenReg s'" for ct b s'
    by (simp_all add: seenReg_view)
  note fr = this
  have d: "dialNode c e i b t s' = (s4, ct4) \<Longrightarrow> seenReg s4 = seenReg s'" for b t s' s4 ct4
    using dialNode_seen [of c e i] by (metis fst_conv)
  show "snd (snd (takeNode c e ct i s)) = (if i \<noteq> scSelf c \<and> enHas e i \<and> i \<notin> set (seenReg s) then [i] else [])"
    by (simp add: takeNode_def Let_def split: prod.split)
  then show "seenReg (fst (takeNode c e ct i s)) = seenReg s @ snd (snd (takeNode c e ct i s))"
    by (auto simp: takeNode_def Let_def fr classify_seen split: prod.split dest!: d)
qed

lemma searchStep_reports:
  "snd (snd (searchStep c e ct ev s)) = (case ev of
     Yielded i \<Rightarrow> if phase s = Consuming \<and> i \<noteq> scSelf c \<and> enHas e i \<and> i \<notin> set (seenReg s) then [i] else []
   | _ \<Rightarrow> [])"
proof (cases ev)
  case (Yielded i)
  then show ?thesis by (cases "phase s = Consuming") (simp_all add: takeNode_seen(2))
qed simp_all

lemma searchStep_seen:
  "seenReg (fst (searchStep c e ct ev s)) = seenReg s @ snd (snd (searchStep c e ct ev s))"
  "set (snd (snd (searchStep c e ct ev s))) \<subseteq> {i. ev = Yielded i \<and> enHas e i \<and> i \<noteq> scSelf c \<and> i \<notin> set (seenReg s)}"
  "distinct (snd (snd (searchStep c e ct ev s)))"
proof -
  have fr: "seenReg (f s) = seenReg s" if "findView (f s) = findView s" for f :: "'a searcher \<Rightarrow> 'a searcher"
    using that by (simp add: seenReg_view)
  show "seenReg (fst (searchStep c e ct ev s)) = seenReg s @ snd (snd (searchStep c e ct ev s))"
  proof (cases ev)
    case (Yielded i)
    then show ?thesis by (simp add: takeNode_seen(1))
  next
    case TimerFired
    then show ?thesis by (simp add: seenReg_view split: searchPhase.split)
  next
    case Wake
    then show ?thesis by (simp add: seenReg_view split: searchPhase.split)
  qed (simp_all add: seenReg_view split: searchPhase.split)
  show "set (snd (snd (searchStep c e ct ev s))) \<subseteq> {i. ev = Yielded i \<and> enHas e i \<and> i \<noteq> scSelf c \<and> i \<notin> set (seenReg s)}"
    "distinct (snd (snd (searchStep c e ct ev s)))"
    by (auto simp: searchStep_reports split: searchEvent.split if_splits)
qed

section \<open>Lookups of the scheduled model\<close>

definition lookView :: "'id searcher \<Rightarrow> (bool \<times> bool \<times> int \<times> int \<times> gotime list) \<times> int \<times> int list \<times> int list \<times> int list \<times> int list" where
  "lookView s = ((iterOpen s, hitDeadline s, searchQueries s, lookupsHitTarget s, schedule s),
     lookups s, lookupLatencyMs s, lookupResults s, lookupQueries s, lookupContacted s)"

lemma lookView_frame [simp]:
  "lookView (pauseNext c b s) = lookView s" "lookView (s\<lparr>phase := p\<rparr>) = lookView s" "lookView (s\<lparr>timeFirst := n\<rparr>) = lookView s"
  "lookView (s\<lparr>totalYields := n\<rparr>) = lookView s" "lookView (s\<lparr>foundReg := n\<rparr>) = lookView s" "lookView (s\<lparr>foundExtra := n\<rparr>) = lookView s"
  "lookView (s\<lparr>deadL := d\<rparr>) = lookView s" "lookView (s\<lparr>lookupSeen := l\<rparr>) = lookView s" "lookView (newRegistrant c e i s) = lookView s"
  by (simp_all add: lookView_def pauseNext_def newRegistrant_def Let_def)

lemma lookView_classify [simp]: "lookView (classify c e i s) = lookView s"
  by (simp add: classify_def Let_def split: option.split)

lemma lookupSeen_newRegistrant [simp]: "lookupSeen (newRegistrant c e i s) = lookupSeen s"
  by (simp add: newRegistrant_def Let_def)

lemma lookupSeen_classify: "length (lookupSeen (classify c e i s)) \<le> length (lookupSeen s) + 1"
  by (simp add: classify_def Let_def split: option.split)

text \<open>During and after the consumption of a session; \<open>n\<close> is the number of lookups planned.\<close>

definition midOk :: "nat \<Rightarrow> 'id searchCfg \<Rightarrow> 'id searcher \<Rightarrow> bool" where
  "midOk n c s \<longleftrightarrow> iterOpen s \<and> \<not> hitDeadline s \<and> searchQueries s = sum_list (lookupQueries s)
     \<and> lookups s = int (length (lookupResults s)) \<and> length (lookupLatencyMs s) = length (lookupResults s)
     \<and> length (lookupQueries s) = length (lookupResults s) \<and> length (lookupContacted s) = length (lookupResults s)
     \<and> lookupsHitTarget s = int (length (filter (\<lambda>r. scTargetCount c > 0 \<and> r \<ge> fLookup c) (lookupResults s)))
     \<and> (scTargetCount c > 0 \<longrightarrow> (\<forall>r \<in> set (lookupResults s). r \<le> fLookup c)) \<and> (\<forall>r \<in> set (lookupResults s). 0 \<le> r)
     \<and> length (lookupResults s) + length (schedule s) + 1 \<le> n"

definition lookOk :: "nat \<Rightarrow> 'id searchCfg \<Rightarrow> 'id searcher \<Rightarrow> bool" where
  "lookOk n c s \<longleftrightarrow> lookups s = int (length (lookupResults s)) \<and> length (lookupLatencyMs s) = length (lookupResults s)
     \<and> length (lookupQueries s) = length (lookupResults s) \<and> length (lookupContacted s) = length (lookupResults s)
     \<and> lookupsHitTarget s = int (length (filter (\<lambda>r. scTargetCount c > 0 \<and> r \<ge> fLookup c) (lookupResults s)))
     \<and> (scTargetCount c > 0 \<longrightarrow> (\<forall>r \<in> set (lookupResults s). r \<le> fLookup c)) \<and> (\<forall>r \<in> set (lookupResults s). 0 \<le> r)
     \<and> length (lookupResults s) + length (schedule s) + (if iterOpen s then 1 else 0) \<le> n
     \<and> (\<not> hitDeadline s \<longrightarrow> searchQueries s = sum_list (lookupQueries s)) \<and> (hitDeadline s \<longrightarrow> phase s = Finished)
     \<and> (iterOpen s \<longleftrightarrow> phase s = Consuming \<or> phase s = Pausing) \<and> phase s \<in> {Waiting, Consuming, Pausing, Rejoining, Finished}
     \<and> (scTargetCount c > 0 \<and> iterOpen s \<longrightarrow> int (length (lookupSeen s)) < fLookup c)"

lemma midOk_view: "lookView s = lookView s' \<Longrightarrow> midOk n c s = midOk n c s'"
  by (simp add: lookView_def midOk_def)

lemma fLookup_pos: "scTargetCount c > 0 \<Longrightarrow> 0 < fLookup c"
  by (simp add: fLookup_def Let_def)

lemma lookOk_mid: "lookOk n c s \<Longrightarrow> iterOpen s \<Longrightarrow> midOk n c s"
  by (auto simp: lookOk_def midOk_def)

lemma lookOk_open:
  assumes "midOk n c s" "phase s = Consuming \<or> phase s = Pausing" "scTargetCount c > 0 \<Longrightarrow> int (length (lookupSeen s)) < fLookup c"
  shows "lookOk n c s"
  using assms by (auto simp: lookOk_def midOk_def)

lemma lookOk_afterConsume:
  assumes sch: "scheduled c" and m: "midOk n c s" and le: "scTargetCount c > 0 \<Longrightarrow> int (length (lookupSeen s)) \<le> fLookup c"
  shows "lookOk n c (afterConsume c e ct s)"
proof -
  have nc: "\<not> continuous c" using sch by (simp add: scheduled_def continuous_def)
  define s1 where "s1 = recordLookup c e (closeIter e s)"
  have ac: "afterConsume c e ct s = (if isAway c e ct then s1\<lparr>phase := Rejoining\<rparr> else sessionTop c e s1)"
    using sch nc by (simp add: afterConsume_def Let_def s1_def)
  have f: "iterOpen s1 = False" "hitDeadline s1 = False" "searchQueries s1 = searchQueries s + fst (enContacts e)"
    "lookupQueries s1 = lookupQueries s @ [fst (enContacts e)]" "lookups s1 = lookups s + 1" "schedule s1 = schedule s"
    "lookupResults s1 = lookupResults s @ [int (length (lookupSeen s))]"
    "length (lookupLatencyMs s1) = length (lookupLatencyMs s) + 1" "length (lookupContacted s1) = length (lookupContacted s) + 1"
    "lookupsHitTarget s1 = lookupsHitTarget s + (if scTargetCount c > 0 \<and> int (length (lookupSeen s)) \<ge> fLookup c then 1 else 0)"
    using m by (simp_all add: s1_def recordLookup_def closeIter_def midOk_def)
  have base: "lookups s1 = int (length (lookupResults s1)) \<and> length (lookupLatencyMs s1) = length (lookupResults s1)
     \<and> length (lookupQueries s1) = length (lookupResults s1) \<and> length (lookupContacted s1) = length (lookupResults s1)
     \<and> lookupsHitTarget s1 = int (length (filter (\<lambda>r. scTargetCount c > 0 \<and> r \<ge> fLookup c) (lookupResults s1)))
     \<and> (scTargetCount c > 0 \<longrightarrow> (\<forall>r \<in> set (lookupResults s1). r \<le> fLookup c)) \<and> (\<forall>r \<in> set (lookupResults s1). 0 \<le> r)
     \<and> length (lookupResults s1) + length (schedule s1) \<le> n \<and> searchQueries s1 = sum_list (lookupQueries s1)"
    using m le by (simp add: midOk_def f)
  show ?thesis
  proof (cases "isAway c e ct")
    case True
    with base f(1,2) show ?thesis by (simp add: ac lookOk_def)
  next
    case False
    have fin: "finishSearch e s1 = s1\<lparr>phase := Finished, endT := enNow e\<rparr>" by (simp add: finishSearch_def closeIter_def f(1))
    with base f(1,2) sch False show ?thesis by (cases "schedule s1 = []") (simp_all add: ac lookOk_def sessionTop_def)
  qed
qed

lemma lookOk_nextNode:
  assumes sch: "scheduled c" and m: "midOk n c s" and le: "scTargetCount c > 0 \<Longrightarrow> int (length (lookupSeen s)) \<le> fLookup c"
  shows "lookOk n c (nextNode c e ct b s)"
proof (cases "scTargetCount c > 0 \<and> int (length (lookupSeen s)) \<ge> fLookup c")
  case True
  with sch show ?thesis by (simp add: nextNode_def lookOk_afterConsume [OF sch m le])
next
  case False
  have nc: "\<not> continuous c" using sch by (simp add: scheduled_def continuous_def)
  have "nextNode c e ct b s = pauseNext c b s" using False sch nc by (auto simp: nextNode_def paceNext_def Let_def)
  moreover have "midOk n c (pauseNext c b s)" using m midOk_view by (metis lookView_frame(1))
  moreover have "phase (pauseNext c b s) = Consuming \<or> phase (pauseNext c b s) = Pausing" "lookupSeen (pauseNext c b s) = lookupSeen s"
    by (simp_all add: pauseNext_def)
  ultimately show ?thesis using False lookOk_open by fastforce
qed

lemma lookOk_takeNode:
  assumes sch: "scheduled c" and ok: "lookOk n c s" and ph: "phase s = Consuming"
  shows "lookOk n c (fst (takeNode c e ct i s))"
proof -
  define s1 where "s1 = (if timeFirst s = 0 then s\<lparr>timeFirst := enNow e - startT s\<rparr> else s)"
  define s2 where "s2 = classify c e i (s1\<lparr>totalYields := totalYields s1 + 1\<rparr>)"
  have io: "iterOpen s" using ok ph by (simp add: lookOk_def)
  have m: "midOk n c s" using ok io by (rule lookOk_mid)
  have v: "lookView s1 = lookView s" "lookView s2 = lookView s" by (simp_all add: s1_def s2_def)
  have lt: "scTargetCount c > 0 \<Longrightarrow> int (length (lookupSeen s)) < fLookup c" using ok io by (simp add: lookOk_def)
  have l1: "lookupSeen s1 = lookupSeen s" "phase s1 = Consuming" using ph by (simp_all add: s1_def)
  have l2: "scTargetCount c > 0 \<Longrightarrow> int (length (lookupSeen s2)) \<le> fLookup c"
    using lookupSeen_classify [of c e i "s1\<lparr>totalYields := totalYields s1 + 1\<rparr>"] lt l1 by (simp add: s2_def)
  have m1: "midOk n c s1" and m2: "midOk n c s2" using m v midOk_view by blast+
  have "fst (takeNode c e ct i s) \<in> {s1, afterConsume c e ct s2, nextNode c e ct (enHas e i \<and> i \<notin> set (seenReg s1)) s2}"
    using sch by (auto simp: takeNode_def Let_def s1_def [symmetric] s2_def [symmetric] split: prod.split)
  then consider "fst (takeNode c e ct i s) = s1" | "fst (takeNode c e ct i s) = afterConsume c e ct s2"
    | "fst (takeNode c e ct i s) = nextNode c e ct (enHas e i \<and> i \<notin> set (seenReg s1)) s2" by auto
  then show ?thesis
  proof cases
    case 1
    have "lookOk n c s1" by (rule lookOk_open [OF m1]) (use l1 lt in simp_all)
    with 1 show ?thesis by simp
  qed (simp_all add: lookOk_afterConsume [OF sch m2 l2] lookOk_nextNode [OF sch m2 l2])
qed

lemma lookOk_sessionTop:
  "scheduled c \<Longrightarrow> lookOk n c s \<Longrightarrow> phase s = Rejoining \<Longrightarrow> lookOk n c (sessionTop c e s)"
  by (auto simp: sessionTop_def lookOk_def finishSearch_def closeIter_def)

lemma lookOk_step:
  assumes sch: "scheduled c" and ok: "lookOk n c s"
  shows "lookOk n c (fst (searchStep c e ct ev s))"
proof (cases ev)
  case Deadline
  have "lookOk n c (hitDeadlineNow e s)" if "phase s \<noteq> Finished"
    using ok that by (auto simp: hitDeadlineNow_def finishSearch_def closeIter_def lookOk_def)
  with Deadline ok show ?thesis by (simp split: searchPhase.split)
next
  case TimerFired
  have "lookOk n c (openSession c e (s\<lparr>schedule := tl (schedule s)\<rparr>))" if "phase s = Waiting" "schedule s \<noteq> []"
    using ok sch that fLookup_pos [of c] by (cases "schedule s") (auto simp: openSession_def lookOk_def Let_def)
  moreover have "phase s = Pausing \<Longrightarrow> lookOk n c (s\<lparr>phase := Consuming\<rparr>)" using ok by (auto simp: lookOk_def)
  moreover have "phase s \<noteq> Pacing t" for t using ok by (auto simp: lookOk_def)
  ultimately show ?thesis using TimerFired ok by (simp split: searchPhase.split)
next
  case (Yielded i)
  with ok sch show ?thesis by (simp add: lookOk_takeNode)
next
  case Wake
  moreover have "phase s \<noteq> Parked" using ok by (auto simp: lookOk_def)
  ultimately show ?thesis using ok lookOk_sessionTop [OF sch ok, of e] by (simp split: searchPhase.split)
next
  case LookupTimeout
  have "phase s = Consuming \<Longrightarrow> lookOk n c (afterConsume c e ct s)"
    using ok by (intro lookOk_afterConsume [OF sch lookOk_mid]) (auto simp: lookOk_def)
  with LookupTimeout ok show ?thesis by simp
next
  case IterDone
  have "phase s = Consuming \<Longrightarrow> lookOk n c (afterConsume c e ct s)"
    using ok by (intro lookOk_afterConsume [OF sch lookOk_mid]) (auto simp: lookOk_def)
  with IterDone ok show ?thesis by simp
qed

section \<open>Runs of one searcher\<close>

text \<open>A run is any sequence of events, each with what the searcher observes and the shared table at that moment.\<close>

type_synonym 'id searchRunEvent = "'id searchEnv \<times> 'id connTable option \<times> 'id searchEvent"

definition searchRun :: "'id searchCfg \<Rightarrow> 'id searcher \<Rightarrow> 'id searchRunEvent list \<Rightarrow> 'id searcher" where
  "searchRun c s evs = fold (\<lambda>(e, ct, ev) s. fst (searchStep c e ct ev s)) evs s"

lemma searchRun_simps [simp]:
  "searchRun c s [] = s" "searchRun c s ((e, ct, ev) # evs) = searchRun c (fst (searchStep c e ct ev s)) evs"
  by (simp_all add: searchRun_def)

lemma searchRun_inv:
  assumes "P s" "\<And>e ct ev s. P s \<Longrightarrow> P (fst (searchStep c e ct ev s))"
  shows "P (searchRun c s evs)"
proof -
  have "P s \<Longrightarrow> P (searchRun c s evs)" for s
  proof (induction evs arbitrary: s)
    case (Cons x evs)
    obtain e ct ev where "x = (e, ct, ev)" by (cases x)
    with Cons assms(2) show ?case by simp
  qed simp
  then show ?thesis using assms(1) by blast
qed

lemma searchRun_seen:
  "set (seenReg (searchRun c s evs)) \<subseteq> set (seenReg s) \<union> {i. \<exists>e ct. (e, ct, Yielded i) \<in> set evs \<and> enHas e i}"
proof (induction evs arbitrary: s)
  case (Cons x evs)
  obtain e ct ev where x: "x = (e, ct, ev)" by (cases x)
  have "set (seenReg (fst (searchStep c e ct ev s))) \<subseteq> set (seenReg s) \<union> {i. ev = Yielded i \<and> enHas e i}"
    using searchStep_seen(1,2) [of c e ct ev s] by auto
  with Cons.IH [of "fst (searchStep c e ct ev s)"] x show ?case by fastforce
qed simp

lemma newSearcher_view [simp]: "findView (newSearcher c e sch) = (([], [], [], [], 0), 0, 0, 0, 0, 0, 0)"
  unfolding newSearcher_def findView_frame by (simp add: findView_def)

lemma countsOk_new: "countsOk c (newSearcher c e sch)"
  using newSearcher_view [of c e sch] by (simp add: findView_def countsOk_def)

text \<open>
  C31: Whatever happens during a search, its result adds up: every yield of another node is a registrant or
  an extra; the distinct registrants are listed once, with a time each, never the searcher itself, and
  each was a registrant when it was yielded; the list made from the map names the same registrants, in
  whatever order the map is iterated; they split into those of the routing table and the new
  ones; the dials that succeeded or were refused are among the attempts, at most one for each yield.
\<close>

theorem search_counts:
  assumes "s = searchRun c (newSearcher c e0 sch) evs" "r = resultOf str epoch c s order" "iterates order (seenReg s)"
  shows "srFound r = srFoundRegistrant r + srFoundExtra r
    \<and> distinct (seenReg s) \<and> scSelf c \<notin> set (seenReg s) \<and> (\<forall>i \<in> set (seenReg s). \<exists>e ct. (e, ct, Yielded i) \<in> set evs \<and> enHas e i)
    \<and> srUniqueFoundIDs r = map str (seenReg s) \<and> mset (srFoundRegistrantIDs r) = mset (srUniqueFoundIDs r)
    \<and> srUniqueRegistrant r = int (length (srUniqueFoundIDs r)) \<and> length (srUniqueFoundAtMs r) = length (srUniqueFoundIDs r)
    \<and> srUniqueRegistrant r \<le> srFoundRegistrant r
    \<and> srNewRegistrant r = int (length (filter (\<lambda>i. i \<notin> set (scConnected c)) (seenReg s)))
    \<and> srNewRegistrant r + srAlreadyConnectedReg r = srUniqueRegistrant r \<and> int (length (srNewFoundAtMs r)) = srNewRegistrant r
    \<and> 0 \<le> srOutboundConns r \<and> srOutboundConns r + srDialRefused r \<le> srDialAttempts r \<and> srDialAttempts r \<le> srFoundRegistrant r"
proof -
  have ok: "countsOk c s" unfolding assms(1) using countsOk_new by (rule searchRun_inv) (rule countsOk_step)
  have "seenReg (newSearcher c e0 sch) = []" by (simp add: seenReg_view)
  then have "\<forall>i \<in> set (seenReg s). \<exists>e ct. (e, ct, Yielded i) \<in> set evs \<and> enHas e i"
    using searchRun_seen [of c "newSearcher c e0 sch" evs] by (auto simp: assms(1))
  moreover have "length (filter (\<lambda>i. i \<notin> A) xs) + length (filter (\<lambda>i. i \<in> A) xs) = length xs" for A :: "'a set" and xs
    using sum_length_filter_compl [of "\<lambda>i. i \<in> A" xs] by simp
  then have "int (length (filter (\<lambda>i. i \<notin> set (scConnected c)) (seenReg s))) + alreadyConnReg s = int (length (seenReg s))"
    using ok by (simp add: countsOk_def flip: of_nat_add)
  moreover have "mset order = mset (seenReg s)"
    using assms(3) ok set_eq_iff_mset_eq_distinct [of order "seenReg s"] unfolding iterates_def countsOk_def by blast
  ultimately show ?thesis using ok by (simp add: assms(2) resultOf_def countsOk_def)
qed

lemma lookOk_new: "scheduled c \<Longrightarrow> lookOk (length sch) c (newSearcher c e sch)"
  by (auto simp: newSearcher_def sessionTop_def lookOk_def finishSearch_def closeIter_def)

text \<open>
  C32: Scheduled lookups: at most one for every interval; each is reported with its latency, its results, its
  requests and its contacts. With a target, a lookup never goes past the number to find and hits exactly
  when it reaches it. Unless the deadline cut a lookup short, the requests of the search are those of its
  lookups.
\<close>

theorem scheduled_lookups:
  assumes "scheduled c" "r = resultOf str epoch c (searchRun c (newSearcher c e0 sch) evs) order"
  shows "srLookups r = int (length (srLookupResults r)) \<and> length (srLookupResults r) \<le> length sch
    \<and> length (srLookupLatencyMs r) = length (srLookupResults r) \<and> length (srLookupQueries r) = length (srLookupResults r)
    \<and> length (srLookupContacted r) = length (srLookupResults r)
    \<and> (\<forall>n \<in> set (srLookupResults r). 0 \<le> n \<and> (scTargetCount c > 0 \<longrightarrow> n \<le> srFLookup r))
    \<and> srLookupsHitTarget r = (if scTargetCount c > 0 then int (length (filter (\<lambda>n. n = srFLookup r) (srLookupResults r))) else 0)
    \<and> (\<not> srHitTimeout r \<longrightarrow> srSearchQueries r = sum_list (srLookupQueries r))"
proof -
  define s where "s = searchRun c (newSearcher c e0 sch) evs"
  have ok: "lookOk (length sch) c s" unfolding s_def using lookOk_new [OF assms(1)] by (rule searchRun_inv) (rule lookOk_step [OF assms(1)])
  have "filter (\<lambda>n. scTargetCount c > 0 \<and> n \<ge> fLookup c) (lookupResults s)
      = (if scTargetCount c > 0 then filter (\<lambda>n. n = fLookup c) (lookupResults s) else [])"
    using ok by (auto simp: lookOk_def intro!: filter_cong)
  with ok show ?thesis unfolding assms(2) s_def [symmetric] by (auto simp: lookOk_def resultOf_def)
qed

lemma finished_step: "phase s = Finished \<Longrightarrow> searchStep c e ct ev s = (s, ct, [])"
  by (cases ev) simp_all

lemma finished_run: "phase s = Finished \<Longrightarrow> searchRun c s evs = s"
  by (induction evs) (auto simp: finished_step)

text \<open>A finished search has closed its iterator.\<close>

definition closedOk :: "'id searcher \<Rightarrow> bool" where
  "closedOk s \<longleftrightarrow> (phase s = Finished \<longrightarrow> \<not> iterOpen s)"

lemma closedOk_parts [simp]:
  "closedOk (finishSearch e s)" "closedOk (hitDeadlineNow e s)" "closedOk (sessionTop c e s)" "closedOk (openSession c e s)"
  "closedOk (pauseNext c b s)" "p \<noteq> Finished \<Longrightarrow> closedOk (s\<lparr>phase := p\<rparr>)"
  by (simp_all add: closedOk_def finishSearch_def closeIter_def hitDeadlineNow_def sessionTop_def openSession_def pauseNext_def Let_def)

lemma closedOk_control [simp]: "closedOk (afterConsume c e ct s)" "closedOk (paceNext c e b s)"
  by (simp_all add: afterConsume_def paceNext_def Let_def split: option.split)

lemma closedOk_nextNode [simp]: "closedOk (nextNode c e ct b s)"
  by (simp add: nextNode_def)

lemma closedOk_dialNode: "closedOk (fst (dialNode c e i b t s))"
  by (simp add: dialNode_def Let_def split: prod.split)

lemma closedOk_takeNode:
  assumes "closedOk s"
  shows "closedOk (fst (takeNode c e ct i s))"
proof -
  have "fst (case dialNode c e i b t u of (s, ct) \<Rightarrow> (s, ct, rep)) = fst (dialNode c e i b t u)" for b t u and rep :: "'a list"
    by (simp split: prod.split)
  moreover have "closedOk (s\<lparr>timeFirst := n\<rparr>)" for n using assms by (simp add: closedOk_def)
  ultimately show ?thesis using assms by (simp add: takeNode_def Let_def closedOk_dialNode)
qed

lemma closedOk_step: "closedOk s \<Longrightarrow> closedOk (fst (searchStep c e ct ev s))"
  by (cases ev) (simp_all add: closedOk_takeNode split: searchPhase.split)

text \<open>The deadline ends a search for good: the iterator is closed and no later event changes the searcher, dials or reports.\<close>

lemma deadline_ends_search:
  assumes "s = searchRun c (newSearcher c e0 sch) evs" "s' = fst (searchStep c e ct Deadline s)"
  shows "phase s' = Finished \<and> \<not> iterOpen s' \<and> (phase s \<noteq> Finished \<longrightarrow> hitDeadline s' \<and> endT s' = enNow e)
    \<and> searchRun c s' later = s' \<and> searchStep c e' ct' ev s' = (s', ct', [])"
proof -
  have "closedOk (newSearcher c e0 sch)" by (simp add: newSearcher_def)
  then have inv: "closedOk s" unfolding assms(1) by (rule searchRun_inv) (rule closedOk_step)
  have fin: "phase s' = Finished" "phase s \<noteq> Finished \<longrightarrow> hitDeadline s' \<and> endT s' = enNow e"
    by (simp_all add: assms(2) hitDeadlineNow_def finishSearch_def closeIter_def split: searchPhase.split)
  have "closedOk s'" unfolding assms(2) using inv by (rule closedOk_step)
  with fin finished_step [OF fin(1)] finished_run [OF fin(1)] show ?thesis by (simp add: closedOk_def)
qed

section \<open>All searchers together\<close>

text \<open>The searchers of a run with the connection table and the live statistics they share.\<close>

record 'id walkCfg =
  wcSelf :: 'id
  wcTopic :: int
  wcProv :: "'id list"
  wcConn :: "'id list"
  wcStart :: gotime
  wcCount :: int

record 'id searchSys =
  sysAll :: "('id searchCfg \<times> 'id searcher) list"
  sysWalks :: "('id walkCfg \<times> 'id walker) list"
  sysConns :: "'id connTable option"
  sysLive :: "'id liveStats"

text \<open>A step of a searcher, a node a walker knew before its walk, a step of its walk, a change of the table.\<close>

datatype 'id sysEvent = SearchEv nat "'id searchEnv" "'id searchEvent" | KnownEv nat gotime 'id | WalkEv nat "'id walkEvent"
  | TableEv "'id connTable option"

definition sysWalked :: "nat \<Rightarrow> ('id walkCfg \<Rightarrow> 'id walker \<Rightarrow> 'id walker \<times> 'id list) \<Rightarrow> 'id searchSys \<Rightarrow> 'id searchSys" where
  "sysWalked j f S =
     (if j < length (sysWalks S)
      then let (c, w) = sysWalks S ! j; (w, rep) = f c w
           in S\<lparr>sysWalks := (sysWalks S)[j := (c, w)], sysLive := fold (recordUniqueFind (nat (wcTopic c))) rep (sysLive S)\<rparr>
      else S)"

fun sysStep :: "'id sysEvent \<Rightarrow> 'id searchSys \<Rightarrow> 'id searchSys" where
  "sysStep (SearchEv j e ev) S =
     (if j < length (sysAll S)
      then let (c, s) = sysAll S ! j;
               (s, ct, rep) = searchStep c e (sysConns S) ev s
           in S\<lparr>sysAll := (sysAll S)[j := (c, s)], sysConns := ct,
                sysLive := fold (recordUniqueFind (nat (scTopic c))) rep (sysLive S)\<rparr>
      else S)"
| "sysStep (KnownEv j now i) S = sysWalked j (\<lambda>c. walkAdd (\<lambda>i. i \<in> set (wcProv c)) (wcSelf c) (wcConn c) (wcStart c) now i) S"
| "sysStep (WalkEv j ev) S =
     sysWalked j (\<lambda>c. walkStep (\<lambda>i. i \<in> set (wcProv c)) (wcSelf c) (wcConn c) (wcStart c) (wcCount c) ev) S"
| "sysStep (TableEv ct) S = S\<lparr>sysConns := ct\<rparr>"

definition finders :: "nat \<Rightarrow> 'id \<Rightarrow> 'id searchSys \<Rightarrow> ('id searchCfg \<times> 'id searcher) list" where
  "finders t i S = filter (\<lambda>(c, s). nat (scTopic c) = t \<and> i \<in> set (seenReg s)) (sysAll S)"

definition walkFinders :: "nat \<Rightarrow> 'id \<Rightarrow> 'id searchSys \<Rightarrow> ('id walkCfg \<times> 'id walker) list" where
  "walkFinders t i S = filter (\<lambda>(c, w). nat (wcTopic c) = t \<and> i \<in> set (wSeen w)) (sysWalks S)"

definition foundBy :: "nat \<Rightarrow> 'id \<Rightarrow> 'id searchSys \<Rightarrow> nat" where
  "foundBy t i S = length (finders t i S) + length (walkFinders t i S)"

definition topicsOk :: "nat \<Rightarrow> 'id searchSys \<Rightarrow> bool" where
  "topicsOk n S \<longleftrightarrow> (\<forall>(c, s) \<in> set (sysAll S). nat (scTopic c) < n) \<and> (\<forall>(c, w) \<in> set (sysWalks S). nat (wcTopic c) < n)"

definition liveOk :: "'id searchSys \<Rightarrow> bool" where
  "liveOk S \<longleftrightarrow> topicsOk (length (counts (sysLive S))) S
     \<and> (\<forall>t < length (counts (sysLive S)). mapOk (counts (sysLive S) ! t)
          \<and> (\<forall>i. mget 0 (counts (sysLive S) ! t) i = int (foundBy t i S) \<and> (mhas (counts (sysLive S) ! t) i \<longleftrightarrow> foundBy t i S > 0)))"

lemma recordFinds:
  assumes "t < length (counts L)"
  shows "length (counts (fold (recordUniqueFind t0) rep L)) = length (counts L)
    \<and> mget 0 (counts (fold (recordUniqueFind t0) rep L) ! t) i = mget 0 (counts L ! t) i + (if t = t0 then int (count_list rep i) else 0)
    \<and> (mhas (counts (fold (recordUniqueFind t0) rep L) ! t) i \<longleftrightarrow> mhas (counts L ! t) i \<or> t = t0 \<and> i \<in> set rep)
    \<and> (mapOk (counts L ! t) \<longrightarrow> mapOk (counts (fold (recordUniqueFind t0) rep L) ! t))"
  using assms
proof (induction rep arbitrary: L)
  case (Cons x rep)
  have "t < length (counts (recordUniqueFind t0 x L))" using Cons.prems by (simp add: recordUniqueFind_def)
  moreover have "counts (recordUniqueFind t0 x L) ! t = (if t = t0 then madd x 1 (counts L ! t) else counts L ! t)"
    using Cons.prems by (simp add: recordUniqueFind_def nth_list_update)
  moreover have "length (counts (recordUniqueFind t0 x L)) = length (counts L)" by (simp add: recordUniqueFind_def)
  ultimately show ?case using Cons.IH [of "recordUniqueFind t0 x L"] by (auto simp: madd_def)
qed simp

lemma length_filter_update:
  "j < length xs \<Longrightarrow> int (length (filter P (xs[j := y]))) = int (length (filter P xs)) - (if P (xs ! j) then 1 else 0) + (if P y then 1 else 0)"
proof -
  assume j: "j < length xs"
  then have "filter P xs = filter P (take j xs @ xs ! j # drop (Suc j) xs)" by (simp add: id_take_nth_drop [symmetric])
  with j show ?thesis by (simp add: upd_conv_take_nth_drop)
qed

lemma count_distinct: "distinct xs \<Longrightarrow> count_list xs x = (if x \<in> set xs then 1 else 0)"
  by (induction xs) auto

text \<open>Whoever finds registrants and reports them keeps the statistics in step.\<close>

lemma liveOk_report:
  assumes ok: "liveOk S" and t0: "t0 < length (counts (sysLive S))" and rep: "distinct rep"
    and live: "sysLive S' = fold (recordUniqueFind t0) rep (sysLive S)"
    and fnd: "\<And>t i. foundBy t i S' = foundBy t i S + (if t = t0 \<and> i \<in> set rep then 1 else 0)"
    and topics: "topicsOk (length (counts (sysLive S))) S'"
  shows "liveOk S'"
proof -
  have len: "length (counts (sysLive S')) = length (counts (sysLive S))" using recordFinds [OF t0] by (simp add: live)
  have "mapOk (counts (sysLive S') ! t)" "mget 0 (counts (sysLive S') ! t) i = int (foundBy t i S')"
    "mhas (counts (sysLive S') ! t) i \<longleftrightarrow> foundBy t i S' > 0" if t: "t < length (counts (sysLive S))" for t i
  proof -
    note r = recordFinds [OF t, of t0 rep i]
    have old: "mapOk (counts (sysLive S) ! t)" "mget 0 (counts (sysLive S) ! t) i = int (foundBy t i S)"
      "mhas (counts (sysLive S) ! t) i \<longleftrightarrow> foundBy t i S > 0" using ok t by (auto simp: liveOk_def)
    show "mapOk (counts (sysLive S') ! t)" "mget 0 (counts (sysLive S') ! t) i = int (foundBy t i S')"
      using r old fnd [of t i] rep by (simp_all add: live count_distinct)
    show "mhas (counts (sysLive S') ! t) i \<longleftrightarrow> foundBy t i S' > 0" using r old fnd [of t i] by (auto simp: live)
  qed
  with topics len show ?thesis by (simp add: liveOk_def)
qed

lemma topicsOk_update:
  "topicsOk n S \<Longrightarrow> nat (scTopic c) < n \<Longrightarrow> topicsOk n (S\<lparr>sysAll := (sysAll S)[j := (c, s)], sysConns := ct, sysLive := L\<rparr>)"
  "topicsOk n S \<Longrightarrow> nat (wcTopic d) < n \<Longrightarrow> topicsOk n (S\<lparr>sysWalks := (sysWalks S)[j := (d, w)], sysLive := L\<rparr>)"
proof -
  show "topicsOk n S \<Longrightarrow> nat (scTopic c) < n \<Longrightarrow> topicsOk n (S\<lparr>sysAll := (sysAll S)[j := (c, s)], sysConns := ct, sysLive := L\<rparr>)"
    using set_update_subset_insert [of "sysAll S" j "(c, s)"] by (auto simp: topicsOk_def)
  show "topicsOk n S \<Longrightarrow> nat (wcTopic d) < n \<Longrightarrow> topicsOk n (S\<lparr>sysWalks := (sysWalks S)[j := (d, w)], sysLive := L\<rparr>)"
    using set_update_subset_insert [of "sysWalks S" j "(d, w)"] by (auto simp: topicsOk_def)
qed

text \<open>What a walker reports is what it adds to the providers seen.\<close>

lemma walkAdd_seen:
  "walkAdd prov self conn start now i w = (w', rep) \<Longrightarrow> wSeen w' = wSeen w @ rep \<and> distinct rep \<and> set rep \<inter> set (wSeen w) = {}"
  by (auto simp: walkAdd_def Let_def split: if_splits)

lemma walkStep_seen:
  "walkStep prov self conn start tc ev w = (w', rep) \<Longrightarrow> wSeen w' = wSeen w @ rep \<and> distinct rep \<and> set rep \<inter> set (wSeen w) = {}"
  by (cases ev) (auto split: if_splits dest: walkAdd_seen)

lemma liveOk_walked:
  assumes ok: "liveOk S"
    and seen: "\<And>c w w' rep. f c w = (w', rep) \<Longrightarrow> wSeen w' = wSeen w @ rep \<and> distinct rep \<and> set rep \<inter> set (wSeen w) = {}"
  shows "liveOk (sysWalked j f S)"
proof (cases "j < length (sysWalks S)")
  case True
  obtain c w where cw: "sysWalks S ! j = (c, w)" by force
  obtain w' rep where f: "f c w = (w', rep)" by force
  note sn = seen [OF f]
  let ?S = "S\<lparr>sysWalks := (sysWalks S)[j := (c, w')], sysLive := fold (recordUniqueFind (nat (wcTopic c))) rep (sysLive S)\<rparr>"
  have S: "sysWalked j f S = ?S" using True by (simp add: sysWalked_def cw f)
  have "(c, w) \<in> set (sysWalks S)" using True cw by (metis nth_mem)
  then have t0: "nat (wcTopic c) < length (counts (sysLive S))" using ok by (auto simp: liveOk_def topicsOk_def)
  have "int (foundBy t i ?S) = int (foundBy t i S + (if t = nat (wcTopic c) \<and> i \<in> set rep then 1 else 0))" for t i
    using True sn by (auto simp: foundBy_def finders_def walkFinders_def length_filter_update cw)
  then have fnd: "foundBy t i ?S = foundBy t i S + (if t = nat (wcTopic c) \<and> i \<in> set rep then 1 else 0)" for t i
    by (simp only: of_nat_eq_iff)
  show ?thesis unfolding S using ok t0 sn fnd
    by (intro liveOk_report [OF ok t0, where rep = rep] topicsOk_update) (simp_all add: liveOk_def)
qed (use ok in \<open>simp add: sysWalked_def\<close>)

lemma liveOk_step:
  assumes ok: "liveOk S"
  shows "liveOk (sysStep ev S)"
proof (cases ev)
  case (TableEv ct)
  with ok show ?thesis by (simp add: liveOk_def foundBy_def finders_def walkFinders_def topicsOk_def)
next
  case (KnownEv j now i)
  then show ?thesis by (auto intro!: liveOk_walked [OF ok] dest: walkAdd_seen)
next
  case (WalkEv j x)
  then show ?thesis by (auto intro!: liveOk_walked [OF ok] dest: walkStep_seen)
next
  case (SearchEv j e x)
  show ?thesis
  proof (cases "j < length (sysAll S)")
    case True
    obtain c s where cs: "sysAll S ! j = (c, s)" by force
    obtain s' ct rep where st: "searchStep c e (sysConns S) x s = (s', ct, rep)" by (metis prod.exhaust)
    let ?S = "S\<lparr>sysAll := (sysAll S)[j := (c, s')], sysConns := ct, sysLive := fold (recordUniqueFind (nat (scTopic c))) rep (sysLive S)\<rparr>"
    have S: "sysStep ev S = ?S" using True by (simp add: SearchEv cs st)
    have seen: "seenReg s' = seenReg s @ rep" "distinct rep" "set rep \<inter> set (seenReg s) = {}"
      using searchStep_seen [of c e "sysConns S" x s] by (auto simp: st)
    have "(c, s) \<in> set (sysAll S)" using True cs by (metis nth_mem)
    then have t0: "nat (scTopic c) < length (counts (sysLive S))" using ok by (auto simp: liveOk_def topicsOk_def)
    have "int (foundBy t i ?S) = int (foundBy t i S + (if t = nat (scTopic c) \<and> i \<in> set rep then 1 else 0))" for t i
      using True seen by (auto simp: foundBy_def finders_def walkFinders_def length_filter_update cs)
    then have fnd: "foundBy t i ?S = foundBy t i S + (if t = nat (scTopic c) \<and> i \<in> set rep then 1 else 0)" for t i
      by (simp only: of_nat_eq_iff)
    show ?thesis unfolding S using ok t0 seen fnd
      by (intro liveOk_report [OF ok t0, where rep = rep] topicsOk_update) (simp_all add: liveOk_def)
  next
    case False
    with ok SearchEv show ?thesis by simp
  qed
qed

lemma liveOk_run: "liveOk S \<Longrightarrow> liveOk (fold sysStep evs S)"
  by (induction evs arbitrary: S) (simp_all add: liveOk_step)

lemma length_counts_run: "length (counts (sysLive (fold sysStep evs S))) = length (counts (sysLive S))"
proof (induction evs arbitrary: S)
  case (Cons ev evs)
  have "length (counts (fold (recordUniqueFind t) rep L)) = length (counts L)" for t rep and L :: "'a liveStats"
    by (induction rep arbitrary: L) (simp_all add: recordUniqueFind_def)
  then have "length (counts (sysLive (sysStep ev S))) = length (counts (sysLive S))"
    by (cases ev) (simp_all add: Let_def sysWalked_def split: prod.split)
  with Cons.IH show ?case by simp
qed simp

definition newSearchSys :: "('id searchCfg \<times> 'id searchEnv \<times> gotime list) list \<Rightarrow> 'id walkCfg list \<Rightarrow> 'id connTable option \<Rightarrow> int list \<Rightarrow> 'id searchSys" where
  "newSearchSys starts walks ct members =
     \<lparr>sysAll = map (\<lambda>(c, e, sch). (c, newSearcher c e sch)) starts, sysWalks = map (\<lambda>c. (c, newWalker)) walks,
      sysConns = ct, sysLive = newLiveStats members\<rparr>"

text \<open>
  C3: The live statistics, whatever the order in which concurrent searchers and legacy walkers find nodes
  and the table changes: the count of a node is the number of searchers and walkers of the topic
  that have found it so far, and the number of nodes a checkpoint covers is that of the nodes some
  searcher or walker of the topic has found. A walker counts every provider, so the providers
  without TopDisc are among them.
\<close>

theorem live_counts:
  assumes "S = fold sysStep evs (newSearchSys starts walks ct members)"
    and "\<forall>(c, e, sch) \<in> set starts. nat (scTopic c) < length members" "\<forall>c \<in> set walks. nat (wcTopic c) < length members"
    and "t < length members"
  shows "mget 0 (counts (sysLive S) ! t) i = int (length (finders t i S)) + int (length (walkFinders t i S))
    \<and> crFounders (checkpointOf (sysLive S) t) = int (card {i. finders t i S \<noteq> [] \<or> walkFinders t i S \<noteq> []})"
proof -
  let ?S = "newSearchSys starts walks ct members"
  have "finders t i ?S = []" "walkFinders t i ?S = []" for t i
    by (auto simp: finders_def walkFinders_def filter_empty_conv seenReg_view newSearchSys_def newWalker_def)
  with assms(2,3) have "liveOk ?S"
    by (auto simp: liveOk_def topicsOk_def foundBy_def newLiveStats_def) (auto simp: newSearchSys_def newLiveStats_def)
  then have ok: "liveOk S" unfolding assms(1) by (rule liveOk_run)
  have t: "t < length (counts (sysLive S))"
    unfolding assms(1) length_counts_run using assms(4) by (simp add: newSearchSys_def newLiveStats_def)
  have m: "mapOk (counts (sysLive S) ! t)" and h: "\<And>i. mhas (counts (sysLive S) ! t) i \<longleftrightarrow> foundBy t i S > 0"
    and g: "\<And>i. mget 0 (counts (sysLive S) ! t) i = int (foundBy t i S)" using ok t by (auto simp: liveOk_def)
  have "{i. finders t i S \<noteq> [] \<or> walkFinders t i S \<noteq> []} = set (map fst (counts (sysLive S) ! t))"
    using h by (auto simp: mhas_def foundBy_def)
  then have "card {i. finders t i S \<noteq> [] \<or> walkFinders t i S \<noteq> []} = length (counts (sysLive S) ! t)"
    using m by (simp add: mapOk_def distinct_card flip: set_map)
  with g show ?thesis by (simp add: checkpointOf_def Let_def foundBy_def)
qed

section \<open>Examples\<close>

definition exCfg :: "string \<Rightarrow> int searchCfg" where
  "exCfg m = \<lparr>scSelf = 0, scIdx = 0, scTopic = 0, scTarget = 1, scModel = m, scTargetCount = 1, scResumable = False, scRedialWait = 0,
     scInitialResults = 0, scResultInterval = 0, scMaxPause = 0, scPauseNovelOnly = False, scRequestTimeout = 0, scConnected = []\<rparr>"

definition exEnv :: "gotime \<Rightarrow> int searchEnv" where
  "exEnv now = \<lparr>enNow = now, enHas = (\<lambda>_. True), enDead = None, enContacts = (3, 2), enStats = noStats, enUp = True\<rparr>"

lemmas ex_simps = exCfg_def exEnv_def newSearcher_def sessionTop_def openSession_def scheduled_def continuous_def takeNode_def
  classify_def newRegistrant_def parkNow_def nextNode_def afterConsume_def finishSearch_def closeIter_def recordLookup_def fLookup_def
  isAway_def connsOffline_def paceNext_def pauseNext_def Let_def

lemma search_counts_witness:
  "\<exists>s r. s = searchRun (exCfg ''continuous'') (newSearcher (exCfg ''continuous'') (exEnv 0) []) [(exEnv 5, None, Yielded 1), (exEnv 6, None, Yielded 0)]
     \<and> r = resultOf (\<lambda>_. ''x'') 0 (exCfg ''continuous'') s [1] \<and> srFound r = 1 \<and> mset (srFoundRegistrantIDs r) = mset (srUniqueFoundIDs r)"
proof -
  define s where "s = searchRun (exCfg ''continuous'') (newSearcher (exCfg ''continuous'') (exEnv 0) [])
     [(exEnv 5, None, Yielded 1), (exEnv 6, None, Yielded 0)]"
  have "totalYields s = 1" "iterates [1] (seenReg s)" by (simp_all add: s_def ex_simps iterates_def)
  then have "srFound (resultOf (\<lambda>_. ''x'') 0 (exCfg ''continuous'') s [1]) = 1" by (simp add: resultOf_def)
  with search_counts [OF s_def refl \<open>iterates [1] (seenReg s)\<close>] s_def show ?thesis by blast
qed

lemma scheduled_lookups_witness:
  "\<exists>r. r = resultOf (\<lambda>_. ''x'') 0 (exCfg ''scheduled'') (searchRun (exCfg ''scheduled'') (newSearcher (exCfg ''scheduled'') (exEnv 0) [2])
       [(exEnv 2, None, TimerFired), (exEnv 5, None, Yielded 1)]) [1]
     \<and> srLookups r = 1 \<and> srLookupsHitTarget r = 1 \<and> srSearchQueries r = sum_list (srLookupQueries r)"
proof -
  define s where "s = searchRun (exCfg ''scheduled'') (newSearcher (exCfg ''scheduled'') (exEnv 0) [2])
       [(exEnv 2, None, TimerFired), (exEnv 5, None, Yielded 1)]"
  define r where "r = resultOf (\<lambda>_. ''x'') 0 (exCfg ''scheduled'') s [1]"
  have "lookups s = 1" "lookupsHitTarget s = 1" "\<not> hitDeadline s" by (simp_all add: s_def ex_simps)
  then have "srLookups r = 1" "srLookupsHitTarget r = 1" "\<not> srHitTimeout r" by (simp_all add: r_def resultOf_def)
  moreover have "scheduled (exCfg ''scheduled'')" by (simp add: scheduled_def exCfg_def)
  ultimately show ?thesis using scheduled_lookups [OF _ r_def [unfolded s_def]] r_def [unfolded s_def] by blast
qed

lemma live_counts_witness:
  "\<exists>S. mget 0 (counts (sysLive S) ! 0) (1 :: int) = 2 \<and> length (finders 0 1 S) = 1 \<and> length (walkFinders 0 1 S) = 1"
proof -
  let ?c = "exCfg ''continuous''"
  let ?w = "\<lparr>wcSelf = 5, wcTopic = 0, wcProv = [1], wcConn = [], wcStart = 0, wcCount = 0\<rparr> :: int walkCfg"
  define S where "S = fold sysStep [SearchEv 0 (exEnv 5) (Yielded 1), KnownEv 0 6 2, WalkEv 0 (WalkNode 7 1)] (newSearchSys [(?c, exEnv 0, [])] [?w] None [1])"
  have t: "\<forall>(c, e, sch) \<in> set [(?c, exEnv 0, [])]. nat (scTopic c) < length [1 :: int]" "\<forall>c \<in> set [?w]. nat (wcTopic c) < length [1 :: int]"
    "0 < length [1 :: int]" by (simp_all add: exCfg_def)
  have "length (finders 0 1 S) = 1" "length (walkFinders 0 1 S) = 1"
    by (simp_all add: S_def finders_def walkFinders_def ex_simps newLiveStats_def newSearchSys_def newWalker_def sysWalked_def walkAdd_def walkDone_def)
  with live_counts [OF S_def t, of 1] show ?thesis by auto
qed

section \<open>Walks, jobs and the manager\<close>

definition walkOk :: "('id \<Rightarrow> bool) \<Rightarrow> 'id \<Rightarrow> 'id list \<Rightarrow> 'id walker \<Rightarrow> bool" where
  "walkOk prov self conn w \<longleftrightarrow> distinct (wSeen w) \<and> self \<notin> set (wSeen w) \<and> (\<forall>i \<in> set (wSeen w). prov i)
     \<and> int (length (wSeen w)) \<le> wFoundReg w \<and> length (wAtMs w) = length (wSeen w) \<and> wNew w = int (length (wNewAtMs w))
     \<and> wAlready w + wNew w = int (length (wSeen w))"

lemma walkOk_add: "walkOk prov self conn w \<Longrightarrow> walkOk prov self conn (fst (walkAdd prov self conn start now i w))"
  by (auto simp: walkOk_def walkAdd_def Let_def)

lemma walkOk_step: "walkOk prov self conn w \<Longrightarrow> walkOk prov self conn (fst (walkStep prov self conn start tc ev w))"
  by (cases ev) (simp_all add: walkOk_add, simp add: walkOk_def)

text \<open>
  A walk lists distinct providers, never the walking node, each with the time of its first sighting, splits
  them into known and new ones, and hits its target exactly when it did not run into the deadline.
\<close>

theorem walk_result:
  assumes "r = runLegacyWalker full epoch prov idx self topicK tc start conn known evs endt"
  shows "\<exists>nodes. distinct nodes \<and> self \<notin> set nodes \<and> set nodes \<subseteq> set prov \<and> srUniqueFoundIDs r = map full nodes
    \<and> srFoundRegistrantIDs r = map full nodes \<and> srUniqueRegistrant r = int (length nodes) \<and> srUniqueRegistrant r \<le> srFoundRegistrant r
    \<and> length (srUniqueFoundAtMs r) = length nodes \<and> srAlreadyConnectedReg r + srNewRegistrant r = srUniqueRegistrant r
    \<and> (srLookupsHitTarget r = 1 \<longleftrightarrow> tc > 0 \<and> srUniqueRegistrant r \<ge> tc) \<and> (srHitTimeout r \<longleftrightarrow> srLookupsHitTarget r = 0)"
proof -
  let ?p = "\<lambda>i. i \<in> set prov"
  define w where "w = fold (\<lambda>ev w. fst (walkStep ?p self conn start tc ev w)) evs
     (fold (\<lambda>(now, i) w. fst (walkAdd ?p self conn start now i w)) known newWalker)"
  have "walkOk ?p self conn (fold (\<lambda>(now, i) w. fst (walkAdd ?p self conn start now i w)) ks u)" if "walkOk ?p self conn u" for ks u
    using that by (induction ks arbitrary: u) (auto simp: walkOk_add)
  moreover have "walkOk ?p self conn (fold (\<lambda>ev w. fst (walkStep ?p self conn start tc ev w)) es u)" if "walkOk ?p self conn u" for es u
    using that by (induction es arbitrary: u) (auto simp: walkOk_step)
  moreover have "walkOk ?p self conn newWalker" by (simp add: walkOk_def newWalker_def)
  ultimately have "walkOk ?p self conn w" unfolding w_def by blast
  then show ?thesis
    by (intro exI [of _ "wSeen w"]) (auto simp: assms runLegacyWalker_def walkOk_def walkDone_def Let_def simp flip: w_def)
qed

lemma walk_result_witness:
  "\<exists>r. r = runLegacyWalker (\<lambda>_. ''x'') 0 [1, 2 :: int] 0 0 0 1 0 [] [] [WalkNode 3 2] 9 \<and> srLookupsHitTarget r = 1 \<and> \<not> srHitTimeout r"
proof -
  define r where "r = runLegacyWalker (\<lambda>_. ''x'') 0 [1, 2 :: int] 0 0 0 1 0 [] [] [WalkNode 3 2] 9"
  have "srUniqueRegistrant r = 1" by (simp add: r_def runLegacyWalker_def walkAdd_def walkDone_def newWalker_def Let_def)
  with walk_result [OF r_def] r_def show ?thesis by auto
qed

text \<open>
  Every node searches each of its topics once, a node without TopDisc by a walk, and no two jobs share a
  slot or a seed.
\<close>

lemma jobs_once:
  assumes "\<forall>ts \<in> set nodeTopics. distinct ts" "\<forall>ts \<in> set lt. distinct ts" "length lt = length nodeTopics"
  shows "distinct (jobsOf nodeTopics (Some lt))
    \<and> set (jobsOf nodeTopics (Some lt)) = {(i, t, False) |i t. i < length nodeTopics \<and> t \<ge> 0 \<and> t \<in> set (nodeTopics ! i)}
        \<union> {(i, t, True) |i t. i < length nodeTopics \<and> t \<in> set (lt ! i)}
    \<and> inj jobSeed"
proof -
  let ?f = "\<lambda>i. map (\<lambda>t. (i, t, False)) (filter (\<lambda>t. t \<ge> 0) (nodeTopics ! i)) @ map (\<lambda>t. (i, t, True)) (lt ! i)"
  have one: "distinct (?f i)" if "i < length nodeTopics" for i
    using that assms by (auto simp: distinct_map inj_on_def)
  have "distinct (concat (map ?f [0..<n]))" if "n \<le> length nodeTopics" for n
    using that
  proof (induction n)
    case (Suc n)
    have "set (concat (map ?f [0..<n])) \<inter> set (?f n) = {}" by auto
    with Suc one [of n] show ?case by simp
  qed simp
  then have "distinct (jobsOf nodeTopics (Some lt))" by (simp add: jobsOf_def)
  moreover have "inj jobSeed" by (simp add: inj_def jobSeed_def)
  ultimately show ?thesis by (auto simp: jobsOf_def)
qed

text \<open>Searchers launched by the manager have different seeds, and each is running or has left its result.\<close>

definition managerOk :: "searchManager \<Rightarrow> bool" where
  "managerOk sm \<longleftrightarrow> 0 \<le> smSeq sm \<and> int (length (smRunning sm)) + int (length (smResults sm)) = smSeq sm
     \<and> distinct (map (snd \<circ> snd) (smRunning sm)) \<and> (\<forall>(n, t, seed) \<in> set (smRunning sm). 0 \<le> t \<and> seed < smSeq sm * 2654435761)"

lemma managerOk_ops:
  "managerOk sm \<Longrightarrow> managerOk (launch n t sm)" "managerOk sm \<Longrightarrow> managerOk (searcherDone k r sm)"
proof -
  show "managerOk sm \<Longrightarrow> managerOk (launch n t sm)" by (force simp: managerOk_def launch_def)
  assume ok: "managerOk sm"
  have sub: "set (take k xs @ drop (k + 1) xs) \<subseteq> set xs" for xs :: "(nat \<times> int \<times> int) list"
    using set_take_subset set_drop_subset by fastforce
  have "distinct (map f (take k xs @ drop (k + 1) xs))" if "distinct (map f xs)" for f :: "nat \<times> int \<times> int \<Rightarrow> int" and xs
    using that set_take_disj_set_drop_if_distinct [OF that, of k "k + 1"] by (simp flip: take_map drop_map)
  note dist = this [of "snd \<circ> snd" "smRunning sm"]
  show "managerOk (searcherDone k r sm)"
  proof (cases "k < length (smRunning sm)")
    case True
    let ?xs = "take k (smRunning sm) @ drop (k + 1) (smRunning sm)"
    have "int (length ?xs) + 1 = int (length (smRunning sm))" using True by simp
    moreover have "\<forall>(n, t, seed) \<in> set ?xs. 0 \<le> t \<and> seed < smSeq sm * 2654435761" using ok sub unfolding managerOk_def by blast
    moreover have "distinct (map (snd \<circ> snd) ?xs)" using dist ok unfolding managerOk_def by blast
    moreover have "searcherDone k r sm = sm\<lparr>smRunning := ?xs, smResults := smResults sm @ [r]\<rparr>" using True by (simp only: searcherDone_def if_True)
    ultimately show ?thesis using ok unfolding managerOk_def by (simp del: map_append take_map drop_map)
  next
    case False
    with ok show ?thesis by (simp add: searcherDone_def)
  qed
qed

section \<open>Merging statistics\<close>

text \<open>The maxima of a session never reach the statistics of the search.\<close>

lemma addSearchStats_maxima:
  "tsMaxTopic (addSearchStats d s) = tsMaxTopic d" "tsMaxAux (addSearchStats d s) = tsMaxAux d"
  by (simp_all add: addSearchStats_def)

lemma closeIter_maxima: "tsMaxTopic (searchStats (closeIter e s)) = tsMaxTopic (searchStats s)"
  by (simp add: closeIter_def addSearchStats_maxima)

end
