(* ===== verification/SimHost.thy ===== *)
theory SimHost
  imports NodeSession
begin

text \<open>
  A simulated node across its restarts (\<open>src/cmd/simnet/host.go\<close>): churn stops its discovery service and
  starts a new one on the same key, and the node's counters add up over the instances. Every critical
  section under the host's mutex is one function; the driver's start and stop, the traffic of the
  instances and the readers interleave as steps of a relation. What an instance has counted is data of
  the steps; a service that cannot listen ends the process, so it has no step.
\<close>

section \<open>Counters of an instance\<close>

record opCounter =
  ocWire :: wireCounter
  ocNodes :: int

definition zeroOp :: opCounter where
  "zeroOp = \<lparr>ocWire = zeroCounter, ocNodes = 0\<rparr>"

text \<open>What the discovery service reports: wire counters by type, operations by message and id, load by topic.\<close>

record 't discStats =
  dsWire :: wireMap
  dsOps :: "(string \<times> int, opCounter) gomap"
  dsLoads :: "('t, topicLoad) gomap"

definition noDiscStats :: "'t discStats" where
  "noDiscStats = \<lparr>dsWire = [], dsOps = [], dsLoads = []\<rparr>"

text \<open>\<open>addWire\<close> of the simulator: the four traffic counters, in place.\<close>

definition addTraffic :: "wireCounter \<Rightarrow> wireCounter \<Rightarrow> wireCounter" where
  "addTraffic a b = a\<lparr>TxMsgs := TxMsgs a + TxMsgs b, TxBytes := TxBytes a + TxBytes b,
     RxMsgs := RxMsgs a + RxMsgs b, RxBytes := RxBytes a + RxBytes b\<rparr>"

definition mergeWireStats :: "wireMap \<Rightarrow> wireMap \<Rightarrow> wireMap" where
  "mergeWireStats d w = fold (\<lambda>(k, v) w. mput k (addTraffic (mget zeroCounter w k) v) w) d w"

definition mergeOpStats :: "(string \<times> int, opCounter) gomap \<Rightarrow> (string \<times> int, opCounter) gomap \<Rightarrow> (string \<times> int, opCounter) gomap" where
  "mergeOpStats d w = fold (\<lambda>(k, v) w. let oc = mget zeroOp w k
     in mput k (oc\<lparr>ocWire := addTraffic (ocWire oc) (ocWire v), ocNodes := ocNodes oc + ocNodes v\<rparr>) w) d w"

definition mergeTopicLoads :: "('t, topicLoad) gomap \<Rightarrow> ('t, topicLoad) gomap \<Rightarrow> ('t, topicLoad) gomap" where
  "mergeTopicLoads d w = fold (\<lambda>(k, v) w. let tl = mget zeroLoad w k
     in mput k (tl\<lparr>Regtopic := addTraffic (Regtopic tl) (Regtopic v), TopicQuery := addTraffic (TopicQuery tl) (TopicQuery v)\<rparr>) w) d w"

definition mergeStats :: "'t discStats \<Rightarrow> 't discStats \<Rightarrow> 't discStats" where
  "mergeStats d s = s\<lparr>dsWire := mergeWireStats (dsWire d) (dsWire s), dsOps := mergeOpStats (dsOps d) (dsOps s),
     dsLoads := mergeTopicLoads (dsLoads d) (dsLoads s)\<rparr>"

section \<open>The host\<close>

text \<open>\<open>hDisc\<close> names the running instance; \<open>None\<close> while the node is away.\<close>

record 't simHost =
  hIdx :: int
  hLegacy :: bool
  hDisc :: "nat option"
  hTopics :: "'t list"
  hRestarts :: int
  hStats :: "'t discStats"

definition newHost :: "int \<Rightarrow> bool \<Rightarrow> 't simHost" where
  "newHost i legacy = \<lparr>hIdx = i, hLegacy = legacy, hDisc = None, hTopics = [], hRestarts = 0, hStats = noDiscStats\<rparr>"

definition setTopics :: "'t list \<Rightarrow> 't simHost \<Rightarrow> 't simHost" where
  "setTopics ts h = h\<lparr>hTopics := ts\<rparr>"

text \<open>The locked part of \<open>start\<close>: the new instance runs, and the topics to register are read.\<close>

definition startHost :: "nat \<Rightarrow> 't simHost \<Rightarrow> 't simHost \<times> 't list" where
  "startHost i h = (h\<lparr>hDisc := Some i\<rparr>, hTopics h)"

text \<open>The three locked parts of \<open>stop\<close>: take the instance, absorb its counters, count the restart.\<close>

definition stopTake :: "'t simHost \<Rightarrow> nat option \<times> 't simHost" where
  "stopTake h = (hDisc h, h\<lparr>hDisc := None\<rparr>)"

definition absorb :: "'t discStats \<Rightarrow> 't simHost \<Rightarrow> 't simHost" where
  "absorb d h = h\<lparr>hStats := mergeStats d (hStats h)\<rparr>"

definition stopCount :: "'t simHost \<Rightarrow> 't simHost" where
  "stopCount h = h\<lparr>hRestarts := hRestarts h + 1\<rparr>"

text \<open>
  \<open>stats\<close>: a copy of the totals and the running instance under the lock, then the counters of that instance,
  \<open>disc\<close>, as they are when they are read, after the lock.
\<close>

definition statsOf :: "'t simHost \<Rightarrow> (nat \<Rightarrow> 't discStats) \<Rightarrow> 't discStats" where
  "statsOf h disc = (case hDisc h of Some i \<Rightarrow> mergeStats (disc i) (hStats h) | None \<Rightarrow> hStats h)"

definition hostRestarts :: "(int, 't simHost) gomap \<Rightarrow> int" where
  "hostRestarts hosts = sum_list (map (\<lambda>(_, h). hRestarts h) hosts)"

section \<open>The registry\<close>

definition hostOf :: "(int, 't simHost) gomap \<Rightarrow> int \<Rightarrow> 't simHost option" where
  "hostOf hosts i = map_of hosts i"

definition currentDisc :: "(int, 't simHost) gomap \<Rightarrow> int \<Rightarrow> nat option" where
  "currentDisc hosts i = (case hostOf hosts i of None \<Rightarrow> None | Some h \<Rightarrow> hDisc h)"

definition localTopicNodes :: "(int, 't simHost) gomap \<Rightarrow> (nat \<Rightarrow> 't \<Rightarrow> 'n list) \<Rightarrow> int \<Rightarrow> 't \<Rightarrow> 'n list" where
  "localTopicNodes hosts table i t = (case currentDisc hosts i of Some d \<Rightarrow> table d t | None \<Rightarrow> [])"

section \<open>Steps\<close>

text \<open>
  The instances by number with what each has counted and whether it is closed, and where the driver's
  \<open>stop\<close> or \<open>start\<close> is: the topics a start has still to register, with the registrations made so far.
  \<open>absorbed\<close> is what \<open>absorb\<close> read of each stopped instance.
\<close>

datatype 't drivePc = AtRest | Registering nat "'t list" | Taken nat | Absorbed nat | Closed

record 't hostRun =
  rHost :: "'t simHost"
  rInsts :: "'t discStats list"
  rClosed :: "nat set"
  rPc :: "'t drivePc"
  rRegs :: "(nat \<times> 't) list"
  absorbed :: "(nat \<times> 't discStats) list"

definition newRun :: "int \<Rightarrow> bool \<Rightarrow> 't hostRun" where
  "newRun i legacy = \<lparr>rHost = newHost i legacy, rInsts = [], rClosed = {}, rPc = AtRest, rRegs = [], absorbed = []\<rparr>"

text \<open>A call of \<open>stats\<close> that holds the lock in one state and reads the instance in another, and one in a single state.\<close>

definition lateStats :: "'t hostRun \<Rightarrow> 't hostRun \<Rightarrow> 't discStats" where
  "lateStats r later = statsOf (rHost r) (\<lambda>i. rInsts later ! i)"

definition runStats :: "'t hostRun \<Rightarrow> 't discStats" where
  "runStats r = lateStats r r"

definition statsOk :: "'t discStats \<Rightarrow> bool" where
  "statsOk d \<longleftrightarrow> mapOk (dsWire d) \<and> mapOk (dsOps d) \<and> mapOk (dsLoads d)"

definition trafficLe :: "wireCounter \<Rightarrow> wireCounter \<Rightarrow> bool" where
  "trafficLe a b \<longleftrightarrow> TxMsgs a \<le> TxMsgs b \<and> TxBytes a \<le> TxBytes b \<and> RxMsgs a \<le> RxMsgs b \<and> RxBytes a \<le> RxBytes b"

definition countsOn :: "'t discStats \<Rightarrow> 't discStats \<Rightarrow> bool" where
  "countsOn a b \<longleftrightarrow> statsOk b \<and> (\<forall>k. trafficLe (mget zeroCounter (dsWire a) k) (mget zeroCounter (dsWire b) k))"

inductive host_step :: "'t hostRun \<Rightarrow> 't hostRun \<Rightarrow> bool" where
  hTraffic: "i < length (rInsts r) \<Longrightarrow> i \<notin> rClosed r \<Longrightarrow> countsOn (rInsts r ! i) d
      \<Longrightarrow> host_step r (r\<lparr>rInsts := (rInsts r)[i := d]\<rparr>)"
| hSetTopics: "host_step r (r\<lparr>rHost := setTopics ts (rHost r)\<rparr>)"
| hStart: "rPc r = AtRest \<Longrightarrow> hDisc (rHost r) = None \<Longrightarrow> startHost (length (rInsts r)) (rHost r) = (h, ts)
      \<Longrightarrow> host_step r (r\<lparr>rHost := h, rInsts := rInsts r @ [noDiscStats], rPc := Registering (length (rInsts r)) ts\<rparr>)"
| hRegister: "rPc r = Registering i (t # ts)
      \<Longrightarrow> host_step r (r\<lparr>rPc := Registering i ts, rRegs := rRegs r @ [(i, t)]\<rparr>)"
| hStarted: "rPc r = Registering i [] \<Longrightarrow> host_step r (r\<lparr>rPc := AtRest\<rparr>)"
| hTake: "rPc r = AtRest \<Longrightarrow> stopTake (rHost r) = (Some i, h) \<Longrightarrow> host_step r (r\<lparr>rHost := h, rPc := Taken i\<rparr>)"
| hAbsorb: "rPc r = Taken i
      \<Longrightarrow> host_step r (r\<lparr>rHost := absorb (rInsts r ! i) (rHost r), rPc := Absorbed i, absorbed := absorbed r @ [(i, rInsts r ! i)]\<rparr>)"
| hClose: "rPc r = Absorbed i \<Longrightarrow> host_step r (r\<lparr>rClosed := insert i (rClosed r), rPc := Closed\<rparr>)"
| hCount: "rPc r = Closed \<Longrightarrow> host_step r (r\<lparr>rHost := stopCount (rHost r), rPc := AtRest\<rparr>)"

inductive host_run :: "'t hostRun \<Rightarrow> bool" where
  hostNew: "host_run (newRun i legacy)"
| hostStep: "host_run r \<Longrightarrow> host_step r r' \<Longrightarrow> host_run r'"

inductive_cases host_stepE: "host_step r r'"

section \<open>Merging\<close>

lemma addTraffic_sel [simp]:
  "TxMsgs (addTraffic a b) = TxMsgs a + TxMsgs b" "TxBytes (addTraffic a b) = TxBytes a + TxBytes b"
  "RxMsgs (addTraffic a b) = RxMsgs a + RxMsgs b" "RxBytes (addTraffic a b) = RxBytes a + RxBytes b"
  "Timeouts (addTraffic a b) = Timeouts a" "GhostTimeouts (addTraffic a b) = GhostTimeouts a"
  "OwnGhostTimeouts (addTraffic a b) = OwnGhostTimeouts a"
  by (simp_all add: addTraffic_def)

lemma zeroCounter_sel [simp]:
  "TxMsgs zeroCounter = 0" "TxBytes zeroCounter = 0" "RxMsgs zeroCounter = 0" "RxBytes zeroCounter = 0"
  "Timeouts zeroCounter = 0" "GhostTimeouts zeroCounter = 0" "OwnGhostTimeouts zeroCounter = 0"
  by (simp_all add: zeroCounter_def)

lemma addTraffic_zero [simp]: "addTraffic a zeroCounter = a"
  by (cases a) (simp add: addTraffic_def zeroCounter_def)

lemma fold_merge_get:
  assumes "mapOk d"
  shows "mget z (fold (\<lambda>(k, v) w. mput k (f (mget z w k) v) w) d w) k
       = (case map_of d k of None \<Rightarrow> mget z w k | Some v \<Rightarrow> f (mget z w k) v)"
  using assms
proof (induction d arbitrary: w)
  case (Cons x d)
  obtain k' v where x: "x = (k', v)" by force
  with Cons.prems have ok: "mapOk d" and fresh: "map_of d k' = None" by (auto simp: mapOk_def map_of_eq_None_iff)
  with Cons.IH [OF ok, of "mput k' (f (mget z w k') v) w"] show ?case by (auto simp: x split: option.split)
qed simp

lemma mget_None: "map_of m k = None \<Longrightarrow> mget z m k = z" and mget_Some: "map_of m k = Some v \<Longrightarrow> mget z m k = v"
  by (simp_all add: mget_def)

lemma mapOk_fold_merge [simp]: "mapOk w \<Longrightarrow> mapOk (fold (\<lambda>(k, v) w. mput k (f (mget z w k) v) w) d w)"
  by (induction d arbitrary: w) auto

lemma merge_forms:
  "mergeWireStats = fold (\<lambda>(k, v) w. mput k (addTraffic (mget zeroCounter w k) v) w)"
  "mergeOpStats = fold (\<lambda>(k, v) w. mput k ((mget zeroOp w k)\<lparr>ocWire := addTraffic (ocWire (mget zeroOp w k)) (ocWire v),
     ocNodes := ocNodes (mget zeroOp w k) + ocNodes v\<rparr>) w)"
  "mergeTopicLoads = fold (\<lambda>(k, v) w. mput k ((mget zeroLoad w k)\<lparr>Regtopic := addTraffic (Regtopic (mget zeroLoad w k)) (Regtopic v),
     TopicQuery := addTraffic (TopicQuery (mget zeroLoad w k)) (TopicQuery v)\<rparr>) w)"
  by (simp_all add: mergeWireStats_def mergeOpStats_def mergeTopicLoads_def Let_def fun_eq_iff)

lemma mergeStats_ok [simp]: "statsOk s \<Longrightarrow> statsOk (mergeStats d s)"
  by (simp add: statsOk_def mergeStats_def merge_forms mapOk_fold_merge [where f = "addTraffic"]
      mapOk_fold_merge [where f = "\<lambda>oc v. oc\<lparr>ocWire := addTraffic (ocWire oc) (ocWire v), ocNodes := ocNodes oc + ocNodes v\<rparr>"]
      mapOk_fold_merge [where f = "\<lambda>tl v. tl\<lparr>Regtopic := addTraffic (Regtopic tl) (Regtopic v), TopicQuery := addTraffic (TopicQuery tl) (TopicQuery v)\<rparr>"])

lemma mergeWire_get:
  assumes "mapOk d"
  shows "mget zeroCounter (mergeWireStats d w) k = addTraffic (mget zeroCounter w k) (mget zeroCounter d k)"
  using fold_merge_get [OF assms, where f = addTraffic and z = zeroCounter and w = w and k = k]
  by (auto simp: merge_forms mget_None mget_Some split: option.splits)

lemma mergeOps_get:
  assumes "mapOk d"
  shows "ocNodes (mget zeroOp (mergeOpStats d w) k) = ocNodes (mget zeroOp w k) + ocNodes (mget zeroOp d k)"
    and "ocWire (mget zeroOp (mergeOpStats d w) k) = addTraffic (ocWire (mget zeroOp w k)) (ocWire (mget zeroOp d k))"
  using fold_merge_get [OF assms, where f = "\<lambda>oc v. oc\<lparr>ocWire := addTraffic (ocWire oc) (ocWire v), ocNodes := ocNodes oc + ocNodes v\<rparr>"
      and z = zeroOp and w = w and k = k]
  by (auto simp: merge_forms mget_None mget_Some zeroOp_def split: option.splits)

lemma mergeLoads_get:
  assumes "mapOk d"
  shows "Regtopic (mget zeroLoad (mergeTopicLoads d w) k) = addTraffic (Regtopic (mget zeroLoad w k)) (Regtopic (mget zeroLoad d k))"
    and "TopicQuery (mget zeroLoad (mergeTopicLoads d w) k) = addTraffic (TopicQuery (mget zeroLoad w k)) (TopicQuery (mget zeroLoad d k))"
  using fold_merge_get [OF assms, where f = "\<lambda>tl v. tl\<lparr>Regtopic := addTraffic (Regtopic tl) (Regtopic v), TopicQuery := addTraffic (TopicQuery tl) (TopicQuery v)\<rparr>"
      and z = zeroLoad and w = w and k = k]
  by (auto simp: merge_forms mget_None mget_Some zeroLoad_def split: option.splits)

section \<open>The totals over the restarts\<close>

text \<open>The instances a host's counters cover: those \<open>absorb\<close> read, and the running one.\<close>

definition seenBy :: "'t hostRun \<Rightarrow> 't hostRun \<Rightarrow> 't discStats list" where
  "seenBy r later = map snd (absorbed r) @ (case hDisc (rHost r) of Some i \<Rightarrow> [rInsts later ! i] | None \<Rightarrow> [])"

definition seenOf :: "'t hostRun \<Rightarrow> 't discStats list" where
  "seenOf r = map snd (absorbed r) @ (case hDisc (rHost r) of Some i \<Rightarrow> [rInsts r ! i] | None \<Rightarrow> [])"

definition trafficFields :: "(wireCounter \<Rightarrow> int) set" where
  "trafficFields = {TxMsgs, TxBytes, RxMsgs, RxBytes}"

definition trafficIn :: "(wireCounter \<Rightarrow> int) \<Rightarrow> string \<Rightarrow> 't discStats list \<Rightarrow> int" where
  "trafficIn f k ds = sum_list (map (\<lambda>d. f (mget zeroCounter (dsWire d) k)) ds)"

definition noTimeouts :: "wireCounter \<Rightarrow> bool" where
  "noTimeouts c \<longleftrightarrow> Timeouts c = 0 \<and> GhostTimeouts c = 0 \<and> OwnGhostTimeouts c = 0"

lemma trafficIn_simps [simp]:
  "trafficIn f k [] = 0" "trafficIn f k (d # ds) = f (mget zeroCounter (dsWire d) k) + trafficIn f k ds"
  "trafficIn f k (ds @ es) = trafficIn f k ds + trafficIn f k es"
  by (simp_all add: trafficIn_def)

lemma trafficFields_add: "f \<in> trafficFields \<Longrightarrow> f (addTraffic a b) = f a + f b"
  by (auto simp: trafficFields_def)

lemma trafficFields_zero: "f \<in> trafficFields \<Longrightarrow> f zeroCounter = 0"
  by (auto simp: trafficFields_def)

lemma trafficFields_le: "f \<in> trafficFields \<Longrightarrow> trafficLe a b \<Longrightarrow> f a \<le> f b"
  by (auto simp: trafficFields_def trafficLe_def)

lemma trafficLe_trans: "trafficLe a b \<Longrightarrow> trafficLe b c \<Longrightarrow> trafficLe a c"
  by (auto simp: trafficLe_def)

definition countedOk :: "'t discStats \<Rightarrow> bool" where
  "countedOk d \<longleftrightarrow> statsOk d \<and> (\<forall>k. trafficLe zeroCounter (mget zeroCounter (dsWire d) k))"

lemma countedOk_none [simp]: "countedOk noDiscStats"
  by (simp add: countedOk_def statsOk_def noDiscStats_def trafficLe_def)

lemma countedOk_more: "countedOk a \<Longrightarrow> countsOn a b \<Longrightarrow> countedOk b"
  by (auto simp: countedOk_def countsOn_def intro: trafficLe_trans)

text \<open>The host's totals over what was absorbed.\<close>

definition totalsOk :: "'t discStats list \<Rightarrow> 't discStats \<Rightarrow> bool" where
  "totalsOk ds s \<longleftrightarrow> statsOk s \<and> (\<forall>d \<in> set ds. countedOk d)
     \<and> (\<forall>k. (\<forall>f \<in> trafficFields. f (mget zeroCounter (dsWire s) k) = trafficIn f k ds)
          \<and> noTimeouts (mget zeroCounter (dsWire s) k))"

lemma totalsOk_none: "totalsOk [] noDiscStats"
  by (simp add: totalsOk_def noDiscStats_def statsOk_def noTimeouts_def trafficFields_zero)

lemma mergeStats_wire [simp]: "dsWire (mergeStats d s) = mergeWireStats (dsWire d) (dsWire s)"
  by (simp add: mergeStats_def)

lemma totalsOk_merge: "totalsOk ds s \<Longrightarrow> countedOk d \<Longrightarrow> totalsOk (ds @ [d]) (mergeStats d s)"
proof -
  assume ds: "totalsOk ds s" and d: "countedOk d"
  then have "mapOk (dsWire d)" by (simp add: countedOk_def statsOk_def)
  with ds d show ?thesis unfolding totalsOk_def noTimeouts_def
    by (simp add: mergeWire_get trafficFields_add ball_Un)
qed

text \<open>Where the driver is, and what it has stopped by then.\<close>

fun pcOk :: "'t drivePc \<Rightarrow> nat option \<Rightarrow> int \<Rightarrow> nat \<Rightarrow> nat \<Rightarrow> bool" where
  "pcOk AtRest disc rs ab n \<longleftrightarrow> (disc = None \<and> ab = n \<or> disc = Some ab \<and> n = Suc ab) \<and> rs = int ab"
| "pcOk (Registering i _) disc rs ab n \<longleftrightarrow> disc = Some i \<and> i = ab \<and> n = Suc ab \<and> rs = int ab"
| "pcOk (Taken i) disc rs ab n \<longleftrightarrow> disc = None \<and> i = ab \<and> n = Suc ab \<and> rs = int ab"
| "pcOk (Absorbed i) disc rs ab n \<longleftrightarrow> disc = None \<and> n = ab \<and> n = Suc i \<and> rs = int i"
| "pcOk Closed disc rs ab n \<longleftrightarrow> disc = None \<and> n = ab \<and> int n = rs + 1"

definition hostOk :: "'t hostRun \<Rightarrow> bool" where
  "hostOk r \<longleftrightarrow> totalsOk (map snd (absorbed r)) (hStats (rHost r)) \<and> (\<forall>d \<in> set (rInsts r). countedOk d)
     \<and> map fst (absorbed r) = [0..<length (absorbed r)]
     \<and> pcOk (rPc r) (hDisc (rHost r)) (hRestarts (rHost r)) (length (absorbed r)) (length (rInsts r))"

lemma hostOk_new: "hostOk (newRun i legacy)"
  by (simp add: hostOk_def newRun_def newHost_def totalsOk_none)

lemma hostOk_step:
  assumes ok: "hostOk r" and step: "host_step r r'"
  shows "hostOk r'"
  using step
proof cases
  case (hTraffic i d)
  have "countedOk (rInsts r ! i)" using ok hTraffic(2) by (simp add: hostOk_def)
  then have "countedOk d" by (rule countedOk_more) (rule hTraffic(4))
  then show ?thesis using ok hTraffic(1) set_update_subset_insert [of "rInsts r" i d] by (auto simp: hostOk_def)
next
  case (hAbsorb i)
  then have "countedOk (rInsts r ! i)" using ok by (simp add: hostOk_def)
  then show ?thesis using ok hAbsorb by (auto simp: hostOk_def absorb_def totalsOk_merge)
qed (use ok in \<open>auto simp: hostOk_def setTopics_def startHost_def stopTake_def stopCount_def\<close>)

lemma host_run_ok: "host_run r \<Longrightarrow> hostOk r"
  by (induction rule: host_run.induct) (auto intro: hostOk_new hostOk_step)

lemma hostOk_running: "hostOk r \<Longrightarrow> hDisc (rHost r) = Some i \<Longrightarrow> i = length (absorbed r) \<and> countedOk (rInsts r ! i)"
  by (cases "rPc r") (auto simp: hostOk_def)

lemma insts_grow: "host_step r r' \<Longrightarrow> length (rInsts r) \<le> length (rInsts r')"
  by (cases rule: host_step.cases) auto

lemma host_later:
  assumes "host_step\<^sup>*\<^sup>* r later" and "host_run r"
  shows "host_run later \<and> length (rInsts r) \<le> length (rInsts later)"
  using assms by (induction rule: rtranclp_induct) (auto intro: hostStep dest: insts_grow)

lemma totals_late:
  assumes run: "host_run r" and later: "host_step\<^sup>*\<^sup>* r later"
  shows "totalsOk (seenBy r later) (lateStats r later)"
proof -
  have ok: "hostOk r" by (rule host_run_ok [OF run])
  show ?thesis
  proof (cases "hDisc (rHost r)")
    case None
    with ok show ?thesis by (simp add: lateStats_def statsOf_def seenBy_def hostOk_def)
  next
    case (Some i)
    have "i < length (rInsts r)" using ok Some by (cases "rPc r") (auto simp: hostOk_def)
    with host_later [OF later run] have "rInsts later ! i \<in> set (rInsts later)" "hostOk later" by (auto intro: host_run_ok)
    then have "countedOk (rInsts later ! i)" by (simp add: hostOk_def)
    moreover have "totalsOk (map snd (absorbed r)) (hStats (rHost r))" using ok by (simp add: hostOk_def)
    ultimately show ?thesis using Some by (simp add: lateStats_def statsOf_def seenBy_def totalsOk_merge)
  qed
qed

lemma totals_seen: "host_run r \<Longrightarrow> totalsOk (seenOf r) (runStats r)"
  using totals_late [of r r] by (simp add: runStats_def seenBy_def seenOf_def)

text \<open>All instances are covered, except one that a stop has taken and not yet absorbed.\<close>

definition inStop :: "'t hostRun \<Rightarrow> bool" where
  "inStop r \<longleftrightarrow> (case rPc r of Taken i \<Rightarrow> True | _ \<Rightarrow> False)"

lemma seen_all: "hostOk r \<Longrightarrow> length (seenOf r) + (if inStop r then 1 else 0) = length (rInsts r)"
  by (cases "rPc r") (auto simp: hostOk_def seenOf_def inStop_def)

text \<open>
  C4: a host's counters over its restarts. Whatever the order of the driver's steps, the instances'
  traffic and the readers, what \<open>stats\<close> returns is, for every message type, the sum of the messages and
  bytes sent and received by the instances it covers: the stopped ones in order as \<open>absorb\<close> read them,
  and the one that was running under the lock, as it stands when it is read, any number of steps later
  (even after that instance was stopped). Under the lock these are all instances ever started, except one
  that a stop has taken away and not yet absorbed. No timeout of any kind is ever in the totals.
\<close>

theorem host_totals:
  assumes run: "host_run r" and later: "host_step\<^sup>*\<^sup>* r later"
  shows "(\<forall>f \<in> trafficFields. f (mget zeroCounter (dsWire (lateStats r later)) k) = trafficIn f k (seenBy r later))
    \<and> noTimeouts (mget zeroCounter (dsWire (lateStats r later)) k)
    \<and> map fst (absorbed r) = [0..<length (absorbed r)]
    \<and> length (seenBy r later) + (if inStop r then 1 else 0) = length (rInsts r)"
proof -
  have ok: "hostOk r" by (rule host_run_ok [OF run])
  then have "map fst (absorbed r) = [0..<length (absorbed r)]" by (simp add: hostOk_def)
  moreover have "length (seenBy r later) = length (seenOf r)" by (simp add: seenBy_def seenOf_def split: option.split)
  ultimately show ?thesis using totals_late [OF run later] seen_all [OF ok] by (simp add: totalsOk_def)
qed

text \<open>
  C33: the totals between two reads. A step of the driver, of an instance or of a reader never lowers
  what \<open>stats\<close> returns when it runs in one state, with one exception: when a stop takes the running instance, the totals fall by
  everything that instance has counted, until \<open>absorb\<close> adds it back.
\<close>

theorem stop_dips:
  assumes run: "host_run r" and step: "host_step r r'" and f: "f \<in> trafficFields"
  shows "case (rPc r, rPc r') of
      (AtRest, Taken i) \<Rightarrow> f (mget zeroCounter (dsWire (runStats r')) k)
          = f (mget zeroCounter (dsWire (runStats r)) k) - f (mget zeroCounter (dsWire (rInsts r ! i)) k)
    | _ \<Rightarrow> f (mget zeroCounter (dsWire (runStats r)) k) \<le> f (mget zeroCounter (dsWire (runStats r')) k)"
proof -
  have ok: "hostOk r" by (rule host_run_ok [OF run])
  have ok': "hostOk r'" by (rule hostOk_step [OF ok step])
  have tr: "f (mget zeroCounter (dsWire (runStats r)) k) = trafficIn f k (seenOf r)"
    "f (mget zeroCounter (dsWire (runStats r')) k) = trafficIn f k (seenOf r')"
    using totals_seen [OF run] totals_seen [OF hostStep [OF run step]] f by (simp_all add: totalsOk_def)
  have counted: "d \<in> set (rInsts r) \<Longrightarrow> 0 \<le> f (mget zeroCounter (dsWire d) k)" for d
    using ok trafficFields_le [OF f, of zeroCounter] trafficFields_zero [OF f] by (auto simp: hostOk_def countedOk_def)
  have "case (rPc r, rPc r') of
      (AtRest, Taken i) \<Rightarrow> trafficIn f k (seenOf r') = trafficIn f k (seenOf r) - f (mget zeroCounter (dsWire (rInsts r ! i)) k)
    | _ \<Rightarrow> trafficIn f k (seenOf r) \<le> trafficIn f k (seenOf r')" (is ?seen) using step
  proof cases
    case (hTraffic i d)
    then have "f (mget zeroCounter (dsWire (rInsts r ! i)) k) \<le> f (mget zeroCounter (dsWire d) k)"
      by (intro trafficFields_le [OF f]) (simp add: countsOn_def)
    then show ?seen using hTraffic
      by (cases "rPc r") (auto simp: seenOf_def nth_list_update split: option.splits)
  next
    case (hStart h ts)
    then show ?seen using trafficFields_zero [OF f] by (auto simp: seenOf_def startHost_def noDiscStats_def mget_def)
  next
    case (hTake i h)
    then show ?seen by (auto simp: seenOf_def stopTake_def)
  next
    case (hAbsorb i)
    then have "rInsts r ! i \<in> set (rInsts r)" and "hDisc (rHost r) = None" using ok by (auto simp: hostOk_def)
    then show ?seen using hAbsorb counted [of "rInsts r ! i"] by (auto simp: seenOf_def absorb_def)
  qed (auto simp: seenOf_def setTopics_def stopCount_def split: drivePc.splits option.splits)
  then show ?thesis by (simp only: tr)
qed

section \<open>A run\<close>

definition exStats :: "nat discStats" where
  "exStats = \<lparr>dsWire = [(''PING/v5'', zeroCounter\<lparr>TxMsgs := 2, Timeouts := 1\<rparr>)], dsOps = [], dsLoads = []\<rparr>"

definition exUp :: "nat hostRun" where
  "exUp = (newRun 5 False)\<lparr>rHost := (newHost 5 False)\<lparr>hDisc := Some 0\<rparr>, rInsts := [exStats]\<rparr>"

definition exTaken :: "nat hostRun" where
  "exTaken = exUp\<lparr>rHost := newHost 5 False, rPc := Taken 0\<rparr>"

lemma exUp_run: "host_run exUp"
proof -
  let ?h = "(newHost 5 False)\<lparr>hDisc := Some 0\<rparr> :: nat simHost"
  let ?s = "(newRun 5 False)\<lparr>rHost := ?h, rInsts := [noDiscStats], rPc := Registering 0 []\<rparr> :: nat hostRun"
  have "host_step (newRun 5 False) ?s"
    using hStart [of "newRun 5 False :: nat hostRun" ?h "[]"] by (simp add: newRun_def newHost_def startHost_def)
  with hostNew have "host_run ?s" by (rule hostStep)
  then have "host_run (?s\<lparr>rPc := AtRest\<rparr>)" by (rule hostStep) (rule hStarted, simp)
  moreover have "host_step (?s\<lparr>rPc := AtRest\<rparr>) exUp"
    using hTraffic [of 0 "?s\<lparr>rPc := AtRest\<rparr>" exStats]
    by (simp add: exUp_def exStats_def newRun_def countsOn_def statsOk_def mapOk_def trafficLe_def noDiscStats_def mget_def)
  ultimately show ?thesis by (rule hostStep)
qed

lemma exTaken_step: "host_step exUp exTaken"
  using hTake [of exUp 0 "newHost 5 False"] by (simp add: exUp_def exTaken_def newRun_def newHost_def stopTake_def)

text \<open>A reader takes the lock before the instance has sent its last message, and reads the counters after.\<close>

definition exMore :: "nat discStats" where
  "exMore = \<lparr>dsWire = [(''PING/v5'', zeroCounter\<lparr>TxMsgs := 3, Timeouts := 1\<rparr>)], dsOps = [], dsLoads = []\<rparr>"

lemma exUp_more: "host_step exUp (exUp\<lparr>rInsts := [exMore]\<rparr>)"
  using hTraffic [of 0 exUp exMore]
  by (simp add: exUp_def exStats_def exMore_def newRun_def countsOn_def statsOk_def mapOk_def trafficLe_def mget_def)

theorem host_totals_witness:
  "TxMsgs (mget zeroCounter (dsWire (lateStats exUp (exUp\<lparr>rInsts := [exMore]\<rparr>))) ''PING/v5'') = 3
    \<and> Timeouts (mget zeroCounter (dsWire (lateStats exUp (exUp\<lparr>rInsts := [exMore]\<rparr>))) ''PING/v5'') = 0"
  using host_totals [OF exUp_run r_into_rtranclp [where r = host_step, OF exUp_more], of "''PING/v5''"]
  by (simp add: trafficFields_def noTimeouts_def) (simp add: seenBy_def exUp_def newRun_def newHost_def exMore_def mget_def)

theorem stop_dips_witness:
  "TxMsgs (mget zeroCounter (dsWire (runStats exTaken)) ''PING/v5'')
     = TxMsgs (mget zeroCounter (dsWire (runStats exUp)) ''PING/v5'') - 2"
proof -
  have "TxMsgs \<in> trafficFields" by (simp add: trafficFields_def)
  from stop_dips [OF exUp_run exTaken_step this, of "''PING/v5''"] show ?thesis
    by (simp add: exTaken_def exUp_def newRun_def newHost_def exStats_def mget_def)
qed

end
