(* ===== verification/SimSeries.thy ===== *)
theory SimSeries
  imports SimHost RunSeries
begin

text \<open>
  The traffic of a simulation: the counting connections (\<open>src/cmd/simnet/adapter.go\<close>), the per-node dump at
  the end, and the time series by identifier bucket (\<open>overhead_series.go\<close>), sampled while churn stops and
  restarts the nodes. What the atomic counters, the hosts and the caches read at a sample is data of it.
\<close>

section \<open>Connections\<close>

record simConn =
  connIdx :: int
  connTxPkts :: int
  connTxBytes :: int
  connRxPkts :: int
  connRxBytes :: int

definition newConn :: "int \<Rightarrow> simConn" where
  "newConn i = \<lparr>connIdx = i, connTxPkts = 0, connTxBytes = 0, connRxPkts = 0, connRxBytes = 0\<rparr>"

text \<open>The result of the wrapped call is \<open>None\<close> for an error, which is returned uncounted.\<close>

definition readFrom :: "int option \<Rightarrow> simConn \<Rightarrow> simConn" where
  "readFrom res c = (case res of None \<Rightarrow> c | Some n \<Rightarrow> c\<lparr>connRxPkts := connRxPkts c + 1, connRxBytes := connRxBytes c + n\<rparr>)"

definition writeTo :: "int option \<Rightarrow> simConn \<Rightarrow> simConn" where
  "writeTo res c = (case res of None \<Rightarrow> c | Some n \<Rightarrow> c\<lparr>connTxPkts := connTxPkts c + 1, connTxBytes := connTxBytes c + n\<rparr>)"

text \<open>A node has one endpoint per instance; their counters add up.\<close>

definition addConn :: "simConn \<Rightarrow> simConn \<Rightarrow> simConn" where
  "addConn c k = k\<lparr>connTxPkts := connTxPkts k + connTxPkts c, connTxBytes := connTxBytes k + connTxBytes c,
     connRxPkts := connRxPkts k + connRxPkts c, connRxBytes := connRxBytes k + connRxBytes c\<rparr>"

definition byIdx :: "simConn list \<Rightarrow> (int, simConn) gomap" where
  "byIdx cs = fold (\<lambda>c m. mput (connIdx c) (addConn c (mget (newConn (connIdx c)) m (connIdx c))) m) cs []"

section \<open>The dump of the nodes\<close>

record 't overheadRec =
  orIdx :: int
  orID :: string
  orTxPkts :: int
  orTxBytes :: int
  orRxPkts :: int
  orRxBytes :: int
  orTQRcv :: int
  orByType :: wireMap
  orOps :: "((string \<times> int) \<times> opCounter) list"
  orLoad :: "('t, topicLoad) gomap"

text \<open>\<open>reg\<close> lists the index of every node created, \<open>stats\<close> what its host reports, if it has one.\<close>

definition hostParts :: "(int \<Rightarrow> 't discStats option) \<Rightarrow> int list
    \<Rightarrow> (int, wireMap) gomap \<times> (int, ((string \<times> int) \<times> opCounter) list) gomap \<times> (int, ('t, topicLoad) gomap) gomap" where
  "hostParts stats reg = fold (\<lambda>i (w, opm, ld). case stats i of None \<Rightarrow> (w, opm, ld)
     | Some d \<Rightarrow> (if dsWire d \<noteq> [] then mput i (dsWire d) w else w,
         fold (\<lambda>op m. mput i (mget [] m i @ [op]) m) (dsOps d) opm,
         if dsLoads d \<noteq> [] then mput i (dsLoads d) ld else ld)) reg ([], [], [])"

definition addRec :: "simConn \<Rightarrow> 't overheadRec \<Rightarrow> 't overheadRec" where
  "addRec c r = r\<lparr>orTxPkts := orTxPkts r + connTxPkts c, orTxBytes := orTxBytes r + connTxBytes c,
     orRxPkts := orRxPkts r + connRxPkts c, orRxBytes := orRxBytes r + connRxBytes c\<rparr>"

definition newRec :: "(int, string) gomap \<Rightarrow> (int, int) gomap \<Rightarrow> (int, wireMap) gomap
    \<Rightarrow> (int, ((string \<times> int) \<times> opCounter) list) gomap \<Rightarrow> (int, ('t, topicLoad) gomap) gomap \<Rightarrow> int \<Rightarrow> 't overheadRec" where
  "newRec idm tq w opm ld i = \<lparr>orIdx = i, orID = mget [] idm i, orTxPkts = 0, orTxBytes = 0, orRxPkts = 0, orRxBytes = 0,
     orTQRcv = mget 0 tq i, orByType = mget [] w i, orOps = mget [] opm i, orLoad = mget [] ld i\<rparr>"

definition dumpConn :: "(int \<Rightarrow> 't overheadRec) \<Rightarrow> simConn \<Rightarrow> (int, nat) gomap \<times> 't overheadRec list
    \<Rightarrow> (int, nat) gomap \<times> 't overheadRec list" where
  "dumpConn fresh c = (\<lambda>(pos, recs).
     let (i, pos, recs) = (if mhas pos (connIdx c) then (mget 0 pos (connIdx c), pos, recs)
           else (length recs, mput (connIdx c) (length recs) pos, recs @ [fresh (connIdx c)]))
     in (pos, recs[i := addRec c (recs ! i)]))"

definition dumpOverhead :: "(int, string) gomap \<Rightarrow> (int, int) gomap \<Rightarrow> (int \<Rightarrow> 't discStats option) \<Rightarrow> int list \<Rightarrow> simConn list
    \<Rightarrow> 't overheadRec list" where
  "dumpOverhead idm tq stats reg conns =
     (let (w, opm, ld) = hostParts stats reg in snd (fold (dumpConn (newRec idm tq w opm ld)) conns ([], [])))"

section \<open>A sample\<close>

record simSample = overheadSample +
  numNodes :: int

definition cacheSampleLimit :: nat where "cacheSampleLimit = 20000"

definition nodeBucket :: "nat list \<Rightarrow> nat" where
  "nodeBucket i = bucketOfPrefix (bigEndian (take 8 i))"

text \<open>
  A node of the registry at a sample: whether it was created with a service, what its host's counters (or,
  without a host, its first service) give, and the cache of the service that is running, if one is.
\<close>

record seriesNode =
  snIdx :: int
  snID :: "nat list"
  snDisc :: bool
  snWire :: wireMap
  snCache :: "(int \<times> int \<times> (string, int) gomap) option"

definition emptySample :: "float64 \<Rightarrow> simSample" where
  "emptySample sec = \<lparr>TSec = sec, TxBytes = zeros, RxBytes = zeros, overheadSample.TxMsgs = zeros, RxMsgs = zeros,
     ByType = [], SNodes = zeros, CacheHeld = 0, CacheCap = 0, CacheByTopic = [], numNodes = 0\<rparr>"

definition addType :: "nat \<Rightarrow> string \<times> wireCounter \<Rightarrow> (string, bucketed) gomap \<Rightarrow> (string, bucketed) gomap" where
  "addType b = (\<lambda>(ty, c) m. let bt = mget newBucketed m ty
     in mput ty \<lparr>bTxBytes = addTo b (wireCounter.TxBytes c) (bTxBytes bt), bRxBytes = addTo b (wireCounter.RxBytes c) (bRxBytes bt),
          bTxMsgs = addTo b (wireCounter.TxMsgs c) (bTxMsgs bt), bRxMsgs = addTo b (wireCounter.RxMsgs c) (bRxMsgs bt)\<rparr> m)"

definition addCache :: "int \<times> int \<times> (string, int) gomap \<Rightarrow> simSample \<Rightarrow> simSample" where
  "addCache = (\<lambda>(held, capacity, byTopic) s.
     s\<lparr>CacheHeld := CacheHeld s + held, CacheCap := CacheCap s + capacity,
       CacheByTopic := fold (\<lambda>(t, n). madd t n) byTopic (CacheByTopic s)\<rparr>)"

definition addTraffics :: "nat \<Rightarrow> simConn option \<Rightarrow> simSample \<Rightarrow> simSample" where
  "addTraffics b k s = (case k of None \<Rightarrow> s
     | Some c \<Rightarrow> s\<lparr>overheadSample.TxBytes := addTo b (connTxBytes c) (overheadSample.TxBytes s),
         overheadSample.RxBytes := addTo b (connRxBytes c) (overheadSample.RxBytes s),
         overheadSample.TxMsgs := addTo b (connTxPkts c) (overheadSample.TxMsgs s),
         overheadSample.RxMsgs := addTo b (connRxPkts c) (overheadSample.RxMsgs s)\<rparr>)"

definition sampleNode :: "(int, simConn) gomap \<Rightarrow> bool \<Rightarrow> seriesNode \<Rightarrow> simSample \<Rightarrow> simSample" where
  "sampleNode conns cacheSample nr s =
     (if \<not> snDisc nr then s
      else let b = nodeBucket (snID nr);
               s = s\<lparr>numNodes := numNodes s + 1, SNodes := addTo b 1 (SNodes s)\<rparr>;
               s = addTraffics b (map_of conns (snIdx nr)) s;
               s = (if cacheSample then (case snCache nr of None \<Rightarrow> s | Some k \<Rightarrow> addCache k s) else s)
           in s\<lparr>ByType := fold (addType b) (snWire nr) (ByType s)\<rparr>)"

definition sampleOf :: "float64 \<Rightarrow> bool \<Rightarrow> seriesNode list \<Rightarrow> simConn list \<Rightarrow> simSample" where
  "sampleOf sec skipCache nodes conns =
     fold (sampleNode (byIdx conns) (length nodes \<le> cacheSampleLimit \<and> \<not> skipCache)) nodes (emptySample sec)"

text \<open>The sum that a progress line prints of a message type.\<close>

definition typeTxMsgs :: "simSample \<Rightarrow> string \<Rightarrow> int" where
  "typeTxMsgs s name = (case map_of (ByType s) name of None \<Rightarrow> 0 | Some bt \<Rightarrow> sum_list (bTxMsgs bt))"

section \<open>The sampler\<close>

text \<open>
  The sampler's loop waits for a tick or for the stop channel, which wins or loses the race when both
  are ready; the sample after the stop is its last. \<open>dump\<close> closes the channel once, whichever caller
  comes first, waits for the sampler to end, and writes all samples.
\<close>

record series =
  serSamples :: "simSample list"
  serStop :: bool
  serSkip :: bool
  serDone :: bool

definition newSeries :: series where
  "newSeries = \<lparr>serSamples = [], serStop = False, serSkip = False, serDone = False\<rparr>"

type_synonym sight = "float64 \<times> seriesNode list \<times> simConn list"

definition seriesSample :: "sight \<Rightarrow> series \<Rightarrow> series" where
  "seriesSample = (\<lambda>(sec, nodes, conns) o'. o'\<lparr>serSamples := serSamples o' @ [sampleOf sec (serSkip o') nodes conns]\<rparr>)"

datatype seriesEvent = Tick sight | StopSeen sight | DumpCall

fun seriesStep :: "seriesEvent \<Rightarrow> series \<Rightarrow> series" where
  "seriesStep (Tick w) s = (if serDone s then s else seriesSample w s)"
| "seriesStep (StopSeen w) s = (if serDone s \<or> \<not> serStop s then s else (seriesSample w s)\<lparr>serDone := True\<rparr>)"
| "seriesStep DumpCall s = s\<lparr>serSkip := True, serStop := True\<rparr>"

definition seriesDump :: "series \<Rightarrow> simSample list option" where
  "seriesDump s = (if serStop s \<and> serDone s then Some (serSamples s) else None)"

section \<open>The dump covers every connection\<close>

definition connsOf :: "int \<Rightarrow> simConn list \<Rightarrow> simConn list" where
  "connsOf i cs = filter (\<lambda>c. connIdx c = i) cs"

definition connFields :: "((simConn \<Rightarrow> int) \<times> ('t overheadRec \<Rightarrow> int)) set" where
  "connFields = {(connTxPkts, orTxPkts), (connTxBytes, orTxBytes), (connRxPkts, orRxPkts), (connRxBytes, orRxBytes)}"

definition recRest :: "'t overheadRec \<Rightarrow> string \<times> int \<times> wireMap \<times> ((string \<times> int) \<times> opCounter) list \<times> ('t, topicLoad) gomap" where
  "recRest r = (orID r, orTQRcv r, orByType r, orOps r, orLoad r)"

lemma addRec_frame [simp]: "orIdx (addRec c r) = orIdx r" "recRest (addRec c r) = recRest r"
  by (simp_all add: addRec_def recRest_def)

lemma addRec_field: "(f, g) \<in> connFields \<Longrightarrow> g (addRec c r) = g r + f c"
  by (auto simp: connFields_def addRec_def)

definition dumpOk :: "(int \<Rightarrow> 't overheadRec) \<Rightarrow> simConn list \<Rightarrow> (int, nat) gomap \<times> 't overheadRec list \<Rightarrow> bool" where
  "dumpOk fresh cs = (\<lambda>(pos, recs).
     distinct (map orIdx recs) \<and> orIdx ` set recs = connIdx ` set cs
     \<and> (\<forall>j < length recs. map_of pos (orIdx (recs ! j)) = Some j) \<and> (\<forall>i. mhas pos i \<longleftrightarrow> i \<in> orIdx ` set recs)
     \<and> (\<forall>r \<in> set recs. recRest r = recRest (fresh (orIdx r))
          \<and> (\<forall>(f, g) \<in> connFields. g r = sum_list (map f (connsOf (orIdx r) cs)))))"

lemma connsOf_snoc [simp]: "connsOf i (cs @ [c]) = connsOf i cs @ (if connIdx c = i then [c] else [])"
  by (simp add: connsOf_def)

lemma dump_old:
  assumes ok: "dumpOk fresh cs (pos, recs)" and j: "j < length recs" "orIdx (recs ! j) = connIdx c"
  shows "dumpOk fresh (cs @ [c]) (pos, recs[j := addRec c (recs ! j)])"
proof -
  let ?R = "recs[j := addRec c (recs ! j)]"
  have idx: "map orIdx ?R = map orIdx recs"
    using j by (simp add: map_update) (metis j(1) list_update_id length_map nth_map)
  have im: "orIdx ` set ?R = orIdx ` set recs" using idx by (metis set_map)
  have at: "orIdx (?R ! i) = orIdx (recs ! i)" if "i < length recs" for i
    using that j(1) by (auto simp: nth_list_update)
  have in_set: "connIdx c \<in> orIdx ` set recs" using j by (metis image_eqI nth_mem)
  have fields: "recRest r = recRest (fresh (orIdx r)) \<and> (\<forall>(f, g) \<in> connFields. g r = sum_list (map f (connsOf (orIdx r) (cs @ [c]))))"
    if r: "r \<in> set ?R" for r
  proof -
    obtain i where i: "i < length recs" "r = ?R ! i" using r by (auto simp: in_set_conv_nth)
    have old: "recRest (recs ! i) = recRest (fresh (orIdx (recs ! i)))"
      "\<forall>(f, g) \<in> connFields. g (recs ! i) = sum_list (map f (connsOf (orIdx (recs ! i)) cs))"
      using ok i(1) by (auto simp: dumpOk_def)
    show ?thesis
    proof (cases "i = j")
      case True
      with i j old show ?thesis by (auto simp: addRec_field)
    next
      case False
      then have "orIdx (recs ! i) \<noteq> connIdx c"
        using ok i(1) j False nth_eq_iff_index_eq [of "map orIdx recs" i j] by (auto simp: dumpOk_def)
      with False i old show ?thesis by auto
    qed
  qed
  from ok im in_set fields at idx show ?thesis unfolding dumpOk_def by (auto simp del: map_update set_map)
qed

lemma dump_new:
  assumes ok: "dumpOk fresh cs (pos, recs)" and new: "\<not> mhas pos (connIdx c)"
    and fr: "orIdx (fresh (connIdx c)) = connIdx c" "\<forall>(f, g) \<in> connFields. g (fresh (connIdx c)) = 0"
  shows "dumpOk fresh (cs @ [c]) (mput (connIdx c) (length recs) pos, recs @ [addRec c (fresh (connIdx c))])"
proof -
  have notin: "connIdx c \<notin> orIdx ` set recs" "connIdx c \<notin> connIdx ` set cs" using ok new by (auto simp: dumpOk_def)
  have none: "connsOf (connIdx c) cs = []"
    unfolding connsOf_def filter_empty_conv using notin(2) by (metis image_eqI)
  let ?new = "addRec c (fresh (connIdx c))"
  let ?pos = "mput (connIdx c) (length recs) pos"
  have "distinct (map orIdx (recs @ [?new]))" using ok notin fr by (simp add: dumpOk_def)
  moreover have "orIdx ` set (recs @ [?new]) = connIdx ` set (cs @ [c])" using ok fr by (simp add: dumpOk_def)
  moreover have "map_of ?pos (orIdx ((recs @ [?new]) ! j)) = Some j" if "j < length (recs @ [?new])" for j
  proof (cases "j = length recs")
    case False
    with that have j: "j < length recs" by simp
    then have "orIdx (recs ! j) \<noteq> connIdx c" using notin by (metis image_eqI nth_mem)
    then show ?thesis using ok j by (simp add: dumpOk_def update_conv' nth_append)
  qed (simp add: update_conv' fr)
  moreover have "mhas ?pos i \<longleftrightarrow> i \<in> orIdx ` set (recs @ [?new])" for i
    using ok fr by (auto simp: dumpOk_def)
  moreover have "recRest r = recRest (fresh (orIdx r)) \<and> (\<forall>(f, g) \<in> connFields. g r = sum_list (map f (connsOf (orIdx r) (cs @ [c]))))"
    if "r \<in> set (recs @ [?new])" for r
  proof (cases "r \<in> set recs")
    case True
    then have "orIdx r \<noteq> connIdx c" using notin by force
    then show ?thesis using ok True by (auto simp: dumpOk_def)
  next
    case False
    then have "r = ?new" using that by simp
    then show ?thesis using fr none by (auto simp: addRec_field)
  qed
  ultimately show ?thesis unfolding dumpOk_def by blast
qed

lemma dumpOk_step:
  assumes "dumpOk fresh cs (pos, recs)"
    and "\<And>i. orIdx (fresh i) = i" "\<And>i. \<forall>(f, g) \<in> connFields. g (fresh i) = 0"
  shows "dumpOk fresh (cs @ [c]) (dumpConn fresh c (pos, recs))"
proof (cases "mhas pos (connIdx c)")
  case True
  then obtain j where j: "j < length recs" "orIdx (recs ! j) = connIdx c"
    using assms(1) unfolding dumpOk_def by (auto simp: in_set_conv_nth image_iff)
  then have "mget 0 pos (connIdx c) = j" using assms(1) by (auto simp: dumpOk_def mget_def)
  with dump_old [OF assms(1) j] True show ?thesis by (simp add: dumpConn_def)
next
  case False
  with dump_new [OF assms(1) False] assms(2,3) show ?thesis by (simp add: dumpConn_def)
qed

lemma dumpOk_fold:
  assumes "dumpOk fresh ds st" and "\<And>i. orIdx (fresh i) = i" "\<And>i. \<forall>(f, g) \<in> connFields. g (fresh i) = 0"
  shows "dumpOk fresh (ds @ cs) (fold (dumpConn fresh) cs st)"
  using assms(1)
proof (induction cs arbitrary: ds st)
  case (Cons c cs)
  obtain pos recs where st: "st = (pos, recs)" by force
  with Cons.prems have "dumpOk fresh (ds @ [c]) (dumpConn fresh c st)" by (simp add: dumpOk_step assms(2,3))
  then show ?case using Cons.IH by fastforce
qed simp

lemma fold_append_ops: "mget [] (fold (\<lambda>op m. mput i (mget [] m i @ [op]) m) xs m) k = mget [] m k @ (if k = i then xs else [])"
  by (induction xs arbitrary: m) auto

definition statParts :: "'t discStats option \<Rightarrow> wireMap \<times> ((string \<times> int) \<times> opCounter) list \<times> ('t, topicLoad) gomap" where
  "statParts d = (case d of None \<Rightarrow> ([], [], []) | Some d \<Rightarrow> (dsWire d, dsOps d, dsLoads d))"

lemma hostParts_fold:
  assumes "distinct reg" "\<forall>i \<in> set reg. mget [] w i = [] \<and> mget [] q i = [] \<and> mget [] l i = []"
    and "fold (\<lambda>i (w, om, ld). case stats i of None \<Rightarrow> (w, om, ld)
     | Some d \<Rightarrow> (if dsWire d \<noteq> [] then mput i (dsWire d) w else w,
         fold (\<lambda>op m. mput i (mget [] m i @ [op]) m) (dsOps d) om,
         if dsLoads d \<noteq> [] then mput i (dsLoads d) ld else ld)) reg (w, q, l) = (w', q', l')"
  shows "(mget [] w' k, mget [] q' k, mget [] l' k) = (if k \<in> set reg then statParts (stats k) else (mget [] w k, mget [] q k, mget [] l k))"
  using assms
proof (induction reg arbitrary: w q l)
  case (Cons i reg)
  show ?case
  proof (cases "stats i")
    case None
    with Cons.prems have r: "fold (\<lambda>i (w, om, ld). case stats i of None \<Rightarrow> (w, om, ld)
     | Some d \<Rightarrow> (if dsWire d \<noteq> [] then mput i (dsWire d) w else w,
         fold (\<lambda>op m. mput i (mget [] m i @ [op]) m) (dsOps d) om,
         if dsLoads d \<noteq> [] then mput i (dsLoads d) ld else ld)) reg (w, q, l) = (w', q', l')" by simp
    from Cons.IH [OF _ _ r] Cons.prems None show ?thesis by (auto simp: statParts_def)
  next
    case (Some d)
    let ?w = "if dsWire d \<noteq> [] then mput i (dsWire d) w else w"
    let ?q = "fold (\<lambda>op m. mput i (mget [] m i @ [op]) m) (dsOps d) q"
    let ?l = "if dsLoads d \<noteq> [] then mput i (dsLoads d) l else l"
    have r: "fold (\<lambda>i (w, om, ld). case stats i of None \<Rightarrow> (w, om, ld)
     | Some d \<Rightarrow> (if dsWire d \<noteq> [] then mput i (dsWire d) w else w,
         fold (\<lambda>op m. mput i (mget [] m i @ [op]) m) (dsOps d) om,
         if dsLoads d \<noteq> [] then mput i (dsLoads d) ld else ld)) reg (?w, ?q, ?l) = (w', q', l')"
      using Cons.prems(3) Some by simp
    have "\<forall>j \<in> set reg. mget [] ?w j = [] \<and> mget [] ?q j = [] \<and> mget [] ?l j = []"
      using Cons.prems by (auto simp: fold_append_ops)
    from Cons.IH [OF _ this r] Cons.prems Some show ?thesis by (auto simp: fold_append_ops statParts_def)
  qed
qed simp

text \<open>
  C34: the per-node dump. There is one record for every node that opened an endpoint and none for
  others; its packets and bytes are summed over all the endpoints the node's instances opened, and its
  counters by message type, by operation and by topic are those its host reports, empty for a node that
  is not in the registry.
\<close>

theorem dump_totals:
  assumes reg: "distinct reg" and recs: "recs = dumpOverhead idm tq stats reg conns"
  shows "distinct (map orIdx recs) \<and> orIdx ` set recs = connIdx ` set conns
    \<and> (\<forall>r \<in> set recs.
         orTxPkts r = sum_list (map connTxPkts (connsOf (orIdx r) conns)) \<and> orTxBytes r = sum_list (map connTxBytes (connsOf (orIdx r) conns))
       \<and> orRxPkts r = sum_list (map connRxPkts (connsOf (orIdx r) conns)) \<and> orRxBytes r = sum_list (map connRxBytes (connsOf (orIdx r) conns))
       \<and> orTQRcv r = mget 0 tq (orIdx r) \<and> orID r = mget [] idm (orIdx r)
       \<and> (orByType r, orOps r, orLoad r) = (if orIdx r \<in> set reg then statParts (stats (orIdx r)) else ([], [], [])))"
proof -
  obtain w q l where h: "hostParts stats reg = (w, q, l)" by (metis surj_pair)
  let ?fresh = "newRec idm tq w q l"
  have "dumpOk ?fresh ([] @ conns) (fold (dumpConn ?fresh) conns ([], []))"
    by (rule dumpOk_fold) (auto simp: dumpOk_def newRec_def connFields_def mhas_def)
  then have ok: "dumpOk ?fresh conns (fst (fold (dumpConn ?fresh) conns ([], [])), recs)"
    by (simp add: recs dumpOverhead_def h)
  have parts: "(mget [] w i, mget [] q i, mget [] l i) = (if i \<in> set reg then statParts (stats i) else ([], [], []))" for i
    using hostParts_fold [OF reg, of "[]" "[]" "[]" stats w q l i] h by (simp add: hostParts_def)
  from ok have "distinct (map orIdx recs)" "orIdx ` set recs = connIdx ` set conns" by (simp_all add: dumpOk_def)
  moreover have "orTxPkts r = sum_list (map connTxPkts (connsOf (orIdx r) conns)) \<and> orTxBytes r = sum_list (map connTxBytes (connsOf (orIdx r) conns))
       \<and> orRxPkts r = sum_list (map connRxPkts (connsOf (orIdx r) conns)) \<and> orRxBytes r = sum_list (map connRxBytes (connsOf (orIdx r) conns))
       \<and> orTQRcv r = mget 0 tq (orIdx r) \<and> orID r = mget [] idm (orIdx r)
       \<and> (orByType r, orOps r, orLoad r) = (if orIdx r \<in> set reg then statParts (stats (orIdx r)) else ([], [], []))"
    if r: "r \<in> set recs" for r
  proof -
    have "recRest r = recRest (?fresh (orIdx r))" "\<forall>(f, g) \<in> connFields. g r = sum_list (map f (connsOf (orIdx r) conns))"
      using ok r by (simp_all add: dumpOk_def)
    then show ?thesis using parts [of "orIdx r"] by (simp add: connFields_def recRest_def newRec_def)
  qed
  ultimately show ?thesis by blast
qed

section \<open>A sample covers every node of its bucket\<close>





























section \<open>The series ends once\<close>

lemma done_stays: "serDone s \<Longrightarrow> seriesStep e s = s\<lparr>serSkip := serSkip (seriesStep e s), serStop := serStop (seriesStep e s)\<rparr>"
  by (cases e) simp_all

lemma done_frame: "serDone s \<Longrightarrow> serStop s \<Longrightarrow> serDone (fold seriesStep es s) \<and> serStop (fold seriesStep es s)
    \<and> serSamples (fold seriesStep es s) = serSamples s"
proof (induction es arbitrary: s)
  case (Cons e es)
  then have "serDone (seriesStep e s) \<and> serStop (seriesStep e s) \<and> serSamples (seriesStep e s) = serSamples s"
    by (cases e) simp_all
  with Cons.IH [of "seriesStep e s"] show ?case by simp
qed simp

text \<open>
  The normal end and the watchdog may both dump: whatever happens after the first dump has its
  samples, every later dump writes the same.
\<close>

lemma dump_idempotent:
  "seriesDump (fold seriesStep es newSeries) = Some xs \<Longrightarrow> seriesDump (fold seriesStep (es @ later) newSeries) = Some xs"
  using done_frame [of "fold seriesStep es newSeries" later] by (auto simp: seriesDump_def split: if_splits)

section \<open>Two nodes\<close>

definition exConns :: "simConn list" where
  "exConns = [writeTo (Some 100) (newConn 0), writeTo (Some 40) (newConn 1), writeTo (Some 60) (newConn 0)]"


theorem dump_totals_witness:
  "orIdx ` set (dumpOverhead [] [] (\<lambda>i. None :: nat discStats option) [0, 1] exConns) = {0, 1}"
proof -
  have "distinct [0 :: int, 1]" by simp
  note dump_totals [OF this refl, of "[]" "[]" "\<lambda>i. None :: nat discStats option" exConns, THEN conjunct2, THEN conjunct1]
  also have "connIdx ` set exConns = {0, 1}" by (auto simp: exConns_def writeTo_def newConn_def)
  finally show ?thesis .
qed


end
