(* ===== verification/SimCoverage.thy ===== *)
theory SimCoverage
  imports SearchWorkload Population
begin

text \<open>
  What the simulator's workloads register and measure beside the searches: the sets of registrants and
  providers, the staggered registrations, the probe that times them, and the coverage of the registrars'
  tables (\<open>src/cmd/simnet/workload_multi.go\<close>, \<open>coverage.go\<close>, \<open>workload_discng.go\<close>, \<open>checksdump.go\<close>,
  \<open>mixed.go\<close>, \<open>vanilla.go\<close>). A table read is an argument: the ids node \<open>idx\<close> holds for a topic, nothing while
  the node is away. Maps keyed by a printed id are keyed by the id.
\<close>

section \<open>Topic sets\<close>

record 'id topNode =
  tnIdx :: nat
  tnID :: 'id
  tnLegacy :: bool

definition addMember :: "'id \<Rightarrow> int \<Rightarrow> (int, 'id list) gomap \<Rightarrow> (int, 'id list) gomap" where
  "addMember i t m = mput t (List.insert i (mget [] m t)) m"

definition providersByTopic :: "'id topNode list \<Rightarrow> int list list \<Rightarrow> (int, 'id list) gomap" where
  "providersByTopic all topicIdx = fold (\<lambda>(n, ts). fold (addMember (tnID n)) ts) (zip all topicIdx) []"

definition nodeTopics :: "'id topNode list \<Rightarrow> int list list \<Rightarrow> int list list" where
  "nodeTopics all topicIdx = map (\<lambda>(n, ts). if tnLegacy n then [-1] else ts) (zip all topicIdx)"

definition legacyTopics :: "'id topNode list \<Rightarrow> int list list \<Rightarrow> int list list" where
  "legacyTopics all topicIdx = map (\<lambda>(n, ts). if tnLegacy n then ts else []) (zip all topicIdx)"

definition registrantsByTopic :: "'id topNode list \<Rightarrow> int list list \<Rightarrow> (int, 'id list) gomap" where
  "registrantsByTopic all topicIdx =
     fold (\<lambda>(n, ts) m. if tnLegacy n then m else fold (addMember (tnID n)) ts m) (zip all topicIdx) []"

definition topicDist :: "nat \<Rightarrow> int list list \<Rightarrow> int list" where
  "topicDist numTopics nts = fold (\<lambda>ts d. fold (\<lambda>t d. if t \<ge> 0 then d[nat t := d ! nat t + 1] else d) ts d) nts (replicate numTopics 0)"

section \<open>Registration\<close>

text \<open>
  The clock of the registration loop: a sleep ends no earlier than asked, and \<open>lag\<close> is what the loop
  itself takes at a node.
\<close>

record ('id, 't) regLoop =
  rlClock :: gotime
  rlStaggered :: nat
  rlStartNs :: "('id, int) gomap"
  rlCalls :: "(nat \<times> 't list) list"

definition registerNode :: "gotime \<Rightarrow> duration \<Rightarrow> duration \<Rightarrow> (nat \<Rightarrow> int) \<Rightarrow> (nat \<Rightarrow> duration) \<Rightarrow> 't list
    \<Rightarrow> nat \<times> 'id topNode \<times> int list \<Rightarrow> ('id, 't) regLoop \<Rightarrow> ('id, 't) regLoop" where
  "registerNode regStart startWindow stagger off lag topics = (\<lambda>(i, n, ts) s.
     if hd ts < 0 then s
     else let clock = (if startWindow > 0 then max (rlClock s) (regStart + off i * nsMilli)
            else if stagger > 0 \<and> rlStaggered s > 0 then rlClock s + stagger else rlClock s) + lag i
       in s\<lparr>rlClock := clock, rlStaggered := rlStaggered s + 1, rlStartNs := mput (tnID n) (clock - regStart) (rlStartNs s),
            rlCalls := rlCalls s @ [(tnIdx n, map (\<lambda>t. topics ! nat t) ts)]\<rparr>)"

definition registerAll :: "gotime \<Rightarrow> duration \<Rightarrow> duration \<Rightarrow> (nat \<Rightarrow> int) \<Rightarrow> (nat \<Rightarrow> duration) \<Rightarrow> 't list
    \<Rightarrow> 'id topNode list \<Rightarrow> int list list \<Rightarrow> ('id, 't) regLoop" where
  "registerAll regStart startWindow stagger off lag topics all nts =
     (let s = fold (registerNode regStart startWindow stagger off lag topics) (enumerate 0 (zip all nts))
            \<lparr>rlClock = regStart, rlStaggered = 0, rlStartNs = [], rlCalls = []\<rparr>
      in if startWindow > 0 then s\<lparr>rlClock := max (rlClock s) (regStart + startWindow)\<rparr> else s)"

section \<open>The registration probe\<close>

text \<open>First admissions, the registrars already timed, and the sum and number of placements, by topic and registrant.\<close>

record ('id, 't) probe =
  pbFirst :: "('t, ('id, int) gomap) gomap"
  pbSeen :: "('t, ('id, 'id list) gomap) gomap"
  pbAgg :: "('t, ('id, int \<times> int) gomap) gomap"

definition memberOf :: "'id topNode list \<Rightarrow> int list list \<Rightarrow> 't list \<Rightarrow> 'id \<Rightarrow> 't \<Rightarrow> bool" where
  "memberOf all nts topics i t \<longleftrightarrow>
     list_ex (\<lambda>(n, ts). tnID n = i \<and> list_ex (\<lambda>ti. ti \<ge> 0 \<and> topics ! nat ti = t) ts) (zip all nts)"

definition newProbe :: "'t list \<Rightarrow> ('id, 't) probe" where
  "newProbe topics = \<lparr>pbFirst = fold (\<lambda>t. mput t []) topics [], pbSeen = fold (\<lambda>t. mput t []) topics [],
     pbAgg = fold (\<lambda>t. mput t []) topics []\<rparr>"

definition probeNode :: "('id \<Rightarrow> 't \<Rightarrow> bool) \<Rightarrow> int \<Rightarrow> 'id \<Rightarrow> 't \<Rightarrow> 'id \<Rightarrow> ('id, 't) probe \<Rightarrow> ('id, 't) probe" where
  "probeNode member now hostID t i p =
     (if i = hostID \<or> \<not> member i t then p
      else let m = mget [] (pbFirst p) t;
               p = (if mhas m i then p else p\<lparr>pbFirst := mput t (mput i now m) (pbFirst p)\<rparr>);
               hosts = mget [] (mget [] (pbSeen p) t) i
           in if hostID \<in> set hosts then p
              else let (s, c) = mget (0, 0) (mget [] (pbAgg p) t) i
                   in p\<lparr>pbSeen := mput t (mput i (hosts @ [hostID]) (mget [] (pbSeen p) t)) (pbSeen p),
                        pbAgg := mput t (mput i (s + now, c + 1) (mget [] (pbAgg p) t)) (pbAgg p)\<rparr>)"

definition probeHost :: "('id \<Rightarrow> 't \<Rightarrow> bool) \<Rightarrow> 't list \<Rightarrow> int \<Rightarrow> (nat \<Rightarrow> 't \<Rightarrow> 'id list) \<Rightarrow> 'id topNode \<Rightarrow> ('id, 't) probe \<Rightarrow> ('id, 't) probe" where
  "probeHost member topics now table host p =
     fold (\<lambda>t. fold (probeNode member now (tnID host) t) (table (tnIdx host) t)) topics p"

text \<open>The probe sweeps at the start, at every tick and once when it is stopped.\<close>

definition probeSweep :: "('id \<Rightarrow> 't \<Rightarrow> bool) \<Rightarrow> 'id topNode list \<Rightarrow> 't list \<Rightarrow> int \<times> (nat \<Rightarrow> 't \<Rightarrow> 'id list) \<Rightarrow> ('id, 't) probe \<Rightarrow> ('id, 't) probe" where
  "probeSweep member all topics = (\<lambda>(now, table) p. fold (probeHost member topics now table) all p)"

definition runProbe :: "'id topNode list \<Rightarrow> 't list \<Rightarrow> int list list \<Rightarrow> (int \<times> (nat \<Rightarrow> 't \<Rightarrow> 'id list)) list \<Rightarrow> ('id, 't) probe" where
  "runProbe all topics nts sweeps = fold (probeSweep (memberOf all nts topics) all topics) sweeps (newProbe topics)"

section \<open>Coverage\<close>

record 'id regCoverage =
  cvByRegistrant :: "('id, int) gomap"
  cvByHost :: "('id, int) gomap"

definition coverNode :: "'id list \<Rightarrow> 'id \<Rightarrow> 'id \<Rightarrow> 'id list \<times> ('id, int) gomap \<Rightarrow> 'id list \<times> ('id, int) gomap" where
  "coverNode regs hostID i = (\<lambda>(seen, m). if i = hostID \<or> i \<notin> set regs \<or> i \<in> set seen then (seen, m) else (seen @ [i], madd i 1 m))"

definition coverHost :: "'id list \<Rightarrow> (nat \<Rightarrow> 'id list) \<Rightarrow> 'id topNode \<Rightarrow> 'id regCoverage \<Rightarrow> 'id regCoverage" where
  "coverHost regs visible host cov =
     (let (seen, m) = fold (coverNode regs (tnID host)) (visible (tnIdx host)) ([], cvByRegistrant cov)
      in cov\<lparr>cvByRegistrant := m, cvByHost := mput (tnID host) (int (length seen)) (cvByHost cov)\<rparr>)"

definition snapshotCoverage :: "'id topNode list \<Rightarrow> 'id list \<Rightarrow> (nat \<Rightarrow> 'id list) \<Rightarrow> 'id regCoverage" where
  "snapshotCoverage all regs visible = fold (coverHost regs visible) all \<lparr>cvByRegistrant = [], cvByHost = []\<rparr>"

definition snapshotMultiTopic :: "'id topNode list \<Rightarrow> (int, 'id list) gomap \<Rightarrow> 't list \<Rightarrow> (nat \<Rightarrow> 't \<Rightarrow> 'id list) \<Rightarrow> (int, 'id regCoverage) gomap" where
  "snapshotMultiTopic all regsByTopic topics table =
     fold (\<lambda>(t, regs). mput t (snapshotCoverage all regs (\<lambda>i. table i (topics ! nat t)))) regsByTopic []"

definition minOrZero :: "int list \<Rightarrow> int" where
  "minOrZero xs = (if xs = [] then 0 else xs ! 0)"

record coverageLine =
  clTopic :: int
  clRegistrants :: int
  clVisible :: int
  clFan :: "int \<times> int \<times> int"
  clCap :: int

definition coverageLines :: "(int, 'id regCoverage) gomap \<Rightarrow> (int, 'id list) gomap \<Rightarrow> nat \<Rightarrow> coverageLine list" where
  "coverageLines cov regsByTopic numHosts = map (\<lambda>t.
     let fan = sort (map snd (cvByRegistrant (the (map_of cov t))))
     in \<lparr>clTopic = t, clRegistrants = int (length (mget [] regsByTopic t)), clVisible = int (length fan),
         clFan = (minOrZero fan, medOrZero fan, maxOrZero fan), clCap = int numHosts - 1\<rparr>) (sort (map fst cov))"

text \<open>The single-topic print: the fan-out of the visible registrants and the view of the hosts, if there are any.\<close>

definition spread3 :: "int list \<Rightarrow> (int \<times> int \<times> int) option" where
  "spread3 xs = (let xs = sort xs in if xs = [] then None else Some (xs ! 0, xs ! (length xs div 2), last xs))"

definition coveragePrint :: "'id regCoverage \<Rightarrow> (int \<times> int \<times> int) option \<times> (int \<times> int \<times> int) option" where
  "coveragePrint cov = (spread3 (map snd (cvByRegistrant cov)), spread3 (map snd (cvByHost cov)))"

section \<open>The DISC-NG validation\<close>

record discngReport =
  dgFlagged :: int
  dgLegacy :: int
  dgPass :: bool

definition discngCheck :: "'id topNode list \<Rightarrow> (nat \<Rightarrow> 'id list) \<Rightarrow> discngReport" where
  "discngCheck all visible =
     (let flagged = filter (\<lambda>n. \<not> tnLegacy n) all;
          legacy = filter tnLegacy all;
          cov = snapshotCoverage all (remdups (map tnID flagged)) visible;
          flaggedSum = sum_list (map (\<lambda>n. mget 0 (cvByHost cov) (tnID n)) flagged);
          legacySum = sum_list (map (\<lambda>n. mget 0 (cvByHost cov) (tnID n)) legacy)
      in \<lparr>dgFlagged = flaggedSum, dgLegacy = legacySum, dgPass = (legacySum = 0 \<and> flaggedSum > 0)\<rparr>)"

section \<open>The registrars' contents\<close>

text \<open>\<open>near\<close> tells whether an id is within a log distance of 250 of the topic.\<close>

record 'id reachContents =
  rcFanout :: "('id, int) gomap"
  rcLoad :: "('id, int) gomap"
  rcSample :: "('id, 'id list) gomap"

definition reachAd :: "('id \<Rightarrow> bool) \<Rightarrow> 'id \<Rightarrow> 'id \<Rightarrow> 'id reachContents \<Rightarrow> 'id reachContents" where
  "reachAd near hid i rc = rc\<lparr>rcFanout := madd i 1 (rcFanout rc),
     rcSample := (if near i then mput i (mget [] (rcSample rc) i @ [hid]) (rcSample rc) else rcSample rc)\<rparr>"

definition reachHost :: "('id \<Rightarrow> bool) \<Rightarrow> (nat \<Rightarrow> 'id list) \<Rightarrow> 'id topNode \<Rightarrow> 'id reachContents \<Rightarrow> 'id reachContents" where
  "reachHost near visible host rc =
     fold (reachAd near (tnID host)) (visible (tnIdx host))
       (rc\<lparr>rcLoad := mput (tnID host) (int (length (visible (tnIdx host)))) (rcLoad rc)\<rparr>)"

definition reachTopic :: "('id \<Rightarrow> bool) \<Rightarrow> 'id topNode list \<Rightarrow> (nat \<Rightarrow> 'id list) \<Rightarrow> 'id reachContents" where
  "reachTopic near all visible = fold (reachHost near visible) all \<lparr>rcFanout = [], rcLoad = [], rcSample = []\<rparr>"

definition registrarContents :: "('t \<Rightarrow> 'id \<Rightarrow> bool) \<Rightarrow> 'id topNode list \<Rightarrow> 't list \<Rightarrow> (nat \<Rightarrow> 't \<Rightarrow> 'id list) \<Rightarrow> ('t, 'id reachContents) gomap" where
  "registrarContents near all topics table = fold (\<lambda>t. mput t (reachTopic (near t) all (\<lambda>i. table i t))) topics []"

section \<open>The dump for the checks\<close>

text \<open>
  Of the running instance \<open>d\<close> the ads of a topic are its nodes with the time each has left, and \<open>regBuckets\<close> are
  its registration buckets, if it registers the topic; \<open>admissions\<close> are the logged decisions of a node.
\<close>

record ('id, 't, 'b, 'e) simNodeState =
  nsAds :: "(nat, ('t, ('id, int) gomap) gomap) gomap"
  nsStaleMax :: int
  nsBuckets :: "(nat, 'b) gomap"
  nsAdmissions :: "(nat, 'e list) gomap"

definition admissionDumpMaxNodes :: nat where "admissionDumpMaxNodes = 500"

definition dumpAd :: "int \<Rightarrow> 'id \<times> duration \<Rightarrow> ('id, int) gomap \<times> int \<Rightarrow> ('id, int) gomap \<times> int" where
  "dumpAd now = (\<lambda>(i, left) (m, stale).
     if left < 0 then (m, max stale (Milliseconds (- left))) else (mput i (now + Milliseconds left) m, stale))"

definition dumpTopicAds :: "int \<Rightarrow> nat \<Rightarrow> ('t \<Rightarrow> ('id \<times> duration) list) \<Rightarrow> 't \<Rightarrow> ('id, 't, 'b, 'e) simNodeState \<Rightarrow> ('id, 't, 'b, 'e) simNodeState" where
  "dumpTopicAds now i ads t s =
     (if ads t = [] then s
      else let (m, stale) = fold (dumpAd now) (ads t) ([], nsStaleMax s)
           in s\<lparr>nsAds := mput i (mput t m (mget [] (nsAds s) i)) (nsAds s), nsStaleMax := stale\<rparr>)"

definition dumpBuckets :: "nat \<Rightarrow> (int \<Rightarrow> 'b option) \<Rightarrow> int \<Rightarrow> ('id, 't, 'b, 'e) simNodeState \<Rightarrow> ('id, 't, 'b, 'e) simNodeState" where
  "dumpBuckets i regBuckets ti s = (if ti \<ge> 0 then (case regBuckets ti of Some bs \<Rightarrow> s\<lparr>nsBuckets := mput i bs (nsBuckets s)\<rparr> | None \<Rightarrow> s) else s)"

definition dumpNode :: "int \<Rightarrow> 't list \<Rightarrow> nat \<Rightarrow> (nat \<Rightarrow> nat option) \<Rightarrow> (nat \<Rightarrow> 't \<Rightarrow> ('id \<times> duration) list) \<Rightarrow> (nat \<Rightarrow> 't \<Rightarrow> 'b option)
    \<Rightarrow> ('id \<Rightarrow> 'e list) \<Rightarrow> nat \<times> 'id topNode \<times> int list \<Rightarrow> ('id, 't, 'b, 'e) simNodeState \<Rightarrow> ('id, 't, 'b, 'e) simNodeState" where
  "dumpNode now topics numNodes disc ads regBuckets admissions = (\<lambda>(i, n, ts) s. case disc i of
       None \<Rightarrow> s
     | Some d \<Rightarrow>
         let s = fold (dumpTopicAds now i (ads d)) topics s;
             s = fold (dumpBuckets i (\<lambda>ti. regBuckets d (topics ! nat ti))) ts s
         in if numNodes \<le> admissionDumpMaxNodes \<and> admissions (tnID n) \<noteq> []
            then s\<lparr>nsAdmissions := mput i (admissions (tnID n)) (nsAdmissions s)\<rparr> else s)"

definition dumpNodeState :: "int \<Rightarrow> 'id topNode list \<Rightarrow> int list list \<Rightarrow> 't list \<Rightarrow> (nat \<Rightarrow> nat option) \<Rightarrow> (nat \<Rightarrow> 't \<Rightarrow> ('id \<times> duration) list)
    \<Rightarrow> (nat \<Rightarrow> 't \<Rightarrow> 'b option) \<Rightarrow> ('id \<Rightarrow> 'e list) \<Rightarrow> ('id, 't, 'b, 'e) simNodeState" where
  "dumpNodeState now all nts topics disc ads regBuckets admissions =
     fold (dumpNode now topics (length all) disc ads regBuckets admissions) (enumerate 0 (zip all nts))
       \<lparr>nsAds = [], nsStaleMax = 0, nsBuckets = [], nsAdmissions = []\<rparr>"

section \<open>Mixed populations\<close>

text \<open>
  Bootstrap records of the nodes so far in the order they were spawned; a node of the fork parses those it
  can with its own parser (\<open>forkParses\<close>), and so does a vanilla node.
\<close>

record 'u mixedNet =
  mxForks :: "(nat \<times> 'u list) list"
  mxVanillas :: "(nat \<times> 'u list) list"
  mxPool :: "'u list"
  mxRng :: rng

definition mixedBoot :: "int \<Rightarrow> 'u list \<Rightarrow> rng \<Rightarrow> 'u list \<times> rng" where
  "mixedBoot maxBoot urls r = (case urls of
      [] \<Rightarrow> ([], r)
    | u # rest \<Rightarrow> let n = min (nat (maxBoot - 1)) (length rest);
                      (perm, r) = Perm (length rest) r
                  in (u # map (\<lambda>i. rest ! i) (take n perm), r))"

definition spawnMixedNode :: "(nat \<Rightarrow> bool) \<Rightarrow> int \<Rightarrow> ('u \<Rightarrow> bool) \<Rightarrow> ('u \<Rightarrow> bool) \<Rightarrow> (nat \<Rightarrow> 'u) \<Rightarrow> nat \<Rightarrow> 'u mixedNet \<Rightarrow> 'u mixedNet" where
  "spawnMixedNode vanilla maxBoot forkParses vanillaParses url i w =
     (let (urls, r) = mixedBoot maxBoot (mxPool w) (mxRng w);
          w = w\<lparr>mxRng := r, mxPool := mxPool w @ [url i]\<rparr>
      in if vanilla i then w\<lparr>mxVanillas := mxVanillas w @ [(i, filter vanillaParses urls)]\<rparr>
         else w\<lparr>mxForks := mxForks w @ [(i, filter forkParses urls)]\<rparr>)"

definition spawnMixed :: "(nat \<Rightarrow> bool) \<Rightarrow> nat \<Rightarrow> int \<Rightarrow> ('u \<Rightarrow> bool) \<Rightarrow> ('u \<Rightarrow> bool) \<Rightarrow> (nat \<Rightarrow> 'u) \<Rightarrow> rng \<Rightarrow> 'u mixedNet" where
  "spawnMixed vanilla n maxBoot forkParses vanillaParses url r =
     fold (spawnMixedNode vanilla (if maxBoot \<le> 0 then defaultMaxBootnodes else maxBoot) forkParses vanillaParses url) [0..<n]
       \<lparr>mxForks = [], mxVanillas = [], mxPool = [], mxRng = r\<rparr>"

text \<open>The merge of the two networks: for the sampled hosts of each stack, the nodes of the other in their tables.\<close>

definition spread4 :: "int list \<Rightarrow> int \<times> int \<times> int \<times> int" where
  "spread4 xs = (if xs = [] then (0, 0, 0, 0)
     else let s = sort xs in (s ! 0, s ! (length s div 2), last s, int (length (filter (\<lambda>x. x = 0) s))))"

definition sampleHosts :: "int \<Rightarrow> 'a list \<Rightarrow> 'a list" where
  "sampleHosts maxHosts xs = (if maxHosts > 0 \<and> int (length xs) > maxHosts then take (nat maxHosts) xs else xs)"

definition reportInterop :: "'id list \<Rightarrow> 'id list \<Rightarrow> ('id \<Rightarrow> 'id list) \<Rightarrow> int \<Rightarrow> (int \<times> int \<times> int \<times> int) \<times> (int \<times> int \<times> int \<times> int)" where
  "reportInterop forks vanillas table maxHosts =
     (spread4 (map (\<lambda>f. int (length (filter (\<lambda>i. i \<in> set vanillas) (table f)))) (sampleHosts maxHosts forks)),
      spread4 (map (\<lambda>v. int (length (filter (\<lambda>i. i \<in> set forks) (table v)))) (sampleHosts maxHosts vanillas)))"

section \<open>Who is a registrant\<close>

lemma addMember_fold:
  "set (mget [] (fold (addMember i) ts m) t) = set (mget [] m t) \<union> (if t \<in> set ts then {i} else {})
   \<and> (distinct (mget [] m t) \<longrightarrow> distinct (mget [] (fold (addMember i) ts m) t))"
  by (induction ts arbitrary: m) (auto simp: addMember_def)

lemma topic_fold:
  "set (mget [] (fold (\<lambda>(n, ts) m. if P n then m else fold (addMember (tnID n)) ts m) xs m) t)
     = set (mget [] m t) \<union> {tnID n | n ts. (n, ts) \<in> set xs \<and> \<not> P n \<and> t \<in> set ts}
   \<and> (distinct (mget [] m t) \<longrightarrow> distinct (mget [] (fold (\<lambda>(n, ts) m. if P n then m else fold (addMember (tnID n)) ts m) xs m) t))"
proof (induction xs arbitrary: m)
  case (Cons x xs)
  obtain n ts where x: "x = (n, ts)" by force
  show ?case
  proof (cases "P n")
    case True
    with Cons.IH [of m] show ?thesis by (auto simp: x)
  next
    case False
    with Cons.IH [of "fold (addMember (tnID n)) ts m"] addMember_fold [of "tnID n" ts m t] show ?thesis by (auto simp: x)
  qed
qed simp

text \<open>
  Registrants and providers: the providers of a topic are the nodes assigned to it; its registrants
  are those of them that are not legacy nodes; every node is in one of the two lists of topics only, and
  each set has every node once.
\<close>

lemma topic_sets:
  assumes "length topicIdx = length all"
  shows "set (mget [] (providersByTopic all topicIdx) t) = {tnID (all ! k) | k. k < length all \<and> t \<in> set (topicIdx ! k)}
    \<and> set (mget [] (registrantsByTopic all topicIdx) t) = {tnID (all ! k) | k. k < length all \<and> \<not> tnLegacy (all ! k) \<and> t \<in> set (topicIdx ! k)}
    \<and> distinct (mget [] (providersByTopic all topicIdx) t) \<and> distinct (mget [] (registrantsByTopic all topicIdx) t)
    \<and> (\<forall>k < length all. (nodeTopics all topicIdx ! k, legacyTopics all topicIdx ! k)
         = (if tnLegacy (all ! k) then ([-1], topicIdx ! k) else (topicIdx ! k, [])))"
proof -
  have z: "(n, ts) \<in> set (zip all topicIdx) \<longleftrightarrow> (\<exists>k < length all. n = all ! k \<and> ts = topicIdx ! k)" for n ts
    using assms by (auto simp: in_set_zip)
  have p: "providersByTopic all topicIdx
      = fold (\<lambda>(n, ts) m. if (\<lambda>n. False) n then m else fold (addMember (tnID n)) ts m) (zip all topicIdx) []"
    by (simp add: providersByTopic_def)
  show ?thesis unfolding p registrantsByTopic_def using assms
      topic_fold [of "\<lambda>n. False" "zip all topicIdx" "[]" t] topic_fold [of tnLegacy "zip all topicIdx" "[]" t]
    by (simp add: nodeTopics_def legacyTopics_def z) blast
qed

section \<open>Coverage counts\<close>

definition heldBy :: "'id list \<Rightarrow> 'id \<Rightarrow> 'id list \<Rightarrow> 'id set" where
  "heldBy regs h xs = {i \<in> set xs. i \<noteq> h \<and> i \<in> set regs}"

lemma coverNode_fold:
  assumes "fold (coverNode regs h) xs (seen, m) = (seen', m')" "distinct seen"
  shows "distinct seen' \<and> set seen' = set seen \<union> heldBy regs h xs
    \<and> (\<forall>i. mget 0 m' i = mget 0 m i + (if i \<in> heldBy regs h xs - set seen then 1 else 0)) 
    \<and> (mapOk m \<longrightarrow> mapOk m' \<and> msum m' = msum m + int (length seen') - int (length seen))"
  using assms
proof (induction xs arbitrary: seen m)
  case (Cons x xs)
  show ?case
  proof (cases "x = h \<or> x \<notin> set regs \<or> x \<in> set seen")
    case True
    with Cons show ?thesis by (auto simp: coverNode_def heldBy_def)
  next
    case False
    then have "coverNode regs h x (seen, m) = (seen @ [x], madd x 1 m)" by (simp add: coverNode_def)
    with Cons.prems False have r: "fold (coverNode regs h) xs (seen @ [x], madd x 1 m) = (seen', m')" "distinct (seen @ [x])"
      by simp_all
    note IH = Cons.IH [OF r]
    have "mget 0 m' i = mget 0 m i + (if i \<in> heldBy regs h (x # xs) - set seen then 1 else 0)" for i
      using IH False by (auto simp: heldBy_def)
    moreover have "set seen' = set seen \<union> heldBy regs h (x # xs)" using IH False by (auto simp: heldBy_def)
    ultimately show ?thesis using IH by auto
  qed
qed (simp add: heldBy_def)

definition covers :: "'id list \<Rightarrow> (nat \<Rightarrow> 'id list) \<Rightarrow> 'id topNode \<Rightarrow> 'id \<Rightarrow> bool" where
  "covers regs visible n i \<longleftrightarrow> i \<in> heldBy regs (tnID n) (visible (tnIdx n))"

lemma coverHost_spec:
  assumes "mapOk (cvByRegistrant cov)"
  shows "mapOk (cvByRegistrant (coverHost regs visible n cov))"
    and "mget 0 (cvByRegistrant (coverHost regs visible n cov)) i = mget 0 (cvByRegistrant cov) i + (if covers regs visible n i then 1 else 0)"
    and "msum (cvByRegistrant (coverHost regs visible n cov)) = msum (cvByRegistrant cov) + int (card {i. covers regs visible n i})"
    and "cvByHost (coverHost regs visible n cov) = mput (tnID n) (int (card {i. covers regs visible n i})) (cvByHost cov)"
proof -
  obtain seen m where f: "fold (coverNode regs (tnID n)) (visible (tnIdx n)) ([], cvByRegistrant cov) = (seen, m)" by force
  note spec = coverNode_fold [OF f]
  have "int (length seen) = int (card {i. covers regs visible n i})"
    using spec distinct_card [of seen] by (simp add: covers_def)
  then show "mapOk (cvByRegistrant (coverHost regs visible n cov))"
    "mget 0 (cvByRegistrant (coverHost regs visible n cov)) i = mget 0 (cvByRegistrant cov) i + (if covers regs visible n i then 1 else 0)"
    "msum (cvByRegistrant (coverHost regs visible n cov)) = msum (cvByRegistrant cov) + int (card {i. covers regs visible n i})"
    "cvByHost (coverHost regs visible n cov) = mput (tnID n) (int (card {i. covers regs visible n i})) (cvByHost cov)"
    using spec assms by (simp_all add: coverHost_def f covers_def)
qed

lemma coverHosts:
  assumes "mapOk (cvByRegistrant cov)" "distinct (map tnID all)"
  shows "mapOk (cvByRegistrant (fold (coverHost regs visible) all cov))
    \<and> (\<forall>i. mget 0 (cvByRegistrant (fold (coverHost regs visible) all cov)) i
          = mget 0 (cvByRegistrant cov) i + int (length (filter (\<lambda>n. covers regs visible n i) all)))
    \<and> msum (cvByRegistrant (fold (coverHost regs visible) all cov))
          = msum (cvByRegistrant cov) + sum_list (map (\<lambda>n. int (card {i. covers regs visible n i})) all)
    \<and> (\<forall>h. mget 0 (cvByHost (fold (coverHost regs visible) all cov)) h
          = (case find (\<lambda>n. tnID n = h) all of None \<Rightarrow> mget 0 (cvByHost cov) h | Some n \<Rightarrow> int (card {i. covers regs visible n i})))"
  using assms
proof (induction all arbitrary: cov)
  case (Cons n all)
  note step = coverHost_spec [OF Cons.prems(1), of regs visible n]
  have "find (\<lambda>n'. tnID n' = tnID n) all = None"
    using Cons.prems(2) unfolding find_None_iff by (metis distinct.simps(2) image_eqI list.set_map list.simps(9))
  with Cons.IH [OF step(1)] Cons.prems(2) step show ?case by (auto split: option.splits)
qed simp

text \<open>
  The coverage snapshot: when ids differ, a host's count is the number of distinct registrants its table
  holds beside itself, a registrant's count is the number of other hosts that hold it, and the two kinds of
  counts add up to the same number of placed ads.
\<close>

lemma coverage_counts:
  assumes "distinct (map tnID all)" and "cov = snapshotCoverage all regs visible"
  shows "(\<forall>n \<in> set all. mget 0 (cvByHost cov) (tnID n) = int (card (heldBy regs (tnID n) (visible (tnIdx n)))))
    \<and> (\<forall>i. mget 0 (cvByRegistrant cov) i = int (length (filter (\<lambda>n. i \<in> heldBy regs (tnID n) (visible (tnIdx n))) all)))
    \<and> msum (cvByRegistrant cov) = sum_list (map (\<lambda>n. mget 0 (cvByHost cov) (tnID n)) all)"
proof -
  note spec = coverHosts [of "\<lparr>cvByRegistrant = [], cvByHost = []\<rparr>", OF _ assms(1), of regs visible]
  have host: "mget 0 (cvByHost cov) (tnID n) = int (card {i. covers regs visible n i})" if n: "n \<in> set all" for n
  proof -
    obtain m where m: "find (\<lambda>k. tnID k = tnID n) all = Some m" 
    proof (cases "find (\<lambda>k. tnID k = tnID n) all")
      case None
      with n show ?thesis unfolding find_None_iff by blast
    qed (use that in blast)
    then have "m \<in> set all" "tnID m = tnID n" by (auto simp: find_Some_iff)
    then have "m = n" using n assms(1) by (simp add: distinct_map inj_on_def)
    with m spec show ?thesis by (simp add: assms(2) snapshotCoverage_def)
  qed
  then have sums: "map (\<lambda>n. mget 0 (cvByHost cov) (tnID n)) all = map (\<lambda>n. int (card {i. covers regs visible n i})) all" by simp
  have "msum (cvByRegistrant cov) = sum_list (map (\<lambda>n. mget 0 (cvByHost cov) (tnID n)) all)"
    unfolding sums using spec by (simp add: assms(2) snapshotCoverage_def)
  moreover have "mget 0 (cvByRegistrant cov) i = int (length (filter (\<lambda>n. i \<in> heldBy regs (tnID n) (visible (tnIdx n))) all))" for i
    using spec by (simp add: assms(2) snapshotCoverage_def covers_def)
  ultimately show ?thesis using host by (simp add: covers_def)
qed

text \<open>
  C36: the verdict of the validation. It passes exactly when no legacy node holds an ad of a flagged
  node other than itself and some flagged node holds one: that is, no registration leaked to a legacy peer, and
  registrations happened.
\<close>

theorem discng_verdict:
  assumes ids: "distinct (map tnID all)"
  shows "dgPass (discngCheck all visible) \<longleftrightarrow>
      (\<forall>n \<in> set all. tnLegacy n \<longrightarrow> (\<forall>r \<in> set all. \<not> tnLegacy r \<longrightarrow> tnID r \<notin> set (visible (tnIdx n))))
    \<and> (\<exists>n \<in> set all. \<not> tnLegacy n \<and> (\<exists>r \<in> set all. \<not> tnLegacy r \<and> tnID r \<noteq> tnID n \<and> tnID r \<in> set (visible (tnIdx n))))"
proof -
  let ?regs = "remdups (map tnID (filter (\<lambda>n. \<not> tnLegacy n) all))"
  let ?held = "\<lambda>n. heldBy ?regs (tnID n) (visible (tnIdx n))"
  have count: "mget 0 (cvByHost (snapshotCoverage all ?regs visible)) (tnID n) = int (card (?held n))" if "n \<in> set all" for n
    using coverage_counts [OF ids refl, of ?regs visible] that by simp
  have fin: "finite (?held n)" for n by (simp add: heldBy_def)
  have sums: "sum_list (map (\<lambda>n. mget 0 (cvByHost (snapshotCoverage all ?regs visible)) (tnID n)) (filter P all))
      = sum_list (map (\<lambda>n. int (card (?held n))) (filter P all))" for P
    by (intro arg_cong [where f = sum_list] map_cong) (simp_all add: count)
  have zero: "sum_list (map (\<lambda>n. int (card (?held n))) ns) = 0 \<longleftrightarrow> (\<forall>n \<in> set ns. ?held n = {})" for ns
    by (subst sum_list_nonneg_eq_0_iff) (auto simp: fin)
  have pos: "sum_list (map (\<lambda>n. int (card (?held n))) ns) > 0 \<longleftrightarrow> (\<exists>n \<in> set ns. ?held n \<noteq> {})" for ns
  proof -
    have "0 \<le> sum_list (map (\<lambda>n. int (card (?held n))) ns)" by (rule sum_list_nonneg) auto
    with zero [of ns] show ?thesis by (auto simp: less_le)
  qed
  have other: "tnLegacy n \<Longrightarrow> n \<in> set all \<Longrightarrow> r \<in> set all \<Longrightarrow> \<not> tnLegacy r \<Longrightarrow> tnID r \<noteq> tnID n" for n r
    using ids by (auto simp: distinct_map inj_on_def)
  show ?thesis unfolding discngCheck_def Let_def discngReport.select_convs sums zero pos
    by (auto simp: heldBy_def dest: other)
qed

section \<open>What the probe records\<close>

definition sightings :: "'id topNode list \<Rightarrow> (int \<times> (nat \<Rightarrow> 't \<Rightarrow> 'id list)) list \<Rightarrow> 't \<Rightarrow> 'id \<Rightarrow> (int \<times> 'id) list" where
  "sightings all sweeps t i = concat (map (\<lambda>(now, table).
     map (\<lambda>n. (now, tnID n)) (filter (\<lambda>n. tnID n \<noteq> i \<and> i \<in> set (table (tnIdx n) t)) all)) sweeps)"

type_synonym 'id probeView = "int option \<times> 'id list \<times> int \<times> int"

definition probeView :: "'t \<Rightarrow> 'id \<Rightarrow> ('id, 't) probe \<Rightarrow> 'id probeView" where
  "probeView t i p = (map_of (mget [] (pbFirst p) t) i, mget [] (mget [] (pbSeen p) t) i, mget (0, 0) (mget [] (pbAgg p) t) i)"

definition sight :: "int \<times> 'id \<Rightarrow> 'id probeView \<Rightarrow> 'id probeView" where
  "sight = (\<lambda>(now, h) (f, s, a). (if f = None then Some now else f,
     if h \<in> set s then (s, a) else (s @ [h], fst a + now, snd a + 1)))"

lemma sight_idem [simp]: "sight x (sight x v) = sight x v"
  by (cases x; cases v) (simp add: sight_def)

lemma mhas_some: "mhas m i \<longleftrightarrow> map_of m i \<noteq> None"
  by (simp add: mhas_def map_of_eq_None_iff)

lemma probeNode_view:
  "probeView t i (probeNode member now h t' i' p)
     = (if t' = t \<and> i' = i \<and> i \<noteq> h \<and> member i t then sight (now, h) (probeView t i p) else probeView t i p)"
proof (cases "i' = h \<or> \<not> member i' t'")
  case True
  then show ?thesis by (auto simp: probeNode_def)
next
  case False
  then show ?thesis
    by (cases "t' = t"; cases "i' = i")
      (auto simp: probeNode_def probeView_def sight_def Let_def mhas_some update_conv' case_prod_beta)
qed

lemma probeNodes_view:
  "probeView t i (fold (probeNode member now h t') xs p)
     = (if t' = t \<and> i \<in> set xs \<and> i \<noteq> h \<and> member i t then sight (now, h) (probeView t i p) else probeView t i p)"
  by (induction xs arbitrary: p) (auto simp: probeNode_view)

lemma probeTopics_view:
  "probeView t i (fold (\<lambda>t. fold (probeNode member now h t) (table t)) topics p)
     = (if t \<in> set topics \<and> i \<in> set (table t) \<and> i \<noteq> h \<and> member i t then sight (now, h) (probeView t i p) else probeView t i p)"
  by (induction topics arbitrary: p) (auto simp: probeNodes_view)

lemma probeHosts_view:
  assumes "t \<in> set topics" "member i t"
  shows "probeView t i (fold (probeHost member topics now table) all p)
     = fold sight (map (\<lambda>n. (now, tnID n)) (filter (\<lambda>n. tnID n \<noteq> i \<and> i \<in> set (table (tnIdx n) t)) all)) (probeView t i p)"
  using assms by (induction all arbitrary: p) (auto simp: probeHost_def probeTopics_view)

lemma runProbe_view:
  assumes "t \<in> set topics" "member i t"
  shows "probeView t i (fold (probeSweep member all topics) sweeps p) = fold sight (sightings all sweeps t i) (probeView t i p)"
  using assms by (induction sweeps arbitrary: p) (auto simp: probeSweep_def probeHosts_view sightings_def)

definition firstSight :: "(int \<times> 'id) list \<Rightarrow> 'id \<Rightarrow> int" where
  "firstSight S h = the (map_of (map prod.swap S) h)"

lemma firstSight_snoc: "h' \<in> snd ` set S \<Longrightarrow> firstSight (S @ [x]) h' = firstSight S h'"
proof -
  assume "h' \<in> snd ` set S"
  then have "map_of (map prod.swap S) h' \<noteq> None" by (simp add: map_of_eq_None_iff image_image)
  then show ?thesis by (auto simp: firstSight_def map_add_def split: option.split)
qed

lemma firstSight_new: "h \<notin> snd ` set S \<Longrightarrow> firstSight (S @ [(now, h)]) h = now"
proof -
  assume "h \<notin> snd ` set S"
  then have "map_of (map prod.swap S) h = None" by (simp add: map_of_eq_None_iff image_image)
  then show ?thesis by (simp add: firstSight_def map_add_def)
qed

lemma sight_fold:
  "\<exists>s. fold sight S (None, [], 0, 0) = (map_option fst (if S = [] then None else Some (hd S)), s, (\<Sum>h \<in> snd ` set S. firstSight S h), int (card (snd ` set S)))
     \<and> set s = snd ` set S"
proof (induction S rule: rev_induct)
  case (snoc x S)
  obtain now h where x: "x = (now, h)" by force
  obtain s where s: "fold sight S (None, [], 0, 0) = (map_option fst (if S = [] then None else Some (hd S)), s,
      (\<Sum>h \<in> snd ` set S. firstSight S h), int (card (snd ` set S)))" "set s = snd ` set S"
    using snoc.IH by blast
  have same: "(\<Sum>h \<in> snd ` set S. firstSight (S @ [x]) h) = (\<Sum>h \<in> snd ` set S. firstSight S h)"
    by (intro sum.cong) (simp_all add: firstSight_snoc)
  show ?case
  proof (cases "h \<in> snd ` set S")
    case True
    then have "insert h (snd ` set S) = snd ` set S" and "S \<noteq> []" by auto
    then show ?thesis using True s same by (simp add: x sight_def)
  next
    case False
    then have "fold sight (S @ [x]) (None, [], 0, 0) = (map_option fst (Some (hd (S @ [x]))), s @ [h],
        (\<Sum>h \<in> snd ` set (S @ [x]). firstSight (S @ [x]) h), int (card (snd ` set (S @ [x]))))"
      using s same firstSight_new [OF False, of now] by (cases "S = []") (simp_all add: x sight_def)
    then show ?thesis using s(2) by (simp add: x)
  qed
qed simp

lemma fold_mput_nil: "mget [] (fold (\<lambda>t. mput t []) ts m) t = (if t \<in> set ts then [] else mget [] m t)"
  by (induction ts arbitrary: m) auto

text \<open>
  C37: the times of the registrations. For a registrant of one of the topics the probe keeps, over
  all its sweeps, the time of the first sweep at which some other node's table held it; and it counts every node that
  ever held it once, adding up for each of them the time of the first sweep that saw it there. The two
  are recorded together or not at all.
\<close>

theorem probe_times:
  assumes t: "t \<in> set topics" and mem: "memberOf all nts topics i t"
    and S: "S = sightings all sweeps t i" and p: "p = runProbe all topics nts sweeps"
  shows "map_of (mget [] (pbFirst p) t) i = (if S = [] then None else Some (fst (hd S)))
    \<and> mget (0, 0) (mget [] (pbAgg p) t) i = (\<Sum>h \<in> snd ` set S. firstSight S h, int (card (snd ` set S)))"
proof -
  have "probeView t i (newProbe topics) = (None, [], 0, 0)" by (simp add: probeView_def newProbe_def fold_mput_nil)
  then have "probeView t i p = fold sight S (None, [], 0, 0)"
    using runProbe_view [of t topics "memberOf all nts topics" i all sweeps "newProbe topics", OF t mem]
    by (simp add: p runProbe_def S)
  with sight_fold [of S] show ?thesis by (auto simp: probeView_def)
qed

section \<open>Registration starts\<close>

definition flaggedNodes :: "'id topNode list \<Rightarrow> int list list \<Rightarrow> ('id topNode \<times> int list) list" where
  "flaggedNodes all nts = filter (\<lambda>(n, ts). \<not> hd ts < 0) (zip all nts)"

lemma registerNodes_calls:
  "rlCalls (fold (registerNode r0 w st off lag topics) xs s)
     = rlCalls s @ map (\<lambda>(i, n, ts). (tnIdx n, map (\<lambda>t. topics ! nat t) ts)) (filter (\<lambda>(i, n, ts). \<not> hd ts < 0) xs)"
proof (induction xs arbitrary: s)
  case (Cons x xs)
  obtain i n ts where x: "x = (i, n, ts)" by (cases x)
  show ?case by (simp add: Cons.IH) (simp add: x registerNode_def Let_def)
qed simp

text \<open>Every flagged node registers its topics once, in the order of the nodes.\<close>

lemma register_calls:
  "rlCalls (registerAll r0 w st off lag topics all nts) = map (\<lambda>(n, ts). (tnIdx n, map (\<lambda>t. topics ! nat t) ts)) (flaggedNodes all nts)"
proof -
  have "map (\<lambda>(i, n, ts). (tnIdx n, map (\<lambda>t. topics ! nat t) ts)) (filter (\<lambda>(i, n, ts). \<not> hd ts < 0) (enumerate k xs))
      = map (\<lambda>(n, ts). (tnIdx n, map (\<lambda>t. topics ! nat t) ts)) (filter (\<lambda>(n, ts). \<not> hd ts < 0) xs)" for k xs
    by (induction xs arbitrary: k) auto
  then show ?thesis by (simp add: registerAll_def Let_def registerNodes_calls flaggedNodes_def)
qed

lemma registerNode_start:
  assumes "\<not> hd ts < 0" "0 \<le> lag i" "s' = registerNode r0 w st off lag topics (i, n, ts) s"
  shows "rlClock s \<le> rlClock s' \<or> st < 0" and "mget 0 (rlStartNs s') (tnID n) = rlClock s' - r0"
    and "0 < w \<Longrightarrow> r0 + off i * nsMilli \<le> rlClock s' \<and> rlClock s \<le> rlClock s'"
    and "w \<le> 0 \<Longrightarrow> 0 < st \<Longrightarrow> 0 < rlStaggered s \<Longrightarrow> rlClock s + st \<le> rlClock s'"
  using assms by (auto simp: registerNode_def Let_def)

section \<open>Dumps\<close>

lemma reachAds:
  assumes "mapOk (rcFanout rc)"
  shows "mapOk (rcFanout (fold (reachAd near h) xs rc)) \<and> rcLoad (fold (reachAd near h) xs rc) = rcLoad rc
    \<and> msum (rcFanout (fold (reachAd near h) xs rc)) = msum (rcFanout rc) + int (length xs)
    \<and> mget [] (rcSample (fold (reachAd near h) xs rc)) i = mget [] (rcSample rc) i @ (if near i then replicate (count_list xs i) h else [])"
  using assms
proof (induction xs arbitrary: rc)
  case (Cons x xs)
  have "mapOk (rcFanout (reachAd near h x rc))" using Cons.prems by (simp add: reachAd_def)
  from Cons.IH [OF this] Cons.prems show ?case by (auto simp: reachAd_def)
qed simp

text \<open>
  The registrars' contents: all fan-outs of a topic add up to the ads held, and the sample of a
  registrant near the topic lists the nodes that hold it.
\<close>

lemma reach_contents:
  "msum (rcFanout (reachTopic near all visible)) = sum_list (map (\<lambda>n. int (length (visible (tnIdx n)))) all)
   \<and> mget [] (rcSample (reachTopic near all visible)) i
       = (if near i then concat (map (\<lambda>n. replicate (count_list (visible (tnIdx n)) i) (tnID n)) all) else [])"
proof -
  have "mapOk (rcFanout rc) \<Longrightarrow> mapOk (rcFanout (fold (reachHost near visible) ns rc))
      \<and> msum (rcFanout (fold (reachHost near visible) ns rc)) = msum (rcFanout rc) + sum_list (map (\<lambda>n. int (length (visible (tnIdx n)))) ns)
      \<and> mget [] (rcSample (fold (reachHost near visible) ns rc)) i = mget [] (rcSample rc) i
          @ (if near i then concat (map (\<lambda>n. replicate (count_list (visible (tnIdx n)) i) (tnID n)) ns) else [])" for rc ns
  proof (induction ns arbitrary: rc)
    case (Cons n ns)
    have ok: "mapOk (rcFanout (rc\<lparr>rcLoad := mput (tnID n) (int (length (visible (tnIdx n)))) (rcLoad rc)\<rparr>))" using Cons.prems by simp
    from reachAds [OF this, of near "tnID n" "visible (tnIdx n)" i]
    have "mapOk (rcFanout (reachHost near visible n rc))" by (simp add: reachHost_def)
    from Cons.IH [OF this] reachAds [OF ok, of near "tnID n" "visible (tnIdx n)" i] show ?case
      by (auto simp: reachHost_def)
  qed simp
  from this [of "\<lparr>rcFanout = [], rcLoad = [], rcSample = []\<rparr>" all] show ?thesis by (simp add: reachTopic_def msum_def)
qed

text \<open>Every node of a mixed network is spawned once, in one of the stacks, and its bootstrap records are of nodes before it.\<close>

lemma mixedBoot_pool: "set (fst (mixedBoot k urls r)) \<subseteq> set urls"
proof (cases urls)
  case (Cons u rest)
  have "i < length rest" if "i \<in> set (take n (fst (Perm (length rest) r)))" for i n
    using in_set_takeD [OF that] set_Perm [of "length rest" r] by simp
  then show ?thesis by (auto simp: mixedBoot_def Cons case_prod_beta Let_def)
qed (simp add: mixedBoot_def)

lemma mixed_population:
  "map fst (mxForks (spawnMixed vanilla n k fp vp url r)) = filter (\<lambda>i. \<not> vanilla i) [0..<n]
   \<and> map fst (mxVanillas (spawnMixed vanilla n k fp vp url r)) = filter vanilla [0..<n]
   \<and> (\<forall>(i, urls) \<in> set (mxForks (spawnMixed vanilla n k fp vp url r)) \<union> set (mxVanillas (spawnMixed vanilla n k fp vp url r)).
        set urls \<subseteq> url ` {..<i})
   \<and> mxPool (spawnMixed vanilla n k fp vp url r) = map url [0..<n]"
proof (induction n)
  case (Suc n)
  let ?w = "spawnMixed vanilla n k fp vp url r"
  let ?k = "if k \<le> 0 then defaultMaxBootnodes else k"
  obtain urls r' where b: "mixedBoot ?k (mxPool ?w) (mxRng ?w) = (urls, r')" by force
  have "set urls \<subseteq> set (mxPool ?w)" using mixedBoot_pool [of ?k "mxPool ?w" "mxRng ?w"] unfolding b by simp
  then have "set urls \<subseteq> url ` {..<n}" using Suc by (simp add: atLeast0LessThan)
  moreover have "spawnMixed vanilla (Suc n) k fp vp url r = spawnMixedNode vanilla ?k fp vp url n ?w" by (simp add: spawnMixed_def)
  ultimately show ?case using Suc unfolding spawnMixedNode_def b by (auto simp: Let_def)
qed (simp add: spawnMixed_def)

section \<open>A small network\<close>

definition exTop :: "nat \<Rightarrow> bool \<Rightarrow> nat topNode" where
  "exTop i l = \<lparr>tnIdx = i, tnID = i, tnLegacy = l\<rparr>"

lemma coverage_counts_witness:
  "mget 0 (cvByHost (snapshotCoverage [exTop 0 False, exTop 1 False] [0, 1] (\<lambda>i. [0, 1, 0]))) 1 = 1"
proof -
  have "distinct (map tnID [exTop 0 False, exTop 1 False])" by (simp add: exTop_def)
  from coverage_counts [OF this refl, of "[0, 1]" "\<lambda>i. [0, 1, 0]"]
  have "mget 0 (cvByHost (snapshotCoverage [exTop 0 False, exTop 1 False] [0, 1] (\<lambda>i. [0, 1, 0]))) 1
      = int (card (heldBy [0, 1] 1 [0, 1, 0 :: nat]))" by (simp add: exTop_def)
  also have "heldBy [0, 1] 1 [0, 1, 0 :: nat] = {0}" by (auto simp: heldBy_def)
  finally show ?thesis by simp
qed

theorem discng_verdict_witness:
  "dgPass (discngCheck [exTop 0 False, exTop 1 False, exTop 2 True] (\<lambda>i. if i = 2 then [] else [0, 1]))"
proof -
  have "distinct (map tnID [exTop 0 False, exTop 1 False, exTop 2 True])" by (simp add: exTop_def)
  from discng_verdict [OF this, of "\<lambda>i. if i = 2 then [] else [0, 1]"] show ?thesis by (simp add: exTop_def)
qed

theorem probe_times_witness:
  "map_of (mget [] (pbFirst (runProbe [exTop 0 False, exTop 1 False] [''t''] [[0], [0]]
       [(5, \<lambda>i t. []), (9, \<lambda>i t. if i = 1 then [0, 1] else [])])) ''t'') 0 = Some 9"
proof -
  let ?all = "[exTop 0 False, exTop 1 False]"
  let ?S = "sightings ?all [(5, \<lambda>i t. []), (9, \<lambda>i t. if i = 1 then [0, 1] else [])] ''t'' 0"
  have mem: "memberOf ?all [[0], [0]] [''t''] 0 ''t''" by (simp add: memberOf_def exTop_def)
  have "?S = [(9, 1)]" by (simp add: sightings_def exTop_def)
  with probe_times [OF _ mem refl refl, of "[(5, \<lambda>i t. []), (9, \<lambda>i t. if i = 1 then [0, 1] else [])]"] show ?thesis by simp
qed

end
