(* ===== verification/SimReport.thy ===== *)
theory SimReport
  imports SimCoverage RunMetrics
begin

text \<open>
  The reports of a simulation (\<open>src/cmd/simnet/report.go\<close>): the summary of a single topic, and the rows by
  topic with the counts of how often every registrant was found. The fields are meant to be those the
  coordinator computes from the traces of a real run, so the rows are compared with \<open>reportTopic\<close>
  and \<open>findStats\<close> of \<open>RunMetrics\<close>: what agrees, and what does not.
\<close>

section \<open>One topic\<close>

definition percentile :: "int list \<Rightarrow> int \<Rightarrow> int" where
  "percentile d p = (if d = [] then 0 else sort d ! nat (p * (int (length d) - 1) sdiv 100))"

record simSummary =
  suSearchers :: int
  suFullRecall :: int
  suMeanRecall :: float64
  suMeanUnique :: float64
  suDupRatio :: float64
  suTimeout :: int
  suFirst :: "(int \<times> int) option"
  suComplete :: "int \<times> int"

definition simReport :: "simResult list \<Rightarrow> int \<Rightarrow> simSummary option" where
  "simReport rs target =
     (if rs = [] then None
      else let firsts = map srTimeToFirst (filter (\<lambda>r. srTimeToFirst r > 0) rs);
               completes = map srTimeToCompletion rs;
               n = ofInt (int (length rs));
               uniq = fold (\<lambda>r x. fadd x (fdiv (ofInt (srUniqueRegistrant r)) (ofInt target))) rs 0;
               dup = fold (\<lambda>r x. fadd x (fdiv (ofInt (srFoundRegistrant r)) (ofInt target))) rs 0;
               cnt = fold (\<lambda>r x. fadd x (ofInt (srUniqueRegistrant r))) rs 0
           in Some \<lparr>suSearchers = int (length rs), suFullRecall = int (length (filter (\<lambda>r. srUniqueRegistrant r \<ge> target) rs)),
                suMeanRecall = fdiv uniq n, suMeanUnique = fdiv cnt n, suDupRatio = fdiv dup n,
                suTimeout = int (length (filter srHitTimeout rs)),
                suFirst = (if firsts = [] then None else Some (percentile firsts 50, percentile firsts 95)),
                suComplete = (percentile completes 50, percentile completes 95)\<rparr>)"

section \<open>By topic\<close>

record simTopicReport =
  stTopic :: int
  stNumSearchers :: int
  stTarget :: int
  stFullRecall :: int
  stMeanRecall :: float64
  stMeanFoundDup :: float64
  stMeanUniqueCount :: float64
  stHitTimeout :: int

text \<open>Results of legacy nodes without a search are the zero value, which has no node.\<close>

definition byTopicOf :: "simResult list \<Rightarrow> (int, simResult list) gomap" where
  "byTopicOf rs = fold (\<lambda>r m. if srNodeID r = '''' then m else mput (srTopic r) (mget [] m (srTopic r) @ [r]) m) rs []"

definition sumOver :: "(simResult \<Rightarrow> float64) \<Rightarrow> simResult list \<Rightarrow> float64" where
  "sumOver f rs = fold (\<lambda>r x. if srTarget r > 0 then fadd x (f r) else x) rs 0"

definition simTopicRow :: "int \<Rightarrow> simResult list \<Rightarrow> simTopicReport" where
  "simTopicRow t rs =
     (let counted = length (filter (\<lambda>r. srTarget r > 0) rs);
          mean = (\<lambda>x. if counted > 0 then fdiv x (ofInt (int counted)) else 0)
      in \<lparr>stTopic = t, stNumSearchers = int (length rs), stTarget = (if srTarget (hd rs) > 0 then srTarget (hd rs) else 0),
          stFullRecall = int (length (filter (\<lambda>r. srTarget r > 0 \<and> srUniqueRegistrant r \<ge> srTarget r) rs)),
          stMeanRecall = mean (sumOver (\<lambda>r. fdiv (ofInt (srUniqueRegistrant r)) (ofInt (srTarget r))) rs),
          stMeanFoundDup = mean (sumOver (\<lambda>r. fdiv (ofInt (srFoundRegistrant r)) (ofInt (srTarget r))) rs),
          stMeanUniqueCount = mean (sumOver (\<lambda>r. ofInt (srUniqueRegistrant r)) rs),
          stHitTimeout = int (length (filter srHitTimeout rs))\<rparr>)"

definition reportRows :: "simResult list \<Rightarrow> simTopicReport list" where
  "reportRows rs = (let m = byTopicOf rs in map (\<lambda>t. simTopicRow t (mget [] m t)) (sort (map fst m)))"

text \<open>\<open>str\<close> is \<open>TerminalString\<close>.\<close>

definition simFindCounts :: "('id \<Rightarrow> string) \<Rightarrow> 'id list \<Rightarrow> simResult list \<Rightarrow> (string, int) gomap" where
  "simFindCounts str regs rs =
     fold (\<lambda>r. fold (\<lambda>i m. if mhas m i then madd i 1 m else m) (srFoundRegistrantIDs r)) rs (fold (\<lambda>i. mput (str i) 0) regs [])"

definition simFindStats :: "int \<Rightarrow> (string, int) gomap \<Rightarrow> findCountStats" where
  "simFindStats t cnt =
     (let values = sort (map snd cnt);
          pct = (\<lambda>p. if values = [] then 0 else values ! nat (p * (int (length values) - 1) sdiv 100))
      in \<lparr>fcTopic = t, fcRegistrants = int (length values), NeverFound = int (length (filter (\<lambda>c. c = 0) (map snd cnt))),
          fcPercentiles = [pct 0, pct 5, pct 25, pct 50, pct 75, pct 95, pct 100],
          fcMean = (if values \<noteq> [] then fdiv (ofInt (sum_list (map snd cnt))) (ofInt (int (length values))) else 0),
          Counts = values\<rparr>)"

definition findCountRows :: "('id \<Rightarrow> string) \<Rightarrow> (int, 'id list) gomap \<Rightarrow> simResult list \<Rightarrow> findCountStats list" where
  "findCountRows str regsByTopic rs =
     (let m = byTopicOf rs
      in map (\<lambda>t. simFindStats t (simFindCounts str (mget [] regsByTopic t) (mget [] m t))) (sort (map fst m)))"

text \<open>The printed timing: mean and variance of the first admissions of a topic, in milliseconds.\<close>

definition timingLine :: "int list \<Rightarrow> (float64 \<times> float64) option" where
  "timingLine ns = (if ns = [] then None
     else let ms = map (\<lambda>v. fdiv (ofInt v) 1000000) ns;
              n = ofInt (int (length ns));
              mean = fdiv (fold (\<lambda>x s. fadd s x) ms 0) n;
              variance = fsub (fdiv (fold (\<lambda>x s. fadd s (fmul x x)) ms 0) n) (fmul mean mean)
          in Some (mean, if variance < 0 then 0 else variance))"

section \<open>The two testbeds report alike\<close>

lemma byTopic_at:
  "mget [] (fold (\<lambda>r m. if srNodeID r = '''' then m else mput (srTopic r) (mget [] m (srTopic r) @ [r]) m) rs m) t
     = mget [] m t @ filter (\<lambda>r. srNodeID r \<noteq> '''' \<and> srTopic r = t) rs"
  by (induction rs arbitrary: m) auto

lemma byTopic_keys:
  "mapOk m \<Longrightarrow> mapOk (fold (\<lambda>r m. if srNodeID r = '''' then m else mput (srTopic r) (mget [] m (srTopic r) @ [r]) m) rs m)
    \<and> fst ` set (fold (\<lambda>r m. if srNodeID r = '''' then m else mput (srTopic r) (mget [] m (srTopic r) @ [r]) m) rs m)
        = fst ` set m \<union> srTopic ` {r \<in> set rs. srNodeID r \<noteq> ''''}"
proof (induction rs arbitrary: m)
  case (Cons r rs)
  show ?case
  proof (cases "srNodeID r = ''''")
    case True
    with Cons.IH [OF Cons.prems] show ?thesis by auto
  next
    case False
    have "fst ` set (mput (srTopic r) (mget [] m (srTopic r) @ [r]) m) = insert (srTopic r) (fst ` set m)" by (simp add: dom_update)
    with Cons.IH [of "mput (srTopic r) (mget [] m (srTopic r) @ [r]) m"] Cons.prems False show ?thesis by auto
  qed
qed simp

definition searchesOf :: "simResult list \<Rightarrow> int \<Rightarrow> simResult list" where
  "searchesOf rs t = filter (\<lambda>r. srNodeID r \<noteq> '''' \<and> srTopic r = t) rs"

text \<open>
  A search of the simulator and one of a real run with the same outcome: target, number of distinct registrants
  and timeout. Nothing is said of the ids, the yields and the lookups.
\<close>

definition sameOutcome :: "simResult \<Rightarrow> searchResult \<Rightarrow> bool" where
  "sameOutcome s r \<longleftrightarrow> srTarget s = Target r \<and> srUniqueRegistrant s = UniqueRegistrant r \<and> srHitTimeout s = HitTimeout r"

text \<open>The same ids are printed, in whatever order.\<close>

definition samePrinted :: "simResult \<Rightarrow> searchResult \<Rightarrow> bool" where
  "samePrinted s r \<longleftrightarrow> mset (srFoundRegistrantIDs s) = mset (UniqueFoundIDs r)"

lemma same_folds:
  assumes "list_all2 sameOutcome ss rs"
  shows "length (filter (\<lambda>r. srTarget r > 0) ss) = length (filter (\<lambda>r. Target r > 0) rs)"
    and "int (length (filter (\<lambda>r. srTarget r > 0 \<and> srUniqueRegistrant r \<ge> srTarget r) ss)) = countFull rs"
    and "length (filter srHitTimeout ss) = length (filter HitTimeout rs)"
    and "fold (\<lambda>r x. if srTarget r > 0 then fadd x (fdiv (ofInt (srUniqueRegistrant r)) (ofInt (srTarget r))) else x) ss a = fold addRecall rs a"
    and "fold (\<lambda>r x. if srTarget r > 0 then fadd x (ofInt (srUniqueRegistrant r)) else x) ss b = fold addUnique rs b"
  using assms
  by (induction arbitrary: a b rule: list_all2_induct)
    (auto simp: sameOutcome_def countFull_def addRecall_def addUnique_def)

text \<open>Counting finds does not depend on their order: a find only changes the count of an id that has one.\<close>

definition countFind :: "string \<Rightarrow> (string, int) gomap \<Rightarrow> (string, int) gomap" where
  "countFind i m = (if mhas m i then madd i 1 m else m)"

lemma update_swap_present:
  "k \<noteq> k' \<Longrightarrow> mhas m k \<Longrightarrow> mhas m k' \<Longrightarrow> mput k v (mput k' v' m) = mput k' v' (mput k v m)"
proof (induction m)
  case (Cons x m)
  obtain a b where "x = (a, b)" by (cases x)
  with Cons show ?case by (auto simp: mhas_def)
qed simp

lemma countFind_commute: "countFind i (countFind j m) = countFind j (countFind i m)"
proof (cases "i = j")
  case False
  show ?thesis
  proof (cases "\<not> mhas m i \<or> \<not> mhas m j")
    case True
    with False show ?thesis by (auto simp: countFind_def madd_def)
  next
    case present: False
    with False show ?thesis by (simp add: countFind_def madd_def update_swap_present [of i j m])
  qed
qed simp

lemma countFinds_form: "countFinds is' = fold countFind is'"
  by (simp add: countFinds_def [abs_def] countFind_def [abs_def])

lemma countFinds_order: "mset xs = mset ys \<Longrightarrow> fold countFind xs = fold countFind ys"
  by (rule fold_multiset_equiv) (auto simp: countFind_commute fun_eq_iff)

lemma countFinds_same:
  "list_all2 samePrinted ss rs \<Longrightarrow> fold (\<lambda>r. fold countFind (srFoundRegistrantIDs r)) ss m = fold (\<lambda>r. countFinds (UniqueFoundIDs r)) rs m"
  by (induction arbitrary: m rule: list_all2_induct) (auto simp: samePrinted_def countFinds_form dest: countFinds_order)

lemma simFindCounts_form:
  "simFindCounts str regs rs = fold (\<lambda>r. fold countFind (srFoundRegistrantIDs r)) rs (fold (\<lambda>i. mput (str i) 0) regs [])"
  by (simp add: simFindCounts_def countFind_def [abs_def])

text \<open>Ids printed otherwise count for nothing.\<close>

lemma mhas_countFind [simp]: "mhas (countFind i m) k \<longleftrightarrow> mhas m k"
  by (auto simp: countFind_def madd_def)

lemma mhas_countFolds [simp]: "mhas (fold countFind xs m) k \<longleftrightarrow> mhas m k"
  by (induction xs arbitrary: m) simp_all

lemma countFind_missing: "\<forall>i \<in> set xs. \<not> mhas m i \<Longrightarrow> fold countFind xs m = m"
  by (induction xs) (simp_all add: countFind_def)

lemma mhas_registrants: "mhas (fold (\<lambda>i. mput (str i) 0) regs m) k \<longleftrightarrow> k \<in> str ` set regs \<or> mhas m k"
  by (induction regs arbitrary: m) auto

lemma simFindCounts_printed:
  "simFindCounts str regs rs = simFindCounts str regs (filter (\<lambda>r. \<exists>i \<in> set (srFoundRegistrantIDs r). i \<in> str ` set regs) rs)"
proof -
  have "fold (\<lambda>r. fold countFind (srFoundRegistrantIDs r)) rs m
      = fold (\<lambda>r. fold countFind (srFoundRegistrantIDs r)) (filter (\<lambda>r. \<exists>i \<in> set (srFoundRegistrantIDs r). i \<in> str ` set regs) rs) m"
    if "\<And>k. mhas m k \<longleftrightarrow> k \<in> str ` set regs" for m
    using that
  proof (induction rs arbitrary: m)
    case (Cons r rs)
    show ?case
    proof (cases "\<exists>i \<in> set (srFoundRegistrantIDs r). i \<in> str ` set regs")
      case True
      then show ?thesis using Cons.IH [of "fold countFind (srFoundRegistrantIDs r) m"] Cons.prems by simp
    next
      case False
      then have "fold countFind (srFoundRegistrantIDs r) m = m" using Cons.prems by (intro countFind_missing) auto
      with False Cons show ?thesis by simp
    qed
  qed simp
  then show ?thesis by (simp add: simFindCounts_form mhas_registrants)
qed

text \<open>
  A walker prints ids in full, so none of what it finds is counted: no full form is a short form.
\<close>

lemma walker_finds_uncounted:
  assumes "r = runLegacyWalker full epoch prov idx self topicK tc start conn known evs endt" "\<And>i j. full i \<noteq> str j"
  shows "simFindCounts str regs (xs @ r # ys) = simFindCounts str regs (xs @ ys)"
proof -
  have "srFoundRegistrantIDs r = map full (wSeen (fold (\<lambda>ev w. fst (walkStep (\<lambda>i. i \<in> set prov) self conn start tc ev w)) evs
      (fold (\<lambda>(now, i) w. fst (walkAdd (\<lambda>i. i \<in> set prov) self conn start now i w)) known newWalker)))"
    by (simp add: assms(1) runLegacyWalker_def Let_def)
  then have "\<not> (\<exists>i \<in> set (srFoundRegistrantIDs r). i \<in> str ` set regs)" using assms(2) by auto
  then show ?thesis using simFindCounts_printed [of str regs "xs @ r # ys"] simFindCounts_printed [of str regs "xs @ ys"] by simp
qed

lemma pctIdx_form: "n > 0 \<Longrightarrow> 0 \<le> q \<Longrightarrow> nat (q * (int n - 1) sdiv 100) = pctIdx (nat q) n"
  by (simp add: pctIdx_def sdiv_nonneg nat_div_distrib nat_mult_distrib nat_diff_distrib)

lemma simFindStats_same: "simFindStats t cnt = findStats t cnt"
proof (cases "cnt = []")
  case True
  then show ?thesis by (simp add: simFindStats_def findStats_def numeral_eq_Suc)
next
  case False
  let ?v = "sort (map snd cnt)"
  have len: "0 < length ?v" using False by simp
  then have ne: "?v \<noteq> []" unfolding length_greater_0_conv .
  have never: "length (filter (\<lambda>c. c = 0) (map snd cnt)) = length (filter (\<lambda>c. c = 0) ?v)" by (simp add: filter_sort)
  have idx: "nat (q * (int (length ?v) - 1) sdiv 100) = pctIdx (nat q) (length ?v)" if "0 \<le> q" for q
    using pctIdx_form [OF len that] .
  show ?thesis using idx [of 0] idx [of 5] idx [of 25] idx [of 50] idx [of 75] idx [of 95] idx [of 100] ne False unfolding simFindStats_def findStats_def Let_def never by simp
qed

text \<open>
  C38: where the simulator and the coordinator report alike, and where not. For searches with the same targets, numbers
  of registrants found and timeouts, the row of a topic has the same number of searchers, full recalls
  and timeouts and the same means of recall and of registrants found, bit by bit. The duplicate-counting mean
  of the coordinator is its plain recall, so it agrees only when no registrant was yielded twice; the target
  shown is the first searcher's in the simulator and the number of providers but one in the coordinator. The
  registrants' find counts, with all their percentiles, are the same when the ids of a search are printed
  alike, in any order; a search none of whose printed ids is the short form of a registrant, as a legacy walker's
  never are, counts for nothing.
\<close>

theorem reports_agree:
  assumes same: "list_all2 sameOutcome ss rs" and row: "row = simTopicRow t ss" and rep: "rep = reportTopic p th t rs"
    and regs: "regs = map fst (mget [] (registrants p) th)"
  shows "stTopic row = pTopic rep \<and> stNumSearchers row = NumSearchers rep \<and> stFullRecall row = FullRecall rep
    \<and> stMeanRecall row = MeanRecall rep \<and> stMeanUniqueCount row = MeanUniqueCount rep \<and> stHitTimeout row = pHitTimeout rep
    \<and> MeanFoundDup rep = stMeanRecall row
    \<and> ((\<forall>s \<in> set ss. srFoundRegistrant s = srUniqueRegistrant s) \<longrightarrow> stMeanFoundDup row = MeanFoundDup rep)
    \<and> stTarget row = max 0 (srTarget (hd ss)) \<and> pTarget rep = int (length (mget [] (providers p) th)) - 1
    \<and> (list_all2 samePrinted ss rs \<longrightarrow> simFindStats t (simFindCounts short regs ss) = findCountOf p th t rs)
    \<and> simFindCounts short regs ss = simFindCounts short regs (filter (\<lambda>s. \<exists>i \<in> set (srFoundRegistrantIDs s). i \<in> short ` set regs) ss)"
proof -
  have dup: "(\<forall>s \<in> set ss. srFoundRegistrant s = srUniqueRegistrant s) \<Longrightarrow> stMeanFoundDup row = stMeanRecall row"
    by (auto simp: row simTopicRow_def Let_def sumOver_def intro!: arg_cong2 [of _ _ _ _ fdiv] fold_cong)
  have finds: "list_all2 samePrinted ss rs \<Longrightarrow> simFindStats t (simFindCounts short regs ss) = findCountOf p th t rs"
    by (simp add: simFindCounts_form countFinds_same findCountOf_def simFindStats_same regs)
  have "stTopic row = pTopic rep \<and> stNumSearchers row = NumSearchers rep \<and> stFullRecall row = FullRecall rep
    \<and> stMeanRecall row = MeanRecall rep \<and> stMeanUniqueCount row = MeanUniqueCount rep \<and> stHitTimeout row = pHitTimeout rep
    \<and> MeanFoundDup rep = stMeanRecall row"
    using same_folds [OF same] list_all2_lengthD [OF same]
    by (simp add: row rep simTopicRow_def reportTopic_def Let_def sumOver_def)
  moreover have "stTarget row = max 0 (srTarget (hd ss))" by (simp add: row simTopicRow_def Let_def)
  moreover have "pTarget rep = int (length (mget [] (providers p) th)) - 1" by (simp add: rep reportTopic_def Let_def)
  ultimately show ?thesis using dup finds simFindCounts_printed [of short regs ss] by simp
qed

text \<open>
  C39: the rows of a report are well-formed. There is one row for every topic that has a search with a node, in
  increasing order; a row counts the searches of its topic, no more of them with full recall or a
  timeout than there are, and the rows together count every search with a node once.
\<close>

theorem report_rows:
  "map stTopic (reportRows rs) = sorted_list_of_set (srTopic ` {r \<in> set rs. srNodeID r \<noteq> ''''})
   \<and> (\<forall>row \<in> set (reportRows rs). stNumSearchers row = int (length (searchesOf rs (stTopic row))) \<and> stNumSearchers row > 0
        \<and> 0 \<le> stFullRecall row \<and> stFullRecall row \<le> stNumSearchers row \<and> 0 \<le> stHitTimeout row \<and> stHitTimeout row \<le> stNumSearchers row)
   \<and> sum_list (map stNumSearchers (reportRows rs)) = int (length (filter (\<lambda>r. srNodeID r \<noteq> '''') rs))"
proof -
  let ?m = "byTopicOf rs"
  let ?T = "srTopic ` {r \<in> set rs. srNodeID r \<noteq> ''''}"
  let ?ts = "sort (map fst ?m)"
  have at': "mget [] ?m t = searchesOf rs t" for t by (simp add: byTopicOf_def byTopic_at searchesOf_def)
  have keys: "distinct (map fst ?m)" "fst ` set ?m = ?T"
    using byTopic_keys [of "[]" rs] by (simp_all add: byTopicOf_def mapOk_def)
  have ts: "?ts = sorted_list_of_set ?T" using keys sorted_list_of_set_sort_remdups [of "map fst ?m"] by (simp add: distinct_remdups_id)
  have rows: "reportRows rs = map (\<lambda>t. simTopicRow t (searchesOf rs t)) ?ts" by (simp add: reportRows_def Let_def at')
  have topics: "map stTopic (reportRows rs) = ?ts" by (simp add: rows simTopicRow_def Let_def comp_def)
  have ok: "stNumSearchers row = int (length (searchesOf rs (stTopic row))) \<and> stNumSearchers row > 0
        \<and> 0 \<le> stFullRecall row \<and> stFullRecall row \<le> stNumSearchers row \<and> 0 \<le> stHitTimeout row \<and> stHitTimeout row \<le> stNumSearchers row"
    if row: "row \<in> set (reportRows rs)" for row
  proof -
    obtain t where t: "t \<in> ?T" "row = simTopicRow t (searchesOf rs t)" using row keys(2) by (auto simp: rows)
    then obtain r where "r \<in> set rs" "srNodeID r \<noteq> ''''" "srTopic r = t" by auto
    then have "searchesOf rs t \<noteq> []" by (auto simp: searchesOf_def filter_empty_conv)
    then show ?thesis using t(2) by (simp add: simTopicRow_def Let_def)
  qed
  have "sum_list (map (\<lambda>t. int (length (searchesOf rs t))) ks) = int (length (filter (\<lambda>r. srNodeID r \<noteq> '''' \<and> srTopic r \<in> set ks) rs))"
    if "distinct ks" for ks
    using that
  proof (induction ks)
    case (Cons k ks)
    have "length (filter (\<lambda>r. srNodeID r \<noteq> '''' \<and> srTopic r \<in> set (k # ks)) rs)
        = length (searchesOf rs k) + length (filter (\<lambda>r. srNodeID r \<noteq> '''' \<and> srTopic r \<in> set ks) rs)"
      using Cons.prems unfolding searchesOf_def by (induction rs) auto
    with Cons show ?case by simp
  qed simp
  from this [of ?ts] keys have "sum_list (map (\<lambda>t. int (length (searchesOf rs t))) ?ts)
      = int (length (filter (\<lambda>r. srNodeID r \<noteq> '''' \<and> srTopic r \<in> ?T) rs))" by simp
  also have "filter (\<lambda>r. srNodeID r \<noteq> '''' \<and> srTopic r \<in> ?T) rs = filter (\<lambda>r. srNodeID r \<noteq> '''') rs"
    by (rule filter_cong) auto
  finally have "sum_list (map stNumSearchers (reportRows rs)) = int (length (filter (\<lambda>r. srNodeID r \<noteq> '''') rs))"
    by (simp add: rows simTopicRow_def Let_def comp_def)
  moreover have "map stTopic (reportRows rs) = sorted_list_of_set ?T" unfolding topics by (rule ts)
  ultimately show ?thesis using ok by blast
qed

text \<open>A search that finds its registrant twice.\<close>

definition exSearch :: simResult where
  "exSearch = zeroResult\<lparr>srNodeID := ''n'', srTarget := 1, srUniqueRegistrant := 1, srFoundRegistrant := 2, srFoundRegistrantIDs := [''a'']\<rparr>"

definition exPass :: pass1State where
  "exPass = newPass1\<lparr>registrants := [(''t'', [(''a'', True)])]\<rparr>"

definition exReal :: searchResult where
  "exReal = (newResult 0 (exTrace 0) 0 1 1 0)\<lparr>UniqueRegistrant := 1, UniqueFoundIDs := [''a'']\<rparr>"

theorem reports_agree_witness:
  "stFullRecall (simTopicRow 0 [exSearch]) = FullRecall (reportTopic exPass ''t'' 0 [exReal])
   \<and> simFindStats 0 (simFindCounts short [''a''] [exSearch]) = findCountOf exPass ''t'' 0 [exReal]"
proof -
  have o': "list_all2 sameOutcome [exSearch] [exReal]" and p: "list_all2 samePrinted [exSearch] [exReal]"
    by (simp_all add: exReal_def sameOutcome_def samePrinted_def exSearch_def zeroResult_def newResult_def)
  have r: "[''a''] = map fst (mget [] (registrants exPass) ''t'')" by (simp add: exPass_def mget_def)
  from reports_agree [OF o' refl refl r, of 0] p show ?thesis by blast
qed

theorem report_rows_witness: "map stTopic (reportRows [exSearch, zeroResult]) = [0]"
proof -
  have sel: "srNodeID exSearch = ''n''" "srTopic exSearch = 0" "srNodeID zeroResult = []"
    by (simp_all add: exSearch_def zeroResult_def)
  then have "{r \<in> set [exSearch, zeroResult]. srNodeID r \<noteq> []} = {exSearch}" by auto
  then have "sorted_list_of_set (srTopic ` {r \<in> set [exSearch, zeroResult]. srNodeID r \<noteq> []}) = [0]" by (simp add: sel)
  with report_rows [of "[exSearch, zeroResult]"] show ?thesis by metis
qed

section \<open>Buffers and the length of a run\<close>

text \<open>
  \<open>monitorBuffers\<close>: the statistics of the router and the links at every sample; \<open>None\<close> is the exit of the
  process after a drop.
\<close>

record bufStats =
  bsRouterMax :: int
  bsRouterSum :: int
  bsRouterCap :: int
  bsLinkMax :: int
  bsLinkSum :: int
  bsLinkCap :: int
  bsLinkDropped :: int

record bufPeaks =
  pkRouterMax :: int
  pkRouterSum :: int
  pkLinkMax :: int
  pkLinkSum :: int
  pkRouterCap :: int
  pkLinkCap :: int

definition noPeaks :: bufPeaks where
  "noPeaks = \<lparr>pkRouterMax = 0, pkRouterSum = 0, pkLinkMax = 0, pkLinkSum = 0, pkRouterCap = 0, pkLinkCap = 0\<rparr>"

definition sampleBuffers :: "bool \<Rightarrow> bufStats \<Rightarrow> bufPeaks \<Rightarrow> bufPeaks option" where
  "sampleBuffers abortOnDrop s k =
     (if abortOnDrop \<and> bsLinkDropped s > 0 then None
      else Some \<lparr>pkRouterMax = max (pkRouterMax k) (bsRouterMax s), pkRouterSum = max (pkRouterSum k) (bsRouterSum s),
             pkLinkMax = max (pkLinkMax k) (bsLinkMax s), pkLinkSum = max (pkLinkSum k) (bsLinkSum s),
             pkRouterCap = bsRouterCap s, pkLinkCap = bsLinkCap s\<rparr>)"

fun monitorBuffers :: "bool \<Rightarrow> bufStats list \<Rightarrow> bufPeaks \<Rightarrow> bufPeaks option" where
  "monitorBuffers a [] k = Some k"
| "monitorBuffers a (s # ss) k = (case sampleBuffers a s k of None \<Rightarrow> None | Some k \<Rightarrow> monitorBuffers a ss k)"

definition bufferPercents :: "bufPeaks \<Rightarrow> int \<times> int" where
  "bufferPercents k = (if pkRouterCap k > 0 then pkRouterMax k * 100 sdiv pkRouterCap k else 0,
     if pkLinkCap k > 0 then pkLinkMax k * 100 sdiv pkLinkCap k else 0)"

text \<open>The peaks are over all samples, and a run that is to stop at drops ends at the first sample that sees one.\<close>

lemma monitor_peaks:
  "monitorBuffers a ss k = (if a \<and> (\<exists>s \<in> set ss. bsLinkDropped s > 0) then None
     else Some (fold (\<lambda>s k. the (sampleBuffers False s k)) ss k))"
  by (induction ss arbitrary: k) (auto simp: sampleBuffers_def)

lemma monitor_max:
  "monitorBuffers a ss noPeaks = Some k \<Longrightarrow>
     pkRouterMax k = Max (set (0 # map bsRouterMax ss)) \<and> pkRouterSum k = Max (set (0 # map bsRouterSum ss))
   \<and> pkLinkMax k = Max (set (0 # map bsLinkMax ss)) \<and> pkLinkSum k = Max (set (0 # map bsLinkSum ss))"
proof -
  have mx: "Max (set (max c d # xs)) = Max (set (c # d # xs))" for c d :: int and xs
    by (cases "xs = []") (simp_all add: max.assoc)
  have "monitorBuffers a ss p = Some k \<Longrightarrow>
       pkRouterMax k = Max (set (pkRouterMax p # map bsRouterMax ss)) \<and> pkRouterSum k = Max (set (pkRouterSum p # map bsRouterSum ss))
     \<and> pkLinkMax k = Max (set (pkLinkMax p # map bsLinkMax ss)) \<and> pkLinkSum k = Max (set (pkLinkSum p # map bsLinkSum ss))" for p
  proof (induction ss arbitrary: p)
    case (Cons s ss)
    from Cons.prems obtain p' where p': "sampleBuffers a s p = Some p'" "monitorBuffers a ss p' = Some k" by (auto split: option.splits)
    then have "pkRouterMax p' = max (pkRouterMax p) (bsRouterMax s)" "pkRouterSum p' = max (pkRouterSum p) (bsRouterSum s)"
      "pkLinkMax p' = max (pkLinkMax p) (bsLinkMax s)" "pkLinkSum p' = max (pkLinkSum p) (bsLinkSum s)"
      by (auto simp: sampleBuffers_def split: if_splits)
    with Cons.IH [OF p'(2)] show ?case by (simp only: mx list.map)
  qed simp
  from this [of noPeaks] show "monitorBuffers a ss noPeaks = Some k \<Longrightarrow> ?thesis" by (simp add: noPeaks_def)
qed

text \<open>The absolute watchdog's budget, and the workload a configuration runs.\<close>

definition hardCap :: "int \<Rightarrow> duration \<Rightarrow> duration \<Rightarrow> duration \<Rightarrow> duration \<Rightarrow> duration \<Rightarrow> duration \<Rightarrow> bool \<Rightarrow> duration" where
  "hardCap n spawnDelay bootstrapWait registerStagger startWindow registerWait searchTimeout churning =
     n * spawnDelay + bootstrapWait + n * registerStagger + startWindow + registerWait + searchTimeout + 20 * 60 * nsSecond
       + (if churning then 20 * 60 * nsSecond else 0)"

datatype simWorkload = VanillaInterop | ChurnWorkload | DiscNGValidation | MultiTopic int

definition workloadOf :: "bool \<Rightarrow> bool \<Rightarrow> bool \<Rightarrow> int \<Rightarrow> simWorkload" where
  "workloadOf vanilla churning legacy numTopics =
     (if vanilla then VanillaInterop else if churning then ChurnWorkload
      else if legacy \<and> numTopics \<le> 1 then DiscNGValidation
      else if numTopics \<le> 1 then MultiTopic 1 else MultiTopic numTopics)"

end
