(* ===== verification/LegacyNode.thy ===== *)
theory LegacyNode
  imports NodeSession
begin

text \<open>
  The legacy node (\<open>src/legacy/cmd/node-legacy\<close>): a stock discv5 node without topic discovery, in a module of its own.
  It records what \<open>cmd/node\<close> records, finds providers by random walks, and is taken down and brought up by
  churn in the same way. The states and operations are written out here as the module has them, and
  the process is shown to be the node process of \<open>NodeSession\<close> without topics. The p2p server and the discovery
  service are arguments of the steps.
\<close>

section \<open>Providers and lookups\<close>

text \<open>The service entry is the 32-bit FNV-1a hash of the topic name.\<close>

definition svcOf :: "string \<Rightarrow> 32 word" where
  "svcOf tp = fold (\<lambda>c h. xor h (of_nat (of_char c)) * 16777619) tp 2166136261"

definition isProvider :: "32 word \<Rightarrow> 32 word option \<Rightarrow> bool" where
  "isProvider svc entry \<longleftrightarrow> entry = Some svc"

record 'id walkLookup =
  wlStartMs :: int
  wlLatencyMs :: int
  wlResults :: nat
  wlHitTarget :: bool
  wlFound :: "'id Found list"
  wlQueries :: int
  wlContacted :: int

text \<open>A walk: the providers in order with the time each appeared, and the rounds it started.\<close>

record 'id walkAcc =
  waFound :: "'id Found list"
  waRounds :: int

definition seenIn :: "'id walkAcc \<Rightarrow> 'id \<Rightarrow> bool" where
  "seenIn a i \<longleftrightarrow> i \<in> fID ` set (waFound a)"

definition walkSee :: "('id \<Rightarrow> bool) \<Rightarrow> gotime \<Rightarrow> gotime \<times> 'id \<Rightarrow> 'id walkAcc \<Rightarrow> 'id walkAcc" where
  "walkSee provider start = (\<lambda>(now, i) a.
     if \<not> provider i \<or> seenIn a i then a
     else a\<lparr>waFound := waFound a @ [\<lparr>fID = i, fAtMs = Milliseconds (now - start)\<rparr>]\<rparr>)"

text \<open>
  \<open>randomWalk\<close>: the table first, then one lookup of a random target after the other. A round reads the clock,
  ends the walk when the time is over, and else waits for the answer, the end of the time or the
  departure. \<open>cost\<close> gives the requests sent during the walk at a time, if they are counted.
\<close>

datatype 'id walkRound = Answer "(gotime \<times> 'id) list" | WalkCut

definition walkStop :: "gotime \<Rightarrow> duration \<Rightarrow> gotime \<Rightarrow> gotime" where
  "walkStop start limit dline = (if limit > 0 \<and> start + limit < dline then start + limit else dline)"

definition walkEnd :: "(gotime \<Rightarrow> int) option \<Rightarrow> gotime \<Rightarrow> 'id walkAcc \<Rightarrow> gotime \<Rightarrow> bool \<Rightarrow> 'id walkLookup" where
  "walkEnd cost start a now hit =
     \<lparr>wlStartMs = UnixMilli start, wlLatencyMs = Milliseconds (now - start), wlResults = length (waFound a), wlHitTarget = hit,
      wlFound = waFound a, wlQueries = (case cost of None \<Rightarrow> waRounds a | Some f \<Rightarrow> f now), wlContacted = -1\<rparr>"

definition walkAddAll :: "('id \<Rightarrow> bool) \<Rightarrow> int \<Rightarrow> gotime \<Rightarrow> (gotime \<times> 'id) list \<Rightarrow> 'id walkAcc \<Rightarrow> 'id walkAcc \<times> bool" where
  "walkAddAll provider wanted start xs a =
     (let a = fold (walkSee provider start) xs a in (a, wanted > 0 \<and> int (length (waFound a)) \<ge> wanted))"

fun walkRounds :: "('id \<Rightarrow> bool) \<Rightarrow> int \<Rightarrow> gotime \<Rightarrow> gotime \<Rightarrow> (gotime \<times> 'id walkRound \<times> gotime) list \<Rightarrow> 'id walkAcc
    \<Rightarrow> ('id walkAcc \<times> gotime \<times> bool) option" where
  "walkRounds provider wanted start stop [] a = None"
| "walkRounds provider wanted start stop ((at_t, r, now) # rs) a =
     (if \<not> at_t < stop then Some (a, now, False)
      else let a = a\<lparr>waRounds := waRounds a + 1\<rparr>
           in case r of
                WalkCut \<Rightarrow> Some (a, now, False)
              | Answer xs \<Rightarrow> (case walkAddAll provider wanted start xs a of
                    (a, True) \<Rightarrow> Some (a, now, True)
                  | (a, False) \<Rightarrow> walkRounds provider wanted start stop rs a))"

definition randomWalk :: "('id \<Rightarrow> bool) \<Rightarrow> int \<Rightarrow> gotime \<Rightarrow> duration \<Rightarrow> gotime \<Rightarrow> (gotime \<Rightarrow> int) option \<Rightarrow> (gotime \<times> 'id) list \<Rightarrow> gotime
    \<Rightarrow> (gotime \<times> 'id walkRound \<times> gotime) list \<Rightarrow> 'id walkLookup option" where
  "randomWalk provider wanted start limit dline cost table read rs =
     (case walkAddAll provider wanted start table \<lparr>waFound = [], waRounds = 0\<rparr> of
        (a, True) \<Rightarrow> Some (walkEnd cost start a read True)
      | (a, False) \<Rightarrow> map_option (\<lambda>(a, now, hit). walkEnd cost start a now hit)
          (walkRounds provider wanted start (walkStop start limit dline) rs a))"

text \<open>
  \<open>walkIterator\<close>: the table, then what the iterator of the walk yields until it is closed. The result is
  the final snapshot with the ones given to \<open>progress\<close> on the way. After the first providers the walk is
  paced, which only delays the next node. A snapshot without counted requests reports none.
\<close>

definition walkSnap :: "(gotime \<Rightarrow> int) option \<Rightarrow> gotime \<Rightarrow> gotime \<Rightarrow> 'id walkAcc \<Rightarrow> 'id walkLookup" where
  "walkSnap cost start now a =
     (walkEnd cost start a now False)\<lparr>wlQueries := (case cost of None \<Rightarrow> -1 | Some f \<Rightarrow> f now)\<rparr>"

record 'id walkRun =
  wrAcc :: "'id walkAcc"
  wrLastSnap :: gotime
  wrPaceStart :: "gotime option"
  wrSnaps :: "'id walkLookup list"

definition yieldNode :: "('id \<Rightarrow> bool) \<Rightarrow> (gotime \<Rightarrow> int) option \<Rightarrow> gotime \<Rightarrow> int \<Rightarrow> duration \<Rightarrow> gotime \<times> 'id \<Rightarrow> 'id walkRun \<Rightarrow> 'id walkRun" where
  "yieldNode provider cost start firstN gap = (\<lambda>(now, i) w.
     if provider i \<and> \<not> seenIn (wrAcc w) i
     then let a = walkSee provider start (now, i) (wrAcc w);
              over = int (length (waFound a)) - firstN
          in w\<lparr>wrAcc := a, wrLastSnap := now, wrSnaps := wrSnaps w @ [walkSnap cost start now a],
               wrPaceStart := (if gap > 0 \<and> over > 0 \<and> wrPaceStart w = None then Some now else wrPaceStart w)\<rparr>
     else if now - wrLastSnap w > 10 * nsSecond
     then w\<lparr>wrLastSnap := now, wrSnaps := wrSnaps w @ [walkSnap cost start now (wrAcc w)]\<rparr>
     else w)"

definition pauseUntil :: "int \<Rightarrow> duration \<Rightarrow> gotime \<Rightarrow> 'id walkRun \<Rightarrow> gotime option" where
  "pauseUntil firstN gap dline w =
     (let over = int (length (waFound (wrAcc w))) - firstN
      in if gap > 0 \<and> over > 0
         then (case wrPaceStart w of None \<Rightarrow> None | Some p \<Rightarrow> Some (min dline (p + over * gap))) else None)"

definition walkIterator :: "('id \<Rightarrow> bool) \<Rightarrow> (gotime \<Rightarrow> int) option \<Rightarrow> gotime \<Rightarrow> int \<Rightarrow> duration \<Rightarrow> (gotime \<times> 'id) list \<Rightarrow> gotime
    \<Rightarrow> (gotime \<times> 'id) list \<Rightarrow> gotime \<Rightarrow> 'id walkLookup list \<times> 'id walkLookup" where
  "walkIterator provider cost start firstN gap table read yields closed_at =
     (let a = fold (walkSee provider start) table \<lparr>waFound = [], waRounds = 0\<rparr>;
          w = fold (yieldNode provider cost start firstN gap) yields
                \<lparr>wrAcc = a, wrLastSnap = read, wrPaceStart = None, wrSnaps = (if waFound a \<noteq> [] then [walkSnap cost start read a] else [])\<rparr>
      in (wrSnaps w, walkSnap cost start closed_at (wrAcc w)))"

section \<open>Sessions and the node\<close>

text \<open>\<open>gWatching\<close> is the goroutine that looks for a capable record, which returns after its first.\<close>

record 'id gSession =
  gStarted :: gotime
  gLostAt :: "gotime list"
  gFirstCapable :: int
  gWatching :: bool
  gConnStart :: "gotime option"
  gConnSeen :: "'id list"
  gConnFound :: "'id Found list"
  gConnFull :: int
  gLookups :: "'id walkLookup list"
  gOut :: int
  gIn :: int
  gWire :: wireMap
  gGhostsIn :: int
  gTableSize :: int


record 'id gNode =
  gSelf :: 'id
  gBoots :: "'id list"
  gGhosts :: "'id list"
  gModel :: string
  gLookupOnly :: bool
  gDone :: bool
  gDrops :: int
  gRefills :: "int list"
  gLookupsDone :: "'id walkLookup list"
  gWireDone :: wireMap
  gSamples :: "(int \<times> wireMap) list"
  gFirst :: int
  gRcvbuf :: "int \<times> int"
  gSpans :: "(int \<times> int) list"
  gConnDone :: "'id Found list"
  gConnLast :: "'id gSession option"
  gCur :: "'id gSession option"
  gLast :: "'id gSession option"







section \<open>What a session records\<close>







section \<open>Trace and status\<close>

record 'id gTrace =
  gtConn :: "(int \<times> 'id Found list \<times> int) option"
  gtID :: 'id
  gtOutbound :: int
  gtInbound :: int
  gtPeerDrops :: int
  gtRefillMs :: "int list"
  gtLookups :: "'id walkLookup list"
  gtFirstCapable :: int
  gtWire :: wireMap
  gtSamples :: "(int \<times> wireMap) list"
  gtSessions :: "(int \<times> int) list"
  gtGhostsAssigned :: int
  gtGhostsInTable :: int
  gtTableSize :: int
  gtRcvbuf :: "int \<times> int"


definition legacyStatus :: "'id gNode \<Rightarrow> bool list \<Rightarrow> nat \<Rightarrow> status" where
  "legacyStatus n peerInbound table =
     (let lks = length (gLookupsDone n) + (case gCur n of None \<Rightarrow> 0 | Some s \<Rightarrow> length (gLookups s));
          outb = length (filter (\<lambda>b. \<not> b) peerInbound); inb = length (filter (\<lambda>b. b) peerInbound)
      in if gCur n = None
         then \<lparr>stUp = False, stSessions = length (gSpans n), stPeers = 0, stOutbound = 0, stInbound = 0, stTable = 0,
               stAdsHeld = 0, stLookups = lks, stRefills = length (gRefills n)\<rparr>
         else \<lparr>stUp = True, stSessions = length (gSpans n) + 1, stPeers = outb + inb, stOutbound = outb, stInbound = inb,
               stTable = table, stAdsHeld = 0, stLookups = lks, stRefills = length (gRefills n)\<rparr>)"

section \<open>The process\<close>

record 'id gProc =
  gNd :: "'id gNode"
  gCtl :: ctlState
  gClock :: gotime
  gReading :: wireMap
  gClosed :: "('id gSession \<times> gotime) list"
  gWritten :: "'id gTrace option"







section \<open>The node process without topics\<close>

definition asLookup :: "'id walkLookup \<Rightarrow> 'id Lookup" where
  "asLookup l = \<lparr>StartMs = wlStartMs l, LatencyMs = wlLatencyMs l, FirstMs = (if wlFound l \<noteq> [] then fAtMs (wlFound l ! 0) else -1),
     Results = wlResults l, HitTarget = wlHitTarget l, lkFound = wlFound l, Queries = wlQueries l, Contacted = wlContacted l\<rparr>"

definition asSession :: "'id gSession \<Rightarrow> ('id, unit, unit) session" where
  "asSession s = \<lparr>startedAt = gStarted s, lostAt = gLostAt s, sFirstCapableMs = gFirstCapable s, connStart = gConnStart s,
     connSeen = gConnSeen s, connFound = gConnFound s, connFullMs = gConnFull s, connSearch = None, adsFirst = [], adsLast = [],
     adsExpiry = [], staleMaxMs = 0, adsSnapshotMs = 0, bucketFullMs = None, regCompleteMs = -1, bucketsLast = [],
     lookups = map asLookup (gLookups s), outPeers = gOut s, inPeers = gIn s, adsHeld = 0, wire = gWire s, ops = [], load = [],
     ghostsInTable = gGhostsIn s, tableSize = gTableSize s\<rparr>"

definition asSample :: "int \<times> wireMap \<Rightarrow> sample" where
  "asSample = (\<lambda>(at_ms, w). \<lparr>smAtMs = at_ms, smWire = w, smCacheHeld = 0, smCacheCap = 0, smByTopic = [], smRegBuckets = []\<rparr>)"

definition asNode :: "'id gNode \<Rightarrow> ('id, unit, unit) nodeProc" where
  "asNode n = \<lparr>self = gSelf n, bootIDs = gBoots n, ghostIDs = gGhosts n, searchModel = gModel n, lookupOnly = gLookupOnly n,
     doneFlag = gDone n, drops = gDrops n, refills = gRefills n, lookupsDone = map asLookup (gLookupsDone n), opsDone = [],
     wireDone = gWireDone n, topicLoadDone = [], samples = map asSample (gSamples n), firstCapableMs = gFirst n,
     rcvbuf = gRcvbuf n, sessions = gSpans n, connDone = gConnDone n, connLast = map_option asSession (gConnLast n),
     cur = map_option asSession (gCur n), lastSession = map_option asSession (gLast n)\<rparr>"

definition asTrace :: "'id gTrace \<Rightarrow> ('id, unit, unit) trace" where
  "asTrace t = \<lparr>trId = gtID t, trPeerDrops = gtPeerDrops t, trRefillMs = gtRefillMs t, trLookups = map asLookup (gtLookups t),
     trFirstCapableMs = gtFirstCapable t, trWire = (if gtWire t = [] then None else Some (gtWire t)),
     trSamples = map asSample (gtSamples t), trOps = [], trTopicLoad = [],
     trConn = map_option (\<lambda>(start, fs, full). (start, fs, full, None)) (gtConn t),
     trSessions = gtSessions t, trOutbound = gtOutbound t, trInbound = gtInbound t, trAdsHeld = 0,
     trGhostsAssigned = gtGhostsAssigned t, trRcvbuf = gtRcvbuf t, trGhostsInTable = gtGhostsInTable t, trTableSize = gtTableSize t,
     trAdsFirstSeen = [], trAdsFinal = [], trAdsExpiry = [], trAdsSnapshotMs = 0, trStaleAdMaxMs = 0, trRegBucketFull = [],
     trRegCompleteMs = -1, trRegBuckets = []\<rparr>"

definition asProc :: "'id gProc \<Rightarrow> ('id, unit, unit) proc" where
  "asProc p = \<lparr>nd = asNode (gNd p), ctl = gCtl p, clock = gClock p, reading = gReading p,
     closed = map (\<lambda>(s, e). (asSession s, e)) (gClosed p), written = map_option asTrace (gWritten p)\<rparr>"




lemma asSession_sel [simp]:
  "connStart (asSession s) = gConnStart s" "startedAt (asSession s) = gStarted s" "wire (asSession s) = gWire s"
  "lookups (asSession s) = map asLookup (gLookups s)" "ops (asSession s) = []" "load (asSession s) = []"
  "sFirstCapableMs (asSession s) = gFirstCapable s" "connFullMs (asSession s) = gConnFull s" "connSearch (asSession s) = None"
  "outPeers (asSession s) = gOut s" "inPeers (asSession s) = gIn s" "adsHeld (asSession s) = 0"
  "ghostsInTable (asSession s) = gGhostsIn s" "tableSize (asSession s) = gTableSize s" "adsFirst (asSession s) = []"
  "adsLast (asSession s) = []" "adsExpiry (asSession s) = []" "adsSnapshotMs (asSession s) = 0" "staleMaxMs (asSession s) = 0"
  "bucketFullMs (asSession s) = None" "regCompleteMs (asSession s) = -1" "bucketsLast (asSession s) = []"
  by (simp_all add: asSession_def)








lemma asProc_sel [simp]:
  "nd (asProc p) = asNode (gNd p)" "ctl (asProc p) = gCtl p" "clock (asProc p) = gClock p" "reading (asProc p) = gReading p"
  by (simp_all add: asProc_def)

lemma asNode_sel [simp]:
  "cur (asNode n) = map_option asSession (gCur n)" "ghostIDs (asNode n) = gGhosts n" "bootIDs (asNode n) = gBoots n"
  "lookupOnly (asNode n) = gLookupOnly n" "doneFlag (asNode n) = gDone n" "searchModel (asNode n) = gModel n"
  by (simp_all add: asNode_def)














section \<open>What a walk finds\<close>

definition foundOk :: "('id \<Rightarrow> bool) \<Rightarrow> 'id Found list \<Rightarrow> bool" where
  "foundOk provider fs \<longleftrightarrow> distinct (map fID fs) \<and> (\<forall>f \<in> set fs. provider (fID f))"

lemma foundOk_see: "foundOk provider (waFound a) \<Longrightarrow> foundOk provider (waFound (walkSee provider start x a))"
  by (cases x) (auto simp: foundOk_def walkSee_def seenIn_def)

lemma foundOk_all: "foundOk provider (waFound a) \<Longrightarrow> foundOk provider (waFound (fold (walkSee provider start) xs a))"
  by (induction xs arbitrary: a) (auto intro: foundOk_see)

lemma rounds_all: "waRounds (fold (walkSee provider start) xs a) = waRounds a"
  by (induction xs arbitrary: a) (auto simp: walkSee_def split: prod.splits)

definition walkGood :: "('id \<Rightarrow> bool) \<Rightarrow> int \<Rightarrow> 'id walkAcc \<Rightarrow> bool \<Rightarrow> bool" where
  "walkGood provider wanted a hit \<longleftrightarrow> foundOk provider (waFound a) \<and> (hit \<longleftrightarrow> wanted > 0 \<and> int (length (waFound a)) \<ge> wanted)"

lemma walkRounds_good:
  assumes "walkRounds provider wanted start stop rs a = Some (a', now, hit)" "walkGood provider wanted a False"
  shows "walkGood provider wanted a' hit \<and> waRounds a' \<le> waRounds a + int (length rs)"
  using assms
proof (induction rs arbitrary: a)
  case (Cons x rs)
  obtain at_t r t where x: "x = (at_t, r, t)" by (cases x)
  let ?a = "a\<lparr>waRounds := waRounds a + 1\<rparr>"
  show ?case
  proof (cases "at_t < stop")
    case False
    with Cons.prems show ?thesis by (simp add: x)
  next
    case True
    show ?thesis
    proof (cases r)
      case WalkCut
      with True Cons.prems show ?thesis by (auto simp: x walkGood_def)
    next
      case (Answer xs)
      let ?b = "fold (walkSee provider start) xs ?a"
      have ok: "foundOk provider (waFound ?b)" using Cons.prems(2) by (intro foundOk_all) (simp add: walkGood_def)
      have rounds: "waRounds ?b = waRounds a + 1" by (simp add: rounds_all)
      show ?thesis
      proof (cases "wanted > 0 \<and> int (length (waFound ?b)) \<ge> wanted")
        case hit: True
        with True Answer Cons.prems ok rounds show ?thesis by (auto simp: x walkAddAll_def Let_def walkGood_def)
      next
        case miss: False
        then have "walkRounds provider wanted start stop rs ?b = Some (a', now, hit)" "walkGood provider wanted ?b False"
          using True Answer Cons.prems(1) ok by (auto simp: x walkAddAll_def Let_def walkGood_def)
        with Cons.IH [of ?b] rounds show ?thesis by auto
      qed
    qed
  qed
qed simp

lemma walkRounds_running:
  assumes "walkRounds provider wanted start stop rs a = None" "(at_t, r, now) \<in> set rs"
  shows "at_t < stop"
  using assms
proof (induction rs arbitrary: a)
  case (Cons x rs)
  obtain at_t' r' t where x: "x = (at_t', r', t)" by (cases x)
  have running: "at_t' < stop" using Cons.prems(1) by (simp add: x split: if_splits)
  moreover obtain b where "walkRounds provider wanted start stop rs b = None"
    using Cons.prems(1) running by (cases r') (auto simp: x Let_def split: prod.splits if_splits bool.splits)
  ultimately show ?case using Cons.IH Cons.prems(2) by (auto simp: x)
qed simp

text \<open>
  what a legacy lookup reports. A finished random walk lists distinct providers, in the order found, with
  their number as its results, and hits its target exactly when a target is set and reached; and it
  finishes at the first round that starts at or after its time limit or the deadline, if not before.
\<close>

theorem random_walk_result:
  assumes walk: "randomWalk provider wanted start limit dline cost table read rs = l"
  shows "(case l of None \<Rightarrow> \<forall>(at_t, r, now) \<in> set rs. at_t < walkStop start limit dline
    | Some w \<Rightarrow> foundOk provider (wlFound w) \<and> wlResults w = length (wlFound w)
        \<and> (wlHitTarget w \<longleftrightarrow> wanted > 0 \<and> int (wlResults w) \<ge> wanted) \<and> wlStartMs w = UnixMilli start)"
proof -
  let ?a = "fold (walkSee provider start) table \<lparr>waFound = [], waRounds = 0\<rparr>"
  have ok: "foundOk provider (waFound ?a)" by (intro foundOk_all) (simp add: foundOk_def)
  show ?thesis
  proof (cases "wanted > 0 \<and> int (length (waFound ?a)) \<ge> wanted")
    case True
    then have "l = Some (walkEnd cost start ?a read True)" using walk by (auto simp: randomWalk_def walkAddAll_def Let_def)
    with True ok show ?thesis by (simp add: walkEnd_def)
  next
    case False
    then have l: "l = map_option (\<lambda>(a, now, hit). walkEnd cost start a now hit) (walkRounds provider wanted start (walkStop start limit dline) rs ?a)"
      using walk by (auto simp: randomWalk_def walkAddAll_def Let_def)
    have good: "walkGood provider wanted ?a False" using False ok by (simp add: walkGood_def)
    show ?thesis
    proof (cases "walkRounds provider wanted start (walkStop start limit dline) rs ?a")
      case None
      with l walkRounds_running [OF None] show ?thesis by auto
    next
      case (Some res)
      obtain a' now hit where res: "res = (a', now, hit)" by (cases res)
      from walkRounds_good [OF Some [unfolded res] good] have "walkGood provider wanted a' hit" by simp
      with l Some res show ?thesis by (simp add: walkEnd_def walkGood_def)
    qed
  qed
qed

theorem random_walk_result_witness:
  "\<exists>w. randomWalk (\<lambda>i :: int. i > 0) 2 0 5000000000 9000000000 None [(1000000, 3)] 1000000
     [(2000000, Answer [(3000000, 3), (3000000, -1), (4000000, 8)], 4000000)] = Some w \<and> map fID (wlFound w) = [3, 8] \<and> wlHitTarget w"
proof -
  let ?l = "randomWalk (\<lambda>i :: int. i > 0) 2 0 5000000000 9000000000 None [(1000000, 3)] 1000000
     [(2000000, Answer [(3000000, 3), (3000000, -1), (4000000, 8)], 4000000)]"
  have "map_option (\<lambda>w. map fID (wlFound w)) ?l = Some [3, 8]" by code_simp
  then obtain w where w: "?l = Some w" "map fID (wlFound w) = [3, 8]" by auto
  have "length (map fID (wlFound w)) = 2" unfolding w(2) by simp
  then have "length (wlFound w) = 2" by simp
  with random_walk_result [OF w(1)] have hit: "wlHitTarget w" by simp
  show ?thesis by (rule exI [of _ w]) (rule conjI [OF w(1) conjI [OF w(2) hit]])
qed

end
