(* ===== verification/Spec2Isabelle.thy ===== *)
theory Spec2Isabelle
  imports DeadResult ConnModel Population ChurnModel AddrPool Scenario Assign GhostTables Generation
    Placement HostDrops NetParse Drive Lookup Emulation Crawler NodeSession TraceMerge RunMetrics RunSeries SearchWorkload SimHost SimSeries SimCoverage SimReport LegacyNode
begin

text \<open>
  Verification library of the topic-discovery testbed.

  The program. A run is described by a configuration (\<open>pkg/scenario\<close>). \<open>pkg/assign\<close> turns it into one
  assignment per node: identity, topics, phases, lookup times, churn from the fitted model of
  \<open>pkg/churn\<close>, ghost records of offline peers. \<open>pkg/coordinator\<close> places the nodes on machines
  (addresses of \<open>pkg/addr\<close>, an inventory, or the virtual nodes \<open>pkg/distem\<close> plans with the latencies of
  \<open>pkg/wan\<close>), has every machine prepare and start them (\<open>pkg/host\<close>), applies the churn while the nodes
  do their lookups (\<open>pkg/workload\<close>), merges the nodes' traces into the metrics and the time series of the run,
  and judges at the end whether the machines dropped packets. A node (\<open>cmd/node\<close>, or
  \<open>legacy/cmd/node-legacy\<close> without topic discovery) is taken down and up again by churn and keeps one trace over
  all its sessions. The simulator (\<open>cmd/simnet\<close>) runs the same protocol in one process, with models of its
  own for connections, departures, membership and dead results, and with its own searches, samples
  and reports. The crawler (\<open>cmd/crawl\<close>) observes the live network, from which the churn models are fitted.

  The theories and the code (all paths under \<open>src/\<close>):
  \<^item> \<open>Prelude\<close>: Go's integers, maps, slices, percentile index and \<open>sort.Search\<close>; the collections
    \<open>go_simps\<close> and \<open>inv_intros\<close>.
  \<^item> \<open>GoFloat\<close>: \<open>float64\<close> as rationals rounded to the nearest double; monotonicity and error bounds.
  \<^item> \<open>GoRand\<close>: \<open>math/rand\<close> over an arbitrary fair source; ranges and permutations. Locale \<open>index_draw\<close>.
  \<^item> \<open>GoString\<close>: the string functions of the parsers, with their round trips.
  \<^item> \<open>DeadResult\<close>: \<open>cmd/simnet/deadresult.go\<close>. Marks and ages (locale \<open>presence\<close>), per-searcher counters,
    merge, report totals and percentile; \<open>dead_run\<close> interleaves searchers and departures.
  \<^item> \<open>ConnModel\<close>: \<open>cmd/simnet/conn_model.go\<close>. One definition per method under the table's mutex;
    \<open>conn_run\<close> is the step relation of all goroutines, with the drops a departure still owes.
  \<^item> \<open>Population\<close>: \<open>cmd/simnet/membership.go\<close>, \<open>nodes.go\<close> and the churn round of \<open>workload_churn.go\<close>.
    Locale \<open>topic_index\<close>: the two indexes implement one map.
  \<^item> \<open>ChurnModel\<close>: \<open>pkg/churn/model.go\<close> and \<open>cmd/simnet/churn_model.go\<close>. The model, prefix parsing,
    seeds, survival, schedules.
  \<^item> \<open>AddrPool\<close>: \<open>pkg/addr/addr.go\<close> and the simulator's pool. Locale \<open>host_allocation\<close>, interpreted for both.
  \<^item> \<open>Scenario\<close>: \<open>pkg/scenario/scenario.go\<close> and \<open>compose.go\<close>. Sections, defaults, checks, fleet, command line.
  \<^item> \<open>Assign\<close>, \<open>GhostTables\<close>, \<open>Generation\<close>: \<open>pkg/assign/assign.go\<close> and \<open>ghosts.go\<close>; \<open>Generation\<close> composes
    them as \<open>Generate\<close> and the local backend do.
  \<^item> \<open>Placement\<close>: placement and routes of \<open>pkg/coordinator/cloud.go\<close>.
  \<^item> \<open>Emulation\<close>: \<open>pkg/wan\<close>, \<open>pkg/distem/layout.go\<close>, and what \<open>pkg/host/host.go\<close> prepares and starts.
  \<^item> \<open>Drive\<close>: \<open>pkg/coordinator/drive.go\<close>, with \<open>planned\<close> of \<open>collect.go\<close> and the fetching of traces.
  \<^item> \<open>Lookup\<close>: \<open>pkg/workload/lookup.go\<close> as a state machine over what its \<open>select\<close> statements receive.
  \<^item> \<open>HostDrops\<close>: the samples of \<open>pkg/host/monitor.go\<close> and the verdict of \<open>pkg/coordinator/collect.go\<close>.
  \<^item> \<open>NetParse\<close>: the parsers of \<open>pkg/host/netns.go\<close> and \<open>ena.go\<close>.
  \<^item> \<open>Crawler\<close>: \<open>cmd/crawl/main.go\<close>. The registry, the event log, the probe loop with its dispatcher, pools and
    channels, sweeps and the sampler; \<open>crawl_step\<close> interleaves them, and what a goroutine still has to write
    after it has released the mutex is its list in \<open>todo\<close>.
  \<^item> \<open>NodeSession\<close>: \<open>cmd/node/session.go\<close>. The lazy iterator given to the dialer (\<open>lazy_step\<close>, one step
    per critical section, check and channel operation), the sessions, their watchers, and the trace (\<open>node_step\<close>).
  \<^item> \<open>LegacyNode\<close>: \<open>legacy/cmd/node-legacy\<close>. Random walks, and the sessions of the stock node; \<open>asProc\<close> maps its
    process to that of \<open>NodeSession\<close>, whose runs and traces it refines.
  \<^item> \<open>TraceMerge\<close>: \<open>pkg/host/trace.go\<close> over decoded JSON values.
  \<^item> \<open>RunMetrics\<close>, \<open>RunSeries\<close>: both passes of \<open>pkg/coordinator/metrics.go\<close>, and what its time series mean.
  \<^item> \<open>SearchWorkload\<close>: \<open>cmd/simnet/search.go\<close> and \<open>legacy_search.go\<close>. A searcher is a machine over what its
    six \<open>select\<close> statements receive; \<open>sysStep\<close> interleaves searchers, legacy walkers and the shared statistics.
  \<^item> \<open>SimHost\<close>: \<open>cmd/simnet/host.go\<close>. \<open>host_step\<close> interleaves start, stop, traffic and readers, one step per
    critical section; \<open>lateStats\<close> reads the totals under the lock and the running instance after it.
  \<^item> \<open>SimSeries\<close>: \<open>cmd/simnet/adapter.go\<close> and \<open>overhead_series.go\<close>.
  \<^item> \<open>SimCoverage\<close>: \<open>cmd/simnet/workload_multi.go\<close>, \<open>coverage.go\<close>, \<open>workload_discng.go\<close>, \<open>checksdump.go\<close>, \<open>mixed.go\<close>
    and \<open>vanilla.go\<close>.
  \<^item> \<open>SimReport\<close>: \<open>cmd/simnet/report.go\<close> and \<open>util.go\<close>, compared with the reports of \<open>RunMetrics\<close>.

  How state and effects are modelled. A struct is a record with the code's fields. A method that runs
  under a mutex is one function from state to state. Goroutines are steps of an inductive relation,
  or, where only the set of calls matters, any list with the right multiset. A Go map is an
  association list with distinct keys, and the unspecified iteration order is a parameter or any
  permutation. What a goroutine does after it has released a mutex is a later step, so that others can come
  between. Errors are values of a sum type, a panic is \<open>None\<close>. Random draws thread the generator's state.
  Time is an argument of the call that reads the clock. Ghost fields (\<open>closed\<close>, \<open>hist\<close>, \<open>late\<close>,
  \<open>absorbed\<close>) record what happened; no operation reads them.

  What the lemmas show. Invariants: slot counters equal connections and stay in their budgets under
  every interleaving, the live population is consistent after every churn round, report totals and live
  counts equal what the searchers recorded, a host's totals are the sums over its instances. Safety:
  addresses, ports, slots and seeds are never given twice, a departed node has no connection, the lazy
  iterator is opened at most once and closed with its owner. Functional behaviour: phases and start times of every
  assignment, legacy sets, layouts of ghost records, placement, routes, lookups, drop counts, samples and
  dumps. Refinements: a node's trace is the record of its sessions, the legacy node is a node
  without topics, a run's series holds every node's latest sample once, the crawler's log
  gives the sessions back as far as it is written. Equivalences and round trips: the Zipf draw, the
  membership indexes, planned and applied churn, the reports of the simulator and the coordinator, prefix
  parsing, run specifications. Errors, each stated as a theorem: an accounting slip when both ends of a
  connection depart at once, a pinned node that the fleet can lose, the dip of a host's totals
  during a stop, counters that merged samples lose.

  Bounds and fuel. \<open>ScheduleTopic\<close> takes fuel for its loop; \<open>ScheduleTopic_ordered\<close> shows that twice the
  window's seconds is enough, as every round moves the clock by half a second at least. \<open>drawFree\<close>
  runs the 64 attempts of the code and \<open>bisect\<close> its 60 rounds. \<open>deriveKey\<close>, \<open>rtattr\<close> and \<open>dumpLoop\<close> are partial functions, and
  that they return is proved. Integers whose wrap-around the code relies on are words (seeds, prefixes,
  netlink fields); the cumulative counters and times stay far from 64 bits and are integers.

  Parameters. \<open>math.Pow\<close>, \<open>Exp\<close> and \<open>Log\<close>, key derivation, node identities and record signing
  (\<open>cryptoLib\<close>), the discovery library's iterators and answers, the decoded churn, crawl and trace documents,
  the kernel's routing answers and the bytes of its netlink dumps, what an instance has counted, and the order
  in which a map is iterated.

  Not modelled: decoding YAML and JSON, files, processes, HTTP and netlink sockets, the layout of printed
  tables, and calls into the discovery library; the host agent's handlers (\<open>cmd/hostagent\<close>), the command line
  tools, the REST client of Distem and the system calls around the namespaces, which only pass values between
  parts modelled here and the outside; and progress logging.
\<close>

end
